(* ===== verification/Prelude.thy ===== *)
theory Prelude
  imports Main "HOL-Library.Word"
begin

text \<open>
  Shared vocabulary of the development: machine word types, the outcome of a C function
  that may never return (\<^verbatim>\<open>kpanic\<close>, \<^verbatim>\<open>while(1);\<close>), byte-addressed memory with
  little-endian 16/32/64-bit cells, the two byte loops every part of the system carries its
  own copy of (\<^verbatim>\<open>mem_set\<close>, \<^verbatim>\<open>mem_cpy\<close>), and the word facts the component proofs share.
  The locale \<open>mem_cell\<close> states what a fixed-width cell of memory promises; it is
  interpreted for the three widths the code uses.
\<close>

unbundle bit_operations_syntax

named_theorems word_facts \<open>facts on counters, alignment and masks used across components\<close>

section \<open>Types\<close>

type_synonym u8 = "8 word"
type_synonym u16 = "16 word"
type_synonym u32 = "32 word"
type_synonym u64 = "64 word"

type_synonym 'a mem = "'a word \<Rightarrow> u8"

text \<open>
  How a C function ends. \<open>Halt\<close> is a path on which control never comes back: the
  message of \<^verbatim>\<open>kpanic\<close>, an explicit \<^verbatim>\<open>while(1);\<close>, or an access the C standard gives no
  meaning to (outside of the object it indexes).
\<close>

datatype halt = KPanic string | Spin string | Undefined string

datatype 'a outcome = Ok 'a | Halt halt

fun bind_ok :: "'a outcome \<Rightarrow> ('a \<Rightarrow> 'b outcome) \<Rightarrow> 'b outcome" where
  "bind_ok (Ok x) f = f x"
| "bind_ok (Halt h) f = Halt h"

text \<open>The characters of a string literal.\<close>

definition ascii :: "string \<Rightarrow> u8 list" where
  "ascii str = map (\<lambda>c. of_nat (of_char c)) str"

section \<open>Little-endian cells\<close>

definition load16 :: "('a::len) mem \<Rightarrow> 'a word \<Rightarrow> u16" where
  "load16 m a = ucast (m a) OR push_bit 8 (ucast (m (a + 1)))"

definition store16 :: "('a::len) mem \<Rightarrow> 'a word \<Rightarrow> u16 \<Rightarrow> 'a mem" where
  "store16 m a v = m(a := ucast v, a + 1 := ucast (drop_bit 8 v))"

definition load32 :: "('a::len) mem \<Rightarrow> 'a word \<Rightarrow> u32" where
  "load32 m a = ucast (m a) OR push_bit 8 (ucast (m (a + 1)))
     OR push_bit 16 (ucast (m (a + 2))) OR push_bit 24 (ucast (m (a + 3)))"

definition store32 :: "('a::len) mem \<Rightarrow> 'a word \<Rightarrow> u32 \<Rightarrow> 'a mem" where
  "store32 m a v = m(a := ucast v, a + 1 := ucast (drop_bit 8 v),
     a + 2 := ucast (drop_bit 16 v), a + 3 := ucast (drop_bit 24 v))"

definition load64 :: "('a::len) mem \<Rightarrow> 'a word \<Rightarrow> u64" where
  "load64 m a = ucast (load32 m a) OR push_bit 32 (ucast (load32 m (a + 4)))"

definition store64 :: "('a::len) mem \<Rightarrow> 'a word \<Rightarrow> u64 \<Rightarrow> 'a mem" where
  "store64 m a v = store32 (store32 m a (ucast v)) (a + 4) (ucast (drop_bit 32 v))"

section \<open>Counters\<close>

lemma unat_inc [word_facts]:
  fixes i n :: "'a::len word"
  assumes "i < n"
  shows "unat (i + 1) = Suc (unat i)"
proof -
  have "unat i < unat n" using assms by (simp add: word_less_nat_alt)
  moreover have "unat n < 2 ^ LENGTH('a)" by simp
  ultimately have "unat i + 1 < 2 ^ LENGTH('a)" by linarith
  then show ?thesis by (simp add: unat_add_lem [THEN iffD1])
qed

lemma counter_decreases [word_facts]:
  fixes i n :: "'a::len word"
  assumes "i < n"
  shows "unat n - unat (i + 1) < unat n - unat i"
proof -
  have "unat i < unat n" using assms by (simp add: word_less_nat_alt)
  then show ?thesis by (simp add: unat_inc [OF assms])
qed

lemma unat_u8_less: "unat (x :: u8) < 256"
  using unsigned_less [of x, where ?'a = nat] by simp

lemma unat_u16_less: "unat (x :: u16) < 65536"
  using unsigned_less [of x, where ?'a = nat] by simp

lemma unat_u32_less: "unat (x :: u32) < 4294967296"
  using unsigned_less [of x, where ?'a = nat] by simp

lemma unat_u64_less: "unat (x :: u64) < 18446744073709551616"
  using unsigned_less [of x, where ?'a = nat] by simp

lemma unat_ucast_u32_u64 [simp]: "unat (ucast (x :: u32) :: u64) = unat x"
  using unat_u32_less [of x] by (simp add: unsigned_ucast_eq take_bit_nat_eq_self)

lemma unat_and_mask: "unat (x AND mask n) = unat x mod 2 ^ n" for x :: "'a::len word"
  unfolding take_bit_eq_mask [symmetric] unsigned_take_bit_eq by (rule take_bit_eq_mod)

lemma unat_and_FFF [word_facts]: "unat (x AND 0xFFF) = unat x mod 4096" for x :: "'a::len word"
  using unat_and_mask [of x 12] by (simp add: mask_numeral)

lemma unat_and_1FF [word_facts]: "unat (x AND 0x1FF) = unat x mod 512" for x :: "'a::len word"
  using unat_and_mask [of x 9] by (simp add: mask_numeral)

lemma unat_and_3FF [word_facts]: "unat (x AND 0x3FF) = unat x mod 1024" for x :: "'a::len word"
  using unat_and_mask [of x 10] by (simp add: mask_numeral)

lemma unat_drop_bit [word_facts]: "unat (drop_bit n x) = unat x div 2 ^ n" for x :: "'a::len word"
  unfolding unat_drop_bit_eq by (rule drop_bit_eq_div)

lemma and_page_mask32: "x AND 0xFFFFF000 = drop_bit 12 x * 0x1000" for x :: u32
proof -
  have m: "(0xFFFFF000 :: u32) = NOT (mask 12)" by (simp add: mask_numeral)
  have "x AND 0xFFFFF000 = push_bit 12 (drop_bit 12 x)"
    unfolding m by (rule bit_word_eqI) (auto simp: bit_simps)
  then show ?thesis by (simp add: push_bit_eq_mult)
qed

lemma unat_page_mask32 [word_facts]: "unat (x AND 0xFFFFF000) = 4096 * (unat x div 4096)" for x :: u32
proof -
  have "unat (drop_bit 12 x) = unat x div 4096" by (simp add: unat_drop_bit)
  moreover have "unat x div 4096 * 4096 < 2 ^ 32"
    using unat_u32_less [of x] by (simp add: order_le_less_trans [OF div_times_less_eq_dividend])
  ultimately show ?thesis
    unfolding and_page_mask32 by (subst unat_mult_lem [THEN iffD1]) auto
qed

lemma and_page_mask64: "x AND 0x000FFFFFFFFFF000 = drop_bit 12 (take_bit 52 x) * 0x1000" for x :: u64
proof -
  have m: "(0x000FFFFFFFFFF000 :: u64) = mask 52 AND NOT (mask 12)" by (simp add: mask_numeral)
  have "x AND 0x000FFFFFFFFFF000 = push_bit 12 (drop_bit 12 (take_bit 52 x))"
    unfolding m by (rule bit_word_eqI) (auto simp: bit_simps)
  then show ?thesis by (simp add: push_bit_eq_mult)
qed

lemma unat_page_mask64 [word_facts]:
  fixes x :: u64
  assumes "unat x < 2 ^ 52"
  shows "unat (x AND 0x000FFFFFFFFFF000) = 4096 * (unat x div 4096)"
proof -
  have "take_bit 52 x = x"
    using assms by (metis take_bit_nat_eq_self unsigned_take_bit_eq unsigned_word_eqI)
  moreover have "unat (drop_bit 12 x) = unat x div 4096" by (simp add: unat_drop_bit)
  moreover have "unat x div 4096 * 4096 < 2 ^ 64"
    using unat_u64_less [of x] by (simp add: order_le_less_trans [OF div_times_less_eq_dividend])
  ultimately show ?thesis
    unfolding and_page_mask64 by (subst unat_mult_lem [THEN iffD1]) auto
qed

lemma and_1_eq_0 [word_facts]: "x AND 1 = 0 \<longleftrightarrow> even (unat x)" for x :: "'a::len word"
proof -
  have "unat (x AND 1) = unat x mod 2" using unat_and_mask [of x 1] by simp
  then show ?thesis by (metis even_iff_mod_2_eq_zero unat_0_iff)
qed

lemma word_offset_less_iff:
  fixes y p n :: "'a::len word"
  assumes "unat p + unat n < 2 ^ LENGTH('a)"
  shows "y - p < n \<longleftrightarrow> p \<le> y \<and> y < p + n"
proof -
  have "unat (p + n) = unat p + unat n" using assms by (simp add: unat_add_lem [THEN iffD1])
  moreover have "unat y < 2 ^ LENGTH('a)" by simp
  ultimately show ?thesis
    using assms by (auto simp: word_less_nat_alt word_le_nat_alt unat_sub_if')
qed

section \<open>Byte loops\<close>

text \<open>
  \<^verbatim>\<open>for (uint32_t i = 0; i < count; i++) byte[i] = value;\<close> and its copying twin; the
  counter is the 32-bit word of the source.
\<close>

function set_loop :: "('a::len) mem \<Rightarrow> 'a word \<Rightarrow> u8 \<Rightarrow> u32 \<Rightarrow> u32 \<Rightarrow> 'a mem" where
  "set_loop m dst val i count =
     (if i < count then set_loop (m(dst + ucast i := val)) dst val (i + 1) count else m)"
  by pat_completeness auto
termination
  by (relation "measure (\<lambda>(m, dst, val, i, count). unat count - unat i)")
     (simp_all add: counter_decreases)

function cpy_loop :: "('a::len) mem \<Rightarrow> 'a word \<Rightarrow> 'a word \<Rightarrow> u32 \<Rightarrow> u32 \<Rightarrow> 'a mem" where
  "cpy_loop m src dst i count =
     (if i < count then cpy_loop (m(dst + ucast i := m (src + ucast i))) src dst (i + 1) count
      else m)"
  by pat_completeness auto
termination
  by (relation "measure (\<lambda>(m, src, dst, i, count). unat count - unat i)")
     (simp_all add: counter_decreases)

declare set_loop.simps [simp del] cpy_loop.simps [simp del]

section \<open>Outcomes\<close>

lemma bind_ok_Ok_iff [simp]:
  "bind_ok x f = Ok y \<longleftrightarrow> (\<exists>z. x = Ok z \<and> f z = Ok y)"
  by (cases x) auto

lemma bind_ok_assoc: "bind_ok (bind_ok x f) g = bind_ok x (\<lambda>z. bind_ok (f z) g)"
  by (cases x) auto

section \<open>Cells of memory\<close>

text \<open>
  What every fixed-width cell promises: a load returns what was stored, a store touches its
  own bytes only, a load depends on its own bytes only. The clients below (disjoint
  accesses do not interfere) are proved once for all widths.
\<close>

lemma aligned_cells_disjoint:
  fixes a b :: "'a::len word"
  assumes "w dvd unat a" and "w dvd unat b" and "a \<noteq> b" and "i < w" and "j < w"
    and "w dvd 2 ^ LENGTH('a)"
  shows "b + of_nat j \<noteq> a + of_nat i"
proof
  have off: "unat (x + of_nat k) = unat x + k" if dx: "w dvd unat x" and kw: "k < w" for x :: "'a word" and k
  proof -
    obtain q where q: "unat x = w * q" using dx by (rule dvdE)
    obtain r where r: "2 ^ LENGTH('a) = w * r" using assms(6) by (rule dvdE)
    have "w * q < w * r" unfolding q [symmetric] r [symmetric] by simp
    then have "Suc q \<le> r" by simp
    then have "w * Suc q \<le> w * r" by (rule mult_le_mono2)
    then have "unat x + w \<le> 2 ^ LENGTH('a)" by (simp add: q r)
    with kw have "unat x + k < 2 ^ LENGTH('a)" by linarith
    then show ?thesis by (simp add: unat_word_ariths unat_of_nat take_bit_eq_mod mod_add_right_eq)
  qed
  assume "b + of_nat j = a + of_nat i"
  then have eq: "unat b + j = unat a + i"
    using off [OF assms(2,5)] off [OF assms(1,4)] by metis
  obtain p where p: "unat b = w * p" using assms(2) by (rule dvdE)
  obtain q where q: "unat a = w * q" using assms(1) by (rule dvdE)
  have "p = (w * p + j) div w" using assms(5) by simp
  also have "\<dots> = (w * q + i) div w" using eq p q by simp
  also have "\<dots> = q" using assms(4) by simp
  finally have "unat a = unat b" using p q by simp
  with assms(3) show False by (simp add: word_unat_eq_iff)
qed

locale mem_cell =
  fixes load :: "('a::len) mem \<Rightarrow> 'a word \<Rightarrow> 'b"
    and store :: "'a mem \<Rightarrow> 'a word \<Rightarrow> 'b \<Rightarrow> 'a mem"
    and width :: nat
  assumes load_store_same: "load (store m a v) a = v"
    and store_frame: "(\<And>i. i < width \<Longrightarrow> x \<noteq> a + of_nat i) \<Longrightarrow> store m a v x = m x"
    and width_dvd: "width dvd 2 ^ LENGTH('a)"
    and load_local: "(\<And>i. i < width \<Longrightarrow> m (a + of_nat i) = m' (a + of_nat i)) \<Longrightarrow> load m a = load m' a"
begin

lemma load_store_disjoint:
  assumes "\<And>i j. i < width \<Longrightarrow> j < width \<Longrightarrow> b + of_nat j \<noteq> a + of_nat i"
  shows "load (store m a v) b = load m b"
  by (rule load_local) (rule store_frame, rule assms)

text \<open>Naturally aligned cells are equal or disjoint.\<close>

lemma load_store_aligned:
  assumes "width dvd unat a" and "width dvd unat b"
  shows "load (store m a v) b = (if b = a then v else load m b)"
proof (cases "b = a")
  case False
  then show ?thesis
    using aligned_cells_disjoint [OF assms _ _ _ width_dvd] by (simp add: load_store_disjoint)
qed (simp add: load_store_same)

end

lemma load16_store16_same: "load16 (store16 m a v) a = v" for m :: "32 mem"
proof (rule bit_word_eqI)
  fix n assume "n < LENGTH(16)"
  then consider "n < 8" | "8 \<le> n" "n < 16" by force
  then show "bit (load16 (store16 m a v) a) n \<longleftrightarrow> bit v n"
    by cases (auto simp: load16_def store16_def bit_simps)
qed

lemma load32_store32_same: "load32 (store32 m a v) a = v" for m :: "32 mem"
proof (rule bit_word_eqI)
  fix n assume "n < LENGTH(32)"
  then consider "n < 8" | "8 \<le> n" "n < 16" | "16 \<le> n" "n < 24" | "24 \<le> n" "n < 32" by force
  then show "bit (load32 (store32 m a v) a) n \<longleftrightarrow> bit v n"
    by cases (auto simp: load32_def store32_def bit_simps)
qed

lemma store32_frame:
  assumes "\<And>i. i < 4 \<Longrightarrow> x \<noteq> a + of_nat i"
  shows "store32 m a v x = m x"
  using assms [of 0] assms [of 1] assms [of 2] assms [of 3] by (simp add: store32_def)

lemma load32_local:
  assumes "\<And>i. i < 4 \<Longrightarrow> m (a + of_nat i) = m' (a + of_nat i)"
  shows "load32 m a = load32 m' a"
  using assms [of 0] assms [of 1] assms [of 2] assms [of 3] by (simp add: load32_def)

interpretation cell16: mem_cell "load16 :: 32 mem \<Rightarrow> _" store16 2
proof
  show "load16 (store16 m a v) a = v" for m :: "32 mem" and a v by (rule load16_store16_same)
  show "(2::nat) dvd 2 ^ LENGTH(32)" by simp
  show "store16 m a v x = m x" if "\<And>i. i < 2 \<Longrightarrow> x \<noteq> a + of_nat i" for m :: "32 mem" and a v x
    using that [of 0] that [of 1] by (simp add: store16_def)
  show "load16 m a = load16 m' a"
    if "\<And>i. i < 2 \<Longrightarrow> m (a + of_nat i) = m' (a + of_nat i)" for m m' :: "32 mem" and a
    using that [of 0] that [of 1] by (simp add: load16_def)
qed

interpretation cell32: mem_cell "load32 :: 32 mem \<Rightarrow> _" store32 4
  by unfold_locales (fact load32_store32_same store32_frame load32_local | simp)+

lemma store64_frame:
  assumes "\<And>i. i < 8 \<Longrightarrow> x \<noteq> a + of_nat i"
  shows "store64 m a v x = m x"
  using assms [of 0] assms [of 1] assms [of 2] assms [of 3] assms [of 4] assms [of 5] assms [of 6] assms [of 7]
  by (simp add: store64_def store32_def add.assoc)

lemma load64_local:
  assumes "\<And>i. i < 8 \<Longrightarrow> m (a + of_nat i) = m' (a + of_nat i)"
  shows "load64 m a = load64 m' a"
  using assms [of 0] assms [of 1] assms [of 2] assms [of 3] assms [of 4] assms [of 5] assms [of 6] assms [of 7]
  by (simp add: load64_def load32_def add.assoc)

lemma load64_store64_same: "load64 (store64 m a v) a = v" for m :: "32 mem"
proof -
  have lo: "load32 (store32 (store32 m a x) (a + 4) y) a = x" for x y
  proof -
    have "load32 (store32 (store32 m a x) (a + 4) y) a = load32 (store32 m a x) a"
      by (simp add: load32_def store32_def add.assoc)
    then show ?thesis by (simp add: load32_store32_same)
  qed
  show ?thesis
  proof (rule bit_word_eqI)
    fix n assume "n < LENGTH(64)"
    then show "bit (load64 (store64 m a v) a) n \<longleftrightarrow> bit v n"
      by (cases "n < 32") (auto simp: load64_def store64_def lo load32_store32_same bit_simps)
  qed
qed

interpretation cell64: mem_cell "load64 :: 32 mem \<Rightarrow> _" store64 8
  by unfold_locales (fact load64_store64_same store64_frame load64_local | simp)+

section \<open>What the byte loops do\<close>

lemma word_between_inc:
  fixes i n x :: "'a::len word"
  assumes "i < n"
  shows "i + 1 \<le> x \<longleftrightarrow> i < x"
  using unat_inc [OF assms] by (auto simp: word_le_nat_alt word_less_nat_alt)

lemma set_loop_eq:
  fixes m :: "32 mem"
  shows "set_loop m dst val i count = (\<lambda>x. if i \<le> x - dst \<and> x - dst < count then val else m x)"
proof (induction m dst val i count rule: set_loop.induct)
  case (1 m dst val i count)
  show ?case
  proof (cases "i < count")
    case True
    have "set_loop m dst val i count
        = set_loop (m(dst + i := val)) dst val (i + 1) count"
      using True by (subst set_loop.simps) simp
    also have "\<dots> = (\<lambda>x. if i + 1 \<le> x - dst \<and> x - dst < count then val
                       else (m(dst + i := val)) x)"
      using "1.IH" [OF True] by (simp only: ucast_id)
    also have "\<dots> = (\<lambda>x. if i \<le> x - dst \<and> x - dst < count then val else m x)"
      using True by (auto simp: word_between_inc [OF True] fun_eq_iff)
    finally show ?thesis .
  next
    case False
    then show ?thesis by (subst set_loop.simps) (auto simp: fun_eq_iff)
  qed
qed

lemma cpy_loop_eq:
  fixes m :: "32 mem"
  assumes "\<And>j k. j < k \<Longrightarrow> k < count \<Longrightarrow> dst + j \<noteq> src + k"
  shows "cpy_loop m src dst i count
    = (\<lambda>x. if i \<le> x - dst \<and> x - dst < count then m (src + (x - dst)) else m x)"
  using assms
proof (induction m src dst i count rule: cpy_loop.induct)
  case (1 m src dst i count)
  show ?case
  proof (cases "i < count")
    case True
    let ?m = "m(dst + i := m (src + i))"
    have "cpy_loop m src dst i count = cpy_loop ?m src dst (i + 1) count"
      using True by (subst cpy_loop.simps) simp
    also have "\<dots> = (\<lambda>x. if i + 1 \<le> x - dst \<and> x - dst < count then ?m (src + (x - dst)) else ?m x)"
      using "1.IH" [OF True "1.prems"] by (simp only: ucast_id)
    also have "\<dots> = (\<lambda>x. if i \<le> x - dst \<and> x - dst < count then m (src + (x - dst)) else m x)"
    proof
      fix x
      show "(if i + 1 \<le> x - dst \<and> x - dst < count then ?m (src + (x - dst)) else ?m x)
        = (if i \<le> x - dst \<and> x - dst < count then m (src + (x - dst)) else m x)"
        using "1.prems" [of i "x - dst"] True
        by (auto simp: word_between_inc [OF True])
    qed
    finally show ?thesis .
  next
    case False
    then show ?thesis by (subst cpy_loop.simps) (auto simp: fun_eq_iff)
  qed
qed
section \<open>Pages\<close>

text \<open>Rounding a byte count to 4096-byte pages, up and down.\<close>

lemma page_ceiling_le_iff: "(a + 4095) div 4096 \<le> q \<longleftrightarrow> a \<le> 4096 * q" for a q :: nat
proof -
  have "(a + 4095) div 4096 \<le> q \<longleftrightarrow> (a + 4095) div 4096 < q + 1" by linarith
  also have "\<dots> \<longleftrightarrow> a \<le> 4096 * q" by (subst div_less_iff_less_mult) auto
  finally show ?thesis .
qed

lemma less_page_floor_iff: "q < b div 4096 \<longleftrightarrow> 4096 * q + 4096 \<le> b" for b q :: nat
proof -
  have "q < b div 4096 \<longleftrightarrow> q + 1 \<le> b div 4096" by linarith
  also have "\<dots> \<longleftrightarrow> 4096 * q + 4096 \<le> b" by (subst less_eq_div_iff_mult_less_eq) auto
  finally show ?thesis .
qed

lemma page_ceiling: "a + (if a mod 4096 = 0 then 0 else 4096 - a mod 4096) = 4096 * ((a + 4095) div 4096)"
  for a :: nat
proof -
  obtain q r where a: "a = q * 4096 + r" and r: "r < 4096"
    by (metis mod_less_divisor mod_div_decomp zero_less_numeral)
  have "(a + 4095) div 4096 = q + (r + 4095) div 4096" by (simp add: a add.assoc)
  moreover have "(r + 4095) div 4096 = (if r = 0 then 0 else 1)"
    using r by (simp add: div_nat_eqI)
  ultimately show ?thesis using r by (simp add: a)
qed

lemma page_floor_remainder: "4096 * q \<le> b \<Longrightarrow> b mod 4096 \<le> b - 4096 * q" for b q :: nat
proof -
  assume "4096 * q \<le> b"
  then have "q \<le> b div 4096" by (simp add: less_eq_div_iff_mult_less_eq)
  then show ?thesis using mult_div_mod_eq [of 4096 b] by linarith
qed

lemma in_own_page: "x \<in> {4096 * (x div 4096) ..< 4096 * (x div 4096) + 4096}" for x :: nat
proof -
  have "4096 * (x div 4096) + x mod 4096 = x" and "x mod 4096 < 4096" by simp_all
  then show ?thesis unfolding atLeastLessThan_iff by linarith
qed

lemma minus_page_cancel: "s - (p - m) - (m + s) = - (p :: 'a::len word)"
  by (simp add: algebra_simps)

end
