(* ===== verification/Boot_MemMap.thy ===== *)
theory Boot_MemMap
  imports Prelude
begin

text \<open>
  The memory map of the TitorOS boot loader (\<^verbatim>\<open>titorOS/bootloader/stage2/stage2.c\<close>,
  function \<^verbatim>\<open>mmap\<close>). The firmware's E820 table is an argument: \<^verbatim>\<open>bios_e820\<close> is a real-mode
  BIOS call. An array walked by an index is a list; the two nested loops over
  \<^verbatim>\<open>table[i]\<close>, \<^verbatim>\<open>table[k]\<close> with \<^verbatim>\<open>k > i\<close> become recursions over the rest of the list, in
  which the inner loop updates the entries that the outer loop visits later.
\<close>

section \<open>Data\<close>

record memtable =
  address :: u64
  rsize :: u64
  rtype :: u32
  extended :: u32

record boot_info =
  table :: u32
  entries :: u32
  kaddr :: u32
  ksize :: u32

abbreviation (input) USABLE :: u32 where "USABLE \<equiv> 1"
abbreviation (input) UNUSABLE :: u32 where "UNUSABLE \<equiv> 2"
abbreviation (input) MEMTABLE :: u32 where "MEMTABLE \<equiv> 0x20000"
abbreviation (input) PAGE_SIZE :: u64 where "PAGE_SIZE \<equiv> 0x1000"
abbreviation (input) LOW_MEMORY :: u64 where "LOW_MEMORY \<equiv> 0x100000"

section \<open>Operations\<close>

text \<open>
  The three overlap tests of the inner loop: the interval \<open>[start, stop)\<close> grown by
  \<open>[kstart, kend)\<close>, or \<open>None\<close> where the source says \<^verbatim>\<open>continue\<close>.
\<close>

definition grow :: "u64 \<Rightarrow> u64 \<Rightarrow> u64 \<Rightarrow> u64 \<Rightarrow> (u64 \<times> u64) option" where
  "grow start stop kstart kend =
     (if start \<le> kstart \<and> kstart \<le> stop then
        Some (start, if kend > stop then kend else stop)
      else if start \<le> kend \<and> kend \<le> stop then
        Some (if kstart < start then kstart else start, stop)
      else if kstart \<le> start \<and> kend \<ge> stop then Some (kstart, kend)
      else None)"

text \<open>The inner loop over \<^verbatim>\<open>k = i + 1, \<dots>\<close>: a merged entry is marked unusable.\<close>

fun absorb :: "u64 \<Rightarrow> u64 \<Rightarrow> memtable list \<Rightarrow> u64 \<times> u64 \<times> memtable list" where
  "absorb start stop [] = (start, stop, [])"
| "absorb start stop (e # es) =
     (if rtype e \<noteq> USABLE then
        (case absorb start stop es of (s, t, es') \<Rightarrow> (s, t, e # es'))
      else
        (case grow start stop (address e) (address e + rsize e) of
           None \<Rightarrow> (case absorb start stop es of (s, t, es') \<Rightarrow> (s, t, e # es'))
         | Some (start', stop') \<Rightarrow>
             (case absorb start' stop' es of
                (s, t, es') \<Rightarrow> (s, t, e\<lparr>rtype := UNUSABLE\<rparr> # es'))))"

lemma absorb_length [simp]: "length (snd (snd (absorb start stop es))) = length es"
  by (induction es arbitrary: start stop) (auto simp: split_beta split: option.split)

text \<open>The first MiB is cut off and the entry written back.\<close>

definition cut_low :: "u64 \<Rightarrow> u64 \<Rightarrow> memtable \<Rightarrow> memtable" where
  "cut_low start stop e =
     (let ty = (if stop \<le> LOW_MEMORY then UNUSABLE else rtype e);
          start' = (if start < LOW_MEMORY then LOW_MEMORY else start)
      in e\<lparr>address := start', rsize := stop - start', rtype := ty\<rparr>)"

text \<open>The outer loop: merge the later entries into this one, then write it back.\<close>

function combine :: "memtable list \<Rightarrow> memtable list" where
  "combine [] = []"
| "combine (e # es) =
     (if rtype e \<noteq> USABLE then e # combine es
      else
        (let (start, stop, es') = absorb (address e) (address e + rsize e) es
         in cut_low start stop e # combine es'))"
  by pat_completeness auto
termination
  by (relation "measure length") (auto, metis absorb_length lessI snd_conv)

text \<open>Page alignment of one region: start up to a page boundary, end down to one.\<close>

definition align_region :: "memtable \<Rightarrow> memtable" where
  "align_region e =
     (let misalignment = address e mod PAGE_SIZE;
          e1 = (if misalignment \<noteq> 0
                then e\<lparr>address := address e + (PAGE_SIZE - misalignment),
                       rsize := rsize e - (PAGE_SIZE - misalignment)\<rparr>
                else e);
          misalignment' = (address e1 + rsize e1) mod PAGE_SIZE
      in if misalignment' \<noteq> 0 then e1\<lparr>rsize := rsize e1 - misalignment'\<rparr> else e1)"

text \<open>The truncation loop, in place: \<^verbatim>\<open>mem_cpy(table + i, table + j, sizeof(memtable))\<close>.\<close>

function compact :: "memtable list \<Rightarrow> nat \<Rightarrow> nat \<Rightarrow> memtable list \<times> nat" where
  "compact tab i j =
     (if i < length tab then
        (if rtype (tab ! i) \<noteq> USABLE then compact tab (i + 1) j
         else compact (tab[j := tab ! i]) (i + 1) (j + 1))
      else (tab, j))"
  by pat_completeness auto
termination
  by (relation "measure (\<lambda>(tab, i, j). length tab - i)") auto

declare compact.simps [simp del]

fun find_slot :: "u32 \<Rightarrow> memtable list \<Rightarrow> u32 option" where
  "find_slot ks [] = None"
| "find_slot ks (e # es) =
     (if rsize e \<ge> ucast ks then Some (ucast (address e)) else find_slot ks es)"

text \<open>
  The whole function; \<open>e820\<close> is what the firmware wrote to \<^verbatim>\<open>MEMTABLE\<close>. Without a slot the
  loader prints a message and spins.
\<close>

definition mmap :: "memtable list \<Rightarrow> boot_info \<Rightarrow> (memtable list \<times> boot_info) outcome" where
  "mmap e820 boot =
     (let boot1 = boot\<lparr>table := MEMTABLE\<rparr>;
          tab1 = combine e820;
          tab2 = map align_region tab1;
          (tab3, j) = compact tab2 0 0;
          boot2 = boot1\<lparr>entries := of_nat j\<rparr>
      in case find_slot (ksize boot2) (take (unat (entries boot2)) tab3) of
           Some a \<Rightarrow> Ok (tab3, boot2\<lparr>kaddr := a\<rparr>)
         | None \<Rightarrow> Halt (Spin ''Can't load kernel''))"

section \<open>Specification\<close>

text \<open>The bytes of a region, and the bytes a table calls usable, as sets of naturals.\<close>

definition region :: "memtable \<Rightarrow> nat set" where
  "region e = {unat (address e) ..< unat (address e) + unat (rsize e)}"

definition usable :: "memtable list \<Rightarrow> nat set" where
  "usable tab = (\<Union>e \<in> {e \<in> set tab. rtype e = USABLE}. region e)"

text \<open>A usable region does not run past the 64-bit address space.\<close>

definition in_space :: "memtable \<Rightarrow> bool" where
  "in_space e \<longleftrightarrow> (rtype e = USABLE \<longrightarrow> unat (address e) + unat (rsize e) < 2 ^ 64)"


section \<open>Merging\<close>

lemma grow_sound:
  assumes "grow start stop k l = Some (s, t)" and "start \<le> stop" and "k \<le> l"
  shows "{unat s ..< unat t} = {unat start ..< unat stop} \<union> {unat k ..< unat l}" and "s \<le> t"
  using assms unfolding grow_def word_le_nat_alt word_less_nat_alt
  by (auto split: if_splits)

lemma end_of_region:
  assumes "in_space e" and "rtype e = USABLE"
  shows "unat (address e + rsize e) = unat (address e) + unat (rsize e)"
    and "address e \<le> address e + rsize e"
  using assms by (auto simp: in_space_def unat_add_lem [THEN iffD1] word_le_nat_alt)

lemma usable_Cons:
  "usable (e # es) = (if rtype e = USABLE then region e else {}) \<union> usable es"
  by (auto simp: usable_def)

lemma usable_Nil [simp]: "usable [] = {}"
  by (simp add: usable_def)

lemma absorb_sound:
  assumes "absorb start stop es = (s, t, es')" and "start \<le> stop"
    and "\<forall>e \<in> set es. in_space e"
  shows "{unat s ..< unat t} \<union> usable es' = {unat start ..< unat stop} \<union> usable es
    \<and> s \<le> t \<and> (\<forall>e \<in> set es'. in_space e)"
  using assms
proof (induction es arbitrary: start stop s t es')
  case Nil
  then show ?case by simp
next
  case (Cons e es)
  let ?k = "address e" and ?l = "address e + rsize e"
  show ?case
  proof (cases "rtype e = USABLE \<and> grow start stop ?k ?l \<noteq> None")
    case False
    then obtain es'' where rest: "absorb start stop es = (s, t, es'')" and es': "es' = e # es''"
      using Cons.prems(1) by (auto split: prod.splits option.splits if_splits)
    with Cons.IH [OF rest] Cons.prems show ?thesis by (auto simp: usable_Cons)
  next
    case True
    then obtain start' stop' where g: "grow start stop ?k ?l = Some (start', stop')" by auto
    then obtain es'' where rest: "absorb start' stop' es = (s, t, es'')"
      and es': "es' = e\<lparr>rtype := UNUSABLE\<rparr> # es''"
      using Cons.prems(1) True by (auto split: prod.splits option.splits if_splits)
    have e: "in_space e" "rtype e = USABLE" using Cons.prems(3) True by auto
    note end_of_region [OF e]
    moreover note grow_sound [OF g Cons.prems(2) this(2)]
    ultimately have "{unat start' ..< unat stop'} = {unat start ..< unat stop} \<union> region e"
      and "start' \<le> stop'" by (simp_all add: region_def)
    with Cons.IH [OF rest] Cons.prems(3) e show ?thesis
      by (auto simp: es' usable_Cons in_space_def)
  qed
qed

lemma cut_low_sound:
  assumes "start \<le> stop" and "rtype e = USABLE"
  shows "(if rtype (cut_low start stop e) = USABLE then region (cut_low start stop e) else {})
      = {unat start ..< unat stop} - {..< 0x100000}"
    and "in_space (cut_low start stop e)"
proof -
  let ?start = "if start < LOW_MEMORY then LOW_MEMORY else start"
  have size: "unat (stop - ?start) = unat stop - unat ?start" if "\<not> stop \<le> LOW_MEMORY"
    using that assms(1) by (subst unat_sub) (auto simp: word_le_nat_alt word_less_nat_alt)
  show "(if rtype (cut_low start stop e) = USABLE then region (cut_low start stop e) else {})
      = {unat start ..< unat stop} - {..< 0x100000}"
    using size assms
    by (auto simp: cut_low_def region_def word_le_nat_alt word_less_nat_alt not_le)
  show "in_space (cut_low start stop e)"
    using size assms unat_u64_less [of stop]
    by (auto simp: cut_low_def in_space_def word_le_nat_alt word_less_nat_alt not_le)
qed

lemma combine_sound:
  assumes "\<forall>e \<in> set tab. in_space e"
  shows "usable (combine tab) = usable tab - {..< 0x100000} \<and> (\<forall>e \<in> set (combine tab). in_space e)"
  using assms
proof (induction tab rule: combine.induct)
  case 1
  then show ?case by simp
next
  case (2 e es)
  show ?case
  proof (cases "rtype e = USABLE")
    case False
    with 2 show ?thesis by (auto simp: usable_Cons)
  next
    case True
    obtain start stop es' where ab: "absorb (address e) (address e + rsize e) es = (start, stop, es')"
      by (metis prod_cases3)
    have e: "in_space e" using "2.prems" by simp
    note step = absorb_sound [OF ab end_of_region(2) [OF e True]]
    have all: "{unat start ..< unat stop} \<union> usable es' = region e \<union> usable es"
      and le: "start \<le> stop" and sp: "\<forall>e \<in> set es'. in_space e"
      using step "2.prems" end_of_region(1) [OF e True] by (auto simp: region_def)
    have IH: "usable (combine es') = usable es' - {..< 0x100000}"
      "\<forall>e \<in> set (combine es'). in_space e"
      using "2.IH"(2) [OF _ ab [symmetric]] True sp by auto
    have comb: "combine (e # es) = cut_low start stop e # combine es'"
      using True by (simp add: ab)
    have "usable (combine (e # es)) = ({unat start ..< unat stop} - {..< 0x100000}) \<union> usable (combine es')"
      unfolding comb usable_Cons [of _ "combine es'"] cut_low_sound(1) [OF le True] ..
    also have "\<dots> = (region e \<union> usable es) - {..< 0x100000}"
      using all IH(1) by blast
    finally have "usable (combine (e # es)) = usable (e # es) - {..< 0x100000}"
      unfolding usable_Cons [of e es] using True by simp
    moreover have "\<forall>x \<in> set (combine (e # es)). in_space x"
      unfolding comb using IH(2) cut_low_sound(2) [OF le True] by simp
    ultimately show ?thesis by simp
  qed
qed

text \<open>A region reaches a page boundary unless it lies strictly inside one page.\<close>

definition reaches_page :: "memtable \<Rightarrow> bool" where
  "reaches_page e \<longleftrightarrow>
     unat (address e) mod 4096 = 0 \<or> 4096 \<le> unat (address e) mod 4096 + unat (rsize e)"

abbreviation (input) both_usable :: "memtable \<Rightarrow> memtable \<Rightarrow> bool" where
  "both_usable a b \<equiv> rtype a = USABLE \<and> rtype b = USABLE"

definition sorted_map :: "memtable list \<Rightarrow> bool" where
  "sorted_map tab = sorted_wrt (\<lambda>a b. both_usable a b \<longrightarrow> address a \<le> address b) tab"

definition disjoint_map :: "memtable list \<Rightarrow> bool" where
  "disjoint_map tab = sorted_wrt (\<lambda>a b. both_usable a b \<longrightarrow> region a \<inter> region b = {}) tab"

text \<open>What is left of the table when the search for a slot starts.\<close>

definition kept :: "memtable list \<Rightarrow> memtable list" where
  "kept e820 = filter (\<lambda>e. rtype e = USABLE) (map align_region (combine e820))"

text \<open>Sample tables: an unsorted one, and one as firmware reports it.\<close>

definition unsorted_map :: "memtable list" where
  "unsorted_map =
     [\<lparr>address = 0x200000, rsize = 0x100000, rtype = 1, extended = 1\<rparr>,
      \<lparr>address = 0x320000, rsize = 0x1E0000, rtype = 1, extended = 1\<rparr>,
      \<lparr>address = 0x280000, rsize = 0x180000, rtype = 1, extended = 1\<rparr>]"

definition firmware_map :: "memtable list" where
  "firmware_map =
     [\<lparr>address = 0x0, rsize = 0x9F000, rtype = 1, extended = 1\<rparr>,
      \<lparr>address = 0xF0000, rsize = 0x10000, rtype = 2, extended = 1\<rparr>,
      \<lparr>address = 0x100000, rsize = 0x500000, rtype = 1, extended = 1\<rparr>,
      \<lparr>address = 0x400000, rsize = 0x400800, rtype = 1, extended = 1\<rparr>]"

definition boot0 :: boot_info where
  "boot0 = \<lparr>table = 0, entries = 0, kaddr = 0, ksize = 0x3000\<rparr>"

section \<open>Page alignment\<close>

lemma align_region_bounds:
  assumes sp: "unat (address e) + unat (rsize e) < 2 ^ 64" and reach: "reaches_page e"
  shows "unat (address (align_region e)) = 4096 * ((unat (address e) + 4095) div 4096)"
    and "unat (address (align_region e)) + unat (rsize (align_region e))
      = 4096 * ((unat (address e) + unat (rsize e)) div 4096)"
proof -
  let ?a = "address e" and ?s = "rsize e"
  define m where "m = unat ?a mod 4096"
  have mod: "unat (?a mod PAGE_SIZE) = m" by (simp add: m_def unat_mod)
  have m_lt: "m < 4096" by (simp add: m_def)
  define up where "up = (if m = 0 then 0 else 4096 - m)"
  define e1 where "e1 = (if ?a mod PAGE_SIZE \<noteq> 0
      then e\<lparr>address := ?a + (PAGE_SIZE - ?a mod PAGE_SIZE), rsize := ?s - (PAGE_SIZE - ?a mod PAGE_SIZE)\<rparr>
      else e)"
  have zero: "?a mod PAGE_SIZE = 0 \<longleftrightarrow> m = 0"
    using mod by (metis unat_0 unat_0_iff)
  have d: "unat (PAGE_SIZE - ?a mod PAGE_SIZE) = 4096 - m"
    using m_lt mod by (subst unat_sub) (auto simp: word_le_nat_alt)
  have up_le: "up \<le> unat ?s"
    using reach by (auto simp: up_def reaches_page_def m_def)
  have a1: "unat (address e1) = unat ?a + up" and s1: "unat (rsize e1) = unat ?s - up"
    using sp up_le zero d
    by (auto simp: e1_def up_def unat_sub word_le_nat_alt unat_add_lem [THEN iffD1])
  have "unat (address e1 + rsize e1) = unat ?a + unat ?s"
    using sp up_le a1 s1 by (simp add: unat_add_lem [THEN iffD1])
  then have mis: "unat ((address e1 + rsize e1) mod PAGE_SIZE) = (unat ?a + unat ?s) mod 4096"
    by (simp add: unat_mod)
  have al: "align_region e = e1\<lparr>rsize := rsize e1 - (address e1 + rsize e1) mod PAGE_SIZE\<rparr>"
    by (simp add: align_region_def e1_def [symmetric] Let_def)
  have start: "unat ?a + up = 4096 * ((unat ?a + 4095) div 4096)"
    unfolding up_def m_def by (rule page_ceiling)
  have "(unat ?a + unat ?s) mod 4096 \<le> unat ?s - up"
    using page_floor_remainder [of "(unat ?a + 4095) div 4096" "unat ?a + unat ?s"] start up_le
    by linarith
  then have "unat (rsize (align_region e)) = unat ?s - up - (unat ?a + unat ?s) mod 4096"
    using mis s1 by (simp add: al unat_sub word_le_nat_alt)
  then show "unat (address (align_region e)) + unat (rsize (align_region e))
      = 4096 * ((unat ?a + unat ?s) div 4096)"
    using a1 up_le \<open>(unat ?a + unat ?s) mod 4096 \<le> unat ?s - up\<close>
    by (simp add: al minus_mod_eq_mult_div)
  show "unat (address (align_region e)) = 4096 * ((unat ?a + 4095) div 4096)"
    using a1 start by (simp add: al)
qed

lemma region_align_region:
  assumes "unat (address e) + unat (rsize e) < 2 ^ 64" and "reaches_page e"
  shows "region (align_region e)
    = {x. {4096 * (x div 4096) ..< 4096 * (x div 4096) + 4096} \<subseteq> region e}"
proof -
  have sub: "{p ..< p + 4096} \<subseteq> {a ..< b} \<longleftrightarrow> a \<le> p \<and> p + 4096 \<le> b" for p a b :: nat
    by auto
  have "x \<in> region (align_region e) \<longleftrightarrow>
      (unat (address e) + 4095) div 4096 \<le> x div 4096 \<and>
      x div 4096 < (unat (address e) + unat (rsize e)) div 4096" for x
    unfolding region_def align_region_bounds(2) [OF assms]
    unfolding align_region_bounds(1) [OF assms]
    by (simp add: less_eq_div_iff_mult_less_eq div_less_iff_less_mult mult.commute)
  then have "x \<in> region (align_region e) \<longleftrightarrow>
      {4096 * (x div 4096) ..< 4096 * (x div 4096) + 4096} \<subseteq> region e" for x
    unfolding page_ceiling_le_iff less_page_floor_iff by (simp only: region_def sub)
  then show ?thesis by blast
qed

lemma align_region_small:
  assumes "\<not> reaches_page e"
  shows "rsize (align_region e) = - 0x1000"
proof -
  let ?a = "address e" and ?s = "rsize e"
  define m where "m = ?a mod PAGE_SIZE"
  have m: "unat m = unat ?a mod 4096" by (simp add: m_def unat_mod)
  have m0: "m \<noteq> 0" and lt: "unat m + unat ?s < 4096"
    using assms m by (auto simp: reaches_page_def unat_0_iff [symmetric])
  have "(?a + (PAGE_SIZE - m) + (?s - (PAGE_SIZE - m))) mod PAGE_SIZE = m + ?s"
  proof -
    have "unat ((?a + ?s) mod PAGE_SIZE) = unat (m + ?s)"
    proof -
      have "unat (?a + ?s) mod 4096 = (unat ?a + unat ?s) mod 4096"
        by (simp add: unat_word_ariths mod_mod_cancel)
      also have "\<dots> = (unat m + unat ?s) mod 4096" by (simp add: m mod_add_left_eq)
      also have "\<dots> = unat (m + ?s)" using lt by (simp add: unat_add_lem [THEN iffD1])
      finally show ?thesis by (simp add: unat_mod)
    qed
    then show ?thesis by (simp add: unsigned_word_eqI)
  qed
  moreover have "m + ?s \<noteq> 0"
  proof -
    have "unat (m + ?s) = unat m + unat ?s" using lt by (subst unat_add_lem [THEN iffD1]) auto
    with m0 show ?thesis by (metis add_is_0 unat_0 unat_0_iff)
  qed
  ultimately have "rsize (align_region e) = ?s - (PAGE_SIZE - m) - (m + ?s)"
    using m0 by (simp add: align_region_def Let_def m_def [symmetric])
  also have "\<dots> = - 0x1000" by (rule minus_page_cancel)
  finally show ?thesis .
qed

section \<open>Truncation and slot search\<close>

lemma compact_filter:
  assumes "j \<le> i" and "i \<le> length tab" and "compact tab i j = (tab', n)"
  shows "take n tab' = take j tab @ filter (\<lambda>e. rtype e = USABLE) (drop i tab)
    \<and> length tab' = length tab \<and> n \<le> length tab"
  using assms
proof (induction tab i j rule: compact.induct)
  case (1 tab i j)
  show ?case
  proof (cases "i < length tab")
    case False
    with "1.prems" show ?thesis by (subst (asm) compact.simps) simp
  next
    case True
    then have d: "drop i tab = tab ! i # drop (i + 1) tab" by (simp add: Cons_nth_drop_Suc)
    show ?thesis
    proof (cases "rtype (tab ! i) = USABLE")
      case False
      with True "1.prems" have "compact tab (i + 1) j = (tab', n)"
        by (subst (asm) compact.simps) simp
      with "1.IH"(1) [OF True False] "1.prems" True False show ?thesis by (simp add: d)
    next
      case us: True
      with True "1.prems" have "compact (tab[j := tab ! i]) (i + 1) (j + 1) = (tab', n)"
        by (subst (asm) compact.simps) simp
      with "1.IH"(2) [OF True] us True "1.prems"
      have "take n tab' = take (j + 1) (tab[j := tab ! i])
            @ filter (\<lambda>e. rtype e = USABLE) (drop (i + 1) (tab[j := tab ! i]))"
        and len: "length tab' = length tab \<and> n \<le> length tab" by auto
      moreover have "take (j + 1) (tab[j := tab ! i]) = take j tab @ [tab ! i]"
        using True "1.prems"(1) by (simp add: take_Suc_conv_app_nth)
      moreover have "drop (i + 1) (tab[j := tab ! i]) = drop (i + 1) tab"
        using "1.prems"(1) by (simp add: drop_update_cancel)
      ultimately show ?thesis by (simp add: d us)
    qed
  qed
qed

lemma find_slot_Some:
  assumes "find_slot ks tab = Some a"
  obtains e where "e \<in> set tab" and "ucast ks \<le> rsize e" and "a = ucast (address e)"
  using assms by (induction tab) (auto split: if_splits)

lemma find_slot_None: "find_slot ks tab = None \<longleftrightarrow> (\<forall>e \<in> set tab. rsize e < ucast ks)"
  by (induction tab) (auto simp: not_le)

lemma combine_length [simp]: "length (combine tab) = length tab"
  by (induction tab rule: combine.induct) (auto split: prod.split dest: arg_cong [where f = "\<lambda>x. length (snd (snd x))"])

lemma mmap_unfold:
  assumes "length e820 < 2 ^ 32"
  obtains tab where "take (length (kept e820)) tab = kept e820"
    and "mmap e820 boot =
      (case find_slot (ksize boot) (kept e820) of
         Some a \<Rightarrow> Ok (tab, boot\<lparr>table := MEMTABLE, entries := of_nat (length (kept e820)), kaddr := a\<rparr>)
       | None \<Rightarrow> Halt (Spin ''Can't load kernel''))"
proof -
  obtain tab n where c: "compact (map align_region (combine e820)) 0 0 = (tab, n)" by fastforce
  from compact_filter [OF _ _ c]
  have t: "take n tab = kept e820" and n: "n \<le> length e820" "length tab = length e820"
    by (auto simp: kept_def)
  then have len: "n = length (kept e820)" by (metis length_take min.absorb2)
  have "unat (of_nat n :: u32) = n" using n assms by (simp add: unat_of_nat take_bit_eq_mod)
  with t c have "mmap e820 boot =
      (case find_slot (ksize boot) (kept e820) of
         Some a \<Rightarrow> Ok (tab, boot\<lparr>table := MEMTABLE, entries := of_nat n, kaddr := a\<rparr>)
       | None \<Rightarrow> Halt (Spin ''Can't load kernel''))"
    by (simp add: mmap_def Let_def split: option.split)
  with that t len show ?thesis by blast
qed

section \<open>What merging keeps of each entry\<close>

lemma absorb_marks:
  "list_all2 (\<lambda>e e'. e' = e \<or> e' = e\<lparr>rtype := UNUSABLE\<rparr>) es (snd (snd (absorb start stop es)))"
  by (induction es arbitrary: start stop) (auto simp: split_beta split: option.split)

lemma absorb_usable_subset:
  assumes "absorb start stop es = (s, t, es')" and "e \<in> set es'" and "rtype e = USABLE"
  shows "e \<in> set es"
proof -
  obtain i where i: "i < length es'" "e = es' ! i" using assms(2) by (metis in_set_conv_nth)
  have rel: "list_all2 (\<lambda>e e'. e' = e \<or> e' = e\<lparr>rtype := UNUSABLE\<rparr>) es es'"
    using absorb_marks [of es start stop] assms(1) by simp
  then have len: "length es = length es'" by (rule list_all2_lengthD)
  with rel i have "e = es ! i \<or> e = (es ! i)\<lparr>rtype := UNUSABLE\<rparr>"
    by (auto dest: list_all2_nthD2)
  with assms(3) i len show ?thesis by auto
qed

text \<open>Every property of the usable entries' bounds that growing keeps, merging keeps.\<close>

lemma absorb_start_cases:
  assumes "absorb start stop es = (s, t, es')"
  shows "s = start \<or> (\<exists>e \<in> set es. rtype e = USABLE \<and> s = address e)"
  using assms
proof (induction es arbitrary: start stop s t es')
  case (Cons e es)
  then show ?case
    by (fastforce simp: grow_def split: prod.splits option.splits if_splits)
qed simp

lemma combine_address_cases:
  assumes "e \<in> set (combine tab)" and "rtype e = USABLE"
  shows "address e = LOW_MEMORY \<and> (\<exists>e' \<in> set tab. rtype e' = USABLE \<and> address e' < LOW_MEMORY)
     \<or> (\<exists>e' \<in> set tab. rtype e' = USABLE \<and> address e = address e')"
  using assms
proof (induction tab rule: combine.induct)
  case (2 x xs)
  show ?case
  proof (cases "rtype x = USABLE")
    case False
    with 2 show ?thesis by auto
  next
    case True
    obtain start stop es' where ab: "absorb (address x) (address x + rsize x) xs = (start, stop, es')"
      by (metis prod_cases3)
    have mem: "e = cut_low start stop x \<or> e \<in> set (combine es')"
      using "2.prems" True by (simp add: ab)
    show ?thesis
    proof (cases "e \<in> set (combine es')")
      case rest: True
      have IH: "address e = LOW_MEMORY \<and> (\<exists>e' \<in> set es'. rtype e' = USABLE \<and> address e' < LOW_MEMORY)
        \<or> (\<exists>e' \<in> set es'. rtype e' = USABLE \<and> address e = address e')"
        using "2.IH"(2) [OF _ ab [symmetric]] True rest "2.prems"(2) by auto
      then show ?thesis using absorb_usable_subset [OF ab] by (meson list.set_intros(2))
    next
      case False
      with mem have "e = cut_low start stop x" by simp
      then show ?thesis
        using absorb_start_cases [OF ab] True by (auto simp: cut_low_def Let_def)
    qed
  qed
qed simp

lemma combine_aligned:
  assumes "\<forall>e \<in> set tab. rtype e = USABLE \<longrightarrow> unat (address e) mod 4096 = 0"
    and "e \<in> set (combine tab)" and "rtype e = USABLE"
  shows "unat (address e) mod 4096 = 0"
  using combine_address_cases [OF assms(2,3)] assms(1) by auto

text \<open>No usable entry is lost: what is left of it above the first MiB lies in one entry.\<close>

lemma absorb_covers:
  assumes "absorb start stop es = (s, t, es')" and "start \<le> stop" and "\<forall>e \<in> set es. in_space e"
  shows "{unat start ..< unat stop} \<subseteq> {unat s ..< unat t} \<and>
    (\<forall>e \<in> set es. rtype e = USABLE \<longrightarrow> region e \<subseteq> {unat s ..< unat t} \<or> e \<in> set es')"
  using assms
proof (induction es arbitrary: start stop s t es')
  case (Cons e es)
  let ?k = "address e" and ?l = "address e + rsize e"
  show ?case
  proof (cases "rtype e = USABLE \<and> grow start stop ?k ?l \<noteq> None")
    case False
    then obtain es'' where rest: "absorb start stop es = (s, t, es'')" and es': "es' = e # es''"
      using Cons.prems(1) by (auto split: prod.splits option.splits if_splits)
    with Cons.IH [OF rest] Cons.prems show ?thesis by auto
  next
    case True
    then obtain start' stop' where g: "grow start stop ?k ?l = Some (start', stop')" by auto
    then obtain es'' where rest: "absorb start' stop' es = (s, t, es'')"
      and es': "es' = e\<lparr>rtype := UNUSABLE\<rparr> # es''"
      using Cons.prems(1) True by (auto split: prod.splits option.splits if_splits)
    have e: "in_space e" "rtype e = USABLE" using Cons.prems(3) True by auto
    note r = end_of_region [OF e]
    note gs = grow_sound [OF g Cons.prems(2) r(2)]
    have sub: "{unat start ..< unat stop} \<subseteq> {unat start' ..< unat stop'}"
      "region e \<subseteq> {unat start' ..< unat stop'}"
      using gs(1) r(1) by (auto simp: region_def)
    with Cons.IH [OF rest gs(2)] Cons.prems(3) show ?thesis
      by (auto simp: es' simp del: ivl_subset)
  qed
qed simp

lemma combine_covers:
  assumes "\<forall>x \<in> set tab. in_space x" and "e \<in> set tab" and "rtype e = USABLE"
    and "region e - {..< 0x100000} \<noteq> {}"
  shows "\<exists>e' \<in> set (combine tab). rtype e' = USABLE \<and> region e - {..< 0x100000} \<subseteq> region e'"
  using assms
proof (induction tab rule: combine.induct)
  case (2 x xs)
  show ?case
  proof (cases "rtype x = USABLE")
    case False
    with 2 show ?thesis by auto
  next
    case True
    obtain s t es' where ab: "absorb (address x) (address x + rsize x) xs = (s, t, es')"
      by (metis prod_cases3)
    have sx: "in_space x" and sxs: "\<forall>e \<in> set xs. in_space e" using "2.prems"(1) by auto
    note r = end_of_region [OF sx True]
    note sound = absorb_sound [OF ab r(2) sxs] and cov = absorb_covers [OF ab r(2) sxs]
    from cov have "region e \<subseteq> {unat s ..< unat t} \<or> e \<in> set es'"
      using "2.prems"(2,3) r(1) by (auto simp: region_def)
    then show ?thesis
    proof
      assume in_first: "region e \<subseteq> {unat s ..< unat t}"
      from sound have "s \<le> t" by simp
      note cut = cut_low_sound [OF this True]
      have "rtype (cut_low s t x) = USABLE"
        using cut(1) in_first "2.prems"(4) by (auto split: if_splits)
      with cut(1) in_first show ?thesis using True by (auto simp: ab)
    next
      assume "e \<in> set es'"
      with "2.IH"(2) [OF _ ab [symmetric]] sound True "2.prems" show ?thesis by (auto simp: ab)
    qed
  qed
qed simp

section \<open>A sorted map is merged completely\<close>

lemma absorb_sorted_map:
  assumes "absorb start stop es = (s, t, es')" and "sorted_map es"
  shows "sorted_map es'"
proof -
  have rel: "list_all2 (\<lambda>e e'. e' = e \<or> e' = e\<lparr>rtype := UNUSABLE\<rparr>) es es'"
    using absorb_marks [of es start stop] assms(1) by simp
  have "both_usable (es' ! i) (es' ! j) \<longrightarrow> address (es' ! i) \<le> address (es' ! j)"
    if "i < j" "j < length es'" for i j
  proof -
    have len: "length es = length es'" using rel by (rule list_all2_lengthD)
    have "es' ! i = es ! i \<or> rtype (es' ! i) \<noteq> USABLE" "es' ! j = es ! j \<or> rtype (es' ! j) \<noteq> USABLE"
      using that len list_all2_nthD2 [OF rel, of i] list_all2_nthD2 [OF rel, of j] by auto
    moreover have "both_usable (es ! i) (es ! j) \<longrightarrow> address (es ! i) \<le> address (es ! j)"
      using assms(2) that len by (simp add: sorted_map_def sorted_wrt_iff_nth_less)
    ultimately show ?thesis by auto
  qed
  then show ?thesis by (simp add: sorted_map_def sorted_wrt_iff_nth_less)
qed

lemma grow_beyond: "start \<le> stop \<Longrightarrow> stop < k \<Longrightarrow> k \<le> l \<Longrightarrow> grow start stop k l = None"
  by (auto simp: grow_def)

lemma absorb_beyond:
  assumes "start \<le> stop" and "\<forall>x \<in> set xs. in_space x \<and> (rtype x = USABLE \<longrightarrow> stop < address x)"
  shows "absorb start stop xs = (start, stop, xs)"
  using assms(2)
proof (induction xs)
  case (Cons x xs)
  show ?case
  proof (cases "rtype x = USABLE")
    case True
    with Cons.prems have "stop < address x" "in_space x" by auto
    with grow_beyond [OF assms(1) this(1) end_of_region(2) [OF this(2) True]] Cons
    show ?thesis by simp
  qed (use Cons in simp)
qed simp

text \<open>In a sorted table the entries that are left start beyond the merged interval.\<close>

lemma absorb_past:
  assumes "absorb start stop es = (s, t, es')" and "start \<le> stop" and "\<forall>e \<in> set es. in_space e"
    and "sorted_map es" and "\<forall>e \<in> set es. rtype e = USABLE \<longrightarrow> start \<le> address e"
  shows "\<forall>e \<in> set es'. rtype e = USABLE \<longrightarrow> t < address e"
  using assms
proof (induction es arbitrary: start stop s t es')
  case (Cons e es)
  have sorted: "sorted_map es" and ge: "\<forall>x \<in> set es. both_usable e x \<longrightarrow> address e \<le> address x"
    using Cons.prems(4) by (auto simp: sorted_map_def)
  consider "rtype e \<noteq> USABLE" | "rtype e = USABLE" "stop < address e"
    | "rtype e = USABLE" "address e \<le> stop" by fastforce
  then show ?case
  proof cases
    case 1
    then obtain es'' where "absorb start stop es = (s, t, es'')" and "es' = e # es''"
      using Cons.prems(1) by (auto split: prod.splits)
    with Cons.IH [OF this(1)] Cons.prems sorted 1 show ?thesis by auto
  next
    case 2
    then have "\<forall>x \<in> set (e # es). in_space x \<and> (rtype x = USABLE \<longrightarrow> stop < address x)"
      using ge Cons.prems(3) by (auto simp: order_less_le_trans)
    note all = this
    have "absorb start stop (e # es) = (start, stop, e # es)"
      by (rule absorb_beyond [OF Cons.prems(2) all])
    with Cons.prems(1) have "t = stop" and "es' = e # es" by (simp_all only: prod.inject)
    with all show ?thesis by blast
  next
    case 3
    define stop' where "stop' = (if stop < address e + rsize e then address e + rsize e else stop)"
    have g: "grow start stop (address e) (address e + rsize e) = Some (start, stop')"
      using 3 Cons.prems(5) by (simp add: grow_def stop'_def)
    then obtain es'' where ab: "absorb start stop' es = (s, t, es'')"
      and es': "es' = e\<lparr>rtype := UNUSABLE\<rparr> # es''"
      using Cons.prems(1) 3 by (auto split: prod.splits)
    have "start \<le> stop'" using Cons.prems(2) by (auto simp: stop'_def)
    with Cons.IH [OF ab] Cons.prems sorted show ?thesis by (auto simp: es')
  qed
qed simp

lemma combine_disjoint:
  assumes "\<forall>e \<in> set tab. in_space e" and "sorted_map tab"
  shows "disjoint_map (combine tab)"
  using assms
proof (induction tab rule: combine.induct)
  case (2 e es)
  show ?case
  proof (cases "rtype e = USABLE")
    case False
    with 2 show ?thesis by (auto simp: disjoint_map_def sorted_map_def)
  next
    case True
    obtain s t es' where ab: "absorb (address e) (address e + rsize e) es = (s, t, es')"
      by (metis prod_cases3)
    have e: "in_space e" and es: "\<forall>x \<in> set es. in_space x" "sorted_map es"
      "\<forall>x \<in> set es. rtype x = USABLE \<longrightarrow> address e \<le> address x"
      using "2.prems" True by (auto simp: sorted_map_def)
    note r = end_of_region(2) [OF e True]
    have es': "\<forall>x \<in> set es'. in_space x" "sorted_map es'" and st: "s \<le> t"
      using absorb_sound [OF ab r es(1)] absorb_sorted_map [OF ab es(2)] by auto
    have IH: "disjoint_map (combine es')"
      using "2.IH"(2) [OF _ ab [symmetric]] True es' by simp
    have "region (cut_low s t e) \<inter> region x = {}"
      if x: "x \<in> set (combine es')" and us: "both_usable (cut_low s t e) x" for x
    proof -
      obtain e' where "e' \<in> set es'" "rtype e' = USABLE" "address e' \<le> address x"
        using combine_address_cases [OF x] us by (metis order.order_iff_strict)
      then have "t < address x"
        using absorb_past [OF ab r es] by (meson order_less_le_trans)
      moreover have "region (cut_low s t e) \<subseteq> {..< unat t}"
        using cut_low_sound(1) [OF st True] us by auto
      moreover have "region x \<subseteq> {unat t <..}"
        using \<open>t < address x\<close> by (auto simp: region_def word_less_nat_alt)
      ultimately show ?thesis by fastforce
    qed
    then show ?thesis using IH True by (simp add: disjoint_map_def ab)
  qed
qed (simp add: disjoint_map_def)

section \<open>Properties of the memory map\<close>

lemma kept_facts:
  assumes "\<forall>e \<in> set e820. in_space e"
    and "\<forall>e \<in> set e820. rtype e = USABLE \<longrightarrow> unat (address e) mod 4096 = 0"
    and "e \<in> set (kept e820)"
  shows "region e \<subseteq> usable e820 - {..< 0x100000}" and "unat (address e) mod 4096 = 0"
    and "unat (address e) + unat (rsize e) < 2 ^ 64"
proof -
  obtain e' where e': "e' \<in> set (combine e820)" "e = align_region e'" "rtype e = USABLE"
    using assms(3) by (auto simp: kept_def)
  have us: "rtype e' = USABLE" using e'(2,3) by (simp add: align_region_def Let_def split: if_splits)
  note c = combine_sound [OF assms(1)]
  have sp: "unat (address e') + unat (rsize e') < 2 ^ 64"
    using c e'(1) us by (simp add: in_space_def)
  have r: "reaches_page e'"
    using combine_aligned [OF assms(2) e'(1) us] by (simp add: reaches_page_def)
  have "region e \<subseteq> region e'"
    unfolding e'(2) region_align_region [OF sp r] using in_own_page by blast
  moreover have "region e' \<subseteq> usable e820 - {..< 0x100000}"
    using c e'(1) us by (auto simp: usable_def)
  ultimately show "region e \<subseteq> usable e820 - {..< 0x100000}" by blast
  show "unat (address e) mod 4096 = 0"
    using align_region_bounds(1) [OF sp r] by (simp add: e'(2))
  have "4096 * ((unat (address e') + unat (rsize e')) div 4096) \<le> unat (address e') + unat (rsize e')"
    by simp
  with sp show "unat (address e) + unat (rsize e) < 2 ^ 64"
    using align_region_bounds(2) [OF sp r] unfolding e'(2) by linarith
qed

lemma region_kernel_slot:
  assumes "ucast ks \<le> rsize e" and "ks \<noteq> 0" and "region e \<subseteq> {..< 2 ^ 32}"
    and "unat (address e) + unat (rsize e) < 2 ^ 64"
  shows "unat (ucast (address e) :: u32) = unat (address e)"
    and "{unat (address e) ..< unat (address e) + unat (ks :: u32)} \<subseteq> region e"
proof -
  have ks: "unat ks \<le> unat (rsize e)" "0 < unat ks"
    using assms(1,2) by (auto simp: word_le_nat_alt unat_gt_0)
  then have "unat (address e) \<in> region e" by (simp add: region_def)
  with assms(3) have "unat (address e) < 2 ^ 32" by blast
  then show "unat (ucast (address e) :: u32) = unat (address e)"
    by (simp add: unsigned_ucast_eq take_bit_nat_eq_self)
  show "{unat (address e) ..< unat (address e) + unat ks} \<subseteq> region e"
    using ks by (auto simp: region_def)
qed

lemma mmap_slot:
  assumes "\<forall>e \<in> set e820. in_space e"
    and "\<forall>e \<in> set e820. rtype e = USABLE \<longrightarrow> unat (address e) mod 4096 = 0"
    and "usable e820 \<subseteq> {..< 2 ^ 32}" and "length e820 < 2 ^ 32" and "ksize boot \<noteq> 0"
    and "mmap e820 boot = Ok (tab, boot')"
  shows "{unat (kaddr boot') ..< unat (kaddr boot') + unat (ksize boot')} \<subseteq> usable e820 - {..< 0x100000}
    \<and> unat (kaddr boot') mod 4096 = 0 \<and> ksize boot' = ksize boot"
proof -
  obtain tab' where "mmap e820 boot =
      (case find_slot (ksize boot) (kept e820) of
         Some a \<Rightarrow> Ok (tab', boot\<lparr>table := MEMTABLE, entries := of_nat (length (kept e820)), kaddr := a\<rparr>)
       | None \<Rightarrow> Halt (Spin ''Can't load kernel''))"
    using mmap_unfold [OF assms(4)] by metis
  with assms(6) obtain a where a: "find_slot (ksize boot) (kept e820) = Some a"
    and boot': "kaddr boot' = a" "ksize boot' = ksize boot"
    by (auto split: option.splits)
  from find_slot_Some [OF a] obtain e where e: "e \<in> set (kept e820)" "ucast (ksize boot) \<le> rsize e"
    "a = ucast (address e)" by metis
  note k = kept_facts [OF assms(1,2) e(1)]
  have "region e \<subseteq> {..< 2 ^ 32}" using k(1) assms(3) by blast
  note slot = region_kernel_slot [OF e(2) assms(5) this k(3)]
  show ?thesis using slot k(1,2) by (auto simp: boot' e(3))
qed

text \<open>
  C1. The kernel is placed in memory the firmware calls usable. If the usable E820 entries
  are page aligned, stay inside the 64-bit address space and describe memory below 4 GiB, then
  whenever \<^verbatim>\<open>mmap\<close> returns, \<^verbatim>\<open>boot.kaddr\<close> is page aligned and every byte of
  \<^verbatim>\<open>[kaddr, kaddr + ksize)\<close> is a usable byte at or above 1 MiB.
\<close>

theorem mmap_kernel_slot:
  assumes "\<forall>e \<in> set e820. in_space e"
    and "\<forall>e \<in> set e820. rtype e = USABLE \<longrightarrow> unat (address e) mod 4096 = 0"
    and "usable e820 \<subseteq> {..< 2 ^ 32}" and "length e820 < 2 ^ 32" and "ksize boot \<noteq> 0"
    and "mmap e820 boot = Ok (tab, boot')"
  shows "{unat (kaddr boot') ..< unat (kaddr boot') + unat (ksize boot')} \<subseteq> usable e820 - {..< 0x100000}
    \<and> unat (kaddr boot') mod 4096 = 0 \<and> ksize boot' = ksize boot"
  using assms by (rule mmap_slot)

lemma mmap_returns:
  assumes "\<forall>e \<in> set e820. in_space e"
    and "\<forall>e \<in> set e820. rtype e = USABLE \<longrightarrow> unat (address e) mod 4096 = 0"
    and "length e820 < 2 ^ 32" and "unat (ksize boot) mod 4096 = 0" and "ksize boot \<noteq> 0"
    and "e \<in> set e820" and "rtype e = USABLE" and "0x100000 \<le> unat (address e)"
    and "unat (ksize boot) \<le> unat (rsize e)"
  shows "\<exists>tab boot'. mmap e820 boot = Ok (tab, boot')"
proof -
  let ?a = "unat (address e)" and ?k = "unat (ksize boot)"
  have k0: "0 < ?k" using assms(5) by (simp add: unat_gt_0)
  have slot: "{?a ..< ?a + ?k} \<subseteq> region e - {..< 0x100000}"
    using assms(8,9) by (auto simp: region_def)
  then have ne: "region e - {..< 0x100000} \<noteq> {}"
    using k0 by fastforce
  obtain e' where e': "e' \<in> set (combine e820)" "rtype e' = USABLE"
    "region e - {..< 0x100000} \<subseteq> region e'"
    using combine_covers [OF assms(1,6,7) ne] by blast
  have sp: "unat (address e') + unat (rsize e') < 2 ^ 64"
    using combine_sound [OF assms(1)] e'(1,2) by (simp add: in_space_def)
  have r: "reaches_page e'"
    using combine_aligned [OF assms(2) e'(1,2)] by (simp add: reaches_page_def)
  have al: "?a mod 4096 = 0" using assms(2,6,7) by simp
  have "?k \<le> unat (rsize (align_region e'))"
  proof -
    have "{?a ..< ?a + ?k} \<subseteq> region e'"
      using slot e'(3) by blast
    then have "unat (address e') \<le> ?a" "?a + ?k \<le> unat (address e') + unat (rsize e')"
      using k0 by (auto simp: region_def)
    then have "(unat (address e') + 4095) div 4096 \<le> ?a div 4096"
      and "(?a + ?k) div 4096 \<le> (unat (address e') + unat (rsize e')) div 4096"
      using al by (auto simp: page_ceiling_le_iff div_le_mono mult_div_mod_eq
          minus_mod_eq_mult_div [symmetric])
    moreover have "4096 * (?a div 4096) = ?a" "4096 * ((?a + ?k) div 4096) = ?a + ?k"
      using al assms(4) by (auto simp: mod_eq_0_iff_dvd)
    ultimately show ?thesis
      using align_region_bounds [OF sp r] by linarith
  qed
  then have "ucast (ksize boot) \<le> rsize (align_region e')"
    by (simp add: word_le_nat_alt)
  moreover have "align_region e' \<in> set (kept e820)"
    using e'(1,2) by (auto simp: kept_def align_region_def Let_def)
  ultimately have "find_slot (ksize boot) (kept e820) \<noteq> None"
    by (auto simp: find_slot_None not_less)
  note found = this
  show ?thesis
    by (rule mmap_unfold [OF assms(3), of boot]) (use found in \<open>auto split: option.splits\<close>)
qed

text \<open>
  C2. The loader finds a slot whenever there is one: if some usable, page-aligned E820 entry
  at or above 1 MiB holds a page-multiple kernel size, \<^verbatim>\<open>mmap\<close> returns (it does not print
  "Can't load kernel" and spin), whatever merging and truncation do to the table.
\<close>

theorem mmap_finds_slot:
  assumes "\<forall>e \<in> set e820. in_space e"
    and "\<forall>e \<in> set e820. rtype e = USABLE \<longrightarrow> unat (address e) mod 4096 = 0"
    and "length e820 < 2 ^ 32" and "unat (ksize boot) mod 4096 = 0" and "ksize boot \<noteq> 0"
    and "e \<in> set e820" and "rtype e = USABLE" and "0x100000 \<le> unat (address e)"
    and "unat (ksize boot) \<le> unat (rsize e)"
  shows "\<exists>tab boot'. mmap e820 boot = Ok (tab, boot')"
  using assms by (rule mmap_returns)

text \<open>
  Merging neither loses nor invents memory: the bytes called usable after the merge are
  those called usable before it, less the first MiB.
\<close>

theorem combine_usable:
  assumes "\<forall>e \<in> set tab. in_space e"
  shows "usable (combine tab) = usable tab - {..< 0x100000}"
  using combine_sound [OF assms] ..

text \<open>
  C3. On a table whose usable entries are sorted by address the merge is complete: no two
  usable entries of the result overlap.
\<close>

theorem combine_sorted_disjoint:
  assumes "\<forall>e \<in> set tab. in_space e" and "sorted_map tab"
    and "i < j" and "j < length (combine tab)"
    and "rtype (combine tab ! i) = USABLE" and "rtype (combine tab ! j) = USABLE"
  shows "region (combine tab ! i) \<inter> region (combine tab ! j) = {}"
  using combine_disjoint [OF assms(1,2)] assms(3-6)
  by (simp add: disjoint_map_def sorted_wrt_iff_nth_less)

text \<open>
  C4. Alignment keeps exactly the whole pages of a region that reaches a page boundary; a
  region that lies strictly inside one page wraps around to a size of \<open>2 ^ 64 - 4096\<close> bytes.
\<close>

theorem align_region_pages:
  assumes "rtype e = USABLE" and "in_space e"
  shows "if reaches_page e
     then region (align_region e) = {x. {4096 * (x div 4096) ..< 4096 * (x div 4096) + 4096} \<subseteq> region e}
     else unat (rsize (align_region e)) = 2 ^ 64 - 4096"
  using region_align_region [of e] align_region_small [of e] assms
  by (auto simp: in_space_def)

text \<open>
  On an unsorted table the single pass of the inner loop is not enough: of the three
  usable regions below, all inside the address space, the merge leaves two that overlap.
\<close>

theorem combine_unsorted_overlap:
  "list_all in_space unsorted_map \<and> both_usable (combine unsorted_map ! 0) (combine unsorted_map ! 1)
   \<and> 0x350000 \<in> region (combine unsorted_map ! 0) \<inter> region (combine unsorted_map ! 1)"
  by (simp add: unsorted_map_def in_space_def grow_def cut_low_def region_def)

section \<open>Witnesses\<close>

lemma firmware_map_ok:
  "\<forall>e \<in> set firmware_map. in_space e"
  "\<forall>e \<in> set firmware_map. rtype e = USABLE \<longrightarrow> unat (address e) mod 4096 = 0"
  "usable firmware_map \<subseteq> {..< 2 ^ 32}" "length firmware_map < 2 ^ 32" "sorted_map firmware_map"
  by (auto simp: firmware_map_def in_space_def usable_def region_def sorted_map_def)

lemma combine_firmware_map: "combine firmware_map =
    [\<lparr>address = 0x100000, rsize = 0x9F000 - 0x100000, rtype = 2, extended = 1\<rparr>,
     \<lparr>address = 0xF0000, rsize = 0x10000, rtype = 2, extended = 1\<rparr>,
     \<lparr>address = 0x100000, rsize = 0x700800, rtype = 1, extended = 1\<rparr>,
     \<lparr>address = 0x400000, rsize = 0x400800, rtype = 2, extended = 1\<rparr>]"
  by (simp add: firmware_map_def grow_def cut_low_def)

lemma mmap_firmware_map: "\<exists>tab. mmap firmware_map boot0 =
    Ok (tab, \<lparr>table = 0x20000, entries = 1, kaddr = 0x100000, ksize = 0x3000\<rparr>)"
  by (simp add: mmap_def combine_firmware_map boot0_def align_region_def compact.simps)

theorem mmap_kernel_slot_witness:
  "{0x100000 ..< 0x103000} \<subseteq> usable firmware_map - {..< 0x100000}"
proof -
  obtain tab where run: "mmap firmware_map boot0 =
      Ok (tab, \<lparr>table = 0x20000, entries = 1, kaddr = 0x100000, ksize = 0x3000\<rparr>)"
    using mmap_firmware_map by blast
  have "ksize boot0 \<noteq> 0" by (simp add: boot0_def)
  from mmap_kernel_slot [OF firmware_map_ok(1-4) this run] show ?thesis by simp
qed

theorem mmap_finds_slot_witness: "\<exists>tab boot'. mmap firmware_map boot0 = Ok (tab, boot')"
  by (rule mmap_finds_slot [OF firmware_map_ok(1,2,4), where e = "firmware_map ! 2"])
     (simp_all add: firmware_map_def boot0_def)

theorem combine_usable_witness:
  "usable (combine firmware_map) = usable firmware_map - {..< 0x100000}"
  by (rule combine_usable [OF firmware_map_ok(1)])

theorem combine_sorted_disjoint_witness:
  "region (combine (drop 2 firmware_map @ [\<lparr>address = 0x900000, rsize = 0x1000, rtype = 1, extended = 1\<rparr>]) ! 0)
    \<inter> region (combine (drop 2 firmware_map @ [\<lparr>address = 0x900000, rsize = 0x1000, rtype = 1, extended = 1\<rparr>]) ! 2) = {}"
  by (rule combine_sorted_disjoint)
     (simp_all add: firmware_map_def in_space_def sorted_map_def grow_def cut_low_def)

theorem align_region_pages_witness:
  "unat (rsize (align_region \<lparr>address = 0x100200, rsize = 0x100, rtype = 1, extended = 1\<rparr>))
    = 2 ^ 64 - 4096"
  using align_region_pages [of "\<lparr>address = 0x100200, rsize = 0x100, rtype = 1, extended = 1\<rparr>"]
  by (simp add: in_space_def reaches_page_def)

end
