(* ===== verification/Boot_Loader.thy ===== *)
theory Boot_Loader
  imports Boot_MemMap
begin
text \<open>
  The second stage of the TitorOS boot loader (\<^verbatim>\<open>titorOS/bootloader/stage2/stage2.c\<close>,
  function \<^verbatim>\<open>stage2\<close>, and the ELF structures of \<^verbatim>\<open>elf.h\<close>): searching the disk for the kernel
  image, copying its segment to the slot \<^verbatim>\<open>mmap\<close> found, and building the four-level page tables
  that \<^verbatim>\<open>init_kernel\<close> loads. \<^verbatim>\<open>bios_read\<close> is a BIOS call: the disk is an argument that gives,
  for a sector number, the 512 bytes read. \<^verbatim>\<open>load_gdt\<close> and \<^verbatim>\<open>init_kernel\<close> are assembly. Loops
  that may run forever are \<open>partial_function (option)\<close>: \<open>None\<close> means no return.
\<close>

section \<open>ELF structures\<close>

record Elf64_Ehdr =
  e_ident :: "u8 list"
  e_type :: u16
  e_machine :: u16
  e_version :: u32
  e_entry :: u64
  e_phoff :: u64
  e_shoff :: u64
  e_flags :: u32
  e_ehsize :: u16
  e_phentsize :: u16
  e_phnum :: u16
  e_shentsize :: u16
  e_shnum :: u16
  e_shstrndx :: u16

record Elf64_Phdr =
  p_type :: u32
  p_flags :: u32
  p_offset :: u64
  p_vaddr :: u64
  p_paddr :: u64
  p_filesz :: u64
  p_memsz :: u64
  p_align :: u64

text \<open>A sector is its bytes by offset; reading a structure is a cast of the pointer.\<close>

type_synonym sector = "32 mem"
type_synonym disk = "u32 \<Rightarrow> sector"

definition ehdr_at :: "sector \<Rightarrow> u32 \<Rightarrow> Elf64_Ehdr" where
  "ehdr_at s a =
     \<lparr>e_ident = map (\<lambda>i. s (a + of_nat i)) [0..<16],
      e_type = load16 s (a + 16), e_machine = load16 s (a + 18), e_version = load32 s (a + 20),
      e_entry = load64 s (a + 24), e_phoff = load64 s (a + 32), e_shoff = load64 s (a + 40),
      e_flags = load32 s (a + 48), e_ehsize = load16 s (a + 52), e_phentsize = load16 s (a + 54),
      e_phnum = load16 s (a + 56), e_shentsize = load16 s (a + 58), e_shnum = load16 s (a + 60),
      e_shstrndx = load16 s (a + 62)\<rparr>"

definition phdr_at :: "sector \<Rightarrow> u32 \<Rightarrow> Elf64_Phdr" where
  "phdr_at s a =
     \<lparr>p_type = load32 s a, p_flags = load32 s (a + 4), p_offset = load64 s (a + 8),
      p_vaddr = load64 s (a + 16), p_paddr = load64 s (a + 24), p_filesz = load64 s (a + 32),
      p_memsz = load64 s (a + 40), p_align = load64 s (a + 48)\<rparr>"

section \<open>Finding and loading the kernel\<close>

definition elf_magic :: "Elf64_Ehdr \<Rightarrow> bool" where
  "elf_magic h \<longleftrightarrow> e_ident h ! 0 = 0x7f \<and> e_ident h ! 1 = 0x45 \<and> e_ident h ! 2 = 0x4c
     \<and> e_ident h ! 3 = 0x46"

text \<open>\<^verbatim>\<open>for(;;disk_sector_base++)\<close>: the sector where the loop breaks.\<close>

partial_function (option) find_elf :: "disk \<Rightarrow> u32 \<Rightarrow> u32 option" where
  "find_elf disk base =
     (if elf_magic (ehdr_at (disk base) 0) then Some base else find_elf disk (base + 1))"

text \<open>\<^verbatim>\<open>mem_cpy(&seg_sector, dst, count)\<close>: a copy out of the local sector buffer.\<close>

function copy_sector :: "sector \<Rightarrow> 32 mem \<Rightarrow> u32 \<Rightarrow> u32 \<Rightarrow> u32 \<Rightarrow> 32 mem" where
  "copy_sector src m dst i count =
     (if i < count then copy_sector src (m(dst + i := src i)) dst (i + 1) count else m)"
  by pat_completeness auto
termination
  by (relation "measure (\<lambda>(src, m, dst, i, count). unat count - unat i)")
     (simp_all add: counter_decreases)

declare copy_sector.simps [simp del]

text \<open>\<^verbatim>\<open>for (; pos <= prog_header->p_filesz; pos += SECTOR_SIZE)\<close>, with \<^verbatim>\<open>pos\<close> on 32 bits.\<close>

partial_function (option) load_loop ::
  "disk \<Rightarrow> u32 \<Rightarrow> u32 \<Rightarrow> u64 \<Rightarrow> u32 \<Rightarrow> 32 mem \<Rightarrow> (u32 \<times> 32 mem) option" where
  "load_loop disk disk_sector ka filesz pos m =
     (if ucast pos \<le> filesz
      then load_loop disk disk_sector ka filesz (pos + 512)
             (copy_sector (disk (disk_sector + pos div 512)) m (ka + pos) 0 512)
      else Some (pos, m))"

text \<open>The segment load: copy, then zero what the loop did not reach.\<close>

definition load_segment :: "disk \<Rightarrow> u32 \<Rightarrow> Elf64_Phdr \<Rightarrow> u32 \<Rightarrow> 32 mem \<Rightarrow> 32 mem option" where
  "load_segment disk base ph ka m =
     (let disk_sector = ucast (ucast base + p_offset ph div 512 :: u64)
      in case load_loop disk disk_sector ka (p_filesz ph) 0 m of
           None \<Rightarrow> None
         | Some (pos, m1) \<Rightarrow>
             Some (if ucast pos < p_memsz ph
                   then set_loop m1 (ka + pos) 0 0 (ucast (p_memsz ph - ucast pos)) else m1))"

section \<open>Page tables\<close>

abbreviation (input) PAGE_TABLES :: u32 where "PAGE_TABLES \<equiv> 0x10000"
abbreviation (input) FLAGS :: u32 where "FLAGS \<equiv> 3"

text \<open>\<^verbatim>\<open>t->entry[i] |= (uint32_t)next + FLAGS\<close>.\<close>

definition or_entry :: "32 mem \<Rightarrow> u32 \<Rightarrow> u32 \<Rightarrow> u32 \<Rightarrow> 32 mem" where
  "or_entry m t i v = store64 m (t + 8 * i) (load64 m (t + 8 * i) OR ucast v)"

text \<open>\<^verbatim>\<open>for (uint32_t i = 0; i < 512; i++) pt->entry[i] = start + i * PAGE_SIZE + FLAGS;\<close>\<close>

function fill_pt :: "32 mem \<Rightarrow> u32 \<Rightarrow> u32 \<Rightarrow> u32 \<Rightarrow> 32 mem" where
  "fill_pt m pt start i =
     (if i < 512 then fill_pt (store64 m (pt + 8 * i) (ucast (start + i * 0x1000 + FLAGS))) pt start (i + 1)
      else m)"
  by pat_completeness auto
termination
  by (relation "measure (\<lambda>(m, pt, start, i). 512 - unat i)")
     (auto dest!: counter_decreases)

declare fill_pt.simps [simp del]

definition build_tables :: "u32 \<Rightarrow> 32 mem \<Rightarrow> 32 mem" where
  "build_tables ka m0 =
     (let m1 = set_loop m0 PAGE_TABLES 0 0 (7 * 0x1000);
          pml4 = PAGE_TABLES;
          identity_pdpt = PAGE_TABLES + 0x1000;
          identity_pd = PAGE_TABLES + 0x2000;
          identity_pt = PAGE_TABLES + 0x3000;
          m2 = or_entry m1 pml4 0 (identity_pdpt + FLAGS);
          m3 = or_entry m2 identity_pdpt 0 (identity_pd + FLAGS);
          m4 = or_entry m3 identity_pd 0 (identity_pt + FLAGS);
          m5 = fill_pt m4 identity_pt 0 0;
          kernel_pdpt = PAGE_TABLES + 0x4000;
          kernel_pd = PAGE_TABLES + 0x5000;
          kernel_pt = PAGE_TABLES + 0x6000;
          m6 = or_entry m5 pml4 511 (kernel_pdpt + FLAGS);
          m7 = or_entry m6 kernel_pdpt 510 (kernel_pd + FLAGS);
          m8 = or_entry m7 kernel_pd 0 (kernel_pt + FLAGS)
      in fill_pt m8 kernel_pt ka 0)"

section \<open>The second stage\<close>

definition round_ksize :: "u32 \<Rightarrow> u32" where
  "round_ksize n = (if n mod 0x1000 \<noteq> 0 then n + (0x1000 - n mod 0x1000) else n)"

text \<open>
  \<^verbatim>\<open>stage2\<close> up to the call of \<^verbatim>\<open>init_kernel(PAGE_TABLES)\<close>. The program header is read from the
  one sector that was loaded; a header that lies outside of it is an access outside of the
  local buffer.
\<close>

definition stage2 :: "disk \<Rightarrow> memtable list \<Rightarrow> 32 mem \<Rightarrow> boot_info
    \<Rightarrow> (32 mem \<times> memtable list \<times> boot_info) outcome option" where
  "stage2 disk e820 m boot =
     (case find_elf disk 1 of
        None \<Rightarrow> None
      | Some base \<Rightarrow>
          let hdr = ehdr_at (disk base) 0 in
          if unat (e_phoff hdr) + 56 > 512 then Some (Halt (Undefined ''prog_header''))
          else
            let ph = phdr_at (disk base) (ucast (e_phoff hdr));
                boot1 = boot\<lparr>ksize := round_ksize (ucast (p_memsz ph))\<rparr>
            in case mmap e820 boot1 of
                 Halt h \<Rightarrow> Some (Halt h)
               | Ok (tab, boot2) \<Rightarrow>
                   (case load_segment disk base ph (kaddr boot2) m of
                      None \<Rightarrow> None
                    | Some m1 \<Rightarrow> Some (Ok (build_tables (kaddr boot2) m1, tab, boot2))))"

section \<open>Specification: the hardware's walk\<close>

text \<open>
  Four-level translation as the processor does it in long mode with 4 KiB pages: nine bits of
  the address per level, bit 0 of an entry says present, bits 12 to 51 hold the next table.
\<close>

definition next_table :: "32 mem \<Rightarrow> u32 \<Rightarrow> u64 \<Rightarrow> u64 option" where
  "next_table m t idx =
     (let e = load64 m (t + 8 * ucast idx)
      in if e AND 1 = 0 then None else Some (e AND 0x000FFFFFFFFFF000))"

definition walk4 :: "32 mem \<Rightarrow> u32 \<Rightarrow> u64 \<Rightarrow> u64 option" where
  "walk4 m cr3 va =
     Option.bind (next_table m cr3 (drop_bit 39 va AND 0x1FF)) (\<lambda>pdpt.
     Option.bind (next_table m (ucast pdpt) (drop_bit 30 va AND 0x1FF)) (\<lambda>pd.
     Option.bind (next_table m (ucast pd) (drop_bit 21 va AND 0x1FF)) (\<lambda>pt.
     Option.bind (next_table m (ucast pt) (drop_bit 12 va AND 0x1FF)) (\<lambda>page.
       Some (page + (va AND 0xFFF))))))"

definition file_byte :: "disk \<Rightarrow> u32 \<Rightarrow> u32 \<Rightarrow> u8" where
  "file_byte disk sec k = disk (sec + k div 512) (k mod 512)"

definition table_cell :: "u32 \<Rightarrow> nat \<Rightarrow> u64" where
  "table_cell ka n =
     (if 0x16000 \<le> n \<and> n < 0x17000 then ucast (ka + of_nat ((n - 0x16000) div 8) * 0x1000 + FLAGS)
      else if n = 0x15000 then 0x16003 else if n = 0x14ff0 then 0x15003 else if n = 0x10ff8 then 0x14003
      else if 0x13000 \<le> n \<and> n < 0x14000 then ucast (of_nat ((n - 0x13000) div 8) * 0x1000 + FLAGS)
      else if n = 0x12000 then 0x13003 else if n = 0x11000 then 0x12003 else if n = 0x10000 then 0x11003
      else 0)"

text \<open>Canonical addresses, and the five fields of an address.\<close>

definition canonical :: "u64 \<Rightarrow> bool" where
  "canonical va \<longleftrightarrow> unat va < 2 ^ 47 \<or> 2 ^ 64 - 2 ^ 47 \<le> unat va"

definition segment_sector :: "u32 \<Rightarrow> Elf64_Phdr \<Rightarrow> u32" where
  "segment_sector base ph = ucast (ucast base + p_offset ph div 512 :: u64)"

text \<open>What the segment's memory holds after the load, by offset.\<close>

definition segment_byte :: "disk \<Rightarrow> u32 \<Rightarrow> Elf64_Phdr \<Rightarrow> nat \<Rightarrow> u8" where
  "segment_byte disk base ph k =
     (if k < 512 * (unat (p_filesz ph) div 512 + 1)
      then file_byte disk (segment_sector base ph) (of_nat k) else 0)"

definition sample_disk :: disk where
  "sample_disk s =
     (if s = 3 then (\<lambda>a. if a = 0 then 0x7f else if a = 1 then 0x45 else if a = 2 then 0x4c
        else if a = 3 then 0x46 else if a = 32 then 64
        else if a = 72 then 0 else if a = 73 then 0x10
        else if a = 96 then 0 else if a = 97 then 0x10
        else if a = 104 then 0 else if a = 105 then 0x20 else 0)
      else (\<lambda>a. ucast s + ucast a))"

definition flat_phdr :: Elf64_Phdr where
  "flat_phdr = (phdr_at (sample_disk 3) 64)\<lparr>p_memsz := 0x1000\<rparr>"

section \<open>Searching the disk\<close>

lemma find_elf_at: "find_elf disk base
    = (if elf_magic (ehdr_at (disk base) 0) then Some base else find_elf disk (base + 1))"
  by (subst find_elf.simps) simp

lemma find_elf_skip:
  assumes "\<And>i. i < n \<Longrightarrow> \<not> elf_magic (ehdr_at (disk (base + of_nat i)) 0)"
  shows "find_elf disk base = find_elf disk (base + of_nat n)"
  using assms
proof (induction n)
  case (Suc n)
  then have "find_elf disk base = find_elf disk (base + of_nat n)" by simp
  also have "\<dots> = find_elf disk (base + of_nat (Suc n))"
    using Suc.prems [of n] by (subst find_elf_at) (simp add: ac_simps)
  finally show ?case .
qed simp

section \<open>Loading the segment\<close>

lemma copy_sector_eq:
  "copy_sector src m dst i count
    = (\<lambda>x. if i \<le> x - dst \<and> x - dst < count then src (x - dst) else m x)"
proof (induction src m dst i count rule: copy_sector.induct)
  case (1 src m dst i count)
  show ?case
  proof (cases "i < count")
    case True
    have "copy_sector src m dst i count = copy_sector src (m(dst + i := src i)) dst (i + 1) count"
      using True by (subst copy_sector.simps) simp
    also have "\<dots> = (\<lambda>x. if i + 1 \<le> x - dst \<and> x - dst < count then src (x - dst)
                       else (m(dst + i := src i)) x)"
      by (rule "1.IH" [OF True])
    also have "\<dots> = (\<lambda>x. if i \<le> x - dst \<and> x - dst < count then src (x - dst) else m x)"
      using True by (auto simp: word_between_inc [OF True] fun_eq_iff)
    finally show ?thesis .
  next
    case False
    then show ?thesis by (subst copy_sector.simps) (auto simp: fun_eq_iff)
  qed
qed

text \<open>The byte of the file at offset \<open>k\<close> of the segment.\<close>

lemma sector_split:
  fixes k :: u32
  assumes "512 dvd unat pos" and "unat pos \<le> unat k" and "unat k < unat pos + 512"
  shows "k div 512 = pos div 512" and "k mod 512 = k - pos"
proof -
  obtain q where q: "unat pos = 512 * q" using assms(1) by blast
  have "unat k div 512 = q" "unat k mod 512 = unat k - 512 * q"
    using assms(2,3) q by (auto simp: div_nat_eqI modulo_nat_def)
  then have "unat (k div 512) = unat (pos div 512)" "unat (k mod 512) = unat (k - pos)"
    using q assms(2) by (simp_all add: unat_div unat_mod unat_sub word_le_nat_alt)
  then show "k div 512 = pos div 512" and "k mod 512 = k - pos"
    by (simp_all add: unsigned_word_eqI)
qed

lemma load_loop_steps:
  assumes "512 dvd unat pos" and "unat filesz + 512 < 2 ^ 32"
    and "unat pos \<le> 512 * (unat filesz div 512 + 1)"
  shows "\<exists>pos' m'. load_loop disk sec ka filesz pos m = Some (pos', m')
      \<and> unat pos' = 512 * (unat filesz div 512 + 1)
      \<and> (\<forall>x. m' x = (if pos \<le> x - ka \<and> x - ka < pos' then file_byte disk sec (x - ka) else m x))"
  using assms
proof (induction "512 * (unat filesz div 512 + 1) - unat pos" arbitrary: pos m rule: less_induct)
  case less
  let ?stop = "512 * (unat filesz div 512 + 1)"
  show ?case
  proof (cases "ucast pos \<le> filesz")
    case True
    then have le: "unat pos \<le> unat filesz" by (simp add: word_le_nat_alt)
    with less.prems(2) have pos': "unat (pos + 512) = unat pos + 512"
      by (subst unat_add_lem [THEN iffD1]) auto
    have "unat pos div 512 \<le> unat filesz div 512" using le by (rule div_le_mono)
    then have bound: "unat pos + 512 \<le> ?stop"
      using less.prems(1) by (metis add.commute add_le_cancel_right dvd_mult_div_cancel mult_le_mono2 mult_Suc_right Suc_eq_plus1)
    let ?m = "copy_sector (disk (sec + pos div 512)) m (ka + pos) 0 512"
    have "?stop - unat (pos + 512) < ?stop - unat pos" using bound pos' by simp
    from less.hyps [OF this _ less.prems(2), of ?m] less.prems(1) pos' bound
    obtain p' m' where rec: "load_loop disk sec ka filesz (pos + 512) ?m = Some (p', m')"
      and p': "unat p' = ?stop"
      and m': "\<And>x. m' x = (if pos + 512 \<le> x - ka \<and> x - ka < p' then file_byte disk sec (x - ka) else ?m x)"
      by auto
    have step: "load_loop disk sec ka filesz pos m = Some (p', m')"
      using True rec by (subst load_loop.simps) simp
    have "m' x = (if pos \<le> x - ka \<and> x - ka < p' then file_byte disk sec (x - ka) else m x)" for x
    proof -
      have off: "x - (ka + pos) < 512 \<longleftrightarrow> pos \<le> x - ka \<and> x - ka < pos + 512"
        using word_offset_less_iff [of pos 512 "x - ka"] pos' less.prems(2) le
        by (simp add: diff_diff_eq)
      have inside: "(disk (sec + pos div 512)) (x - (ka + pos)) = file_byte disk sec (x - ka)"
        if "pos \<le> x - ka" "x - ka < pos + 512"
        using sector_split [OF less.prems(1), of "x - ka"] that pos'
        by (simp add: file_byte_def word_le_nat_alt word_less_nat_alt diff_diff_eq)
      have ord: "pos + 512 \<le> p'" "pos \<le> pos + 512"
        using p' pos' bound by (simp_all add: word_le_nat_alt)
      show ?thesis
        unfolding m' copy_sector_eq off using inside ord by auto
    qed
    with step p' show ?thesis by blast
  next
    case False
    then have "unat filesz < unat pos" by (simp add: word_le_nat_alt)
    moreover obtain q where "unat pos = 512 * q" using less.prems(1) by blast
    ultimately have "unat filesz div 512 < q" and "q \<le> unat filesz div 512 + 1"
      using less.prems(3) by (auto simp: div_less_iff_less_mult)
    with \<open>unat pos = 512 * q\<close> have "unat pos = ?stop" by simp
    then show ?thesis using False by (subst load_loop.simps) auto
  qed
qed

lemma load_segment_bytes:
  assumes "unat (p_filesz ph) + 512 < 2 ^ 32" and "unat (p_memsz ph) < 2 ^ 32"
  shows "\<exists>m'. load_segment disk base ph ka m = Some m' \<and>
    (\<forall>k. m' (ka + k) =
      (if unat k < 512 * (unat (p_filesz ph) div 512 + 1)
       then file_byte disk (ucast (ucast base + p_offset ph div 512 :: u64)) k
       else if unat k < unat (p_memsz ph) then 0 else m (ka + k)))"
proof -
  let ?sec = "ucast (ucast base + p_offset ph div 512 :: u64) :: u32"
  let ?stop = "512 * (unat (p_filesz ph) div 512 + 1)"
  obtain pos m1 where l: "load_loop disk ?sec ka (p_filesz ph) 0 m = Some (pos, m1)"
    and pos: "unat pos = ?stop"
    and m1: "\<And>x. m1 x = (if x - ka < pos then file_byte disk ?sec (x - ka) else m x)"
    using load_loop_steps [of 0 "p_filesz ph" disk ?sec ka m] assms(1) by auto
  let ?n = "ucast (p_memsz ph - ucast pos) :: u32"
  have n: "unat ?n = unat (p_memsz ph) - ?stop" if "ucast pos < p_memsz ph"
    using that assms(2) pos
    by (simp add: word_less_nat_alt unsigned_ucast_eq take_bit_nat_eq_self unat_sub word_le_nat_alt less_imp_le)
  define m' where "m' = (if ucast pos < p_memsz ph then set_loop m1 (ka + pos) 0 0 ?n else m1)"
  have "load_segment disk base ph ka m = Some m'"
    by (simp add: load_segment_def l m'_def)
  moreover have "m' (ka + k) = (if unat k < ?stop then file_byte disk ?sec k
       else if unat k < unat (p_memsz ph) then 0 else m (ka + k))" for k
  proof (cases "ucast pos < p_memsz ph")
    case True
    have sum: "unat pos + unat ?n = unat (p_memsz ph)"
      using n [OF True] pos True by (simp add: word_less_nat_alt)
    then have "unat (pos + ?n) = unat (p_memsz ph)"
      using assms(2) by (simp add: unat_add_lem [THEN iffD1])
    moreover have "k - pos < ?n \<longleftrightarrow> pos \<le> k \<and> k < pos + ?n"
      using sum assms(2) by (intro word_offset_less_iff) simp
    ultimately show ?thesis
      using True pos by (auto simp: m'_def set_loop_eq m1 word_less_nat_alt word_le_nat_alt)
  next
    case False
    then show ?thesis using pos by (auto simp: m'_def m1 word_less_nat_alt)
  qed
  ultimately show ?thesis by blast
qed

section \<open>Page tables as cells\<close>

lemma set_loop_zero_cell:
  assumes "\<And>i. i < 8 \<Longrightarrow> b + of_nat i - dst < count"
  shows "load64 (set_loop m dst 0 0 count) b = 0"
proof -
  have "load64 (set_loop m dst 0 0 count) b = load64 (\<lambda>_. 0) b"
    by (rule cell64.load_local) (simp add: set_loop_eq assms)
  also have "\<dots> = 0" by (simp add: load64_def load32_def)
  finally show ?thesis .
qed

lemma or_entry_cell:
  assumes "8 dvd unat (t + 8 * i)" and "8 dvd unat b"
  shows "load64 (or_entry m t i v) b = (if b = t + 8 * i then load64 m b OR ucast v else load64 m b)"
  by (simp add: or_entry_def cell64.load_store_aligned [OF assms])

lemma dvd_cell_addr:
  fixes pt i :: u32
  assumes "8 dvd unat pt"
  shows "8 dvd unat (pt + 8 * i)"
proof -
  have "(8::nat) dvd 2 ^ 32" by simp
  then show ?thesis
    using assms by (simp add: unat_word_ariths dvd_mod_iff)
qed

lemma fill_pt_cell:
  assumes "8 dvd unat pt" and "8 dvd unat b" and "unat i \<le> 512"
  shows "load64 (fill_pt m pt start i) b =
    (if 8 * unat i \<le> unat (b - pt) \<and> unat (b - pt) < 4096
     then ucast (start + ((b - pt) div 8) * 0x1000 + FLAGS) else load64 m b)"
  using assms
proof (induction m pt start i rule: fill_pt.induct)
  case (1 m pt start i)
  have d: "8 dvd unat (b - pt)"
    using "1.prems" by (simp add: unat_sub_if' dvd_diff_nat)
  show ?case
  proof (cases "i < 512")
    case True
    let ?m = "store64 m (pt + 8 * i) (ucast (start + i * 0x1000 + FLAGS))"
    have inc: "unat (i + 1) = unat i + 1" using unat_inc [OF True] by simp
    have "load64 (fill_pt m pt start i) b = load64 (fill_pt ?m pt start (i + 1)) b"
      using True by (subst fill_pt.simps) simp
    also have "\<dots> = (if 8 * unat (i + 1) \<le> unat (b - pt) \<and> unat (b - pt) < 4096
       then ucast (start + ((b - pt) div 8) * 0x1000 + FLAGS) else load64 ?m b)"
      using "1.IH" [OF True "1.prems"(1,2)] True inc by (simp add: word_less_nat_alt)
    also have "load64 ?m b = (if b = pt + 8 * i then ucast (start + i * 0x1000 + FLAGS) else load64 m b)"
      using cell64.load_store_aligned [OF dvd_cell_addr [OF "1.prems"(1)] "1.prems"(2)] .
    also have "b = pt + 8 * i \<longleftrightarrow> unat (b - pt) = 8 * unat i"
    proof -
      have "unat (8 * i) = 8 * unat i"
        using True by (simp add: word_less_nat_alt unat_mult_lem [THEN iffD1])
      moreover have "b = pt + 8 * i \<longleftrightarrow> b - pt = 8 * i" by (auto simp: algebra_simps)
      ultimately show ?thesis by (metis word_unat_eq_iff)
    qed
    also have "(8 * unat (i + 1) \<le> unat (b - pt) \<and> unat (b - pt) < 4096)
        \<longleftrightarrow> 8 * unat i \<le> unat (b - pt) \<and> unat (b - pt) < 4096 \<and> unat (b - pt) \<noteq> 8 * unat i"
      using d inc by (auto elim!: dvdE)
    also have "(if 8 * unat i \<le> unat (b - pt) \<and> unat (b - pt) < 4096 \<and> unat (b - pt) \<noteq> 8 * unat i
       then ucast (start + ((b - pt) div 8) * 0x1000 + FLAGS)
       else if unat (b - pt) = 8 * unat i then ucast (start + i * 0x1000 + FLAGS) else load64 m b)
      = (if 8 * unat i \<le> unat (b - pt) \<and> unat (b - pt) < 4096
       then ucast (start + ((b - pt) div 8) * 0x1000 + FLAGS) else load64 m b)"
    proof -
      have "(b - pt) div 8 = i" if "unat (b - pt) = 8 * unat i"
        using that by (simp add: word_unat_eq_iff unat_div)
      then show ?thesis using True by (auto simp: word_less_nat_alt)
    qed
    finally show ?thesis .
  next
    case False
    with "1.prems"(3) have "unat i = 512" by (simp add: word_less_nat_alt)
    then show ?thesis using False by (subst fill_pt.simps) auto
  qed
qed

text \<open>The 64-bit cells of the seven pages after \<^verbatim>\<open>build_tables\<close>, by address.\<close>

lemma cleared_cell:
  assumes "8 dvd unat b" and "0x10000 \<le> unat b" and "unat b < 0x17000"
  shows "load64 (set_loop m PAGE_TABLES 0 0 0x7000) b = 0"
proof (rule set_loop_zero_cell)
  fix i :: nat assume "i < 8"
  obtain q where q: "unat b = 8 * q" using assms(1) by (rule dvdE)
  have "unat (b + of_nat i) = unat b + i"
    using assms(3) \<open>i < 8\<close> by (simp add: unat_word_ariths unat_of_nat take_bit_eq_mod)
  then show "b + of_nat i - PAGE_TABLES < 0x7000"
    using assms(2,3) q \<open>i < 8\<close> by (simp add: word_less_nat_alt unat_sub word_le_nat_alt)
qed

lemma page_of_cell:
  fixes b pt :: u32
  assumes "unat b < 0x17000" and "unat pt \<le> 0x16000"
  shows "unat (b - pt) < 4096 \<longleftrightarrow> unat pt \<le> unat b \<and> unat b < unat pt + 4096"
    and "unat pt \<le> unat b \<Longrightarrow> (b - pt) div 8 = of_nat ((unat b - unat pt) div 8)"
  using assms
  by (auto simp: unat_sub_if' word_unat_eq_iff [of "_ div _"] unat_div unat_of_nat take_bit_nat_eq_self)

lemma build_tables_cell:
  assumes "8 dvd unat b" and "0x10000 \<le> unat b" and "unat b < 0x17000"
  shows "load64 (build_tables ka m) b = table_cell ka (unat b)"
  using assms
  by (simp add: build_tables_def Let_def fill_pt_cell or_entry_cell cleared_cell table_cell_def
      page_of_cell word_unat_eq_iff [of b])

section \<open>Walking the tables\<close>

lemma nine_bits: "unat (drop_bit n va AND 0x1FF) < 512" for va :: u64
proof -
  have "drop_bit n va AND 0x1FF \<le> 0x1FF" by (rule word_and_le1)
  then show ?thesis by (simp add: word_le_nat_alt)
qed

lemma next_table_cell:
  assumes "unat idx < 512" and "t \<in> {0x10000, 0x11000, 0x12000, 0x13000, 0x14000, 0x15000, 0x16000}"
  shows "next_table (build_tables ka m) t idx =
    (let e = table_cell ka (unat t + 8 * unat idx) in if e AND 1 = 0 then None else Some (e AND 0x000FFFFFFFFFF000))"
proof -
  have i: "unat (ucast idx :: u32) = unat idx"
    using assms(1) by (simp add: unsigned_ucast_eq take_bit_nat_eq_self)
  have "unat (8 * ucast idx :: u32) = 8 * unat idx"
    using assms(1) i by (subst unat_mult_lem [THEN iffD1]) auto
  then have b: "unat (t + 8 * ucast idx) = unat t + 8 * unat idx"
    using assms by (subst unat_add_lem [THEN iffD1]) auto
  have "load64 (build_tables ka m) (t + 8 * ucast idx) = table_cell ka (unat t + 8 * unat idx)"
    using assms b by (subst build_tables_cell) auto
  then show "next_table (build_tables ka m) t idx =
    (let e = table_cell ka (unat t + 8 * unat idx) in if e AND 1 = 0 then None else Some (e AND 0x000FFFFFFFFFF000))"
    by (simp add: next_table_def)
qed

lemma level_walks:
  assumes "unat idx < 512"
  shows "next_table (build_tables ka m) 0x10000 idx
      = (if unat idx = 0 then Some 0x11000 else if unat idx = 511 then Some 0x14000 else None)"
    and "next_table (build_tables ka m) 0x11000 idx = (if unat idx = 0 then Some 0x12000 else None)"
    and "next_table (build_tables ka m) 0x12000 idx = (if unat idx = 0 then Some 0x13000 else None)"
    and "next_table (build_tables ka m) 0x14000 idx = (if unat idx = 510 then Some 0x15000 else None)"
    and "next_table (build_tables ka m) 0x15000 idx = (if unat idx = 0 then Some 0x16000 else None)"
  using next_table_cell [OF assms, where t = "0x10000"] next_table_cell [OF assms, where t = "0x11000"]
    next_table_cell [OF assms, where t = "0x12000"] next_table_cell [OF assms, where t = "0x14000"]
    next_table_cell [OF assms, where t = "0x15000"] assms
  by (simp_all add: table_cell_def)

lemma page_entry_cell:
  fixes v :: u32
  assumes "unat v mod 4096 = 0"
  shows "(ucast (v + FLAGS) :: u64) AND 1 \<noteq> 0"
    and "(ucast (v + FLAGS) :: u64) AND 0x000FFFFFFFFFF000 = ucast v"
proof -
  have "unat v + 3 < 2 ^ 32"
  proof -
    obtain q where "unat v = 4096 * q" using assms by (auto elim!: dvdE)
    with unat_u32_less [of v] show ?thesis by simp
  qed
  then have u: "unat (v + FLAGS) = unat v + 3"
    by (simp add: unat_add_lem [THEN iffD1])
  have "even (unat v)" using assms by (auto elim!: dvdE)
  then have "odd (unat v + 3)" by simp
  then show "(ucast (v + FLAGS) :: u64) AND 1 \<noteq> 0" by (simp add: and_1_eq_0 u)
  have "4096 * ((unat v + 3) div 4096) = unat v" using assms by (auto elim!: dvdE)
  moreover have "unat v + 3 < 2 ^ 52" using unat_u32_less [of v] by simp
  ultimately have "unat ((ucast (v + FLAGS) :: u64) AND 0x000FFFFFFFFFF000) = unat v"
    by (subst unat_page_mask64) (simp_all add: u)
  then show "(ucast (v + FLAGS) :: u64) AND 0x000FFFFFFFFFF000 = ucast v"
    by (simp add: word_unat_eq_iff)
qed

lemma last_level_walks:
  assumes "unat idx < 512"
  shows "next_table (build_tables ka m) 0x13000 idx = Some (idx * 0x1000)"
    and "unat ka mod 4096 = 0 \<Longrightarrow> unat ka + 0x200000 \<le> 2 ^ 32 \<Longrightarrow>
      next_table (build_tables ka m) 0x16000 idx = Some (ucast ka + idx * 0x1000)"
proof -
  let ?i = "ucast idx :: u32"
  have off: "unat (?i * 0x1000) = unat idx * 4096"
    using assms by (subst unat_mult_lem [THEN iffD1]) (auto simp: unsigned_ucast_eq take_bit_nat_eq_self)
  have idx: "unat (idx * 0x1000) = unat idx * 4096"
    using assms by (subst unat_mult_lem [THEN iffD1]) auto
  have e: "(ucast (?i * 0x1000) :: u64) = idx * 0x1000"
    by (simp add: word_unat_eq_iff [of "ucast _"] off idx)
  show "next_table (build_tables ka m) 0x13000 idx = Some (idx * 0x1000)"
    using next_table_cell [OF assms, where t = "0x13000"] assms page_entry_cell [of "?i * 0x1000"] off e
    by (simp add: table_cell_def)
  assume ka: "unat ka mod 4096 = 0" "unat ka + 0x200000 \<le> 2 ^ 32"
  have s: "unat (ka + ?i * 0x1000) = unat ka + unat idx * 4096"
    using ka(2) assms off by (subst unat_add_lem [THEN iffD1]) auto
  have "unat (ucast ka + idx * 0x1000) = unat ka + unat idx * 4096"
    using ka(2) assms idx by (subst unat_add_lem [THEN iffD1]) auto
  then have e': "(ucast (ka + ?i * 0x1000) :: u64) = ucast ka + idx * 0x1000"
    by (simp add: word_unat_eq_iff [of "ucast _"] s)
  have al: "unat (ka + ?i * 0x1000) mod 4096 = 0" using ka(1) by (simp add: s)
  show "next_table (build_tables ka m) 0x16000 idx = Some (ucast ka + idx * 0x1000)"
    using next_table_cell [OF assms, where t = "0x16000"] assms page_entry_cell [OF al] e'
    by (simp add: table_cell_def)
qed

lemma address_fields:
  fixes n :: nat
  defines "i4 \<equiv> n div 2 ^ 39 mod 512" and "i3 \<equiv> n div 2 ^ 30 mod 512"
    and "i2 \<equiv> n div 2 ^ 21 mod 512" and "i1 \<equiv> n div 4096 mod 512"
  shows "n = n div 2 ^ 48 * 2 ^ 48 + i4 * 2 ^ 39 + i3 * 2 ^ 30 + i2 * 2 ^ 21 + i1 * 4096 + n mod 4096"
proof -
  have f: "n div d = n div (d * 512) * 512 + n div d mod 512" for d
    using div_mult_mod_eq [of "n div d" 512] by (simp add: div_mult2_eq)
  have "n = n div 4096 * 4096 + n mod 4096" by simp
  note fields = this f [of 4096, simplified] f [of "2 ^ 21", simplified] f [of "2 ^ 30", simplified]
    f [of "2 ^ 39", simplified]
  show ?thesis
    unfolding i4_def i3_def i2_def i1_def by (simp, use fields in linarith)
qed

lemma walk4_tables:
  fixes va :: u64
  defines "i4 \<equiv> unat va div 2 ^ 39 mod 512" and "i3 \<equiv> unat va div 2 ^ 30 mod 512"
    and "i2 \<equiv> unat va div 2 ^ 21 mod 512" and "i1 \<equiv> unat va div 4096 mod 512"
  assumes ka: "unat ka mod 4096 = 0" "unat ka + 0x200000 \<le> 2 ^ 32"
  shows "walk4 (build_tables ka m) 0x10000 va =
    (if i4 = 0 \<and> i3 = 0 \<and> i2 = 0 then Some (of_nat (i1 * 4096 + unat va mod 4096))
     else if i4 = 511 \<and> i3 = 510 \<and> i2 = 0
     then Some (ucast ka + of_nat (i1 * 4096 + unat va mod 4096)) else None)"
proof -
  have d: "unat (drop_bit 39 va AND 0x1FF) = i4" "unat (drop_bit 30 va AND 0x1FF) = i3"
    "unat (drop_bit 21 va AND 0x1FF) = i2" "unat (drop_bit 12 va AND 0x1FF) = i1"
    by (simp_all add: i4_def i3_def i2_def i1_def unat_and_1FF unat_drop_bit)
  have w1: "drop_bit 12 va AND 0x1FF = of_nat i1"
    by (simp add: word_unat_eq_iff [of "_ AND _"] d(4) i1_def unat_of_nat take_bit_nat_eq_self)
  have w0: "va AND 0xFFF = of_nat (unat va mod 4096)"
    by (simp add: word_unat_eq_iff [of "_ AND _"] unat_and_FFF unat_of_nat take_bit_nat_eq_self)
  show ?thesis
    using level_walks [OF nine_bits, of ka m 39 va] level_walks [OF nine_bits, of ka m 30 va]
      level_walks [OF nine_bits, of ka m 21 va] last_level_walks [OF nine_bits, of ka m 12 va] ka
    by (auto simp: walk4_def d w1 w0)
qed

lemma field_bounds:
  fixes n :: nat
  shows "n div 2 ^ 39 mod 512 \<le> 511" "n div 2 ^ 30 mod 512 \<le> 511" "n div 2 ^ 21 mod 512 \<le> 511"
    "n div 4096 mod 512 \<le> 511" "n mod 4096 \<le> 4095"
  using mod_less_divisor [of 512] mod_less_divisor [of 4096] by (simp_all add: less_Suc_eq_le [symmetric])

lemma canonical_top:
  fixes n :: nat
  assumes "n < 2 ^ 64" and "n < 2 ^ 47 \<or> 2 ^ 64 - 2 ^ 47 \<le> n"
  shows "n div 2 ^ 48 = 0 \<and> n < 2 ^ 47 \<or> n div 2 ^ 48 = 65535 \<and> 2 ^ 64 - 2 ^ 47 \<le> n"
  using assms by (auto intro: div_nat_eqI)

lemma low_range:
  fixes n :: nat
  assumes "n < 2 ^ 64" and "n < 2 ^ 47 \<or> 2 ^ 64 - 2 ^ 47 \<le> n"
  shows "n div 2 ^ 39 mod 512 = 0 \<and> n div 2 ^ 30 mod 512 = 0 \<and> n div 2 ^ 21 mod 512 = 0
    \<longleftrightarrow> n < 0x200000"
proof
  assume "n div 2 ^ 39 mod 512 = 0 \<and> n div 2 ^ 30 mod 512 = 0 \<and> n div 2 ^ 21 mod 512 = 0"
  then have "n = n div 2 ^ 48 * 2 ^ 48 + n div 4096 mod 512 * 4096 + n mod 4096"
    using address_fields [of n] by simp
  with canonical_top [OF assms] field_bounds(4,5) [of n] show "n < 0x200000" by auto
qed simp

lemma high_range:
  fixes n :: nat
  assumes "n < 2 ^ 64" and "n < 2 ^ 47 \<or> 2 ^ 64 - 2 ^ 47 \<le> n"
  shows "n div 2 ^ 39 mod 512 = 511 \<and> n div 2 ^ 30 mod 512 = 510 \<and> n div 2 ^ 21 mod 512 = 0
    \<longleftrightarrow> 0xFFFFFFFF80000000 \<le> n \<and> n < 0xFFFFFFFF80200000"
proof
  assume "n div 2 ^ 39 mod 512 = 511 \<and> n div 2 ^ 30 mod 512 = 510 \<and> n div 2 ^ 21 mod 512 = 0"
  then have "n = n div 2 ^ 48 * 2 ^ 48 + 511 * 2 ^ 39 + 510 * 2 ^ 30 + n div 4096 mod 512 * 4096 + n mod 4096"
    using address_fields [of n] by simp
  with canonical_top [OF assms] field_bounds(4,5) [of n]
  show "0xFFFFFFFF80000000 \<le> n \<and> n < 0xFFFFFFFF80200000" by auto
next
  assume "0xFFFFFFFF80000000 \<le> n \<and> n < 0xFFFFFFFF80200000"
  then have "n div 2 ^ 39 = 33554431" "n div 2 ^ 30 = 17179869182" "n div 2 ^ 21 = 8796093021184"
    by (auto intro: div_nat_eqI)
  then show "n div 2 ^ 39 mod 512 = 511 \<and> n div 2 ^ 30 mod 512 = 510 \<and> n div 2 ^ 21 mod 512 = 0"
    by simp
qed

lemma low_offset: "n < 0x200000 \<Longrightarrow> n div 4096 mod 512 * 4096 + n mod 4096 = n" for n :: nat
proof -
  assume "n < 0x200000"
  then have "n div 4096 < 512" by (simp add: div_less_iff_less_mult)
  then show ?thesis by simp
qed

lemma high_offset:
  fixes n :: nat
  assumes "0xFFFFFFFF80000000 \<le> n" and "n < 0xFFFFFFFF80200000"
  shows "n div 4096 mod 512 * 4096 + n mod 4096 = n - 0xFFFFFFFF80000000"
proof -
  obtain d where n: "n = 0xFFFFFFFF80000000 + d" using assms(1) le_Suc_ex by blast
  with assms(2) have "d < 0x200000" by simp
  moreover have "n div 4096 = 4503599626846208 + d div 4096" "n mod 4096 = d mod 4096"
    using div_mult_self4 [of 4096 4503599626846208 d] mod_mult_self4 [of 4096 4503599626846208 d] n by simp_all
  ultimately show ?thesis using n low_offset [of d] by (simp add: mod_add_left_eq [symmetric])
qed

lemma build_tables_walk:
  assumes "unat ka mod 4096 = 0" and "unat ka + 0x200000 \<le> 2 ^ 32" and "canonical va"
  shows "walk4 (build_tables ka m) 0x10000 va =
    (if unat va < 0x200000 then Some va
     else if 0xFFFFFFFF80000000 \<le> unat va \<and> unat va < 0xFFFFFFFF80200000
     then Some (ucast ka + (va - 0xFFFFFFFF80000000)) else None)"
proof -
  define n where "n = unat va"
  have n64: "n < 2 ^ 64" using unat_u64_less [of va] by (simp add: n_def)
  have canon: "n < 2 ^ 47 \<or> 2 ^ 64 - 2 ^ 47 \<le> n" using assms(3) by (simp add: canonical_def n_def)
  note ranges = low_range [OF n64 canon] high_range [OF n64 canon]
  have "Some (of_nat (n div 4096 mod 512 * 4096 + n mod 4096)) = Some va" if "n < 0x200000"
    using low_offset [OF that] by (simp add: n_def)
  moreover have "of_nat (n div 4096 mod 512 * 4096 + n mod 4096) = va - 0xFFFFFFFF80000000"
    if "0xFFFFFFFF80000000 \<le> n" "n < 0xFFFFFFFF80200000"
  proof -
    have "unat (va - 0xFFFFFFFF80000000) = n - 0xFFFFFFFF80000000"
      using that by (simp add: n_def unat_sub word_le_nat_alt)
    then show ?thesis
      using high_offset [OF that] by (metis of_nat_unat ucast_id)
  qed
  ultimately show ?thesis
    using ranges by (simp add: walk4_tables [OF assms(1,2)] n_def [symmetric])
qed

section \<open>The page tables leave the rest of memory alone\<close>

lemma entry_store_frame:
  fixes x t i :: u32
  assumes "4096 \<le> unat (x - t)" and "unat i < 512"
  shows "store64 m (t + 8 * i) v x = m x"
proof (rule store64_frame)
  fix k :: nat assume k: "k < 8"
  have "unat (8 * i) = 8 * unat i" using assms(2) by (subst unat_mult_lem [THEN iffD1]) auto
  then have off: "unat (8 * i + of_nat k) = 8 * unat i + k"
    using k assms(2) by (simp add: unat_word_ariths unat_of_nat take_bit_eq_mod)
  show "x \<noteq> t + 8 * i + of_nat k"
  proof
    assume "x = t + 8 * i + of_nat k"
    then have "unat (x - t) = 8 * unat i + k" by (simp add: off add.assoc)
    with assms k show False by linarith
  qed
qed

lemma fill_pt_frame:
  assumes "4096 \<le> unat (x - pt)"
  shows "fill_pt m pt start i x = m x"
  using assms
proof (induction m pt start i rule: fill_pt.induct)
  case (1 m pt start i)
  show ?case
  proof (cases "i < 512")
    case True
    then have "unat i < 512" by (simp add: word_less_nat_alt)
    then show ?thesis
      using "1.IH" [OF True "1.prems"] True entry_store_frame [OF "1.prems"]
      by (subst fill_pt.simps) simp
  next
    case False
    then show ?thesis by (subst fill_pt.simps) simp
  qed
qed

lemma build_tables_frame:
  assumes "unat x < 0x10000 \<or> 0x17000 \<le> unat x"
  shows "build_tables ka m x = m x"
proof -
  have far: "4096 \<le> unat (x - t)" if "0x10000 \<le> unat t" "unat t \<le> 0x16000" for t
    using assms that by (auto simp: unat_sub_if')
  have "\<not> x - PAGE_TABLES < 0x7000"
    using assms by (auto simp: word_less_nat_alt unat_sub_if')
  then show ?thesis
    by (simp add: build_tables_def Let_def fill_pt_frame far or_entry_def entry_store_frame [of x _ 0, simplified]
        entry_store_frame [of x _ 511, simplified] entry_store_frame [of x _ 510, simplified] set_loop_eq)
qed

lemma unat_round_ksize:
  assumes "unat n + 4096 \<le> 2 ^ 32"
  shows "unat (round_ksize n) = 4096 * ((unat n + 4095) div 4096)"
proof -
  have m: "unat (n mod 0x1000) = unat n mod 4096" by (simp add: unat_mod)
  have l: "unat n mod 4096 < 4096" by simp
  have "unat (0x1000 - n mod 0x1000) = 4096 - unat n mod 4096"
    using l by (subst unat_sub) (simp_all add: word_le_nat_alt m less_imp_le)
  then have "unat (n + (0x1000 - n mod 0x1000)) = unat n + (4096 - unat n mod 4096)" if "unat n mod 4096 \<noteq> 0"
    using assms l that by (subst unat_add_lem [THEN iffD1]) auto
  moreover have "n mod 0x1000 = 0 \<longleftrightarrow> unat n mod 4096 = 0"
    using m by (simp add: word_unat_eq_iff)
  ultimately show ?thesis
    using page_ceiling [of "unat n"] by (auto simp: round_ksize_def)
qed

lemma find_elf_magic:
  assumes "find_elf disk base = Some s"
  shows "elf_magic (ehdr_at (disk s) 0) \<and>
    (\<forall>i < unat (s - base). \<not> elf_magic (ehdr_at (disk (base + of_nat i)) 0))"
proof (rule find_elf.raw_induct [OF _ assms, where P = "\<lambda>disk base s. elf_magic (ehdr_at (disk s) 0) \<and>
    (\<forall>i < unat (s - base). \<not> elf_magic (ehdr_at (disk (base + of_nat i)) 0))"])
  fix find disk base s
  assume IH: "\<And>disk base s. find disk base = Some s \<Longrightarrow> elf_magic (ehdr_at (disk s) 0) \<and>
      (\<forall>i < unat (s - base). \<not> elf_magic (ehdr_at (disk (base + of_nat i)) 0))"
    and step: "(if elf_magic (ehdr_at (disk base) 0) then Some base else find disk (base + 1)) = Some s"
  show "elf_magic (ehdr_at (disk s) 0) \<and>
    (\<forall>i < unat (s - base). \<not> elf_magic (ehdr_at (disk (base + of_nat i)) 0))"
  proof (cases "elf_magic (ehdr_at (disk base) 0)")
    case False
    with step IH [of disk "base + 1" s] have m: "elf_magic (ehdr_at (disk s) 0)"
      and less: "\<And>i. i < unat (s - (base + 1)) \<Longrightarrow> \<not> elf_magic (ehdr_at (disk (base + 1 + of_nat i)) 0)"
      by auto
    have "s - base \<noteq> 0" using m False by auto
    then have pre: "unat (s - (base + 1)) = unat (s - base) - 1"
      by (simp add: diff_diff_eq [symmetric] unat_minus_one)
    have "\<not> elf_magic (ehdr_at (disk (base + of_nat i)) 0)" if "i < unat (s - base)" for i
    proof (cases i)
      case (Suc j)
      then show ?thesis using less [of j] pre that by (simp add: ac_simps)
    qed (use False in simp)
    with m show ?thesis by blast
  qed (use step in auto)
qed

lemma find_elf_None: "find_elf disk base = None \<longleftrightarrow> (\<forall>s. \<not> elf_magic (ehdr_at (disk s) 0))"
proof
  assume none: "find_elf disk base = None"
  show "\<forall>s. \<not> elf_magic (ehdr_at (disk s) 0)"
  proof (intro allI notI)
    fix s assume s: "elf_magic (ehdr_at (disk s) 0)"
    let ?P = "\<lambda>n. elf_magic (ehdr_at (disk (base + of_nat n)) 0)"
    have "?P (unat (s - base))" using s by simp
    then have "?P (LEAST n. ?P n)" by (rule LeastI)
    moreover have "find_elf disk base = find_elf disk (base + of_nat (LEAST n. ?P n))"
      by (rule find_elf_skip) (rule not_less_Least)
    ultimately show False using none by (simp add: find_elf_at [of disk "base + _"])
  qed
next
  assume "\<forall>s. \<not> elf_magic (ehdr_at (disk s) 0)"
  then show "find_elf disk base = None"
    using find_elf_magic [of disk base] by (cases "find_elf disk base") auto
qed

lemma kernel_va:
  assumes "k < 0x200000"
  shows "unat (0xFFFFFFFF80000000 + of_nat k :: u64) = 0xFFFFFFFF80000000 + k"
    and "canonical (0xFFFFFFFF80000000 + of_nat k)"
proof -
  show u: "unat (0xFFFFFFFF80000000 + of_nat k :: u64) = 0xFFFFFFFF80000000 + k"
    using assms by (simp add: unat_word_ariths unat_of_nat take_bit_eq_mod)
  show "canonical (0xFFFFFFFF80000000 + of_nat k)" by (simp add: canonical_def u)
qed

lemma unat_kernel_pa:
  fixes ka :: u32
  assumes "unat ka + 0x200000 \<le> 2 ^ 32" and "k < 0x200000"
  shows "unat (ka + of_nat k) = unat ka + k" and "unat (ucast ka + of_nat k :: u64) = unat ka + k"
  using assms by (simp_all add: unat_word_ariths unat_of_nat take_bit_eq_mod)

lemma kernel_page:
  assumes ka: "unat ka mod 4096 = 0" "unat ka + 0x200000 \<le> 2 ^ 32" and k: "k < 0x200000"
  shows "walk4 (build_tables ka m) 0x10000 (0xFFFFFFFF80000000 + of_nat k) = Some (ucast ka + of_nat k)"
  using build_tables_walk [OF ka kernel_va(2) [OF k]] kernel_va(1) [OF k] k by simp

lemma stage2_loads:
  assumes find: "find_elf disk 1 = Some base"
    and hdr: "unat (e_phoff (ehdr_at (disk base) 0)) + 56 \<le> 512"
    and ph: "ph = phdr_at (disk base) (ucast (e_phoff (ehdr_at (disk base) 0)))"
    and sz: "p_memsz ph \<noteq> 0" "unat (p_memsz ph) \<le> 0x200000" "p_filesz ph \<le> p_memsz ph"
    and map: "\<forall>e \<in> set e820. in_space e"
      "\<forall>e \<in> set e820. rtype e = USABLE \<longrightarrow> unat (address e) mod 4096 = 0"
      "usable e820 \<subseteq> {..< 2 ^ 32 - 0x200000}" "length e820 < 2 ^ 32"
    and room: "e \<in> set e820" "rtype e = USABLE" "0x100000 \<le> unat (address e)"
      "unat (p_memsz ph) + 4095 \<le> unat (rsize e)"
  obtains m1 tab boot' where "stage2 disk e820 m boot = Some (Ok (build_tables (kaddr boot') m1, tab, boot'))"
    and "\<And>k. k < unat (p_memsz ph) \<Longrightarrow> m1 (kaddr boot' + of_nat k) = segment_byte disk base ph k"
    and "{unat (kaddr boot') ..< unat (kaddr boot') + unat (p_memsz ph)} \<subseteq> usable e820 - {..< 0x100000}"
    and "unat (kaddr boot') mod 4096 = 0" and "unat (kaddr boot') + 0x200000 \<le> 2 ^ 32"
proof -
  let ?n = "unat (p_memsz ph)"
  have u: "unat (ucast (p_memsz ph) :: u32) = ?n"
    using sz(2) by (simp add: unsigned_ucast_eq take_bit_nat_eq_self)
  have k: "unat (round_ksize (ucast (p_memsz ph))) = 4096 * ((?n + 4095) div 4096)"
    using sz(2) by (subst unat_round_ksize) (simp_all add: u)
  have n0: "0 < ?n" using sz(1) by (simp add: unat_gt_0)
  have ge: "?n \<le> 4096 * ((?n + 4095) div 4096)"
    using page_ceiling_le_iff [of ?n "(?n + 4095) div 4096"] by simp
  have le: "4096 * ((?n + 4095) div 4096) \<le> ?n + 4095" by (rule times_div_less_eq_dividend)
  let ?boot = "boot\<lparr>ksize := round_ksize (ucast (p_memsz ph))\<rparr>"
  have k0: "ksize ?boot \<noteq> 0" using k ge n0 by (auto simp: word_unat_eq_iff)
  have "\<exists>tab boot'. mmap e820 ?boot = Ok (tab, boot')"
    using k le room(4) by (intro mmap_returns [OF map(1,2,4) _ k0 room(1-3)]) simp_all
  then obtain tab boot' where mm: "mmap e820 ?boot = Ok (tab, boot')" by blast
  have below: "usable e820 \<subseteq> {..< 2 ^ 32}" using map(3) by auto
  from mmap_slot [OF map(1,2) below map(4) k0 mm]
  have slot: "{unat (kaddr boot') ..< unat (kaddr boot') + ?n} \<subseteq> usable e820 - {..< 0x100000}"
    and al: "unat (kaddr boot') mod 4096 = 0"
    using k ge by (auto dest!: subsetD)
  have "unat (kaddr boot') \<in> usable e820 - {..< 0x100000}" using n0 by (intro subsetD [OF slot]) simp
  then have top: "unat (kaddr boot') + 0x200000 \<le> 2 ^ 32" using map(3) by auto
  have f: "unat (p_filesz ph) + 512 < 2 ^ 32" "?n < 2 ^ 32"
    using sz(2,3) by (auto simp: word_le_nat_alt)
  from load_segment_bytes [OF f, of disk base "kaddr boot'" m]
  obtain m1 where l: "load_segment disk base ph (kaddr boot') m = Some m1"
    and b: "\<And>k. m1 (kaddr boot' + k) =
      (if unat k < 512 * (unat (p_filesz ph) div 512 + 1) then file_byte disk (segment_sector base ph) k
       else if unat k < ?n then 0 else m (kaddr boot' + k))"
    unfolding segment_sector_def by blast
  have "stage2 disk e820 m boot = Some (Ok (build_tables (kaddr boot') m1, tab, boot'))"
    using hdr mm l unfolding ph by (simp add: stage2_def find Let_def)
  moreover have "m1 (kaddr boot' + of_nat k) = segment_byte disk base ph k" if "k < ?n" for k
  proof -
    have "unat (of_nat k :: u32) = k" using that sz(2) by (simp add: unat_of_nat take_bit_nat_eq_self)
    then show ?thesis using that b [of "of_nat k"] by (simp add: segment_byte_def)
  qed
  ultimately show thesis using slot al top by (rule that)
qed

section \<open>Properties of the loader\<close>

text \<open>
  The page tables the loader builds translate exactly two ranges: the first 2 MiB to
  themselves, and the 2 MiB at \<open>0xFFFFFFFF80000000\<close>, where the kernel is linked, to the
  physical slot at \<^verbatim>\<open>boot.kaddr\<close>. Every other canonical address is unmapped.
\<close>

theorem build_tables_translate:
  assumes "unat ka mod 4096 = 0" and "unat ka + 0x200000 \<le> 2 ^ 32" and "canonical va"
  shows "walk4 (build_tables ka m) 0x10000 va =
    (if unat va < 0x200000 then Some va
     else if 0xFFFFFFFF80000000 \<le> unat va \<and> unat va < 0xFFFFFFFF80200000
     then Some (ucast ka + (va - 0xFFFFFFFF80000000)) else None)"
  using assms by (rule build_tables_walk)

theorem build_tables_translate_witness:
  "walk4 (build_tables 0x100000 (\<lambda>_. 0xFF)) 0x10000 0xFFFFFFFF80001234 = Some 0x101234"
  using build_tables_translate [of "0x100000" "0xFFFFFFFF80001234" "\<lambda>_. 0xFF"]
  by (simp add: canonical_def)

text \<open>
  C7. The search for the kernel image: it runs forever exactly when no sector of the disk
  starts with the ELF magic number; otherwise it stops at the first such sector after the boot
  sector, counting upwards on 32 bits.
\<close>

theorem find_elf_first:
  "(find_elf disk 1 = None \<longleftrightarrow> (\<forall>s. \<not> elf_magic (ehdr_at (disk s) 0))) \<and>
   (\<forall>s. find_elf disk 1 = Some s \<longrightarrow> elf_magic (ehdr_at (disk s) 0) \<and>
     (\<forall>i < unat (s - 1). \<not> elf_magic (ehdr_at (disk (1 + of_nat i)) 0)))"
  using find_elf_None find_elf_magic by blast

lemma sample_disk_magic: "elf_magic (ehdr_at (sample_disk 3) 0)"
  "\<not> elf_magic (ehdr_at (sample_disk 1) 0)" "\<not> elf_magic (ehdr_at (sample_disk 2) 0)"
  by (simp_all add: sample_disk_def elf_magic_def ehdr_at_def upt_rec)

lemma find_elf_sample: "find_elf sample_disk 1 = Some 3"
  by (simp add: find_elf_at sample_disk_magic)

lemma find_elf_first_witness:
  "find_elf sample_disk 1 = Some 3 \<and> elf_magic (ehdr_at (sample_disk 3) 0)
   \<and> \<not> elf_magic (ehdr_at (sample_disk 1) 0) \<and> \<not> elf_magic (ehdr_at (sample_disk 2) 0)"
proof -
  have first: "elf_magic (ehdr_at (sample_disk 3) 0)
      \<and> (\<forall>i < unat (3 - 1 :: u32). \<not> elf_magic (ehdr_at (sample_disk (1 + of_nat i)) 0))"
    using find_elf_first [of sample_disk] find_elf_sample by blast
  have "\<not> elf_magic (ehdr_at (sample_disk (1 + of_nat 0)) 0)" "\<not> elf_magic (ehdr_at (sample_disk (1 + of_nat 1)) 0)"
    by (rule first [THEN conjunct2, rule_format], simp)+
  with first find_elf_sample show ?thesis by simp
qed

text \<open>
  C6. The segment copy always ends for a segment of less than 4 GiB, and writes the file's bytes
  up to the end of the sector that holds byte \<^verbatim>\<open>p_filesz\<close> (one whole sector too many when the
  size is a multiple of 512), zeros from there to \<^verbatim>\<open>p_memsz\<close>, and nothing else.
\<close>

theorem load_segment_image:
  assumes "unat (p_filesz ph) + 512 < 2 ^ 32" and "unat (p_memsz ph) < 2 ^ 32"
  shows "\<exists>m'. load_segment disk base ph ka m = Some m' \<and>
    (\<forall>k. m' (ka + k) =
      (if unat k < 512 * (unat (p_filesz ph) div 512 + 1)
       then disk (ucast (ucast base + p_offset ph div 512 :: u64) + k div 512) (k mod 512)
       else if unat k < unat (p_memsz ph) then 0 else m (ka + k)))"
  using load_segment_bytes [OF assms] unfolding file_byte_def .

lemma sample_phdr: "e_phoff (ehdr_at (sample_disk 3) 0) = 64"
  "p_filesz (phdr_at (sample_disk 3) 64) = 0x1000" "p_memsz (phdr_at (sample_disk 3) 64) = 0x2000"
  "p_offset (phdr_at (sample_disk 3) 64) = 0x1000"
  by (simp_all add: ehdr_at_def phdr_at_def load64_def load32_def sample_disk_def)

theorem load_segment_image_witness:
  "\<exists>m'. load_segment sample_disk 3 (phdr_at (sample_disk 3) 64) 0x100000 (\<lambda>_. 1) = Some m'
    \<and> m' 0x100000 = 11 \<and> m' 0x101000 = 19 \<and> m' 0x101200 = 0"
proof -
  have "\<exists>m'. load_segment sample_disk 3 (phdr_at (sample_disk 3) 64) 0x100000 (\<lambda>_. 1) = Some m' \<and>
    (\<forall>k. m' (0x100000 + k) =
      (if unat k < 512 * (unat (0x1000 :: u64) div 512 + 1)
       then sample_disk (ucast (ucast (3 :: u32) + 0x1000 div 512 :: u64) + k div 512) (k mod 512)
       else if unat k < unat (0x2000 :: u64) then 0 else 1))"
    using load_segment_image [of "phdr_at (sample_disk 3) 64" sample_disk 3 "0x100000" "\<lambda>_. 1"]
    by (simp add: sample_phdr cong: if_cong)
  then obtain m' where r: "load_segment sample_disk 3 (phdr_at (sample_disk 3) 64) 0x100000 (\<lambda>_. 1) = Some m'"
    and b: "\<And>k. m' (0x100000 + k) =
      (if unat k < 512 * (unat (0x1000 :: u64) div 512 + 1)
       then sample_disk (ucast (ucast (3 :: u32) + 0x1000 div 512 :: u64) + k div 512) (k mod 512)
       else if unat k < unat (0x2000 :: u64) then 0 else 1)" by blast
  show ?thesis
    using r b [of 0] b [of "0x1000"] b [of "0x1200"] by (simp add: sample_disk_def)
qed

text \<open>
  C5. The whole second stage: when the disk holds an ELF image whose program header lies in its
  first sector and whose segment fits the 2 MiB window, and some usable region above 1 MiB has
  room, the loader reaches \<^verbatim>\<open>init_kernel\<close>; the page tables it hands over map the kernel's
  link address \<open>0xFFFFFFFF80000000\<close> to usable memory that holds the file's bytes sector by
  sector and zeros after the last sector read.
\<close>

theorem stage2_kernel_mapped:
  assumes "find_elf disk 1 = Some base"
    and "unat (e_phoff (ehdr_at (disk base) 0)) + 56 \<le> 512"
    and "ph = phdr_at (disk base) (ucast (e_phoff (ehdr_at (disk base) 0)))"
    and "p_memsz ph \<noteq> 0" and "unat (p_memsz ph) \<le> 0x200000" and "p_filesz ph \<le> p_memsz ph"
    and "\<forall>e \<in> set e820. in_space e"
    and "\<forall>e \<in> set e820. rtype e = USABLE \<longrightarrow> unat (address e) mod 4096 = 0"
    and "usable e820 \<subseteq> {..< 2 ^ 32 - 0x200000}" and "length e820 < 2 ^ 32"
    and "e \<in> set e820" and "rtype e = USABLE" and "0x100000 \<le> unat (address e)"
    and "unat (p_memsz ph) + 4095 \<le> unat (rsize e)"
  shows "\<exists>m' tab boot'. stage2 disk e820 m boot = Some (Ok (m', tab, boot')) \<and>
    (\<forall>k < unat (p_memsz ph). \<exists>pa. walk4 m' 0x10000 (0xFFFFFFFF80000000 + of_nat k) = Some pa
       \<and> unat pa \<in> usable e820 - {..< 0x100000}
       \<and> m' (ucast pa) =
          (if k < 512 * (unat (p_filesz ph) div 512 + 1)
           then disk (ucast (ucast base + p_offset ph div 512 :: u64) + of_nat k div 512) (of_nat k mod 512)
           else 0))"
proof -
  from stage2_loads [OF assms, of m boot] obtain m1 tab boot'
    where st: "stage2 disk e820 m boot = Some (Ok (build_tables (kaddr boot') m1, tab, boot'))"
    and bytes: "\<And>k. k < unat (p_memsz ph) \<Longrightarrow> m1 (kaddr boot' + of_nat k) = segment_byte disk base ph k"
    and slot: "{unat (kaddr boot') ..< unat (kaddr boot') + unat (p_memsz ph)} \<subseteq> usable e820 - {..< 0x100000}"
    and ka: "unat (kaddr boot') mod 4096 = 0" "unat (kaddr boot') + 0x200000 \<le> 2 ^ 32"
    by metis
  let ?m = "build_tables (kaddr boot') m1"
  have "\<exists>pa. walk4 ?m 0x10000 (0xFFFFFFFF80000000 + of_nat k) = Some pa
       \<and> unat pa \<in> usable e820 - {..< 0x100000} \<and> ?m (ucast pa) = segment_byte disk base ph k"
    if k: "k < unat (p_memsz ph)" for k
  proof -
    have k2: "k < 0x200000" using k assms(5) by simp
    note pa = unat_kernel_pa [OF ka(2) k2]
    let ?pa = "ucast (kaddr boot') + of_nat k :: u64"
    have mem: "unat ?pa \<in> usable e820 - {..< 0x100000}" unfolding pa using k by (intro subsetD [OF slot]) simp
    have c: "(ucast ?pa :: u32) = kaddr boot' + of_nat k"
      using ka(2) k2 by (simp add: word_unat_eq_iff [of "ucast _"] unsigned_ucast_eq pa take_bit_nat_eq_self)
    have "?m (ucast ?pa) = m1 (kaddr boot' + of_nat k)"
      unfolding c using mem by (intro build_tables_frame) (auto simp: pa)
    then show ?thesis using kernel_page [OF ka k2] mem bytes [OF k] by auto
  qed
  with st show ?thesis unfolding segment_byte_def segment_sector_def file_byte_def by blast
qed

lemma sample_slot: "firmware_map ! 2 \<in> set firmware_map" "rtype (firmware_map ! 2) = 1"
  "address (firmware_map ! 2) = 0x100000" "rsize (firmware_map ! 2) = 0x500000"
  by (simp_all add: firmware_map_def)

theorem stage2_kernel_mapped_witness:
  "\<exists>m' tab boot'. stage2 sample_disk firmware_map (\<lambda>_. 0) boot0 = Some (Ok (m', tab, boot')) \<and>
    (\<exists>pa. walk4 m' 0x10000 0xFFFFFFFF80000000 = Some pa \<and> m' (ucast pa) = 11)"
proof -
  have ok: "usable firmware_map \<subseteq> {..< 2 ^ 32 - 0x200000}"
    by (auto simp: firmware_map_def usable_def region_def)
  have "unat (e_phoff (ehdr_at (sample_disk 3) 0)) + 56 \<le> 512" by (simp add: sample_phdr)
  note run = stage2_kernel_mapped [OF find_elf_sample this, where ph = "phdr_at (sample_disk 3) 64"
      and ?e820.0 = firmware_map and e = "firmware_map ! 2" and m = "\<lambda>_. 0" and boot = boot0]
  have "\<exists>m' tab boot'. stage2 sample_disk firmware_map (\<lambda>_. 0) boot0 = Some (Ok (m', tab, boot')) \<and>
    (\<forall>k < 0x2000. \<exists>pa. walk4 m' 0x10000 (0xFFFFFFFF80000000 + of_nat k) = Some pa
       \<and> unat pa \<in> usable firmware_map - {..< 0x100000}
       \<and> m' (ucast pa) = (if k < 512 * (0x1000 div 512 + 1)
           then sample_disk (11 + of_nat k div 512) (of_nat k mod 512) else 0))"
    using run ok firmware_map_ok(1,2,4) by (simp add: sample_phdr sample_slot cong: if_cong)
  then obtain m' tab boot' where r: "stage2 sample_disk firmware_map (\<lambda>_. 0) boot0 = Some (Ok (m', tab, boot'))"
    and b: "\<forall>k < 0x2000. \<exists>pa. walk4 m' 0x10000 (0xFFFFFFFF80000000 + of_nat k) = Some pa
       \<and> unat pa \<in> usable firmware_map - {..< 0x100000}
       \<and> m' (ucast pa) = (if k < 512 * (0x1000 div 512 + 1)
           then sample_disk (11 + of_nat k div 512) (of_nat k mod 512) else 0)" by blast
  show ?thesis using r b [rule_format, of 0] by (auto simp: sample_disk_def)
qed

text \<open>
  The slot is one sector short: when the segment has no bss and its size is a multiple of
  the page size, \<^verbatim>\<open>boot.ksize\<close> is that size, and the loader still overwrites the 512 bytes
  after the slot with the next sector of the disk.
\<close>

theorem load_segment_overruns_slot:
  assumes "p_filesz ph = p_memsz ph" and "unat (p_memsz ph) mod 4096 = 0" and "unat (p_memsz ph) + 4096 < 2 ^ 32"
  shows "unat (round_ksize (ucast (p_memsz ph))) = unat (p_memsz ph) \<and>
    (\<exists>m'. load_segment disk base ph ka m = Some m' \<and>
      (\<forall>k < 512. m' (ka + round_ksize (ucast (p_memsz ph)) + k) =
        disk (ucast (ucast base + p_offset ph div 512 :: u64) + ucast (p_memsz ph) div 512) k))"
proof -
  let ?n = "unat (p_memsz ph)"
  have u: "unat (ucast (p_memsz ph) :: u32) = ?n"
    using assms(3) by (simp add: unsigned_ucast_eq take_bit_nat_eq_self)
  have "unat (ucast (p_memsz ph) mod 0x1000 :: u32) = 0" using assms(2) by (simp add: unat_mod u)
  then have "ucast (p_memsz ph) mod 0x1000 = (0 :: u32)" by (simp only: unat_eq_zero)
  then have r: "round_ksize (ucast (p_memsz ph)) = ucast (p_memsz ph)"
    by (simp add: round_ksize_def)
  obtain q where q: "?n = 512 * q" using assms(2) by (auto simp: mod_eq_0_iff_dvd elim!: dvdE)
  from assms have "unat (p_filesz ph) + 512 < 2 ^ 32" "?n < 2 ^ 32" by simp_all
  from load_segment_bytes [OF this, of disk base ka m]
  obtain m' where l: "load_segment disk base ph ka m = Some m'"
    and b: "\<And>k. m' (ka + k) = (if unat k < 512 * (unat (p_filesz ph) div 512 + 1)
       then file_byte disk (ucast (ucast base + p_offset ph div 512 :: u64)) k
       else if unat k < ?n then 0 else m (ka + k))" by blast
  have "m' (ka + ucast (p_memsz ph) + k) =
      disk (ucast (ucast base + p_offset ph div 512 :: u64) + ucast (p_memsz ph) div 512) k" if "k < 512" for k
  proof -
    have s: "unat (ucast (p_memsz ph) + k) = ?n + unat k" and k: "unat k < 512"
      using that assms(3) u by (auto simp: word_less_nat_alt unat_add_lem [THEN iffD1])
    have "512 dvd unat (ucast (p_memsz ph) :: u32)" using q u by simp
    from sector_split [OF this, of "ucast (p_memsz ph) + k"] s k u
    have "(ucast (p_memsz ph) + k) div 512 = ucast (p_memsz ph) div 512" "(ucast (p_memsz ph) + k) mod 512 = k"
      by simp_all
    then show ?thesis using b [of "ucast (p_memsz ph) + k"] s k q assms(1) by (simp add: add.assoc file_byte_def)
  qed
  with l r u show ?thesis by auto
qed

theorem load_segment_overruns_slot_witness:
  "\<exists>m'. load_segment sample_disk 3 flat_phdr 0x100000 (\<lambda>_. 0) = Some m' \<and> m' 0x101000 = 19"
proof -
  obtain m' where r: "load_segment sample_disk 3 flat_phdr 0x100000 (\<lambda>_. 0) = Some m'"
    and b: "\<forall>k < 512. m' (0x101000 + k) = sample_disk 19 k"
    using load_segment_overruns_slot [of flat_phdr sample_disk 3 "0x100000" "\<lambda>_. 0"]
    by (auto simp: flat_phdr_def sample_phdr round_ksize_def)
  have "m' 0x101000 = sample_disk 19 0" using b [rule_format, of 0] by simp
  with r show ?thesis by (simp add: sample_disk_def)
qed

end
