(* ===== verification/Pmm.thy ===== *)
theory Pmm
  imports Prelude
begin

text \<open>
  The physical page-frame allocator of BarrelOS (\<^verbatim>\<open>barrelOS/kernel/pmm.c\<close>). Its state is the
  array \<^verbatim>\<open>pf_bitmap\<close> of \<open>0x8000\<close> 32-bit words, one bit per 4 KiB frame of the 32-bit physical
  address space. The locale \<open>frame_allocator\<close> is the contract its clients (the page-table code)
  rely on; it is interpreted on the bitmap at the end of the theory.
\<close>

section \<open>Operations\<close>

type_synonym bitmap = "u32 \<Rightarrow> u32"

definition puse :: "u32 \<Rightarrow> bitmap \<Rightarrow> bitmap" where
  "puse paddr pf_bitmap =
     (let page = paddr div 0x1000;
          shift = ucast (page mod 32) :: u8;
          index = page div 32
      in pf_bitmap(index := pf_bitmap index OR push_bit (unat shift) 1))"

definition pfree :: "u32 \<Rightarrow> bitmap \<Rightarrow> bitmap" where
  "pfree paddr pf_bitmap =
     (let page = paddr div 0x1000;
          shift = ucast (page mod 32) :: u8;
          index = page div 32
      in pf_bitmap(index := pf_bitmap index AND NOT (push_bit (unat shift) 1)))"

text \<open>\<^verbatim>\<open>for (void* i = 0; i < 0x800000; i += 0x1000) puse(i);\<close>\<close>

function reserve_loop :: "u32 \<Rightarrow> bitmap \<Rightarrow> bitmap" where
  "reserve_loop i pf_bitmap =
     (if i < 0x800000 then reserve_loop (i + 0x1000) (puse i pf_bitmap) else pf_bitmap)"
  by pat_completeness auto
termination
proof (relation "measure (\<lambda>(i, bm). 0x800000 - unat i)")
  fix i :: u32 and bm :: bitmap
  assume "i < 0x800000"
  then have "unat (i + 0x1000) = unat i + 0x1000" "unat i < 0x800000"
    by (simp_all add: word_less_nat_alt unat_add_lem [THEN iffD1])
  then show "((i + 0x1000, puse i bm), (i, bm)) \<in> measure (\<lambda>(i, bm). 0x800000 - unat i)" by simp
qed simp

declare reserve_loop.simps [simp del]

text \<open>\<^verbatim>\<open>mem_set(pf_bitmap, 0, 0x20000)\<close> clears the \<open>0x8000\<close> words of the array.\<close>

definition init_pf_bitmap :: "bitmap \<Rightarrow> bitmap" where
  "init_pf_bitmap pf_bitmap = reserve_loop 0 (\<lambda>i. if i < 0x8000 then 0 else pf_bitmap i)"

text \<open>The first loop of \<^verbatim>\<open>pmalloc\<close>: the index of a word that is not full.\<close>

function free_word :: "bitmap \<Rightarrow> u32 \<Rightarrow> u32 option" where
  "free_word pf_bitmap i =
     (if i < 0x8000 then (if pf_bitmap i \<noteq> 0xFFFFFFFF then Some i else free_word pf_bitmap (i + 1))
      else None)"
  by pat_completeness auto
termination
  by (relation "measure (\<lambda>(bm, i). 0x8000 - unat i)") (auto dest!: counter_decreases)

declare free_word.simps [simp del]

text \<open>The second loop; a shift of a 32-bit value by 32 or more is undefined in C.\<close>

function free_bit :: "u32 \<Rightarrow> u8 \<Rightarrow> u8 outcome" where
  "free_bit w shift =
     (if shift < 32
      then (if drop_bit (unat shift) (NOT w) AND 1 = 1 then Ok shift else free_bit w (shift + 1))
      else Halt (Undefined ''shift''))"
  by pat_completeness auto
termination
  by (relation "measure (\<lambda>(w, shift). 32 - unat shift)") (auto dest!: counter_decreases)

declare free_bit.simps [simp del]

definition pmalloc :: "bitmap \<Rightarrow> (u32 \<times> bitmap) outcome" where
  "pmalloc pf_bitmap =
     (case free_word pf_bitmap 0 of
        None \<Rightarrow> Halt (KPanic ''Out of memory!'')
      | Some i \<Rightarrow>
          bind_ok (free_bit (pf_bitmap i) 0) (\<lambda>shift.
            let page = i * 32 + ucast shift;
                paddr = page * 0x1000
            in Ok (paddr, puse paddr pf_bitmap)))"

section \<open>Specification\<close>

text \<open>The frames in use: bit \<open>p mod 32\<close> of word \<open>p div 32\<close>.\<close>

definition in_use :: "bitmap \<Rightarrow> nat \<Rightarrow> bool" where
  "in_use bm p \<longleftrightarrow> bit (bm (of_nat (p div 32))) (p mod 32)"

definition used_frames :: "bitmap \<Rightarrow> nat set" where
  "used_frames bm = {p. p < 0x100000 \<and> in_use bm p}"

definition frame_of :: "u32 \<Rightarrow> nat" where
  "frame_of paddr = unat paddr div 4096"

text \<open>\<open>n\<close> allocations in a row.\<close>

fun alloc_seq :: "('s \<Rightarrow> (u32 \<times> 's) outcome) \<Rightarrow> nat \<Rightarrow> 's \<Rightarrow> (u32 list \<times> 's) outcome" where
  "alloc_seq alloc 0 s = Ok ([], s)"
| "alloc_seq alloc (Suc n) s =
     bind_ok (alloc s) (\<lambda>(a, s1). bind_ok (alloc_seq alloc n s1) (\<lambda>(as, s2). Ok (a # as, s2)))"

section \<open>The contract\<close>

locale frame_allocator =
  fixes alloc :: "'s \<Rightarrow> (u32 \<times> 's) outcome"
    and release :: "u32 \<Rightarrow> 's \<Rightarrow> 's"
    and used :: "'s \<Rightarrow> nat set"
  assumes alloc_Ok: "alloc s = Ok (a, s') \<Longrightarrow>
      unat a mod 4096 = 0 \<and> frame_of a \<notin> used s \<and> used s' = insert (frame_of a) (used s)"
    and alloc_total: "used s \<noteq> {..< 0x100000} \<Longrightarrow> \<exists>a s'. alloc s = Ok (a, s')"
    and used_bound: "used s \<subseteq> {..< 0x100000}"
    and release_used: "used (release a s) = used s - {frame_of a}"
begin

lemma alloc_fails: "alloc s = Halt h \<Longrightarrow> used s = {..< 0x100000}"
  using alloc_total [of s] by auto

lemma finite_used: "finite (used s)"
  using used_bound finite_subset by blast

lemma alloc_pages_disjoint:
  assumes "alloc s = Ok (a, s')" and "p \<in> used s"
  shows "{4096 * p ..< 4096 * p + 4096} \<inter> {unat a ..< unat a + 4096} = {}"
proof -
  have "unat a = 4096 * frame_of a" "frame_of a \<noteq> p"
    using alloc_Ok [OF assms(1)] assms(2) by (auto simp: frame_of_def mod_eq_0_iff_dvd)
  then consider "frame_of a + 1 \<le> p" | "p + 1 \<le> frame_of a" by linarith
  then show ?thesis using \<open>unat a = _\<close> by cases auto
qed

lemma release_alloc: "alloc s = Ok (a, s') \<Longrightarrow> used (release a s') = used s"
  using alloc_Ok [of s a s'] by (simp add: release_used)

lemma alloc_seq_Ok:
  assumes "alloc_seq alloc n s = Ok (as, s')"
  shows "length as = n \<and> distinct (map frame_of as) \<and> set (map frame_of as) \<inter> used s = {}
    \<and> used s' = used s \<union> set (map frame_of as) \<and> (\<forall>a \<in> set as. unat a mod 4096 = 0)"
  using assms
proof (induction n arbitrary: s as)
  case (Suc n)
  then obtain a s1 bs where a: "alloc s = Ok (a, s1)" and r: "alloc_seq alloc n s1 = Ok (bs, s')" "as = a # bs"
    by auto
  from alloc_Ok [OF a] Suc.IH [OF r(1)] show ?case unfolding r(2) by auto
qed simp

lemma alloc_seq_total:
  assumes "card (used s) + n \<le> 0x100000"
  shows "\<exists>as s'. alloc_seq alloc n s = Ok (as, s')"
  using assms
proof (induction n arbitrary: s)
  case (Suc n)
  have "used s \<noteq> {..< 0x100000}"
  proof
    assume "used s = {..< 0x100000}"
    then have "card (used s) = 0x100000" by (simp only: card_lessThan)
    with Suc.prems show False by linarith
  qed
  then obtain a s1 where a: "alloc s = Ok (a, s1)" using alloc_total by blast
  have "card (used s1) = card (used s) + 1"
    using alloc_Ok [OF a] finite_used [of s] by simp
  then obtain as s' where "alloc_seq alloc n s1 = Ok (as, s')" using Suc.IH [of s1] Suc.prems by auto
  then show ?case using a by simp
qed simp

end

section \<open>Bits of the map\<close>

lemma frame_bits:
  fixes paddr :: u32
  defines "f \<equiv> frame_of paddr"
  shows "paddr div 0x1000 div 32 = of_nat (f div 32)"
    and "unat (ucast (paddr div 0x1000 mod 32) :: u8) = f mod 32" and "f < 0x100000"
proof -
  have page: "unat (paddr div 0x1000) = f" by (simp add: f_def frame_of_def unat_div)
  show "f < 0x100000"
    using unat_u32_less [of paddr] by (simp add: f_def frame_of_def div_less_iff_less_mult)
  then have "unat (of_nat (f div 32) :: u32) = f div 32"
    by (simp add: unat_of_nat take_bit_nat_eq_self order_le_less_trans [OF div_le_dividend])
  moreover have "unat (paddr div 0x1000 div 32) = f div 32"
    by (simp only: unat_div [of "paddr div 0x1000"] page) simp
  ultimately show "paddr div 0x1000 div 32 = of_nat (f div 32)" by (simp add: word_unat_eq_iff)
  have "f mod 32 < 32" by simp
  then have "f mod 32 < 256" by linarith
  then show "unat (ucast (paddr div 0x1000 mod 32) :: u8) = f mod 32"
    by (simp add: unsigned_ucast_eq unat_mod page take_bit_nat_eq_self)
qed

lemma word_index_eq_iff:
  assumes "p < 0x100000" and "q < 0x100000"
  shows "(of_nat (p div 32) :: u32) = of_nat (q div 32) \<longleftrightarrow> p div 32 = q div 32"
proof -
  have "unat (of_nat (x div 32) :: u32) = x div 32" if "x < 0x100000" for x
    using that by (simp add: unat_of_nat take_bit_nat_eq_self order_le_less_trans [OF div_le_dividend])
  then show ?thesis using assms by (metis word_unat_eq_iff)
qed

lemma same_frame_iff: "p div 32 = q div 32 \<and> p mod 32 = q mod 32 \<longleftrightarrow> p = q" for p q :: nat
  by (metis div_mult_mod_eq)

lemma in_use_puse:
  assumes "p < 0x100000"
  shows "in_use (puse paddr bm) p \<longleftrightarrow> p = frame_of paddr \<or> in_use bm p"
proof -
  have "p mod 32 < 32" by simp
  then show ?thesis
    using word_index_eq_iff [OF assms frame_bits(3) [of paddr]] same_frame_iff [of p "frame_of paddr"]
    by (auto simp: in_use_def puse_def Let_def frame_bits bit_simps bit_1_iff)
qed

lemma in_use_pfree:
  assumes "p < 0x100000"
  shows "in_use (pfree paddr bm) p \<longleftrightarrow> p \<noteq> frame_of paddr \<and> in_use bm p"
proof -
  have "p mod 32 < 32" by simp
  then show ?thesis
    using word_index_eq_iff [OF assms frame_bits(3) [of paddr]] same_frame_iff [of p "frame_of paddr"]
    by (auto simp: in_use_def pfree_def Let_def frame_bits bit_simps bit_1_iff)
qed

lemma used_frames_puse: "used_frames (puse paddr bm) = insert (frame_of paddr) (used_frames bm)"
  using frame_bits(3) [of paddr] by (auto simp: used_frames_def in_use_puse)

lemma used_frames_pfree: "used_frames (pfree paddr bm) = used_frames bm - {frame_of paddr}"
  by (auto simp: used_frames_def in_use_pfree)

section \<open>The two search loops\<close>

lemma free_word_Some:
  "free_word bm i = Some j \<Longrightarrow> i \<le> j \<and> j < 0x8000 \<and> bm j \<noteq> 0xFFFFFFFF
    \<and> (\<forall>k. i \<le> k \<and> k < j \<longrightarrow> bm k = 0xFFFFFFFF)"
proof (induction bm i rule: free_word.induct)
  case (1 bm i)
  show ?case
  proof (cases "i < 0x8000 \<and> bm i = 0xFFFFFFFF")
    case True
    then have rec: "free_word bm (i + 1) = Some j"
      using "1.prems" by (subst (asm) free_word.simps) simp
    from "1.IH" True rec have
      "i + 1 \<le> j \<and> j < 0x8000 \<and> bm j \<noteq> 0xFFFFFFFF \<and> (\<forall>k. i + 1 \<le> k \<and> k < j \<longrightarrow> bm k = 0xFFFFFFFF)" by simp
    then show ?thesis
      using True word_between_inc [of i "0x8000"] by (auto simp: le_less)
  next
    case False
    then have "i < 0x8000" "bm i \<noteq> 0xFFFFFFFF" "j = i"
      using "1.prems" by (subst (asm) free_word.simps, simp split: if_splits)+
    then show ?thesis by auto
  qed
qed

lemma free_word_None:
  "free_word bm i = None \<Longrightarrow> i \<le> k \<Longrightarrow> k < 0x8000 \<Longrightarrow> bm k = 0xFFFFFFFF"
proof (induction bm i rule: free_word.induct)
  case (1 bm i)
  then have "i < 0x8000" by (metis order_le_less_trans)
  with "1.prems"(1) have full: "bm i = 0xFFFFFFFF" and rec: "free_word bm (i + 1) = None"
    by (subst (asm) free_word.simps, simp split: if_splits)+
  show ?case
  proof (cases "i = k")
    case False
    then have "i + 1 \<le> k" using "1.prems"(2) word_between_inc [OF \<open>i < 0x8000\<close>] by auto
    then show ?thesis using "1.IH" \<open>i < 0x8000\<close> full rec "1.prems"(3) by simp
  qed (use full in simp)
qed

lemma test_bit_free: "drop_bit n (NOT w) AND 1 = 1 \<longleftrightarrow> \<not> bit w n" if "n < 32" for w :: u32
proof -
  have "drop_bit n (NOT w) AND 1 = of_bool (bit (NOT w) n)"
    by (simp add: and_one_eq mod_2_eq_odd bit_iff_odd_drop_bit)
  then show ?thesis using that by (simp add: bit_simps)
qed

lemma free_bit_finds:
  "(\<exists>n < 32. unat shift \<le> n \<and> \<not> bit w n) \<Longrightarrow>
    \<exists>s. free_bit w shift = Ok s \<and> unat s < 32 \<and> \<not> bit w (unat s)
      \<and> (\<forall>n. unat shift \<le> n \<and> n < unat s \<longrightarrow> bit w n)"
proof (induction w shift rule: free_bit.induct)
  case (1 w shift)
  then have lt: "shift < 32" by (auto simp: word_less_nat_alt)
  then have lt': "unat shift < 32" by (simp add: word_less_nat_alt)
  show ?case
  proof (cases "bit w (unat shift)")
    case False
    then show ?thesis
      using lt lt' by (subst free_bit.simps) (auto simp: test_bit_free)
  next
    case True
    have inc: "unat (shift + 1) = unat shift + 1" using unat_inc [OF lt] by simp
    from "1.prems" obtain n where n: "n < 32" "unat shift \<le> n" "\<not> bit w n" by blast
    with True have "unat shift + 1 \<le> n" by (metis Suc_eq_plus1 Suc_leI le_neq_implies_less)
    then have "\<exists>n<32. unat (shift + 1) \<le> n \<and> \<not> bit w n" using n inc by auto
    from "1.IH" [OF lt _ this] True lt' obtain s where
      s: "free_bit w (shift + 1) = Ok s" "unat s < 32" "\<not> bit w (unat s)"
        "\<forall>n. unat shift + 1 \<le> n \<and> n < unat s \<longrightarrow> bit w n"
      by (auto simp: test_bit_free inc)
    have "free_bit w shift = Ok s" using s(1) True lt lt' by (subst free_bit.simps) (simp add: test_bit_free)
    moreover have "bit w n" if "unat shift \<le> n" "n < unat s" for n
      using s(4) True that by (cases "n = unat shift") auto
    ultimately show ?thesis using s by blast
  qed
qed

lemma full_word_iff: "w = 0xFFFFFFFF \<longleftrightarrow> (\<forall>n < 32. bit w n)" for w :: u32
proof -
  have m: "(0xFFFFFFFF :: u32) = mask 32" by (simp add: mask_numeral)
  show ?thesis
  proof
    assume "\<forall>n < 32. bit w n"
    then show "w = 0xFFFFFFFF" unfolding m by (intro bit_word_eqI) (simp add: bit_simps)
  qed (simp add: m bit_simps)
qed

section \<open>Allocation\<close>

lemma pmalloc_page:
  assumes "free_word bm 0 = Some i"
  obtains paddr where "pmalloc bm = Ok (paddr, puse paddr bm)" and "unat paddr mod 4096 = 0"
    and "\<not> in_use bm (frame_of paddr)" and "\<forall>q < frame_of paddr. in_use bm q"
proof -
  note i = free_word_Some [OF assms]
  then have "\<exists>n<32. unat (0::u8) \<le> n \<and> \<not> bit (bm i) n" by (auto simp: full_word_iff)
  from free_bit_finds [OF this] obtain s where s: "free_bit (bm i) 0 = Ok s" "unat s < 32" "\<not> bit (bm i) (unat s)"
    "\<forall>n < unat s. bit (bm i) n" by auto
  define pg :: u32 where "pg = i * 32 + ucast s"
  have i': "unat i < 0x8000" using i by (simp add: word_less_nat_alt)
  then have i32: "unat (i * 32) = unat i * 32" by (subst unat_mult_lem [THEN iffD1]) auto
  have us: "unat (ucast s :: u32) = unat s"
    using s(2) by (simp add: unsigned_ucast_eq take_bit_nat_eq_self)
  have page: "unat pg = unat i * 32 + unat s"
    unfolding pg_def using i' s(2) i32 us by (subst unat_add_lem [THEN iffD1]) auto
  then have "unat (pg * 0x1000) = unat pg * 4096"
    using i' s(2) by (subst unat_mult_lem [THEN iffD1]) auto
  then have al: "unat (pg * 0x1000) mod 4096 = 0" and fr: "frame_of (pg * 0x1000) = unat i * 32 + unat s"
    by (simp_all add: frame_of_def page)
  have "\<not> in_use bm (frame_of (pg * 0x1000))"
    using s(2,3) by (simp add: in_use_def fr)
  moreover have "\<forall>q < frame_of (pg * 0x1000). in_use bm q"
  proof (intro allI impI)
    fix q assume q: "q < frame_of (pg * 0x1000)"
    show "in_use bm q"
    proof (cases "q div 32 = unat i")
      case True
      then have "q mod 32 < unat s" using q fr div_mult_mod_eq [of q 32] by linarith
      then show ?thesis using s(4) True by (simp add: in_use_def)
    next
      case False
      have "q div 32 < unat i + 1" using q fr s(2) by (subst div_less_iff_less_mult) auto
      with False have lt: "q div 32 < unat i" by linarith
      then have "unat (of_nat (q div 32) :: u32) = q div 32"
        using i' by (simp add: unat_of_nat take_bit_nat_eq_self)
      then have "bm (of_nat (q div 32)) = 0xFFFFFFFF" using i lt by (simp add: word_less_nat_alt)
      then have "\<forall>n < 32. bit (bm (of_nat (q div 32))) n" by (simp only: full_word_iff)
      then show ?thesis by (simp add: in_use_def)
    qed
  qed
  moreover have "pmalloc bm = Ok (pg * 0x1000, puse (pg * 0x1000) bm)"
    by (simp add: pmalloc_def assms s(1) Let_def pg_def)
  ultimately show thesis using al that by metis
qed

lemma full_map:
  assumes "free_word bm 0 = None"
  shows "used_frames bm = {..< 0x100000}"
proof -
  have "in_use bm p" if "p < 0x100000" for p
  proof -
    have "p div 32 < 0x8000" using that by (subst div_less_iff_less_mult) auto
    then have "(of_nat (p div 32) :: u32) < 0x8000"
      by (simp add: word_less_nat_alt unat_of_nat take_bit_nat_eq_self)
    from free_word_None [OF assms _ this] have "\<forall>n < 32. bit (bm (of_nat (p div 32))) n"
      unfolding full_word_iff by simp
    then show ?thesis by (simp add: in_use_def)
  qed
  then show ?thesis by (auto simp: used_frames_def)
qed

lemma pmalloc_full:
  assumes "used_frames bm = {..< 0x100000}"
  shows "pmalloc bm = Halt (KPanic ''Out of memory!'')"
proof (cases "free_word bm 0")
  case (Some i)
  from pmalloc_page [OF Some] obtain paddr where "\<not> in_use bm (frame_of paddr)" by blast
  moreover have "frame_of paddr \<in> used_frames bm" unfolding assms using frame_bits(3) by simp
  ultimately show ?thesis by (simp add: used_frames_def)
qed (simp add: pmalloc_def)

lemma pmalloc_Ok:
  assumes "pmalloc bm = Ok (paddr, bm')"
  shows "unat paddr mod 4096 = 0 \<and> frame_of paddr \<notin> used_frames bm \<and> {..< frame_of paddr} \<subseteq> used_frames bm
    \<and> bm' = puse paddr bm"
proof (cases "free_word bm 0")
  case None
  then show ?thesis using assms by (simp add: pmalloc_def)
next
  case (Some i)
  from pmalloc_page [OF Some] assms
  have *: "bm' = puse paddr bm" "unat paddr mod 4096 = 0" "\<not> in_use bm (frame_of paddr)"
    "\<forall>q < frame_of paddr. in_use bm q" by (metis outcome.inject(1) prod.inject)+
  then show ?thesis using frame_bits(3) [of paddr] by (auto simp: used_frames_def)
qed

lemma pmalloc_total:
  assumes "used_frames bm \<noteq> {..< 0x100000}"
  shows "\<exists>paddr bm'. pmalloc bm = Ok (paddr, bm')"
proof (cases "free_word bm 0")
  case None
  then show ?thesis using full_map assms by blast
next
  case (Some i)
  from pmalloc_page [OF this] show ?thesis by metis
qed

interpretation pmm: frame_allocator pmalloc pfree used_frames
proof
  show "unat a mod 4096 = 0 \<and> frame_of a \<notin> used_frames s \<and> used_frames s' = insert (frame_of a) (used_frames s)"
    if "pmalloc s = Ok (a, s')" for s a s'
    using pmalloc_Ok [OF that] by (auto simp: used_frames_puse)
  show "\<exists>a s'. pmalloc s = Ok (a, s')" if "used_frames s \<noteq> {..< 0x100000}" for s
    using that by (rule pmalloc_total)
  show "used_frames s \<subseteq> {..< 0x100000}" for s by (auto simp: used_frames_def)
  show "used_frames (pfree a s) = used_frames s - {frame_of a}" for a s by (rule used_frames_pfree)
qed

section \<open>Initialisation\<close>

lemma reserve_loop_used:
  assumes "unat i mod 4096 = 0"
  shows "used_frames (reserve_loop i bm) = used_frames bm \<union> {frame_of i ..< 0x800}"
  using assms
proof (induction i bm rule: reserve_loop.induct)
  case (1 i bm)
  obtain q where q: "unat i = 4096 * q" using "1.prems" by auto
  show ?case
  proof (cases "i < 0x800000")
    case True
    then have lt: "unat i < 0x800000" by (simp add: word_less_nat_alt)
    then have inc: "unat (i + 0x1000) = unat i + 0x1000" by (subst unat_add_lem [THEN iffD1]) auto
    have "used_frames (reserve_loop i bm) = used_frames (reserve_loop (i + 0x1000) (puse i bm))"
      using True by (subst reserve_loop.simps) simp
    also have "\<dots> = used_frames (puse i bm) \<union> {frame_of (i + 0x1000) ..< 0x800}"
      using "1.IH" [OF True] "1.prems" inc by simp
    also have "\<dots> = used_frames bm \<union> {frame_of i ..< 0x800}"
      using lt q by (auto simp: used_frames_puse frame_of_def inc)
    finally show ?thesis .
  next
    case False
    then have "\<not> frame_of i < 0x800" using q by (simp add: frame_of_def word_less_nat_alt)
    then show ?thesis using False by (subst reserve_loop.simps) simp
  qed
qed

lemma init_pf_bitmap_used: "used_frames (init_pf_bitmap bm) = {..< 0x800}"
proof -
  have "used_frames (\<lambda>i. if i < 0x8000 then 0 else bm i) = {}"
  proof -
    have "(of_nat (p div 32) :: u32) < 0x8000" if "p < 0x100000" for p
    proof -
      have "p div 32 < 0x8000" using that by (subst div_less_iff_less_mult) auto
      then show ?thesis by (simp add: word_less_nat_alt unat_of_nat take_bit_nat_eq_self)
    qed
    then show ?thesis by (auto simp: used_frames_def in_use_def)
  qed
  then show ?thesis
    using reserve_loop_used [of 0] by (auto simp: init_pf_bitmap_def frame_of_def)
qed


section \<open>Properties\<close>

lemma least_free_frame:
  assumes "p \<notin> used_frames bm" and "{..< p} \<subseteq> used_frames bm"
  shows "(LEAST q. q \<notin> used_frames bm) = p"
  using assms by (intro Least_equality) (auto simp: not_less [symmetric])

text \<open>
  C8. \<^verbatim>\<open>pmalloc\<close> returns the lowest free frame, page aligned, and marks exactly that frame used;
  it panics with \<^verbatim>\<open>Out of memory!\<close> exactly when every frame is in use. Its bit search never
  shifts out of range.
\<close>

theorem pmalloc_lowest_frame:
  "pmalloc bm =
     (if used_frames bm = {..< 0x100000} then Halt (KPanic ''Out of memory!'')
      else let paddr = of_nat (4096 * (LEAST p. p \<notin> used_frames bm)) in Ok (paddr, puse paddr bm))
   \<and> used_frames (puse paddr bm) = insert (frame_of paddr) (used_frames bm)"
proof (cases "used_frames bm = {..< 0x100000}")
  case False
  from pmalloc_total [OF this] obtain a bm' where a: "pmalloc bm = Ok (a, bm')" by blast
  note ok = pmalloc_Ok [OF a]
  then have "(LEAST p. p \<notin> used_frames bm) = frame_of a" by (intro least_free_frame) simp_all
  moreover have "of_nat (4096 * frame_of a) = a"
  proof -
    have "4096 * frame_of a = unat a" using ok by (auto simp: frame_of_def)
    then show ?thesis by (metis of_nat_unat ucast_id)
  qed
  ultimately show ?thesis using False a ok by (simp add: used_frames_puse Let_def)
qed (simp add: pmalloc_full used_frames_puse)

text \<open>
  C9. From boot on: after \<^verbatim>\<open>init_pf_bitmap\<close>, any number of allocations that fits the machine
  succeeds; the frames handed out are pairwise different and none of them lies in the 8 MiB
  reserved for the kernel and its stack.
\<close>

theorem init_then_allocate:
  assumes "n \<le> 0x100000 - 0x800"
  shows "\<exists>as bm'. alloc_seq pmalloc n (init_pf_bitmap bm) = Ok (as, bm') \<and> length as = n
    \<and> distinct (map frame_of as) \<and> (\<forall>a \<in> set as. 0x800000 \<le> unat a \<and> unat a mod 4096 = 0)
    \<and> used_frames bm' = {..< 0x800} \<union> set (map frame_of as)"
proof -
  have "card (used_frames (init_pf_bitmap bm)) + n \<le> 0x100000"
    using assms unfolding init_pf_bitmap_used card_lessThan by simp
  from pmm.alloc_seq_total [OF this] obtain as bm'
    where run: "alloc_seq pmalloc n (init_pf_bitmap bm) = Ok (as, bm')" by blast
  note ok = pmm.alloc_seq_Ok [OF run, unfolded init_pf_bitmap_used]
  have "0x800000 \<le> unat a" if "a \<in> set as" for a
  proof -
    have "frame_of a \<notin> {..< 0x800}" using ok that by auto
    then have "0x800 \<le> unat a div 4096" by (simp only: frame_of_def lessThan_iff not_less)
    then show ?thesis by (simp add: less_eq_div_iff_mult_less_eq)
  qed
  with run ok show ?thesis by auto
qed

theorem init_then_allocate_witness:
  "\<exists>as bm'. alloc_seq pmalloc 2 (init_pf_bitmap (\<lambda>_. 7)) = Ok (as, bm') \<and> length as = 2 \<and> distinct (map frame_of as)"
  using init_then_allocate [of 2 "\<lambda>_. 7"] by auto

text \<open>
  Freeing what was just allocated restores the bitmap word for word, and freeing marks
  exactly that frame free.
\<close>

theorem pfree_pmalloc:
  assumes "pmalloc bm = Ok (paddr, bm')"
  shows "pfree paddr bm' = bm \<and> used_frames (pfree x bm) = used_frames bm - {frame_of x}"
proof -
  note ok = pmalloc_Ok [OF assms]
  let ?i = "paddr div 0x1000 div 32" and ?s = "unat (ucast (paddr div 0x1000 mod 32) :: u8)"
  have "\<not> bit (bm ?i) ?s"
    using ok frame_bits(3) [of paddr] by (simp add: used_frames_def in_use_def frame_bits)
  then have "(bm ?i OR push_bit ?s 1) AND NOT (push_bit ?s 1) = bm ?i"
    by (intro bit_word_eqI) (auto simp: bit_simps bit_1_iff)
  then have "pfree paddr (puse paddr bm) = bm"
    by (simp add: pfree_def puse_def Let_def fun_upd_idem)
  then show ?thesis using ok by (simp add: used_frames_pfree)
qed

lemma pmalloc_sample: "pmalloc (\<lambda>_. 0x17) = Ok (0x3000, puse 0x3000 (\<lambda>_. 0x17))"
  by (simp add: pmalloc_def free_word.simps free_bit.simps)

theorem pfree_pmalloc_witness: "pfree 0x3000 (puse 0x3000 (\<lambda>_. 0x17)) = (\<lambda>_. 0x17)"
  using pfree_pmalloc [OF pmalloc_sample] by blast

end
