(* ===== verification/Vmm.thy ===== *)
theory Vmm
  imports Pmm
begin

text \<open>
  The virtual memory manager of BarrelOS (\<^verbatim>\<open>barrelOS/kernel/vmm.c\<close>) and the copying routines of
  \<^verbatim>\<open>barrelOS/drivers/utils.c\<close> that run on top of it. The machine is byte-addressed physical
  memory, the register \<^verbatim>\<open>cr3\<close>, and the two-level walk of 32-bit paging with 4 KiB pages
  (\<^verbatim>\<open>CR4.PSE\<close> and \<^verbatim>\<open>CR0.WP\<close> are off: the boot code sets neither, so the kernel's own writes
  ignore the write bit). Every access of the kernel goes through the walk; an access to a
  page that is not present enters \<^verbatim>\<open>page_fault\<close>, whose own accesses may fault in turn.
  Translations are taken from the tables as they are at each access (no TLB).
\<close>

section \<open>The machine\<close>

record vm =
  pmem :: "32 mem"
  cr3 :: u32
  pf_bitmap :: bitmap
  page_fault_allowed :: u8

definition pd_base :: "vm \<Rightarrow> u32" where
  "pd_base s = cr3 s AND 0xFFFFF000"

definition pd_entry :: "vm \<Rightarrow> u32 \<Rightarrow> u32" where
  "pd_entry s i = load32 (pmem s) (pd_base s + 4 * i)"

definition pt_entry_addr :: "vm \<Rightarrow> u32 \<Rightarrow> u32 option" where
  "pt_entry_addr s va =
     (let pde = pd_entry s (drop_bit 22 va)
      in if pde AND 1 = 0 then None
         else Some ((pde AND 0xFFFFF000) + 4 * (drop_bit 12 va AND 0x3FF)))"

definition translate :: "vm \<Rightarrow> u32 \<Rightarrow> u32 option" where
  "translate s va =
     (case pt_entry_addr s va of
        None \<Rightarrow> None
      | Some p \<Rightarrow>
          let pte = load32 (pmem s) p
          in if pte AND 1 = 0 then None else Some ((pte AND 0xFFFFF000) + (va AND 0xFFF)))"

text \<open>An accessor resolves a virtual address to a physical one, possibly after page faults.\<close>

type_synonym accessor = "u32 \<Rightarrow> vm \<Rightarrow> (u32 \<times> vm) outcome"

definition read32 :: "accessor \<Rightarrow> u32 \<Rightarrow> vm \<Rightarrow> (u32 \<times> vm) outcome" where
  "read32 acc va s = bind_ok (acc va s) (\<lambda>(pa, s). Ok (load32 (pmem s) pa, s))"

definition write32 :: "accessor \<Rightarrow> u32 \<Rightarrow> u32 \<Rightarrow> vm \<Rightarrow> vm outcome" where
  "write32 acc va v s = bind_ok (acc va s) (\<lambda>(pa, s). Ok (s\<lparr>pmem := store32 (pmem s) pa v\<rparr>))"

definition read8 :: "accessor \<Rightarrow> u32 \<Rightarrow> vm \<Rightarrow> (u8 \<times> vm) outcome" where
  "read8 acc va s = bind_ok (acc va s) (\<lambda>(pa, s). Ok (pmem s pa, s))"

definition write8 :: "accessor \<Rightarrow> u32 \<Rightarrow> u8 \<Rightarrow> vm \<Rightarrow> vm outcome" where
  "write8 acc va v s = bind_ok (acc va s) (\<lambda>(pa, s). Ok (s\<lparr>pmem := (pmem s)(pa := v)\<rparr>))"

text \<open>\<^verbatim>\<open>mem_set\<close> and one loop of \<^verbatim>\<open>mem_copy\<close>, byte by byte.\<close>

fun vset :: "accessor \<Rightarrow> u32 \<Rightarrow> u8 \<Rightarrow> nat \<Rightarrow> vm \<Rightarrow> vm outcome" where
  "vset acc a v 0 s = Ok s"
| "vset acc a v (Suc k) s = bind_ok (write8 acc a v s) (vset acc (a + 1) v k)"

fun vcopy :: "accessor \<Rightarrow> u32 \<Rightarrow> u32 \<Rightarrow> nat \<Rightarrow> vm \<Rightarrow> vm outcome" where
  "vcopy acc src dst 0 s = Ok s"
| "vcopy acc src dst (Suc k) s =
     bind_ok (read8 acc src s) (\<lambda>(b, s).
     bind_ok (write8 acc dst b s) (vcopy acc (src + 1) (dst + 1) k))"

section \<open>Page-table entries through the recursive mapping\<close>

definition page_entry :: "u32 \<Rightarrow> u32" where
  "page_entry vaddr =
     (let entry = 1023 * 0x400000;
          entry = entry + push_bit 12 (vaddr div 0x400000);
          entry = entry + ((vaddr AND 0x003FF000) div 0x1000) * 4
      in entry)"

text \<open>The branch of \<^verbatim>\<open>page_fault\<close> for a page that is not present.\<close>

definition fault_nonpresent :: "accessor \<Rightarrow> u32 \<Rightarrow> vm \<Rightarrow> vm outcome" where
  "fault_nonpresent acc vaddr s =
     (if page_fault_allowed s = 0 then Halt (KPanic ''nonpresent'')
      else bind_ok (pmalloc (pf_bitmap s)) (\<lambda>(frame, bm).
           bind_ok (write32 acc (page_entry vaddr) (frame + 0x807) (s\<lparr>pf_bitmap := bm\<rparr>))
             (vset acc (vaddr AND 0xFFFFF000) 0 0x1000)))"

text \<open>
  A kernel access. The first argument bounds how deep page faults may nest; running out of
  it is a fault inside a fault inside a fault, which no access of a well-formed state reaches.
  After the handler returns the instruction runs again.
\<close>

fun access :: "nat \<Rightarrow> u32 \<Rightarrow> vm \<Rightarrow> (u32 \<times> vm) outcome" where
  "access 0 va s = Halt (Undefined ''nested page faults'')"
| "access (Suc n) va s =
     (case translate s va of
        Some pa \<Rightarrow> Ok (pa, s)
      | None \<Rightarrow> bind_ok (fault_nonpresent (\<lambda>a t. access n a t) va s) (\<lambda>s. access n va s))"

abbreviation kaccess :: accessor where "kaccess \<equiv> access 3"

definition getpaddr :: "u32 \<Rightarrow> vm \<Rightarrow> (u32 \<times> vm) outcome" where
  "getpaddr vaddr s =
     bind_ok (read32 kaccess (page_entry vaddr) s) (\<lambda>(e, s). Ok (e AND 0xFFFFF000, s))"

definition setallow :: "u8 \<Rightarrow> vm \<Rightarrow> vm" where
  "setallow allow s = s\<lparr>page_fault_allowed := allow\<rparr>"

definition init_vmm :: "vm \<Rightarrow> vm outcome" where
  "init_vmm s =
     bind_ok (write32 kaccess (0xc0300000 + 4 * 1023) (0x0300000 + 0x803) s) (\<lambda>s.
     bind_ok (write32 kaccess 0xc0300000 0 s) (\<lambda>s.
       Ok (s\<lparr>page_fault_allowed := 0\<rparr>)))"

section \<open>The kernel heap\<close>

lemma bind_ok_cong [fundef_cong]:
  "x = x' \<Longrightarrow> (\<And>z. x' = Ok z \<Longrightarrow> f z = g z) \<Longrightarrow> bind_ok x f = bind_ok x' g"
  by (cases x') auto

abbreviation (input) HEAP_BASE :: u32 where "HEAP_BASE \<equiv> 0xc0400000"
abbreviation (input) HEAP_LIMIT :: u32 where "HEAP_LIMIT \<equiv> 0xc0800000"
abbreviation (input) USER_HEAP_BASE :: u32 where "USER_HEAP_BASE \<equiv> 0x10000000"
abbreviation (input) USER_LIMIT :: u32 where "USER_LIMIT \<equiv> 0xc0000000"

text \<open>The scan of \<^verbatim>\<open>kmalloc\<close>: the first heap page whose entry has the used bit clear.\<close>

function kmalloc_scan :: "u32 \<Rightarrow> vm \<Rightarrow> (u32 \<times> vm) outcome" where
  "kmalloc_scan vaddr s =
     (if vaddr < HEAP_LIMIT
      then bind_ok (read32 kaccess (page_entry vaddr) s) (\<lambda>p.
             if fst p AND 0x800 = 0 then Ok (vaddr, snd p) else kmalloc_scan (vaddr + 0x1000) (snd p))
      else Halt (KPanic ''Kernel heap out of memory''))"
  by pat_completeness auto
termination
proof (relation "measure (\<lambda>(va, s). 0xc0800000 - unat va)")
  fix vaddr :: u32 and s :: vm and p
  assume "vaddr < HEAP_LIMIT"
  then have "unat (vaddr + 0x1000) = unat vaddr + 0x1000" "unat vaddr < 0xc0800000"
    by (simp_all add: word_less_nat_alt unat_add_lem [THEN iffD1])
  then show "((vaddr + 0x1000, snd p), vaddr, s) \<in> measure (\<lambda>(va, s). 0xc0800000 - unat va)" by simp
qed simp

declare kmalloc_scan.simps [simp del]

definition kmalloc :: "vm \<Rightarrow> (u32 \<times> vm) outcome" where
  "kmalloc s =
     bind_ok (kmalloc_scan HEAP_BASE s) (\<lambda>(vaddr, s).
     bind_ok (read32 kaccess (page_entry vaddr) s) (\<lambda>(e, s).
     bind_ok (if e AND 0x00000001 = 1
              then write32 kaccess (page_entry vaddr) (e OR 0x800) s
              else bind_ok (pmalloc (pf_bitmap s)) (\<lambda>(frame, bm).
                     write32 kaccess (page_entry vaddr) (frame + 0x803) (s\<lparr>pf_bitmap := bm\<rparr>)))
       (\<lambda>s. Ok (vaddr, s))))"

definition kfree :: "u32 \<Rightarrow> vm \<Rightarrow> vm outcome" where
  "kfree vaddr s =
     bind_ok (read32 kaccess (page_entry vaddr) s) (\<lambda>(e, s).
       write32 kaccess (page_entry vaddr) (e AND 0xFFFFF7FF) s)"

definition mmiomalloc :: "u32 \<Rightarrow> vm \<Rightarrow> (u32 \<times> vm) outcome" where
  "mmiomalloc paddr s =
     bind_ok (kmalloc s) (\<lambda>(vaddr, s).
     bind_ok (read32 kaccess (page_entry vaddr) s) (\<lambda>(e, s).
       let oldpaddr = e AND 0xFFFFF000;
           s = s\<lparr>pf_bitmap := pfree oldpaddr (pf_bitmap s)\<rparr>
       in bind_ok (write32 kaccess (page_entry vaddr) (paddr + (e AND 0x00000FFF)) s) (\<lambda>s. Ok (vaddr, s))))"

definition mem_copy :: "u32 \<Rightarrow> u32 \<Rightarrow> u16 \<Rightarrow> vm \<Rightarrow> vm outcome" where
  "mem_copy source dest bytes s =
     (if bytes > 4096 then Halt (KPanic ''mem_copy exceeds size of page'')
      else bind_ok (kmalloc s) (\<lambda>(buffer, s).
           bind_ok (vcopy kaccess source buffer (unat bytes) s) (\<lambda>s.
           bind_ok (vcopy kaccess buffer dest (unat bytes) s) (\<lambda>s.
             kfree buffer s))))"

section \<open>Page faults\<close>

text \<open>\<^verbatim>\<open>for (uint16_t i = 0; i < 1024; i++) new_pt[i] &= 0xFFFFFFFD;\<close> (\<open>n\<close> rounds from \<open>a\<close>).\<close>

fun clear_write_bits :: "u32 \<Rightarrow> nat \<Rightarrow> vm \<Rightarrow> vm outcome" where
  "clear_write_bits a 0 s = Ok s"
| "clear_write_bits a (Suc n) s =
     bind_ok (read32 kaccess a s) (\<lambda>(e, s).
     bind_ok (write32 kaccess a (e AND 0xFFFFFFFD) s) (clear_write_bits (a + 4) n))"

text \<open>A private copy of the page table, when the directory entry is shared after \<^verbatim>\<open>fork\<close>.\<close>

definition unshare_table :: "u32 \<Rightarrow> u32 \<Rightarrow> vm \<Rightarrow> vm outcome" where
  "unshare_table page_table dir_entry s =
     bind_ok (kmalloc s) (\<lambda>(new_pt, s).
     bind_ok (mem_copy page_table new_pt 4096 s) (\<lambda>s.
     bind_ok (clear_write_bits new_pt 1024 s) (\<lambda>s.
     bind_ok (getpaddr new_pt s) (\<lambda>(table_frame, s).
     bind_ok (write32 kaccess (page_entry new_pt) 0 s) (\<lambda>s.
     bind_ok (read32 kaccess dir_entry s) (\<lambda>(d, s).
     bind_ok (write32 kaccess dir_entry (d AND 0x00000FFF) s) (\<lambda>s.
     bind_ok (read32 kaccess dir_entry s) (\<lambda>(d, s).
       write32 kaccess dir_entry (d OR (table_frame OR 2)) s))))))))"

text \<open>A private copy of the page, entered in its page table with the write bit set.\<close>

definition copy_page :: "u32 \<Rightarrow> u32 \<Rightarrow> vm \<Rightarrow> vm outcome" where
  "copy_page page entry s =
     bind_ok (kmalloc s) (\<lambda>(newpage, s).
     bind_ok (mem_copy page newpage 4096 s) (\<lambda>s.
     bind_ok (getpaddr newpage s) (\<lambda>(page_frame, s).
     bind_ok (write32 kaccess (page_entry newpage) 0 s) (\<lambda>s.
     bind_ok (read32 kaccess entry s) (\<lambda>(e, s).
     bind_ok (write32 kaccess entry (e AND 0x00000FFF) s) (\<lambda>s.
     bind_ok (read32 kaccess entry s) (\<lambda>(e, s).
       write32 kaccess entry (e OR (page_frame OR 2)) s)))))))"

definition copy_on_write :: "u32 \<Rightarrow> vm \<Rightarrow> vm outcome" where
  "copy_on_write vaddr s =
     (let page = vaddr AND 0xFFFFF000;
          entry = page_entry page;
          page_table = entry AND 0xFFFFF000;
          dir_entry = page_entry page_table
      in bind_ok (read32 kaccess dir_entry s) (\<lambda>(d, s).
         bind_ok (if d AND 2 = 0 then unshare_table page_table dir_entry s else Ok s) (\<lambda>s.
           copy_page page entry s)))"

definition page_fault :: "u32 \<Rightarrow> u32 \<Rightarrow> vm \<Rightarrow> vm outcome" where
  "page_fault error vaddr s =
     (if error AND 1 = 0 then fault_nonpresent kaccess vaddr s
      else if error AND 4 = 4 \<and> vaddr \<ge> USER_LIMIT
      then Halt (KPanic ''Tried to access kernel page while in CPL 3'')
      else if error AND 6 = 6 \<and> vaddr < USER_LIMIT then copy_on_write vaddr s
      else Halt (Spin ''Unhandled Exception''))"

section \<open>Mapping user memory\<close>

fun mmap_loop :: "u32 \<Rightarrow> nat \<Rightarrow> vm \<Rightarrow> vm outcome" where
  "mmap_loop va 0 s = Ok s"
| "mmap_loop va (Suc n) s =
     bind_ok (pmalloc (pf_bitmap s)) (\<lambda>(frame, bm).
     bind_ok (write32 kaccess (page_entry va) (frame OR 0x807) (s\<lparr>pf_bitmap := bm\<rparr>))
       (mmap_loop (va + 0x1000) n))"

definition mmap_pages :: "u32 \<Rightarrow> u32" where
  "mmap_pages len = (let no_pages = len div 4096 in if len mod 4096 \<noteq> 0 then no_pages + 1 else no_pages)"

definition mmap :: "u32 \<Rightarrow> u32 \<Rightarrow> u8 \<Rightarrow> vm \<Rightarrow> (u32 \<times> vm) outcome" where
  "mmap hint len flags s =
     (let base = (if flags = 0 then USER_HEAP_BASE else hint)
      in bind_ok (mmap_loop base (unat (mmap_pages len)) (s\<lparr>page_fault_allowed := 1\<rparr>)) (\<lambda>s.
           Ok (base, s\<lparr>page_fault_allowed := 0\<rparr>)))"

section \<open>Specification\<close>

text \<open>Entries of page-aligned tables: equal addresses are equal tables and equal indices.\<close>

definition page_aligned :: "u32 \<Rightarrow> bool" where
  "page_aligned b \<longleftrightarrow> unat b mod 4096 = 0"

definition present :: "u32 \<Rightarrow> bool" where
  "present e \<longleftrightarrow> e AND 1 \<noteq> 0"

text \<open>
  The last directory entry points to the directory itself; no two entries share a table; the
  frames of the tables are marked used in the bitmap.
\<close>

definition recursive_map :: "vm \<Rightarrow> bool" where
  "recursive_map s \<longleftrightarrow> present (pd_entry s 1023) \<and> pd_entry s 1023 AND 0xFFFFF000 = pd_base s"

definition tables_distinct :: "vm \<Rightarrow> bool" where
  "tables_distinct s \<longleftrightarrow> (\<forall>i j. unat i < 1024 \<and> unat j < 1024 \<and> present (pd_entry s i) \<and> present (pd_entry s j)
     \<and> pd_entry s i AND 0xFFFFF000 = pd_entry s j AND 0xFFFFF000 \<longrightarrow> i = j)"

definition tables_used :: "vm \<Rightarrow> bool" where
  "tables_used s \<longleftrightarrow> (\<forall>i. unat i < 1024 \<and> present (pd_entry s i) \<longrightarrow> frame_of (pd_entry s i) \<in> used_frames (pf_bitmap s))"

definition vm_ok :: "vm \<Rightarrow> bool" where
  "vm_ok s \<longleftrightarrow> recursive_map s \<and> tables_distinct s \<and> tables_used s"

definition same_page :: "u32 \<Rightarrow> u32 \<Rightarrow> bool" where
  "same_page x y \<longleftrightarrow> drop_bit 12 x = drop_bit 12 y"

definition in_window :: "u32 \<Rightarrow> bool" where
  "in_window va \<longleftrightarrow> drop_bit 22 va = 1023"

definition pte_addr :: "vm \<Rightarrow> u32 \<Rightarrow> u32" where
  "pte_addr s va = (pd_entry s (drop_bit 22 va) AND 0xFFFFF000) + 4 * (drop_bit 12 va AND 0x3FF)"

definition pte :: "vm \<Rightarrow> u32 \<Rightarrow> u32" where
  "pte s va = load32 (pmem s) (pte_addr s va)"

definition set_pte :: "u32 \<Rightarrow> u32 \<Rightarrow> vm \<Rightarrow> vm" where
  "set_pte va v s = s\<lparr>pmem := store32 (pmem s) (pte_addr s va) v\<rparr>"

definition table_present :: "vm \<Rightarrow> u32 \<Rightarrow> bool" where
  "table_present s va \<longleftrightarrow> present (pd_entry s (drop_bit 22 va))"

definition heap_page :: "u32 \<Rightarrow> bool" where
  "heap_page va \<longleftrightarrow> page_aligned va \<and> 0xc0400000 \<le> va \<and> va < 0xc0800000"

definition heap_used :: "vm \<Rightarrow> u32 \<Rightarrow> bool" where
  "heap_used s va \<longleftrightarrow> bit (pte s va) 11"

definition heap_mapped :: "vm \<Rightarrow> bool" where
  "heap_mapped s \<longleftrightarrow> present (pd_entry s 769)"

text \<open>
  The heap's invariant: every present heap page has a frame of its own, marked used, shared
  with no other heap page and with no page table. The directory of a forked process is itself a
  heap page; that one is in use.
\<close>

definition heap_ok :: "vm \<Rightarrow> bool" where
  "heap_ok s \<longleftrightarrow> (\<forall>x. heap_page x \<and> present (pte s x) \<longrightarrow>
     frame_of (pte s x) \<in> used_frames (pf_bitmap s)
     \<and> (\<forall>y. heap_page y \<and> present (pte s y) \<and> frame_of (pte s y) = frame_of (pte s x) \<longrightarrow> y = x)
     \<and> (\<forall>i. unat i < 1023 \<and> present (pd_entry s i) \<longrightarrow> frame_of (pd_entry s i) \<noteq> frame_of (pte s x))
     \<and> (frame_of (pte s x) = frame_of (pd_base s) \<longrightarrow> heap_used s x))"

definition kernel_ok :: "vm \<Rightarrow> bool" where
  "kernel_ok s \<longleftrightarrow> vm_ok s \<and> heap_mapped s \<and> heap_ok s"

definition zero_frame :: "u32 \<Rightarrow> 32 mem \<Rightarrow> 32 mem" where
  "zero_frame f m = (\<lambda>x. if frame_of x = frame_of f then 0 else m x)"

text \<open>The state after a new, empty table was entered in the directory.\<close>

definition with_table :: "u32 \<Rightarrow> u32 \<Rightarrow> bitmap \<Rightarrow> vm \<Rightarrow> vm" where
  "with_table i f b s =
     s\<lparr>pf_bitmap := b, pmem := zero_frame f (store32 (pmem s) (pd_base s + 4 * i) (f OR 0x807))\<rparr>"

text \<open>The pages of \<^verbatim>\<open>[va, va + 4096 n)\<close> get the frames \<open>fs\<close>, which were free; the rest stays.\<close>

definition maps_pages :: "u32 \<Rightarrow> u32 list \<Rightarrow> vm \<Rightarrow> vm \<Rightarrow> bool" where
  "maps_pages va fs s s' \<longleftrightarrow>
     distinct (map frame_of fs) \<and>
     (\<forall>f \<in> set fs. page_aligned f \<and> frame_of f \<notin> used_frames (pf_bitmap s) \<and> frame_of f \<in> used_frames (pf_bitmap s')) \<and>
     (\<forall>y. unat y < 0xFFC00000 \<longrightarrow>
        translate s' y = (if frame_of va \<le> frame_of y \<and> frame_of y < frame_of va + length fs
                          then Some (fs ! (frame_of y - frame_of va) + (y AND 0xFFF)) else translate s y))"

text \<open>The directory at \<open>0x300000\<close> as \<^verbatim>\<open>init_vmm\<close> leaves it, with an empty heap table.\<close>

definition sample_vm :: vm where
  "sample_vm =
     \<lparr>pmem = store32 (store32 (\<lambda>_. 0) (0x300000 + 4 * 1023) 0x300803) (0x300000 + 4 * 769) 0x400003,
      cr3 = 0x300000, pf_bitmap = init_pf_bitmap (\<lambda>_. 0), page_fault_allowed = 0\<rparr>"

section \<open>Addresses of table entries\<close>

lemma table_window_mask: "x AND 0x003FF000 = (drop_bit 12 x AND 0x3FF) * 0x1000" for x :: u32
proof -
  have m: "(0x003FF000 :: u32) = push_bit 12 (mask 10)" "(0x3FF :: u32) = mask 10"
    by (simp_all add: mask_numeral push_bit_eq_mult)
  have "x AND 0x003FF000 = push_bit 12 (drop_bit 12 x AND 0x3FF)"
    unfolding m by (rule bit_word_eqI) (auto simp: bit_simps)
  then show ?thesis by (simp add: push_bit_eq_mult)
qed

lemma dir_index_less: "unat (drop_bit 22 (va :: u32)) < 1024"
  using unat_u32_less [of va] by (simp add: unat_drop_bit div_less_iff_less_mult)

lemma table_index_less: "unat (drop_bit 12 (va :: u32) AND 0x3FF) < 1024"
  by (simp add: unat_and_3FF)

lemma page_entry_eq:
  "page_entry va = 0xFFC00000 + drop_bit 22 va * 0x1000 + (drop_bit 12 va AND 0x3FF) * 4"
proof -
  let ?t = "drop_bit 12 va AND 0x3FF"
  have "?t * 0x1000 div 0x1000 = ?t"
  proof -
    have "unat (?t * 0x1000) = unat ?t * 4096"
      using table_index_less [of va] by (subst unat_mult_lem [THEN iffD1]) auto
    then show ?thesis by (simp add: word_unat_eq_iff unat_div)
  qed
  moreover have "va div 0x400000 = drop_bit 22 va" by (simp add: drop_bit_eq_div)
  ultimately show ?thesis
    by (simp add: page_entry_def Let_def table_window_mask push_bit_eq_mult)
qed

lemma unat_page_entry: "unat (page_entry va)
    = 0xFFC00000 + 4096 * unat (drop_bit 22 va) + 4 * unat (drop_bit 12 va AND 0x3FF)"
proof -
  let ?d = "drop_bit 22 va" and ?t = "drop_bit 12 va AND 0x3FF"
  have d: "unat (?d * 0x1000) = 4096 * unat ?d"
    using dir_index_less [of va] by (subst unat_mult_lem [THEN iffD1]) auto
  have t: "unat (?t * 4) = 4 * unat ?t"
    using table_index_less [of va] by (subst unat_mult_lem [THEN iffD1]) auto
  have s: "unat (0xFFC00000 + ?d * 0x1000) = 0xFFC00000 + 4096 * unat ?d"
    using dir_index_less [of va] d by (subst unat_add_lem [THEN iffD1]) auto
  show ?thesis
    unfolding page_entry_eq using dir_index_less [of va] table_index_less [of va] s t
    by (subst unat_add_lem [THEN iffD1]) auto
qed

lemma page_entry_fields:
  shows "drop_bit 22 (page_entry va) = 1023"
    and "drop_bit 12 (page_entry va) AND 0x3FF = drop_bit 22 va"
    and "page_entry va AND 0xFFF = 4 * (drop_bit 12 va AND 0x3FF)"
proof -
  let ?d = "unat (drop_bit 22 va)" and ?t = "unat (drop_bit 12 va AND 0x3FF)"
  have n: "unat (page_entry va) = (1047552 + ?d) * 4096 + 4 * ?t" by (simp add: unat_page_entry)
  have t: "4 * ?t < 4096" using table_index_less [of va] by simp
  have div: "unat (page_entry va) div 4096 = 1047552 + ?d"
    unfolding n using t by simp
  have "unat (page_entry va) div 4194304 = 1023"
    using dir_index_less [of va] t n by (intro div_nat_eqI) auto
  then show "drop_bit 22 (page_entry va) = 1023" by (simp add: word_unat_eq_iff unat_drop_bit)
  have "(1047552 + ?d) mod 1024 = ?d mod 1024"
    using mod_mult_self4 [of 1024 1023 ?d] by simp
  then show "drop_bit 12 (page_entry va) AND 0x3FF = drop_bit 22 va"
    using dir_index_less [of va] by (simp add: word_unat_eq_iff [of "_ AND _"] unat_and_3FF unat_drop_bit [of 12] div)
  have "unat (page_entry va) mod 4096 = 4 * ?t"
    unfolding n mod_mult_self3 using t by (rule mod_less)
  moreover have "unat (4 * (drop_bit 12 va AND 0x3FF)) = 4 * ?t"
    using table_index_less [of va] by (subst unat_mult_lem [THEN iffD1]) auto
  ultimately show "page_entry va AND 0xFFF = 4 * (drop_bit 12 va AND 0x3FF)"
    by (simp add: word_unat_eq_iff [of "_ AND _"] unat_and_FFF)
qed

lemma page_aligned_mask [simp]: "page_aligned (x AND 0xFFFFF000)"
  by (simp add: page_aligned_def unat_page_mask32)

lemma page_offset_room:
  assumes "page_aligned b" and "n < 4096"
  shows "unat b + n < 2 ^ 32"
proof -
  obtain q where "unat b = 4096 * q" using assms(1) by (auto simp: page_aligned_def)
  with unat_u32_less [of b] assms(2) show ?thesis by simp
qed

lemma unat_page_offset:
  assumes "page_aligned b" and "unat x < 4096"
  shows "unat (b + x) = unat b + unat x"
  using page_offset_room [OF assms] by (simp add: unat_add_lem [THEN iffD1])

lemma page_offset_eq_iff:
  assumes "page_aligned b" "page_aligned c" and "unat x < 4096" "unat y < 4096"
  shows "b + x = c + y \<longleftrightarrow> b = c \<and> x = y"
proof
  assume "b + x = c + y"
  then have eq: "unat b + unat x = unat c + unat y" using unat_page_offset assms by metis
  obtain p q where p: "unat b = 4096 * p" and q: "unat c = 4096 * q"
    using assms(1,2) by (auto simp: page_aligned_def mod_eq_0_iff_dvd elim!: dvdE)
  have "p = (unat b + unat x) div 4096" using p assms(3) by simp
  also have "\<dots> = q" using eq q assms(4) by simp
  finally show "b = c \<and> x = y" using eq p q by (simp add: word_unat_eq_iff)
qed simp

lemma unat_index4: "unat i < 1024 \<Longrightarrow> unat (4 * i :: u32) = 4 * unat i"
  by (subst unat_mult_lem [THEN iffD1]) auto

lemma entry_addr_eq_iff:
  assumes "page_aligned b" "page_aligned c" and "unat i < 1024" "unat j < 1024"
  shows "b + 4 * i = c + 4 * j \<longleftrightarrow> b = c \<and> i = j"
proof -
  have "4 * i = 4 * j \<longleftrightarrow> i = j"
    using unat_index4 [OF assms(3)] unat_index4 [OF assms(4)] by (metis mult_cancel1 word_unat_eq_iff zero_neq_numeral)
  then show ?thesis
    using page_offset_eq_iff [OF assms(1,2), of "4 * i" "4 * j"] assms(3,4) by (simp add: unat_index4)
qed

lemma entry_addr_dvd:
  assumes "page_aligned b" and "unat i < 1024"
  shows "4 dvd unat (b + 4 * i)"
proof -
  have "4 dvd unat b" using assms(1) by (auto simp: page_aligned_def mod_eq_0_iff_dvd elim!: dvdE)
  then show ?thesis using assms unat_page_offset [OF assms(1), of "4 * i"] by (simp add: unat_index4)
qed

lemma load32_store32_entry:
  assumes "page_aligned b" "page_aligned c" and "unat i < 1024" "unat j < 1024"
  shows "load32 (store32 m (b + 4 * i) v) (c + 4 * j) = (if c = b \<and> j = i then v else load32 m (c + 4 * j))"
  using cell32.load_store_aligned [OF entry_addr_dvd [OF assms(1,3)] entry_addr_dvd [OF assms(2,4)]]
    entry_addr_eq_iff [OF assms(2,1,4,3)] by auto

lemma page_bits_split: "drop_bit 12 x = drop_bit 12 y \<longleftrightarrow>
    drop_bit 22 x = drop_bit 22 y \<and> drop_bit 12 x AND 0x3FF = drop_bit 12 y AND 0x3FF" for x y :: u32
proof -
  have d: "unat (drop_bit 22 z) = unat (drop_bit 12 z) div 1024" for z :: u32
    by (simp add: unat_drop_bit flip: div_mult2_eq)
  have "unat (drop_bit 12 x) = unat (drop_bit 12 y)"
    if "unat (drop_bit 12 x) div 1024 = unat (drop_bit 12 y) div 1024"
      "unat (drop_bit 12 x) mod 1024 = unat (drop_bit 12 y) mod 1024"
    using that by (metis div_mult_mod_eq)
  then show ?thesis by (auto simp: word_unat_eq_iff d unat_and_3FF)
qed

section \<open>Well-formed address spaces\<close>

lemma pd_base_aligned [simp]: "page_aligned (pd_base s)"
  by (simp add: pd_base_def)

lemma pd_entry_pmem:
  "pd_base (s\<lparr>pmem := m\<rparr>) = pd_base s" "pd_entry (s\<lparr>pmem := m\<rparr>) i = load32 m (pd_base s + 4 * i)"
  "pd_base (s\<lparr>pf_bitmap := b\<rparr>) = pd_base s" "pd_entry (s\<lparr>pf_bitmap := b\<rparr>) i = pd_entry s i"
  "pd_base (s\<lparr>page_fault_allowed := a\<rparr>) = pd_base s" "pd_entry (s\<lparr>page_fault_allowed := a\<rparr>) i = pd_entry s i"
  by (simp_all add: pd_base_def pd_entry_def)

lemma pt_entry_addr_upd [simp]:
  "pt_entry_addr (s\<lparr>pf_bitmap := b\<rparr>) va = pt_entry_addr s va"
  "pt_entry_addr (s\<lparr>page_fault_allowed := a\<rparr>) va = pt_entry_addr s va"
  by (simp_all add: pt_entry_addr_def pd_entry_pmem)

lemma translate_upd [simp]:
  "translate (s\<lparr>pf_bitmap := b\<rparr>) va = translate s va"
  "translate (s\<lparr>page_fault_allowed := a\<rparr>) va = translate s va"
  by (simp_all add: translate_def cong: option.case_cong)

lemma pt_entry_addr_Some:
  "pt_entry_addr s va = Some p \<longleftrightarrow> present (pd_entry s (drop_bit 22 va)) \<and>
    p = (pd_entry s (drop_bit 22 va) AND 0xFFFFF000) + 4 * (drop_bit 12 va AND 0x3FF)"
  by (auto simp: pt_entry_addr_def present_def Let_def)

text \<open>The recursive mapping makes \<^verbatim>\<open>page_entry(va)\<close> the address of the entry the hardware uses.\<close>

lemma page_entry_addr:
  assumes "recursive_map s"
  shows "pt_entry_addr s (page_entry va) = Some (pd_base s + 4 * drop_bit 22 va)"
  using assms by (simp add: pt_entry_addr_Some page_entry_fields recursive_map_def)

lemma page_entry_recursive:
  assumes "recursive_map s"
  shows "translate s (page_entry va) = pt_entry_addr s va"
  using page_entry_addr [OF assms, of va]
  by (auto simp: translate_def pt_entry_addr_def page_entry_fields pd_entry_def Let_def)

lemma tables_distinctD:
  assumes "tables_distinct s" and "unat i < 1024" "unat j < 1024" and "present (pd_entry s i)" "present (pd_entry s j)"
    and "pd_entry s i AND 0xFFFFF000 = pd_entry s j AND 0xFFFFF000"
  shows "i = j"
  using assms unfolding tables_distinct_def by blast

lemma same_table:
  assumes "tables_distinct s" and "present (pd_entry s (drop_bit 22 x))" "present (pd_entry s (drop_bit 22 y))"
  shows "pd_entry s (drop_bit 22 x) AND 0xFFFFF000 = pd_entry s (drop_bit 22 y) AND 0xFFFFF000
    \<longleftrightarrow> drop_bit 22 x = drop_bit 22 y"
  using tables_distinctD [OF assms(1) dir_index_less dir_index_less assms(2,3)] by auto

lemma entry_addr_inj:
  assumes "tables_distinct s" "pt_entry_addr s x = Some q" "pt_entry_addr s y = Some p"
  shows "q = p \<longleftrightarrow> same_page x y"
proof -
  from assms(2,3) have pr: "present (pd_entry s (drop_bit 22 x))" "present (pd_entry s (drop_bit 22 y))"
    and q: "q = (pd_entry s (drop_bit 22 x) AND 0xFFFFF000) + 4 * (drop_bit 12 x AND 0x3FF)"
    and p: "p = (pd_entry s (drop_bit 22 y) AND 0xFFFFF000) + 4 * (drop_bit 12 y AND 0x3FF)"
    by (simp_all add: pt_entry_addr_Some)
  show ?thesis
    unfolding q p same_page_def page_bits_split
      entry_addr_eq_iff [OF page_aligned_mask page_aligned_mask table_index_less table_index_less]
      same_table [OF assms(1) pr] ..
qed

section \<open>Writing an entry\<close>

text \<open>
  An entry outside of the window belongs to a table other than the directory: writing it keeps
  the directory and changes the translation of its own page only.
\<close>

lemma store_pte_dir:
  assumes ok: "recursive_map s" "tables_distinct s" and p: "pt_entry_addr s va = Some p"
    and win: "\<not> in_window va" and i: "unat i < 1024"
  shows "pd_entry (s\<lparr>pmem := store32 (pmem s) p v\<rparr>) i = pd_entry s i"
proof -
  let ?d = "drop_bit 22 va"
  have "pd_base s \<noteq> pd_entry s ?d AND 0xFFFFF000"
  proof
    assume "pd_base s = pd_entry s ?d AND 0xFFFFF000"
    then have "?d = 1023"
      using ok(1) p
      by (intro tables_distinctD [OF ok(2) dir_index_less]) (simp_all add: recursive_map_def pt_entry_addr_Some)
    with win show False by (simp add: in_window_def)
  qed
  then show ?thesis
    using p i table_index_less [of va]
    by (simp add: pt_entry_addr_Some pd_entry_pmem load32_store32_entry pd_entry_def [of s i])
qed

lemma store_pte_addr:
  assumes "recursive_map s" "tables_distinct s" "pt_entry_addr s va = Some p" "\<not> in_window va"
  shows "pt_entry_addr (s\<lparr>pmem := store32 (pmem s) p v\<rparr>) x = pt_entry_addr s x"
  using store_pte_dir [OF assms, OF dir_index_less [of x]] by (simp add: pt_entry_addr_def)

lemma store_pte_translate:
  assumes ok: "recursive_map s" "tables_distinct s" "pt_entry_addr s va = Some p" "\<not> in_window va"
  shows "translate (s\<lparr>pmem := store32 (pmem s) p v\<rparr>) x =
    (if same_page x va then (if present v then Some ((v AND 0xFFFFF000) + (x AND 0xFFF)) else None)
     else translate s x)"
proof (cases "pt_entry_addr s x")
  case None
  then have "\<not> same_page x va"
    using ok(3) by (auto simp: same_page_def page_bits_split pt_entry_addr_def Let_def split: if_splits)
  then show ?thesis using None by (simp add: translate_def store_pte_addr [OF ok])
next
  case (Some q)
  note qp = entry_addr_inj [OF ok(2) Some ok(3)]
  have "4 dvd unat p" "4 dvd unat q"
    using Some ok(3) entry_addr_dvd [OF page_aligned_mask table_index_less] by (auto simp: pt_entry_addr_Some)
  note cell32.load_store_aligned [OF this]
  with qp show ?thesis
    using Some by (simp add: translate_def store_pte_addr [OF ok] present_def Let_def)
qed

lemma vm_ok_dir:
  assumes ok: "vm_ok s" and base: "pd_base t = pd_base s"
    and dir: "\<And>i. unat i < 1024 \<Longrightarrow> pd_entry t i = pd_entry s i"
    and used: "used_frames (pf_bitmap s) \<subseteq> used_frames (pf_bitmap t)"
  shows "vm_ok t"
proof -
  have d: "tables_distinct s" using ok by (simp add: vm_ok_def)
  have "recursive_map t" using ok base dir [of 1023] by (simp add: vm_ok_def recursive_map_def)
  moreover have "tables_distinct t"
    unfolding tables_distinct_def
  proof (intro allI impI, elim conjE)
    fix i j
    assume ij: "unat i < 1024" "unat j < 1024" and "present (pd_entry t i)" "present (pd_entry t j)"
      "pd_entry t i AND 0xFFFFF000 = pd_entry t j AND 0xFFFFF000"
    then show "i = j"
      using tables_distinctD [OF d ij] unfolding dir [OF ij(1)] dir [OF ij(2)] by blast
  qed
  moreover have "tables_used t"
    unfolding tables_used_def
  proof (intro allI impI, elim conjE)
    fix i assume i: "unat i < 1024" "present (pd_entry t i)"
    then have "frame_of (pd_entry s i) \<in> used_frames (pf_bitmap s)"
      using ok unfolding vm_ok_def tables_used_def dir [OF i(1)] by blast
    then show "frame_of (pd_entry t i) \<in> used_frames (pf_bitmap t)"
      unfolding dir [OF i(1)] by (rule subsetD [OF used])
  qed
  ultimately show ?thesis by (simp add: vm_ok_def)
qed

lemma store_pte_ok:
  assumes ok: "vm_ok s" and p: "pt_entry_addr s va = Some p" "\<not> in_window va"
  shows "vm_ok (s\<lparr>pmem := store32 (pmem s) p v\<rparr>)"
proof -
  have r: "recursive_map s" "tables_distinct s" using ok by (simp_all add: vm_ok_def)
  note d = store_pte_dir [OF r p]
  show ?thesis using ok by (rule vm_ok_dir) (simp_all add: d pd_entry_pmem(1))
qed

lemma alloc_frame_ok: "vm_ok s \<Longrightarrow> used_frames (pf_bitmap s) \<subseteq> used_frames b \<Longrightarrow> vm_ok (s\<lparr>pf_bitmap := b\<rparr>)"
  by (auto simp: vm_ok_def recursive_map_def tables_distinct_def tables_used_def pd_entry_pmem)

lemma allowed_ok [simp]: "vm_ok (s\<lparr>page_fault_allowed := a\<rparr>) \<longleftrightarrow> vm_ok s"
  by (simp add: vm_ok_def recursive_map_def tables_distinct_def tables_used_def pd_entry_pmem)

section \<open>Accesses that do not fault\<close>

lemma access_mapped: "translate s va = Some pa \<Longrightarrow> access (Suc n) va s = Ok (pa, s)"
  by simp

lemma kaccess_mapped: "translate s va = Some pa \<Longrightarrow> kaccess va s = Ok (pa, s)"
  by (simp add: numeral_3_eq_3)

lemma kaccess_forbidden: "translate s va = None \<Longrightarrow> page_fault_allowed s = 0 \<Longrightarrow>
    kaccess va s = Halt (KPanic ''nonpresent'')"
  by (simp add: numeral_3_eq_3 fault_nonpresent_def)

lemma read_entry:
  assumes "recursive_map s" and "pt_entry_addr s va = Some p"
  shows "read32 kaccess (page_entry va) s = Ok (load32 (pmem s) p, s)"
  using assms by (simp add: read32_def kaccess_mapped page_entry_recursive)

lemma write_entry:
  assumes "recursive_map s" and "pt_entry_addr s va = Some p"
  shows "write32 kaccess (page_entry va) v s = Ok (s\<lparr>pmem := store32 (pmem s) p v\<rparr>)"
  using assms by (simp add: write32_def kaccess_mapped page_entry_recursive)

section \<open>Entries as values\<close>

lemma present_iff_bit: "present e \<longleftrightarrow> bit e 0"
  using and_exp_eq_0_iff_not_bit [of e 0] by (simp add: present_def)

lemma and_1_eq_1: "e AND 1 = 1 \<longleftrightarrow> present e"
  by (simp add: present_def and_one_eq mod_2_eq_odd)

lemma and_800_eq_0: "e AND 0x800 = 0 \<longleftrightarrow> \<not> bit e 11" for e :: u32
  using and_exp_eq_0_iff_not_bit [of e 11] by simp

lemma page_aligned_bits: "page_aligned b \<longleftrightarrow> (\<forall>n < 12. \<not> bit b n)"
proof -
  have "page_aligned b \<longleftrightarrow> unat (b AND mask 12) = 0"
    by (simp add: page_aligned_def unat_and_mask)
  also have "\<dots> \<longleftrightarrow> b AND mask 12 = 0" by (simp only: unat_eq_zero)
  also have "\<dots> \<longleftrightarrow> (\<forall>n < 12. \<not> bit b n)"
  proof
    assume zero: "b AND mask 12 = 0"
    show "\<forall>n < 12. \<not> bit b n"
    proof (intro allI impI)
      fix n :: nat assume "n < 12"
      moreover have "\<not> bit (b AND mask 12) n" by (simp add: zero)
      ultimately show "\<not> bit b n" by (auto simp: bit_simps)
    qed
  qed (auto intro!: bit_word_eqI simp: bit_simps)
  finally show ?thesis .
qed

lemma page_plus_flags:
  assumes "page_aligned b" and "unat c < 4096"
  shows "b + c = b OR c"
proof (rule disjunctive_add)
  fix n
  have "unat (take_bit 12 c) = unat c"
    using assms(2) by (simp add: unsigned_take_bit_eq take_bit_nat_eq_self)
  then have "take_bit 12 c = c" by (simp only: word_unat_eq_iff)
  then show "\<not> bit b n \<or> \<not> bit c n" using assms(1) by (metis page_aligned_bits bit_take_bit_iff)
qed


lemma page_or_flags:
  assumes "page_aligned b" and "unat c < 4096"
  shows "(b OR c) AND 0xFFFFF000 = b" and "frame_of (b OR c) = frame_of b"
    and "n < 12 \<Longrightarrow> bit (b OR c) n = bit c n"
proof -
  have sum: "unat (b OR c) = unat b + unat c"
    using unat_page_offset [OF assms] page_plus_flags [OF assms] by simp
  obtain q where q: "unat b = 4096 * q" using assms(1) by (auto simp: page_aligned_def)
  then show "frame_of (b OR c) = frame_of b" using assms(2) by (simp add: frame_of_def sum)
  show "(b OR c) AND 0xFFFFF000 = b"
    using assms(2) q by (simp add: word_unat_eq_iff [of "_ AND _"] unat_page_mask32 sum)
  show "n < 12 \<Longrightarrow> bit (b OR c) n = bit c n"
    using assms(1) by (simp add: bit_or_iff page_aligned_bits)
qed

lemma frame_of_mask: "frame_of (e AND 0xFFFFF000) = frame_of e"
  by (simp add: frame_of_def unat_page_mask32)

lemma frame_eq_iff: "frame_of d = frame_of e \<longleftrightarrow> d AND 0xFFFFF000 = e AND 0xFFFFF000"
  by (simp add: frame_of_def word_unat_eq_iff [of "_ AND _"] unat_page_mask32)

lemma pt_entry_addr_pte:
  "pt_entry_addr s va = (if table_present s va then Some (pte_addr s va) else None)"
  by (simp add: pt_entry_addr_def table_present_def present_def pte_addr_def Let_def)

lemma translate_pte:
  "translate s va = (if table_present s va \<and> present (pte s va)
     then Some ((pte s va AND 0xFFFFF000) + (va AND 0xFFF)) else None)"
  by (simp add: translate_def pt_entry_addr_pte pte_def present_def Let_def)

lemma vm_okD: "vm_ok s \<Longrightarrow> recursive_map s" "vm_ok s \<Longrightarrow> tables_distinct s" "vm_ok s \<Longrightarrow> tables_used s"
  by (simp_all add: vm_ok_def)

text \<open>What writing the entry of a page outside of the window does.\<close>

lemma set_pte_facts:
  assumes ok: "vm_ok s" and t: "table_present s va" and w: "\<not> in_window va"
  shows "vm_ok (set_pte va v s)"
    and "\<And>i. unat i < 1024 \<Longrightarrow> pd_entry (set_pte va v s) i = pd_entry s i"
    and "\<And>x. table_present (set_pte va v s) x = table_present s x"
    and "\<And>x. pte_addr (set_pte va v s) x = pte_addr s x"
    and "\<And>x. table_present s x \<Longrightarrow> pte (set_pte va v s) x = (if same_page x va then v else pte s x)"
    and "\<And>x. translate (set_pte va v s) x =
      (if same_page x va then (if present v then Some ((v AND 0xFFFFF000) + (x AND 0xFFF)) else None) else translate s x)"
proof -
  have p: "pt_entry_addr s va = Some (pte_addr s va)" using t by (simp add: pt_entry_addr_pte)
  note r = vm_okD(1,2) [OF ok]
  show "vm_ok (set_pte va v s)" unfolding set_pte_def by (rule store_pte_ok [OF ok p w])
  show dir: "pd_entry (set_pte va v s) i = pd_entry s i" if "unat i < 1024" for i
    unfolding set_pte_def by (rule store_pte_dir [OF r p w that])
  show "table_present (set_pte va v s) x = table_present s x" for x
    by (simp add: table_present_def dir dir_index_less)
  show addr: "pte_addr (set_pte va v s) x = pte_addr s x" for x
    by (simp add: pte_addr_def dir dir_index_less)
  show "translate (set_pte va v s) x =
      (if same_page x va then (if present v then Some ((v AND 0xFFFFF000) + (x AND 0xFFF)) else None) else translate s x)" for x
    unfolding set_pte_def by (rule store_pte_translate [OF r p w])
  show "pte (set_pte va v s) x = (if same_page x va then v else pte s x)" if "table_present s x" for x
  proof -
    have q: "pt_entry_addr s x = Some (pte_addr s x)" using that by (simp add: pt_entry_addr_pte)
    have "4 dvd unat (pte_addr s va)" "4 dvd unat (pte_addr s x)"
      unfolding pte_addr_def by (rule entry_addr_dvd [OF page_aligned_mask table_index_less])+
    from cell32.load_store_aligned [OF this] entry_addr_inj [OF r(2) q p]
    show ?thesis by (simp add: pte_def [of "set_pte va v s"] addr) (simp add: set_pte_def pte_def)
  qed
qed

lemma write_pte:
  assumes "recursive_map s" and "table_present s va"
  shows "write32 kaccess (page_entry va) v s = Ok (set_pte va v s)"
    and "read32 kaccess (page_entry va) s = Ok (pte s va, s)"
  using assms write_entry [of s va] read_entry [of s va] by (simp_all add: pt_entry_addr_pte set_pte_def pte_def)

section \<open>The heap scan\<close>

lemma heap_dir_index:
  assumes "0xc0400000 \<le> va" and "va < 0xc0800000"
  shows "drop_bit 22 va = (769 :: u32)"
proof -
  have "unat va div 4194304 = 769"
    using assms by (intro div_nat_eqI) (simp_all add: word_le_nat_alt word_less_nat_alt)
  then show ?thesis by (simp add: word_unat_eq_iff unat_drop_bit)
qed

lemma heap_page_table: "heap_mapped s \<Longrightarrow> heap_page va \<Longrightarrow> table_present s va"
  using heap_dir_index [of va] by (simp add: heap_mapped_def table_present_def heap_page_def)

lemma heap_page_window: "heap_page va \<Longrightarrow> \<not> in_window va"
  using heap_dir_index [of va] by (simp add: in_window_def heap_page_def)

lemma same_page_aligned: "page_aligned x \<Longrightarrow> page_aligned y \<Longrightarrow> same_page x y \<longleftrightarrow> x = y"
proof -
  assume "page_aligned x" "page_aligned y"
  then obtain p q where "unat x = 4096 * p" "unat y = 4096 * q"
    by (auto simp: page_aligned_def mod_eq_0_iff_dvd elim!: dvdE)
  then show ?thesis by (simp add: same_page_def word_unat_eq_iff unat_drop_bit)
qed

lemma heap_step:
  assumes "page_aligned va" and "va < 0xc0800000"
  shows "unat (va + 0x1000) = unat va + 4096" and "page_aligned (va + 0x1000)"
proof -
  show u: "unat (va + 0x1000) = unat va + 4096"
    using assms(2) by (subst unat_add_lem [THEN iffD1]) (auto simp: word_less_nat_alt)
  show "page_aligned (va + 0x1000)" using assms(1) by (simp add: page_aligned_def u)
qed

lemma aligned_between:
  assumes "page_aligned va" "page_aligned x" and "va < 0xc0800000" and "va \<le> x"
  shows "x = va \<or> va + 0x1000 \<le> x"
proof -
  obtain p q where "unat va = 4096 * p" "unat x = 4096 * q"
    using assms(1,2) by (auto simp: page_aligned_def mod_eq_0_iff_dvd elim!: dvdE)
  then show ?thesis
    using assms(4) heap_step(1) [OF assms(1,3)] by (auto simp: word_le_nat_alt word_unat_eq_iff)
qed

lemma kmalloc_scan_result:
  assumes "recursive_map s" and "heap_mapped s"
  shows "page_aligned va \<Longrightarrow> 0xc0400000 \<le> va \<Longrightarrow>
    (\<exists>v. kmalloc_scan va s = Ok (v, s) \<and> heap_page v \<and> \<not> heap_used s v
       \<and> (\<forall>x. heap_page x \<and> va \<le> x \<and> x < v \<longrightarrow> heap_used s x)) \<or>
    (kmalloc_scan va s = Halt (KPanic ''Kernel heap out of memory'')
       \<and> (\<forall>x. heap_page x \<and> va \<le> x \<longrightarrow> heap_used s x))"
  using assms
proof (induction va s rule: kmalloc_scan.induct)
  case (1 va s)
  show ?case
  proof (cases "va < 0xc0800000")
    case False
    then have "kmalloc_scan va s = Halt (KPanic ''Kernel heap out of memory'')"
      by (subst kmalloc_scan.simps) simp
    then show ?thesis using False by (auto simp: heap_page_def)
  next
    case True
    then have hp: "heap_page va" using "1.prems" by (simp add: heap_page_def)
    have r: "read32 kaccess (page_entry va) s = Ok (pte s va, s)"
      using write_pte(2) [OF "1.prems"(3)] heap_page_table [OF "1.prems"(4) hp] .
    show ?thesis
    proof (cases "heap_used s va")
      case False
      then have "kmalloc_scan va s = Ok (va, s)"
        using True r by (subst kmalloc_scan.simps) (simp add: and_800_eq_0 heap_used_def)
      then show ?thesis using hp False by auto
    next
      case used: True
      then have eq: "kmalloc_scan va s = kmalloc_scan (va + 0x1000) s"
        using True r by (subst kmalloc_scan.simps) (simp add: and_800_eq_0 heap_used_def)
      note st = heap_step [OF "1.prems"(1) True]
      have le: "0xc0400000 \<le> va + 0x1000" using "1.prems"(2) st(1) by (simp add: word_le_nat_alt)
      have nz: "\<not> fst (pte s va, s) AND 0x800 = 0" using used by (simp add: and_800_eq_0 heap_used_def)
      have "\<And>x. heap_page x \<Longrightarrow> va \<le> x \<Longrightarrow> x = va \<or> va + 0x1000 \<le> x"
        using aligned_between [OF "1.prems"(1) _ True] by (simp add: heap_page_def)
      moreover note "1.IH" [OF True r nz, unfolded snd_conv, OF st(2) le "1.prems"(3,4)]
      ultimately show ?thesis unfolding eq using used by metis
    qed
  qed
qed

section \<open>Allocating and freeing heap pages\<close>

lemma heap_base_page: "page_aligned 0xc0400000"
  by (simp add: page_aligned_def)

lemma kmalloc_eq:
  assumes ok: "recursive_map s" "heap_mapped s" and free: "heap_page v" "\<not> heap_used s v"
    and low: "\<forall>x. heap_page x \<and> x < v \<longrightarrow> heap_used s x"
  shows "kmalloc s =
    (if present (pte s v) then Ok (v, set_pte v (pte s v OR 0x800) s)
     else bind_ok (pmalloc (pf_bitmap s)) (\<lambda>(f, bm). Ok (v, set_pte v (f + 0x803) (s\<lparr>pf_bitmap := bm\<rparr>))))"
proof -
  have scan: "kmalloc_scan 0xc0400000 s = Ok (v, s)"
    using kmalloc_scan_result [OF ok heap_base_page] free low
    by (auto simp: heap_page_def) (metis heap_page_def less_linear)
  have t: "table_present s v" by (rule heap_page_table [OF ok(2) free(1)])
  then have t': "table_present (s\<lparr>pf_bitmap := bm\<rparr>) v" for bm by (simp add: table_present_def pd_entry_pmem)
  have r': "recursive_map (s\<lparr>pf_bitmap := bm\<rparr>)" for bm using ok(1) by (simp add: recursive_map_def pd_entry_pmem)
  show ?thesis
    by (cases "pmalloc (pf_bitmap s)")
       (simp_all add: kmalloc_def scan write_pte [OF ok(1) t] write_pte [OF r' t'] and_1_eq_1 split: prod.splits)
qed

lemma kmalloc_exhausted:
  assumes ok: "recursive_map s" "heap_mapped s" and all: "\<forall>x. heap_page x \<longrightarrow> heap_used s x"
  shows "kmalloc s = Halt (KPanic ''Kernel heap out of memory'')"
  using kmalloc_scan_result [OF ok heap_base_page] all by (auto simp: kmalloc_def)

lemma lowest_free_page:
  assumes "heap_page x" and "\<not> heap_used s x"
  obtains v where "heap_page v" "\<not> heap_used s v" "\<forall>y. heap_page y \<and> y < v \<longrightarrow> heap_used s y"
proof -
  let ?P = "\<lambda>n. heap_page (of_nat n) \<and> \<not> heap_used s (of_nat n)"
  have "?P (unat x)" using assms by simp
  from LeastI [of ?P, OF this] not_less_Least [of _ ?P]
  have "?P (LEAST n. ?P n)" and low: "\<And>n. n < (LEAST n. ?P n) \<Longrightarrow> \<not> ?P n" by blast+
  moreover have "heap_used s y" if "heap_page y" "y < of_nat (LEAST n. ?P n)" for y
  proof -
    have "unat y < (LEAST n. ?P n)"
      using that(2) by (metis le_unat_uoi linorder_not_less word_less_nat_alt less_imp_le)
    from low [OF this] that(1) show ?thesis by simp
  qed
  ultimately show thesis using that by blast
qed

lemma heap_okD:
  assumes "heap_ok s" "heap_page x" "present (pte s x)"
  shows "frame_of (pte s x) \<in> used_frames (pf_bitmap s)"
    and "\<And>y. heap_page y \<Longrightarrow> present (pte s y) \<Longrightarrow> frame_of (pte s y) = frame_of (pte s x) \<Longrightarrow> y = x"
    and "\<And>i. unat i < 1023 \<Longrightarrow> present (pd_entry s i) \<Longrightarrow> frame_of (pd_entry s i) \<noteq> frame_of (pte s x)"
    and "\<not> heap_used s x \<Longrightarrow> frame_of (pte s x) \<noteq> frame_of (pd_base s)"
  using assms unfolding heap_ok_def by blast+

lemma kernel_okD: "kernel_ok s \<Longrightarrow> vm_ok s" "kernel_ok s \<Longrightarrow> heap_mapped s" "kernel_ok s \<Longrightarrow> heap_ok s"
  by (simp_all add: kernel_ok_def)

lemma dir_entry_frame:
  assumes "recursive_map s"
  shows "frame_of (pd_entry s 1023) = frame_of (pd_base s)"
  using assms frame_of_mask [of "pd_entry s 1023"] by (simp add: recursive_map_def)

text \<open>A heap page that does not hold the directory shares its frame with no table.\<close>

lemma heap_tables_apart:
  assumes ok: "kernel_ok s" and x: "heap_page x" "present (pte s x)" "frame_of (pte s x) \<noteq> frame_of (pd_base s)"
    and i: "unat i < 1024" "present (pd_entry s i)"
  shows "frame_of (pd_entry s i) \<noteq> frame_of (pte s x)"
proof (cases "unat i < 1023")
  case True
  then show ?thesis by (rule heap_okD(3) [OF kernel_okD(3) [OF ok] x(1,2) _ i(2)])
next
  case False
  then have "unat i = unat (1023 :: u32)" using i(1) by simp
  then have "i = 1023" by (simp only: word_unat_eq_iff)
  then show ?thesis using dir_entry_frame [OF vm_okD(1) [OF kernel_okD(1) [OF ok]]] x(3) by simp
qed

lemma bitmap_upd:
  "pte (s\<lparr>pf_bitmap := b\<rparr>) x = pte s x" "table_present (s\<lparr>pf_bitmap := b\<rparr>) x = table_present s x"
  "pte_addr (s\<lparr>pf_bitmap := b\<rparr>) x = pte_addr s x"
  by (simp_all add: pte_def pte_addr_def table_present_def pd_entry_pmem)

lemma kmalloc_cases:
  assumes ok: "vm_ok s" "heap_mapped s" and run: "kmalloc s = Ok (v, s')"
  obtains e b where "heap_page v" "\<not> heap_used s v" "\<forall>x. heap_page x \<and> x < v \<longrightarrow> heap_used s x"
    and "s' = set_pte v e (s\<lparr>pf_bitmap := b\<rparr>)" "present e" "bit e 11"
    and "present (pte s v) \<and> b = pf_bitmap s \<and> e = pte s v OR 0x800
      \<or> \<not> present (pte s v) \<and> pmalloc (pf_bitmap s) = Ok (e AND 0xFFFFF000, b) \<and> e = (e AND 0xFFFFF000) OR 0x803"
proof -
  note r = vm_okD(1) [OF ok(1)]
  have "\<not> (\<forall>x. heap_page x \<longrightarrow> heap_used s x)"
    using kmalloc_exhausted [OF r ok(2)] run by auto
  then obtain x where "heap_page x" "\<not> heap_used s x" by blast
  then obtain w where w: "heap_page w" "\<not> heap_used s w" "\<forall>y. heap_page y \<and> y < w \<longrightarrow> heap_used s y"
    by (rule lowest_free_page)
  note eq = kmalloc_eq [OF r ok(2) w] 
  show thesis
  proof (cases "present (pte s w)")
    case True
    then have v: "v = w" and s': "s' = set_pte w (pte s w OR 0x800) s" using eq run by simp_all
    have "bit (pte s w OR 0x800) 11" "present (pte s w OR 0x800)"
      using True bit_1_iff [of 0] by (simp_all add: present_iff_bit bit_or_iff)
    then show thesis using w s' True v by (intro that [of "pte s w OR 0x800" "pf_bitmap s"]) simp_all
  next
    case False
    then have "bind_ok (pmalloc (pf_bitmap s)) (\<lambda>(f, bm). Ok (w, set_pte w (f + 0x803) (s\<lparr>pf_bitmap := bm\<rparr>))) = Ok (v, s')"
      using eq run by simp
    then obtain f b where pm: "pmalloc (pf_bitmap s) = Ok (f, b)" and v: "v = w"
      and s': "s' = set_pte w (f + 0x803) (s\<lparr>pf_bitmap := b\<rparr>)" by auto
    have al: "page_aligned f" using pmm.alloc_Ok [OF pm] by (simp add: page_aligned_def)
    have e: "f + 0x803 = f OR 0x803" using page_plus_flags [OF al] by simp
    note fl = page_or_flags [OF al, of "0x803", simplified]
    have "bit (f OR 0x803) 11" "present (f OR 0x803)"
      by (simp_all add: present_iff_bit fl)
    then show thesis using w s' False pm v e by (intro that [of "f OR 0x803" b]) (simp_all add: fl)
  qed
qed

lemma entry_frame:
  assumes ok: "kernel_ok s" and v: "heap_page v" and un: "\<not> heap_used s v"
    and c: "present (pte s v) \<and> b = pf_bitmap s \<and> e = pte s v OR 0x800
      \<or> \<not> present (pte s v) \<and> pmalloc (pf_bitmap s) = Ok (e AND 0xFFFFF000, b) \<and> e = (e AND 0xFFFFF000) OR 0x803"
  shows "frame_of e \<in> used_frames b"
    and "\<And>x. heap_page x \<Longrightarrow> present (pte s x) \<Longrightarrow> x \<noteq> v \<Longrightarrow> frame_of (pte s x) \<noteq> frame_of e"
    and "\<And>i. unat i < 1024 \<Longrightarrow> present (pd_entry s i) \<Longrightarrow> frame_of (pd_entry s i) \<noteq> frame_of e"
proof -
  note k = kernel_okD [OF ok]
  consider (old) "present (pte s v)" "b = pf_bitmap s" "e = pte s v OR 0x800"
    | (new) "pmalloc (pf_bitmap s) = Ok (e AND 0xFFFFF000, b)" using c by blast
  then have "frame_of e \<in> used_frames b \<and> (\<forall>x. heap_page x \<and> present (pte s x) \<and> x \<noteq> v \<longrightarrow> frame_of (pte s x) \<noteq> frame_of e)
    \<and> (\<forall>i. unat i < 1024 \<and> present (pd_entry s i) \<longrightarrow> frame_of (pd_entry s i) \<noteq> frame_of e)"
  proof cases
    case old
    have "e AND 0xFFFFF000 = pte s v AND 0xFFFFF000"
      unfolding old(3) by (simp add: bit.conj_disj_distrib2)
    then have "frame_of e = frame_of (pte s v)" by (simp add: frame_eq_iff)
    moreover note h = heap_okD(1,2,4) [OF k(3) v old(1)]
    moreover note heap_tables_apart [OF ok v old(1) h(3) [OF un]]
    ultimately show ?thesis using old(2) by metis
  next
    case new
    from pmm.alloc_Ok [OF new] have nf: "frame_of e \<notin> used_frames (pf_bitmap s)" and "frame_of e \<in> used_frames b"
      by (simp_all add: frame_of_mask)
    moreover have "frame_of (pte s x) \<noteq> frame_of e" if "heap_page x" "present (pte s x)" for x
      using heap_okD(1) [OF k(3) that] nf by auto
    moreover have "frame_of (pd_entry s i) \<noteq> frame_of e" if "unat i < 1024" "present (pd_entry s i)" for i
      using vm_okD(3) [OF k(1)] that nf unfolding tables_used_def by metis
    ultimately show ?thesis by blast
  qed
  then show "frame_of e \<in> used_frames b"
    "\<And>x. heap_page x \<Longrightarrow> present (pte s x) \<Longrightarrow> x \<noteq> v \<Longrightarrow> frame_of (pte s x) \<noteq> frame_of e"
    "\<And>i. unat i < 1024 \<Longrightarrow> present (pd_entry s i) \<Longrightarrow> frame_of (pd_entry s i) \<noteq> frame_of e" by blast+
qed

lemma kmalloc_frame:
  assumes ok: "kernel_ok s" and run: "kmalloc s = Ok (v, s')"
  shows "kernel_ok s'" and "heap_page v" and "\<not> heap_used s v" and "heap_used s' v"
    and "translate s' v = Some (pte s' v AND 0xFFFFF000)"
    and "\<And>x. \<not> same_page x v \<Longrightarrow> translate s' x = translate s x"
    and "\<And>x. heap_page x \<Longrightarrow> x \<noteq> v \<Longrightarrow> pte s' x = pte s x"
    and "used_frames (pf_bitmap s) \<subseteq> used_frames (pf_bitmap s')"
proof -
  note k = kernel_okD [OF ok]
  obtain e b where v: "heap_page v" "\<not> heap_used s v" and s': "s' = set_pte v e (s\<lparr>pf_bitmap := b\<rparr>)"
    and e: "present e" "bit e 11"
    and c: "present (pte s v) \<and> b = pf_bitmap s \<and> e = pte s v OR 0x800
      \<or> \<not> present (pte s v) \<and> pmalloc (pf_bitmap s) = Ok (e AND 0xFFFFF000, b) \<and> e = (e AND 0xFFFFF000) OR 0x803"
    using kmalloc_cases [OF k(1,2) run] by metis
  let ?t = "s\<lparr>pf_bitmap := b\<rparr>"
  have used: "used_frames (pf_bitmap s) \<subseteq> used_frames b"
    using c pmm.alloc_Ok [of "pf_bitmap s" _ b] by auto
  have t: "vm_ok ?t" using alloc_frame_ok [OF k(1) used] .
  have tp: "table_present ?t v" using heap_page_table [OF k(2) v(1)] by (simp add: bitmap_upd)
  note f = set_pte_facts [OF t tp heap_page_window [OF v(1)], where v = e, folded s']
  have dir: "pd_entry s' i = pd_entry s i" if "unat i < 1024" for i using f(2) [OF that] by (simp add: pd_entry_pmem)
  have hm: "heap_mapped s'" using k(2) dir [of 769] by (simp add: heap_mapped_def)
  have pv: "pte s' v = e"
    using f(5) [of v] tp by (simp add: same_page_def)
  show others: "pte s' x = pte s x" if "heap_page x" "x \<noteq> v" for x
    using f(5) [of x] heap_page_table [OF k(2) that(1)] that v(1)
    by (simp add: bitmap_upd same_page_aligned heap_page_def)
  show "used_frames (pf_bitmap s) \<subseteq> used_frames (pf_bitmap s')" using used by (simp add: s' set_pte_def)
  show "heap_page v" "\<not> heap_used s v" by fact+
  show "heap_used s' v" using e by (simp add: heap_used_def pv)
  have "v AND 0xFFF = 0"
    using v(1) by (simp add: heap_page_def page_aligned_def word_unat_eq_iff [of "_ AND _"] unat_and_FFF)
  then show "translate s' v = Some (pte s' v AND 0xFFFFF000)"
    using f(6) [of v] e by (simp add: same_page_def pv)
  show "translate s' x = translate s x" if "\<not> same_page x v" for x using f(6) [of x] that by simp
  note own = entry_frame [OF ok v c]
  have bm: "pf_bitmap s' = b" "pd_base s' = pd_base s" by (simp_all add: s' set_pte_def pd_base_def)
  have uv: "heap_used s' v" using e by (simp add: heap_used_def pv)
  have "heap_ok s'"
    unfolding heap_ok_def bm
  proof (intro allI impI, elim conjE)
    fix x assume x: "heap_page x" "present (pte s' x)"
    show "frame_of (pte s' x) \<in> used_frames b
     \<and> (\<forall>y. heap_page y \<and> present (pte s' y) \<and> frame_of (pte s' y) = frame_of (pte s' x) \<longrightarrow> y = x)
     \<and> (\<forall>i. unat i < 1023 \<and> present (pd_entry s' i) \<longrightarrow> frame_of (pd_entry s' i) \<noteq> frame_of (pte s' x))
     \<and> (frame_of (pte s' x) = frame_of (pd_base s) \<longrightarrow> heap_used s' x)"
    proof (cases "x = v")
      case True
      have "frame_of (pd_entry s' i) \<noteq> frame_of e" if "unat i < 1023" "present (pd_entry s' i)" for i
        using own(3) [of i] dir [of i] that by simp
      then show ?thesis using own(1,2) others pv uv True by metis
    next
      case False
      note h = heap_okD [OF k(3) x(1)] and o = others [OF x(1) False]
      have p: "present (pte s x)" using x(2) o by simp
      have "frame_of (pd_entry s' i) \<noteq> frame_of (pte s' x)" if "unat i < 1023" "present (pd_entry s' i)" for i
        using h(3) [OF p, of i] dir [of i] that o by simp
      moreover have "frame_of (pte s x) = frame_of (pd_base s) \<longrightarrow> heap_used s' x" using h(4) [OF p] o by (auto simp: heap_used_def)
      moreover have "frame_of (pte s' x) \<in> used_frames b" using h(1) [OF p] used o by auto
      moreover have "y = x" if "heap_page y" "present (pte s' y)" "frame_of (pte s' y) = frame_of (pte s' x)" for y
        using that h(2) [OF p, of y] own(2) [OF x(1) p False] others [of y] pv o by (cases "y = v") auto
      ultimately show ?thesis using o by auto
    qed
  qed
  then show "kernel_ok s'" using f(1) hm by (simp add: kernel_ok_def)
qed

lemma kmalloc_apart:
  assumes ok: "kernel_ok s" and run: "kmalloc s = Ok (v, s')"
  shows "present (pte s' v)" "frame_of (pte s' v) \<noteq> frame_of (pd_base s')"
    and "\<And>i. unat i < 1024 \<Longrightarrow> present (pd_entry s' i) \<Longrightarrow> frame_of (pd_entry s' i) \<noteq> frame_of (pte s' v)"
proof -
  note k = kernel_okD [OF ok] and f = kmalloc_frame [OF ok run]
  obtain e b where v: "heap_page v" "\<not> heap_used s v" and s': "s' = set_pte v e (s\<lparr>pf_bitmap := b\<rparr>)"
    and c: "present (pte s v) \<and> b = pf_bitmap s \<and> e = pte s v OR 0x800
      \<or> \<not> present (pte s v) \<and> pmalloc (pf_bitmap s) = Ok (e AND 0xFFFFF000, b) \<and> e = (e AND 0xFFFFF000) OR 0x803"
    using kmalloc_cases [OF k(1,2) run] by metis
  have t: "vm_ok (s\<lparr>pf_bitmap := b\<rparr>)" using alloc_frame_ok [OF k(1)] f(8) by (simp add: s' set_pte_def)
  have tp: "table_present (s\<lparr>pf_bitmap := b\<rparr>) v" using heap_page_table [OF k(2) v(1)] by (simp add: bitmap_upd)
  note g = set_pte_facts [OF t tp heap_page_window [OF v(1)], where v = e, folded s']
  have pv: "pte s' v = e" using g(5) [of v] tp by (simp add: same_page_def)
  have dir: "pd_entry s' i = pd_entry s i" if "unat i < 1024" for i using g(2) [OF that] by (simp add: pd_entry_pmem)
  show "present (pte s' v)" using f(5) by (simp add: translate_pte split: if_splits)
  show tb: "frame_of (pd_entry s' i) \<noteq> frame_of (pte s' v)" if "unat i < 1024" "present (pd_entry s' i)" for i
    using entry_frame(3) [OF ok v c, of i] that dir [OF that(1)] pv by simp
  have r: "recursive_map s'" by (rule vm_okD(1) [OF kernel_okD(1) [OF f(1)]])
  then show "frame_of (pte s' v) \<noteq> frame_of (pd_base s')"
    using tb [of 1023] dir_entry_frame [OF r] by (simp add: recursive_map_def)
qed

section \<open>Filling a page\<close>

lemma frame_of_offset:
  assumes "page_aligned b" and "unat x < 4096"
  shows "frame_of (b + x) = frame_of b"
  using page_or_flags(2) [OF assms] page_plus_flags [OF assms] by simp

lemma frame_of_eq_base: "page_aligned b \<Longrightarrow> page_aligned c \<Longrightarrow> frame_of b = frame_of c \<longleftrightarrow> b = c"
  by (auto simp: frame_of_def page_aligned_def word_unat_eq_iff mod_eq_0_iff_dvd elim!: dvdE)

lemma load32_page_local:
  assumes b: "page_aligned b" and i: "unat i < 1024"
    and same: "\<And>x. frame_of x = frame_of b \<Longrightarrow> m' x = m x"
  shows "load32 m' (b + 4 * i) = load32 m (b + 4 * i)"
proof (rule load32_local)
  fix k :: nat assume k: "k < 4"
  have "unat (4 * i + of_nat k) = 4 * unat i + k"
    using i k unat_index4 [OF i] by (simp add: unat_word_ariths unat_of_nat take_bit_eq_mod)
  then have "frame_of (b + (4 * i + of_nat k)) = frame_of b"
    using i k by (intro frame_of_offset [OF b]) simp
  then show "m' (b + 4 * i + of_nat k) = m (b + 4 * i + of_nat k)"
    by (intro same) (simp add: add.assoc)
qed

text \<open>Memory outside of the tables does not matter to the walk.\<close>

lemma pd_entry_local:
  assumes "\<And>x. frame_of x = frame_of (pd_base s) \<Longrightarrow> m' x = pmem s x" and "unat i < 1024"
  shows "pd_entry (s\<lparr>pmem := m'\<rparr>) i = pd_entry s i"
  using load32_page_local [OF pd_base_aligned assms(2), of s m' "pmem s"] assms(1)
  by (simp add: pd_entry_pmem) (simp add: pd_entry_def)

lemma translate_local:
  assumes "\<And>x. frame_of x = frame_of (pd_base s) \<Longrightarrow> m' x = pmem s x"
    and "\<And>x. frame_of x = frame_of (pd_entry s (drop_bit 22 va)) \<Longrightarrow> m' x = pmem s x"
  shows "translate (s\<lparr>pmem := m'\<rparr>) va = translate s va" and "pte (s\<lparr>pmem := m'\<rparr>) va = pte s va"
    and "table_present (s\<lparr>pmem := m'\<rparr>) va = table_present s va"
proof -
  have d: "pd_entry (s\<lparr>pmem := m'\<rparr>) (drop_bit 22 va) = pd_entry s (drop_bit 22 va)"
    using assms(1) dir_index_less by (rule pd_entry_local)
  have "load32 m' (pte_addr s va) = load32 (pmem s) (pte_addr s va)"
    unfolding pte_addr_def using assms(2)
    by (intro load32_page_local [OF page_aligned_mask table_index_less]) (simp add: frame_of_mask)
  then show p: "pte (s\<lparr>pmem := m'\<rparr>) va = pte s va" by (simp add: pte_def pte_addr_def d)
  show t: "table_present (s\<lparr>pmem := m'\<rparr>) va = table_present s va" by (simp add: table_present_def d)
  show "translate (s\<lparr>pmem := m'\<rparr>) va = translate s va" by (simp add: translate_pte p t)
qed

lemma vset_steps:
  assumes f: "page_aligned f"
    and stable: "\<And>m' k. (\<And>x. frame_of x \<noteq> frame_of f \<Longrightarrow> m' x = pmem s x) \<Longrightarrow> k < 4096 \<Longrightarrow>
      translate (s\<lparr>pmem := m'\<rparr>) (a + of_nat k) = Some (f + of_nat k)"
    and m: "\<And>x. frame_of x \<noteq> frame_of f \<Longrightarrow> m x = pmem s x"
  shows "j + n \<le> 4096 \<Longrightarrow> vset (access (Suc d)) (a + of_nat j) v n (s\<lparr>pmem := m\<rparr>) =
    Ok (s\<lparr>pmem := (\<lambda>x. if frame_of x = frame_of f \<and> j \<le> unat (x - f) \<and> unat (x - f) < j + n then v else m x)\<rparr>)"
  using m
proof (induction n arbitrary: j m)
  case 0
  have "(\<lambda>x. if frame_of x = frame_of f \<and> j \<le> unat (x - f) \<and> unat (x - f) < j + 0 then v else m x) = m"
    by (auto simp: fun_eq_iff)
  then show ?case by (simp only: vset.simps)
next
  case (Suc n)
  let ?m = "m(f + of_nat j := v)"
  have jl: "unat (of_nat j :: u32) = j" "j < 4096" using Suc.prems(1) by (simp_all add: unat_of_nat take_bit_nat_eq_self)
  have fj: "frame_of (f + of_nat j) = frame_of f" using frame_of_offset [OF f] jl by simp
  have m': "frame_of x \<noteq> frame_of f \<Longrightarrow> ?m x = pmem s x" for x using Suc.prems(2) fj by auto
  have "write8 (access (Suc d)) (a + of_nat j) v (s\<lparr>pmem := m\<rparr>) = Ok (s\<lparr>pmem := ?m\<rparr>)"
    using stable [OF Suc.prems(2) jl(2)] by (simp add: write8_def)
  then have "vset (access (Suc d)) (a + of_nat j) v (Suc n) (s\<lparr>pmem := m\<rparr>)
      = vset (access (Suc d)) (a + of_nat (Suc j)) v n (s\<lparr>pmem := ?m\<rparr>)"
    by (simp add: ac_simps del: access.simps)
  also have "\<dots> = Ok (s\<lparr>pmem := (\<lambda>x. if frame_of x = frame_of f \<and> Suc j \<le> unat (x - f) \<and> unat (x - f) < Suc j + n
      then v else ?m x)\<rparr>)"
    using Suc.prems(1) m' by (intro Suc.IH) simp_all
  also have "(\<lambda>x. if frame_of x = frame_of f \<and> Suc j \<le> unat (x - f) \<and> unat (x - f) < Suc j + n then v else ?m x)
      = (\<lambda>x. if frame_of x = frame_of f \<and> j \<le> unat (x - f) \<and> unat (x - f) < j + Suc n then v else m x)"
  proof
    fix x
    have "x = f + of_nat j \<longleftrightarrow> unat (x - f) = j"
      using jl(1) by (metis add_diff_cancel_left' diff_add_cancel add.commute unat_eq_nat_uint word_unat_eq_iff)
    then show "(if frame_of x = frame_of f \<and> Suc j \<le> unat (x - f) \<and> unat (x - f) < Suc j + n then v else ?m x)
      = (if frame_of x = frame_of f \<and> j \<le> unat (x - f) \<and> unat (x - f) < j + Suc n then v else m x)"
      using fj by auto
  qed
  finally show ?case .
qed

lemma same_frame_offset:
  assumes "page_aligned f" and "frame_of x = frame_of f"
  shows "unat (x - f) < 4096"
proof -
  obtain q where q: "unat f = 4096 * q" using assms(1) by (auto simp: page_aligned_def)
  then have "unat x div 4096 = q" using assms(2) by (simp add: frame_of_def)
  then have "unat x = 4096 * q + unat x mod 4096" using mult_div_mod_eq [of 4096 "unat x"] by simp
  moreover have "unat x mod 4096 < 4096" by simp
  ultimately show ?thesis using q by (simp add: unat_sub_if')
qed

lemma vset_page:
  assumes f: "page_aligned f"
    and stable: "\<And>m' k. (\<And>x. frame_of x \<noteq> frame_of f \<Longrightarrow> m' x = pmem s x) \<Longrightarrow> k < 4096 \<Longrightarrow>
      translate (s\<lparr>pmem := m'\<rparr>) (a + of_nat k) = Some (f + of_nat k)"
  shows "vset (access (Suc d)) a 0 4096 s = Ok (s\<lparr>pmem := zero_frame f (pmem s)\<rparr>)"
proof -
  have "vset (access (Suc d)) (a + of_nat 0) 0 4096 (s\<lparr>pmem := pmem s\<rparr>) =
    Ok (s\<lparr>pmem := (\<lambda>x. if frame_of x = frame_of f \<and> 0 \<le> unat (x - f) \<and> unat (x - f) < 0 + 4096 then 0 else pmem s x)\<rparr>)"
    by (rule vset_steps [OF f stable]) simp_all
  moreover have "(\<lambda>x. if frame_of x = frame_of f \<and> 0 \<le> unat (x - f) \<and> unat (x - f) < 0 + 4096 then 0 else pmem s x)
      = zero_frame f (pmem s)"
    using same_frame_offset [OF f] by (auto simp: zero_frame_def fun_eq_iff)
  ultimately show ?thesis by (simp del: access.simps)
qed

section \<open>Faulting in a page table\<close>

lemma offset_fields:
  fixes b :: u32
  assumes "page_aligned b" and "unat x < 4096"
  shows "drop_bit 12 (b + x) = drop_bit 12 b" "drop_bit 22 (b + x) = drop_bit 22 b" "(b + x) AND 0xFFF = x"
proof -
  obtain q where q: "unat b = 4096 * q" using assms(1) by (auto simp: page_aligned_def)
  note u = unat_page_offset [OF assms]
  have d: "unat (b + x) div 4096 = unat b div 4096" using q u assms(2) by simp
  then show "drop_bit 12 (b + x) = drop_bit 12 b" by (simp add: word_unat_eq_iff unat_drop_bit)
  have "unat (b + x) div 4096 div 1024 = unat b div 4096 div 1024" using d by simp
  then show "drop_bit 22 (b + x) = drop_bit 22 b"
    by (simp add: word_unat_eq_iff unat_drop_bit flip: div_mult2_eq)
  show "(b + x) AND 0xFFF = x" using q u assms(2) by (simp add: word_unat_eq_iff [of "_ AND _"] unat_and_FFF)
qed

lemma page_split: "x = (x AND 0xFFFFF000) + (x AND 0xFFF)" for x :: u32
proof -
  have "unat ((x AND 0xFFFFF000) + (x AND 0xFFF)) = unat (x AND 0xFFFFF000) + unat (x AND 0xFFF)"
    by (rule unat_page_offset) (simp_all add: unat_and_FFF)
  then show ?thesis by (simp add: word_unat_eq_iff unat_page_mask32 unat_and_FFF)
qed

lemma page_base_fields:
  fixes x :: u32
  shows "drop_bit 12 (x AND 0xFFFFF000) = drop_bit 12 x" "drop_bit 22 (x AND 0xFFFFF000) = drop_bit 22 x"
  using offset_fields [of "x AND 0xFFFFF000" "x AND 0xFFF"] page_split [of x] by (simp_all add: unat_and_FFF)

lemma entry_page_fields:
  assumes "unat x < 4096"
  shows "drop_bit 22 ((page_entry va AND 0xFFFFF000) + x) = 1023"
    and "drop_bit 12 ((page_entry va AND 0xFFFFF000) + x) AND 0x3FF = drop_bit 22 va"
    and "((page_entry va AND 0xFFFFF000) + x) AND 0xFFF = x"
  by (simp_all only: offset_fields [OF page_aligned_mask assms] page_base_fields page_entry_fields)

lemma fresh_frame:
  assumes "vm_ok s" and "pmalloc (pf_bitmap s) = Ok (f, b)"
  shows "page_aligned f" and "frame_of f \<noteq> frame_of (pd_base s)"
    and "\<And>i. unat i < 1024 \<Longrightarrow> present (pd_entry s i) \<Longrightarrow> frame_of (pd_entry s i) \<noteq> frame_of f"
proof -
  note a = pmm.alloc_Ok [OF assms(2)]
  show "page_aligned f" using a by (simp add: page_aligned_def)
  show *: "frame_of (pd_entry s i) \<noteq> frame_of f" if "unat i < 1024" "present (pd_entry s i)" for i
    using a vm_okD(3) [OF assms(1)] that unfolding tables_used_def by metis
  have "frame_of (pd_entry s 1023) = frame_of (pd_base s)"
    using vm_okD(1) [OF assms(1)] by (metis recursive_map_def frame_of_mask)
  then show "frame_of f \<noteq> frame_of (pd_base s)"
    using * [of 1023] vm_okD(1) [OF assms(1)] by (simp add: recursive_map_def)
qed

lemma stored_dir_entry:
  assumes "unat i < 1024" "unat j < 1024" and "\<And>x. frame_of x \<noteq> frame_of f \<Longrightarrow> m' x = store32 (pmem s) (pd_base s + 4 * i) v x"
    and "frame_of f \<noteq> frame_of (pd_base s)"
  shows "load32 m' (pd_base s + 4 * j) = (if j = i then v else pd_entry s j)"
proof -
  have "load32 m' (pd_base s + 4 * j) = load32 (store32 (pmem s) (pd_base s + 4 * i) v) (pd_base s + 4 * j)"
    using assms(3,4) by (intro load32_page_local [OF pd_base_aligned assms(2)]) simp
  then show ?thesis using assms(1,2) by (simp add: load32_store32_entry pd_entry_def)
qed

lemma with_table_dir:
  assumes "vm_ok s" "pmalloc (pf_bitmap s) = Ok (f, b)" "unat i < 1024" "unat j < 1024"
  shows "pd_entry (with_table i f b s) j = (if j = i then f OR 0x807 else pd_entry s j)"
  using stored_dir_entry [OF assms(3,4), of f "pmem (with_table i f b s)" s "f OR 0x807"] fresh_frame(2) [OF assms(1,2)]
  by (simp add: with_table_def zero_frame_def pd_entry_def [of "_\<lparr>pmem := _\<rparr>"] pd_base_def)

lemma table_flags:
  assumes "page_aligned f"
  shows "present (f OR 0x807)" "(f OR 0x807) AND 0xFFFFF000 = f" "frame_of (f OR 0x807) = frame_of f" "f + 0x807 = f OR 0x807"
  using page_or_flags [OF assms, of "0x807"] page_plus_flags [OF assms, of "0x807"] by (simp_all add: present_iff_bit)

lemma fault_table:
  assumes ok: "vm_ok s" and absent: "\<not> table_present s va" and pm: "pmalloc (pf_bitmap s) = Ok (f, b)"
    and allow: "page_fault_allowed s \<noteq> 0"
  shows "kaccess (page_entry va) s =
    Ok (f + 4 * (drop_bit 12 va AND 0x3FF), with_table (drop_bit 22 va) f b s)"
proof -
  let ?i = "drop_bit 22 va" and ?s1 = "s\<lparr>pf_bitmap := b\<rparr>"
  let ?s2 = "?s1\<lparr>pmem := store32 (pmem s) (pd_base s + 4 * ?i) (f OR 0x807)\<rparr>"
  note r = vm_okD(1) [OF ok] and fr = fresh_frame [OF ok pm]
  have ne: "?i \<noteq> 1023" using absent r by (auto simp: table_present_def recursive_map_def)
  have st: "translate (?s2\<lparr>pmem := m'\<rparr>) ((page_entry va AND 0xFFFFF000) + x) = Some (f + x)"
    if m': "\<And>x. frame_of x \<noteq> frame_of f \<Longrightarrow> m' x = pmem ?s2 x" and x: "unat x < 4096" for m' x
  proof -
    have d: "load32 m' (pd_base s + 4 * j) = (if j = ?i then f OR 0x807 else pd_entry s j)" if "unat j < 1024" for j
      by (rule stored_dir_entry [OF dir_index_less that _ fr(2)]) (simp add: m')
    have "pd_entry (?s2\<lparr>pmem := m'\<rparr>) j = (if j = ?i then f OR 0x807 else pd_entry s j)" if "unat j < 1024" for j
      using d [OF that] by (simp add: pd_entry_def [of "_\<lparr>pmem := _\<rparr>"] pd_base_def)
    note d' = this [of 1023]
    show ?thesis
      using ne r d [OF dir_index_less, of va] d' table_flags [OF fr(1)]
      by (simp add: translate_pte table_present_def pte_def pte_addr_def entry_page_fields [OF x] recursive_map_def)
  qed
  have none: "translate s (page_entry va) = None"
    using absent by (simp add: page_entry_recursive [OF r] pt_entry_addr_pte)
  have w: "write32 (access (Suc (Suc 0))) (page_entry (page_entry va)) (f + 0x807) ?s1 = Ok ?s2"
    using page_entry_recursive [OF r, of "page_entry va"] page_entry_addr [OF r, of va]
    by (simp add: write32_def table_flags [OF fr(1)])
  have z: "vset (access (Suc (Suc 0))) (page_entry va AND 0xFFFFF000) 0 4096 ?s2 = Ok (with_table ?i f b s)"
    using vset_page [OF fr(1), of ?s2 "page_entry va AND 0xFFFFF000" "Suc 0"] st
    by (simp add: with_table_def unat_of_nat take_bit_nat_eq_self del: access.simps)
  have "translate (with_table ?i f b s) ((page_entry va AND 0xFFFFF000) + (page_entry va AND 0xFFF))
      = Some (f + (page_entry va AND 0xFFF))"
    using st [of "zero_frame f (pmem ?s2)" "page_entry va AND 0xFFF"]
    by (simp add: with_table_def zero_frame_def unat_and_FFF)
  then have last: "translate (with_table ?i f b s) (page_entry va) = Some (f + 4 * (drop_bit 12 va AND 0x3FF))"
    using page_split [of "page_entry va"] by (simp add: page_entry_fields)
  have "fault_nonpresent (access (Suc (Suc 0))) (page_entry va) s = Ok (with_table ?i f b s)"
    using allow w z pm by (simp add: fault_nonpresent_def del: access.simps)
  then show ?thesis using none last by (simp add: numeral_3_eq_3)
qed

lemma store32_entry_frame:
  assumes "page_aligned b" "unat i < 1024" and "frame_of y \<noteq> frame_of b"
  shows "store32 m (b + 4 * i) v y = m y"
proof (rule store32_frame)
  fix k :: nat assume k: "k < 4"
  have "unat (4 * i + of_nat k) = 4 * unat i + k"
    using k unat_index4 [OF assms(2)] assms(2) by (simp add: unat_word_ariths unat_of_nat take_bit_eq_mod)
  then have "frame_of (b + (4 * i + of_nat k)) = frame_of b"
    using assms(2) k by (intro frame_of_offset [OF assms(1)]) simp
  with assms(3) show "y \<noteq> b + 4 * i + of_nat k" by (auto simp: add.assoc)
qed

lemma zero_table_entry:
  assumes "page_aligned f" and "unat i < 1024"
  shows "load32 (zero_frame f m) (f + 4 * i) = 0"
proof -
  have "load32 (zero_frame f m) (f + 4 * i) = load32 (\<lambda>_. 0) (f + 4 * i)"
    by (rule load32_page_local [OF assms]) (simp add: zero_frame_def)
  then show ?thesis by (simp add: load32_def)
qed

lemma with_table_base: "pd_base (with_table i f b s) = pd_base s"
  by (simp add: with_table_def pd_base_def)

lemma with_table_pte:
  assumes ok: "vm_ok s" and pm: "pmalloc (pf_bitmap s) = Ok (f, b)" and absent: "\<not> table_present s va"
    and t: "t = with_table (drop_bit 22 va) f b s" and w: "\<not> in_window x"
  shows "table_present s x \<Longrightarrow> pte t x = pte s x" and "drop_bit 22 x = drop_bit 22 va \<Longrightarrow> pte t x = 0"
proof -
  note fr = fresh_frame [OF ok pm] and r = vm_okD(1,2) [OF ok]
  have d: "pd_entry t j = (if j = drop_bit 22 va then f OR 0x807 else pd_entry s j)" if "unat j < 1024" for j
    unfolding t by (rule with_table_dir [OF ok pm dir_index_less that])
  show "pte t x = 0" if "drop_bit 22 x = drop_bit 22 va"
    using that d [OF dir_index_less, of x] zero_table_entry [OF fr(1) table_index_less]
    by (simp add: pte_def pte_addr_def table_flags [OF fr(1)]) (simp add: t with_table_def)
  assume px: "table_present s x"
  let ?T = "pd_entry s (drop_bit 22 x)"
  have "drop_bit 22 x \<noteq> drop_bit 22 va" using px absent by (auto simp: table_present_def)
  then have a: "pte_addr t x = pte_addr s x" using d [OF dir_index_less, of x] by (simp add: pte_addr_def)
  have T1: "frame_of ?T \<noteq> frame_of f" using fr(3) [OF dir_index_less] px by (simp add: table_present_def)
  have "?T AND 0xFFFFF000 \<noteq> pd_base s"
    using tables_distinctD [OF r(2) dir_index_less, of 1023 x] px r(1) w
    by (auto simp: recursive_map_def table_present_def in_window_def)
  then have T2: "frame_of ?T \<noteq> frame_of (pd_base s)"
    using frame_of_eq_base [OF page_aligned_mask pd_base_aligned, of ?T s] by (simp add: frame_of_mask)
  have "load32 (pmem t) (pte_addr s x) = load32 (pmem s) (pte_addr s x)"
    unfolding pte_addr_def
  proof (rule load32_page_local [OF page_aligned_mask table_index_less])
    fix y assume "frame_of y = frame_of (?T AND 0xFFFFF000)"
    then show "pmem t y = pmem s y"
      using T1 T2 store32_entry_frame [OF pd_base_aligned dir_index_less]
      by (simp add: t with_table_def zero_frame_def frame_of_mask)
  qed
  then show "pte t x = pte s x" by (simp add: pte_def a)
qed

lemma with_table_ok:
  assumes ok: "vm_ok s" and pm: "pmalloc (pf_bitmap s) = Ok (f, b)" and absent: "\<not> table_present s va"
    and t: "t = with_table (drop_bit 22 va) f b s"
  shows "vm_ok t" and "table_present t va"
proof -
  note fr = fresh_frame [OF ok pm] and r = vm_okD [OF ok] and fl = table_flags [OF fresh_frame(1) [OF ok pm]]
  let ?i = "drop_bit 22 va"
  have d: "pd_entry t j = (if j = ?i then f OR 0x807 else pd_entry s j)" if "unat j < 1024" for j
    unfolding t by (rule with_table_dir [OF ok pm dir_index_less that])
  show "table_present t va" using d [OF dir_index_less, of va] fl by (simp add: table_present_def)
  have ne: "?i \<noteq> 1023" using absent r(1) by (auto simp: table_present_def recursive_map_def)
  have "recursive_map t" using d [of 1023] ne r(1) by (simp add: recursive_map_def t with_table_base)
  moreover have "tables_distinct t"
    unfolding tables_distinct_def
  proof (intro allI impI, elim conjE)
    fix j k
    assume jk: "unat j < 1024" "unat k < 1024" and pr: "present (pd_entry t j)" "present (pd_entry t k)"
      and "pd_entry t j AND 0xFFFFF000 = pd_entry t k AND 0xFFFFF000"
    then have eq: "frame_of (pd_entry t j) = frame_of (pd_entry t k)" by (simp only: frame_eq_iff)
    show "j = k"
    proof (cases "j = ?i \<or> k = ?i")
      case True
      then show ?thesis using eq fr(3) [OF jk(1)] fr(3) [OF jk(2)] fl(3) pr by (auto simp: d jk split: if_splits)
    next
      case False
      then show ?thesis using eq pr tables_distinctD [OF r(2) jk] by (simp add: d jk frame_eq_iff)
    qed
  qed
  moreover have "tables_used t"
    unfolding tables_used_def
  proof (intro allI impI, elim conjE)
    fix j assume j: "unat j < 1024" "present (pd_entry t j)"
    have "used_frames (pf_bitmap t) = insert (frame_of f) (used_frames (pf_bitmap s))"
      using pmm.alloc_Ok [OF pm] by (simp add: t with_table_def)
    then show "frame_of (pd_entry t j) \<in> used_frames (pf_bitmap t)"
      using j r(3) fl(3) unfolding tables_used_def by (cases "j = ?i") (simp_all add: d)
  qed
  ultimately show "vm_ok t" by (simp add: vm_ok_def)
qed

lemma with_table_translate:
  assumes ok: "vm_ok s" and pm: "pmalloc (pf_bitmap s) = Ok (f, b)" and absent: "\<not> table_present s va"
    and t: "t = with_table (drop_bit 22 va) f b s" and w: "\<not> in_window x"
  shows "translate t x = translate s x"
proof (cases "drop_bit 22 x = drop_bit 22 va")
  case True
  then have "\<not> table_present s x" using absent by (simp add: table_present_def)
  then show ?thesis
    using with_table_pte(2) [OF ok pm absent t w True] by (simp add: translate_pte present_def)
next
  case False
  have "table_present t x = table_present s x"
    using with_table_dir [OF ok pm dir_index_less [of va] dir_index_less [of x]] False by (simp add: t table_present_def)
  then show ?thesis using with_table_pte(1) [OF ok pm absent t w] by (auto simp: translate_pte)
qed

section \<open>Mapping user pages\<close>

lemma write_entry_faulting:
  assumes ok: "vm_ok s" and allow: "page_fault_allowed s \<noteq> 0"
  shows "write32 kaccess (page_entry va) v s =
    (if table_present s va then Ok (set_pte va v s)
     else bind_ok (pmalloc (pf_bitmap s)) (\<lambda>(f, b). Ok (set_pte va v (with_table (drop_bit 22 va) f b s))))"
proof (cases "table_present s va")
  case True
  then show ?thesis using write_pte(1) [OF vm_okD(1) [OF ok]] by simp
next
  case absent: False
  show ?thesis
  proof (cases "pmalloc (pf_bitmap s)")
    case (Ok p)
    then obtain f b where pm: "pmalloc (pf_bitmap s) = Ok (f, b)" by (cases p) simp
    have "pte_addr (with_table (drop_bit 22 va) f b s) va = f + 4 * (drop_bit 12 va AND 0x3FF)"
      using with_table_dir [OF ok pm dir_index_less dir_index_less, of va va] table_flags [OF fresh_frame(1) [OF ok pm]]
      by (simp add: pte_addr_def)
    then show ?thesis
      using absent pm fault_table [OF ok absent pm allow] by (simp add: write32_def set_pte_def)
  next
    case (Halt h)
    have "translate s (page_entry va) = None"
      using absent by (simp add: page_entry_recursive [OF vm_okD(1) [OF ok]] pt_entry_addr_pte)
    then show ?thesis
      using absent Halt allow by (simp add: write32_def numeral_3_eq_3 fault_nonpresent_def)
  qed
qed

lemma mmap_page:
  assumes ok: "vm_ok s" and allow: "page_fault_allowed s \<noteq> 0" and w: "\<not> in_window va"
    and room: "card (used_frames (pf_bitmap s)) + 2 \<le> 0x100000"
  obtains f b s' where "pmalloc (pf_bitmap s) = Ok (f, b)"
    and "write32 kaccess (page_entry va) (f OR 0x807) (s\<lparr>pf_bitmap := b\<rparr>) = Ok s'"
    and "vm_ok s'" "page_fault_allowed s' = page_fault_allowed s"
    and "\<And>x. \<not> in_window x \<Longrightarrow> translate s' x = (if same_page x va then Some (f + (x AND 0xFFF)) else translate s x)"
    and "insert (frame_of f) (used_frames (pf_bitmap s)) \<subseteq> used_frames (pf_bitmap s')"
    and "card (used_frames (pf_bitmap s')) \<le> card (used_frames (pf_bitmap s)) + 2"
    and "frame_of f \<notin> used_frames (pf_bitmap s)" "page_aligned f"
proof -
  have free: "used_frames b \<noteq> {..< 0x100000}" if "card (used_frames b) + 1 \<le> 0x100000" for b
  proof
    assume "used_frames b = {..< 0x100000}"
    then have "card (used_frames b) = 0x100000" by (simp only: card_lessThan)
    with that show False by linarith
  qed
  have "used_frames (pf_bitmap s) \<noteq> {..< 0x100000}" using room by (intro free) linarith
  then obtain f b where pm: "pmalloc (pf_bitmap s) = Ok (f, b)" using pmalloc_total by blast
  note a = pmm.alloc_Ok [OF pm]
  have al: "page_aligned f" using a by (simp add: page_aligned_def)
  let ?s = "s\<lparr>pf_bitmap := b\<rparr>"
  have s1: "vm_ok ?s" using a by (intro alloc_frame_ok [OF ok]) auto
  have c1: "card (used_frames b) = card (used_frames (pf_bitmap s)) + 1"
    using a pmm.finite_used [of "pf_bitmap s"] by simp
  have "\<exists>t. write32 kaccess (page_entry va) (f OR 0x807) ?s = Ok (set_pte va (f OR 0x807) t) \<and> vm_ok t
    \<and> table_present t va \<and> page_fault_allowed t = page_fault_allowed s \<and> (\<forall>x. \<not> in_window x \<longrightarrow> translate t x = translate s x)
    \<and> used_frames b \<subseteq> used_frames (pf_bitmap t) \<and> card (used_frames (pf_bitmap t)) \<le> card (used_frames b) + 1"
  proof (cases "table_present ?s va")
    case True
    then show ?thesis using write_entry_faulting [OF s1, of va] allow s1 by (intro exI [of _ ?s]) simp
  next
    case False
    have "used_frames (pf_bitmap ?s) \<noteq> {..< 0x100000}" using room c1 by (intro free) simp
    then obtain g c where pg: "pmalloc (pf_bitmap ?s) = Ok (g, c)" using pmalloc_total by blast
    note t = with_table_ok [OF s1 pg False refl] with_table_translate [OF s1 pg False refl]
    have "used_frames c = insert (frame_of g) (used_frames b)" using pmm.alloc_Ok [OF pg] by simp
    then have "used_frames b \<subseteq> used_frames c \<and> card (used_frames c) \<le> card (used_frames b) + 1"
      using pmm.finite_used [of b] by (auto simp: card_insert_if)
    then show ?thesis
      using write_entry_faulting [OF s1, of va] allow False pg t
      by (intro exI [of _ "with_table (drop_bit 22 va) g c ?s"]) (simp add: with_table_def)
  qed
  then obtain t where wr: "write32 kaccess (page_entry va) (f OR 0x807) ?s = Ok (set_pte va (f OR 0x807) t)"
    and t: "vm_ok t" "table_present t va" "page_fault_allowed t = page_fault_allowed s"
      "\<forall>x. \<not> in_window x \<longrightarrow> translate t x = translate s x"
      "used_frames b \<subseteq> used_frames (pf_bitmap t)" "card (used_frames (pf_bitmap t)) \<le> card (used_frames b) + 1" by blast
  note f = set_pte_facts [OF t(1,2) w, where v = "f OR 0x807"]
  show thesis
  proof (rule that [OF pm wr f(1)])
    show "translate (set_pte va (f OR 0x807) t) x = (if same_page x va then Some (f + (x AND 0xFFF)) else translate s x)"
      if "\<not> in_window x" for x using f(6) [of x] t(4) that table_flags [OF al] by simp
  qed (use a t al c1 in \<open>auto simp: set_pte_def\<close>)
qed

lemma below_window: "unat va < 0xFFC00000 \<Longrightarrow> \<not> in_window va"
proof -
  assume "unat va < 0xFFC00000"
  then have "unat (drop_bit 22 va) < 1023" by (simp add: unat_drop_bit div_less_iff_less_mult)
  then show ?thesis by (auto simp: in_window_def)
qed

lemma same_page_iff: "same_page x y \<longleftrightarrow> frame_of x = frame_of y"
  by (simp add: same_page_def frame_of_def word_unat_eq_iff unat_drop_bit)

lemma frame_of_aligned: "page_aligned b \<Longrightarrow> unat b = 4096 * frame_of b"
  by (auto simp: page_aligned_def frame_of_def)

lemma maps_pages_Cons:
  assumes one: "\<And>x. \<not> in_window x \<Longrightarrow> translate s1 x = (if same_page x va then Some (f + (x AND 0xFFF)) else translate s x)"
    and f: "page_aligned f" "frame_of f \<notin> used_frames (pf_bitmap s)" "insert (frame_of f) (used_frames (pf_bitmap s)) \<subseteq> used_frames (pf_bitmap s1)"
    and sub: "used_frames (pf_bitmap s1) \<subseteq> used_frames (pf_bitmap s')"
    and next_page: "frame_of va' = Suc (frame_of va)" and rest: "maps_pages va' fs s1 s'"
  shows "maps_pages va (f # fs) s s'"
  unfolding maps_pages_def
proof (intro conjI allI impI)
  show "distinct (map frame_of (f # fs))" using rest f(3) by (auto simp: maps_pages_def)
  show "\<forall>g \<in> set (f # fs). page_aligned g \<and> frame_of g \<notin> used_frames (pf_bitmap s) \<and> frame_of g \<in> used_frames (pf_bitmap s')"
    using rest f sub by (auto simp: maps_pages_def)
  fix y :: u32 assume y: "unat y < 0xFFC00000"
  have r: "translate s' y = (if Suc (frame_of va) \<le> frame_of y \<and> frame_of y < Suc (frame_of va) + length fs
      then Some (fs ! (frame_of y - Suc (frame_of va)) + (y AND 0xFFF)) else translate s1 y)"
    using rest y by (simp add: maps_pages_def next_page)
  show "translate s' y = (if frame_of va \<le> frame_of y \<and> frame_of y < frame_of va + length (f # fs)
      then Some ((f # fs) ! (frame_of y - frame_of va) + (y AND 0xFFF)) else translate s y)"
  proof (cases "frame_of y = frame_of va")
    case True
    then show ?thesis using r one [OF below_window [OF y]] by (simp add: same_page_iff)
  next
    case False
    then show ?thesis using r one [OF below_window [OF y]] by (auto simp: same_page_iff nth_Cons' Suc_le_eq)
  qed
qed

lemma mmap_loop_maps:
  assumes "vm_ok s" and "page_fault_allowed s \<noteq> 0" and "page_aligned va" and "unat va + 4096 * n \<le> 0xFFC00000"
    and "card (used_frames (pf_bitmap s)) + 2 * n \<le> 0x100000"
  shows "\<exists>s' fs. mmap_loop va n s = Ok s' \<and> vm_ok s' \<and> length fs = n \<and> maps_pages va fs s s'
    \<and> used_frames (pf_bitmap s) \<subseteq> used_frames (pf_bitmap s')"
  using assms
proof (induction n arbitrary: va s)
  case 0
  then show ?case by (auto simp: maps_pages_def)
next
  case (Suc n)
  have w: "\<not> in_window va" using Suc.prems(4) by (intro below_window) simp
  have room: "card (used_frames (pf_bitmap s)) + 2 \<le> 0x100000" using Suc.prems(5) by simp
  obtain f b s1 where run: "pmalloc (pf_bitmap s) = Ok (f, b)"
      "write32 kaccess (page_entry va) (f OR 0x807) (s\<lparr>pf_bitmap := b\<rparr>) = Ok s1"
    and s1: "vm_ok s1" "page_fault_allowed s1 = page_fault_allowed s"
    and tr: "\<And>x. \<not> in_window x \<Longrightarrow> translate s1 x = (if same_page x va then Some (f + (x AND 0xFFF)) else translate s x)"
    and u: "insert (frame_of f) (used_frames (pf_bitmap s)) \<subseteq> used_frames (pf_bitmap s1)"
      "card (used_frames (pf_bitmap s1)) \<le> card (used_frames (pf_bitmap s)) + 2"
    and f: "frame_of f \<notin> used_frames (pf_bitmap s)" "page_aligned f"
    using mmap_page [OF Suc.prems(1,2) w room] by metis
  have u4: "unat (va + 0x1000) = unat va + 4096"
    using Suc.prems(4) by (subst unat_add_lem [THEN iffD1]) auto
  then have al: "page_aligned (va + 0x1000)" and nx: "frame_of (va + 0x1000) = Suc (frame_of va)"
    using Suc.prems(3) by (simp_all add: page_aligned_def frame_of_def)
  obtain s' fs where r: "mmap_loop (va + 0x1000) n s1 = Ok s'" "vm_ok s'" "length fs = n" "maps_pages (va + 0x1000) fs s1 s'"
    "used_frames (pf_bitmap s1) \<subseteq> used_frames (pf_bitmap s')"
    using Suc.IH [OF s1(1) _ al, of] Suc.prems(2,4,5) s1(2) u4 u(2) by auto
  have "maps_pages va (f # fs) s s'" using maps_pages_Cons [OF tr f(2,1) u(1) r(5) nx r(4)] .
  moreover have "mmap_loop va (Suc n) s = Ok s'" using run r(1) by simp
  ultimately show ?case using r u(1) by (intro exI [of _ s'] exI [of _ "f # fs"]) auto
qed

lemma unat_mmap_pages: "unat (mmap_pages len) = (unat len + 4095) div 4096"
proof -
  have r: "unat len = 4096 * (unat len div 4096) + unat len mod 4096" by simp
  have m: "len mod 4096 = 0 \<longleftrightarrow> unat len mod 4096 = 0" by (simp add: word_unat_eq_iff unat_mod)
  have d: "unat (len div 4096) = unat len div 4096" by (simp add: unat_div)
  have lt: "unat len div 4096 < 0x100000" using unat_u32_less [of len] by (simp add: div_less_iff_less_mult)
  have "unat (len div 4096 + 1) = unat len div 4096 + 1"
    using lt d by (subst unat_add_lem [THEN iffD1]) auto
  moreover have "(unat len + 4095) div 4096 = unat len div 4096 + (if unat len mod 4096 = 0 then 0 else 1)"
    using page_ceiling [of "unat len"] r by (auto split: if_splits)
  ultimately show ?thesis using m d by (simp add: mmap_pages_def Let_def)
qed

section \<open>Freeing and reusing pages\<close>

lemma store32_store32: "store32 (store32 m a v) a w = store32 m a w" for m :: "32 mem"
  by (simp add: store32_def fun_eq_iff)

lemma store32_load32: "store32 m a (load32 m a) = m" for m :: "32 mem"
proof -
  have "ucast (load32 m a) = m a" "ucast (drop_bit 8 (load32 m a)) = m (a + 1)"
    "ucast (drop_bit 16 (load32 m a)) = m (a + 2)" "ucast (drop_bit 24 (load32 m a)) = m (a + 3)"
    by (rule bit_word_eqI, auto simp: load32_def bit_simps dest: bit_imp_le_length)+
  then show ?thesis by (simp add: store32_def)
qed

lemma set_pte_twice:
  assumes "vm_ok s" "table_present s va" "\<not> in_window va"
  shows "set_pte va v (set_pte va w s) = set_pte va v s"
  using set_pte_facts(4) [OF assms, of w va]
  by (simp add: set_pte_def [of va v "set_pte va w s"]) (simp add: set_pte_def store32_store32)

lemma set_pte_same: "set_pte va (pte s va) s = s"
  by (simp add: set_pte_def pte_def store32_load32)

lemma kfree_eq:
  assumes "vm_ok s" "heap_mapped s" and "heap_page v"
  shows "kfree v s = Ok (set_pte v (pte s v AND 0xFFFFF7FF) s)"
  using write_pte [OF vm_okD(1) [OF assms(1)] heap_page_table [OF assms(2,3)]]
  by (simp add: kfree_def)

lemma clear_used_bit:
  fixes e :: u32
  shows "bit (e AND 0xFFFFF7FF) n \<longleftrightarrow> bit e n \<and> n \<noteq> 11" and "bit e 11 \<Longrightarrow> (e AND 0xFFFFF7FF) OR 0x800 = e"
proof -
  have u: "bit (0x800 :: u32) n \<longleftrightarrow> n = 11" for n
    using bit_exp_iff [where ?'a = "32 word", of 11 n] by auto
  have m: "(0xFFFFF7FF :: u32) = NOT 0x800" by simp
  show b: "bit (e AND 0xFFFFF7FF) n \<longleftrightarrow> bit e n \<and> n \<noteq> 11" for n
    unfolding m bit_and_iff bit_not_iff u by (auto dest: bit_imp_le_length)
  show "bit e 11 \<Longrightarrow> (e AND 0xFFFFF7FF) OR 0x800 = e"
    by (rule bit_word_eqI) (auto simp only: bit_or_iff b u)
qed

text \<open>A page that is not in use but present is handed out again with the frame it has.\<close>

lemma kmalloc_reuses:
  assumes k: "vm_ok s" "heap_mapped s" and v: "heap_page v" "\<forall>x. heap_page x \<and> x < v \<longrightarrow> heap_used s x"
    and e: "present (pte s v)" "heap_used s v"
  shows "\<exists>t. kfree v s = Ok t \<and> \<not> heap_used t v \<and> (\<forall>x. translate t x = translate s x) \<and> kmalloc t = Ok (v, s)"
proof -
  have tp: "table_present s v" and w: "\<not> in_window v"
    using heap_page_table [OF k(2) v(1)] heap_page_window [OF v(1)] by simp_all
  let ?t = "set_pte v (pte s v AND 0xFFFFF7FF) s"
  note f = set_pte_facts [OF k(1) tp w, where v = "pte s v AND 0xFFFFF7FF"]
  have pv: "pte ?t v = pte s v AND 0xFFFFF7FF" using f(5) [OF tp] by (simp add: same_page_def)
  have pr: "present (pte ?t v)" using e(1) by (simp add: pv present_iff_bit clear_used_bit)
  have un: "\<not> heap_used ?t v" by (simp add: heap_used_def pv clear_used_bit)
  have others: "pte ?t x = pte s x" if "heap_page x" "x \<noteq> v" for x
    using f(5) [OF heap_page_table [OF k(2) that(1)]] that v(1) by (simp add: same_page_aligned heap_page_def)
  have low: "\<forall>x. heap_page x \<and> x < v \<longrightarrow> heap_used ?t x"
    using v(2) others by (auto simp: heap_used_def)
  have hm: "heap_mapped ?t" using k(2) f(2) [of 769] by (simp add: heap_mapped_def)
  have "kmalloc ?t = Ok (v, set_pte v (pte ?t v OR 0x800) ?t)"
    using kmalloc_eq [OF vm_okD(1) [OF f(1)] hm v(1) un low] pr by simp
  moreover have "set_pte v (pte ?t v OR 0x800) ?t = s"
    using e(2) set_pte_twice [OF k(1) tp w] set_pte_same by (simp add: pv clear_used_bit(2) heap_used_def)
  moreover have "translate ?t x = translate s x" for x
  proof (cases "same_page x v")
    case True
    have "(pte s v AND 0xFFFFF7FF) AND 0xFFFFF000 = pte s v AND 0xFFFFF000"
      by (simp add: and.assoc)
    moreover have "table_present s x" "pte s x = pte s v"
      using True tp by (auto simp: same_page_def page_bits_split table_present_def pte_def pte_addr_def)
    ultimately show ?thesis using True pr e(1) f(6) [of x] by (simp add: translate_pte [of s] pv)
  qed (use f(6) in simp)
  ultimately show ?thesis using kfree_eq [OF k v(1)] un by auto
qed

section \<open>A sample machine\<close>

lemma sample_dir:
  assumes "unat i < 1024"
  shows "pd_entry sample_vm i = (if i = 1023 then 0x300803 else if i = 769 then 0x400003 else 0)"
proof -
  have al: "page_aligned 0x300000" by (simp add: page_aligned_def)
  have l0: "load32 (\<lambda>_. 0) a = 0" for a :: u32 by (simp add: load32_def)
  have i: "unat (769 :: u32) < 1024" "unat (1023 :: u32) < 1024" by simp_all
  have "pd_entry sample_vm i = load32 (store32 (store32 (\<lambda>_. 0) (0x300000 + 4 * 1023) 0x300803) (0x300000 + 4 * 769) 0x400003) (0x300000 + 4 * i)"
    by (simp add: sample_vm_def pd_entry_def pd_base_def)
  also have "\<dots> = (if i = 1023 then 0x300803 else if i = 769 then 0x400003 else 0)"
    unfolding load32_store32_entry [OF al al i(1) assms] load32_store32_entry [OF al al i(2) assms] by (simp add: l0)
  finally show ?thesis .
qed

lemma sample_used: "used_frames (pf_bitmap sample_vm) = {..< 0x800}"
  by (simp add: sample_vm_def init_pf_bitmap_used)

lemma sample_ok: "vm_ok sample_vm"
proof -
  have "pd_base sample_vm = 0x300000" by (simp add: sample_vm_def pd_base_def)
  then have "recursive_map sample_vm" using sample_dir [of 1023] by (simp add: recursive_map_def present_def)
  moreover have "tables_distinct sample_vm"
    by (auto simp: tables_distinct_def sample_dir present_def split: if_splits)
  moreover have "tables_used sample_vm"
    by (auto simp: tables_used_def sample_dir present_def sample_used frame_of_def split: if_splits)
  ultimately show ?thesis by (simp add: vm_ok_def)
qed

lemma sample_heap_entry:
  assumes "heap_page x"
  shows "pte sample_vm x = 0"
proof -
  have d: "drop_bit 22 x = 769" using assms heap_dir_index by (simp add: heap_page_def)
  have "load32 (pmem sample_vm) (0x400000 + 4 * (drop_bit 12 x AND 0x3FF)) = load32 (\<lambda>_. 0) (0x400000 + 4 * (drop_bit 12 x AND 0x3FF))"
  proof (rule load32_page_local [OF _ table_index_less])
    show "page_aligned 0x400000" by (simp add: page_aligned_def)
    fix y :: u32 assume y: "frame_of y = frame_of 0x400000"
    have al: "page_aligned 0x300000" by (simp add: page_aligned_def)
    have "frame_of y \<noteq> frame_of 0x300000" using y by (simp add: frame_of_def)
    from store32_entry_frame [OF al _ this, of 769] store32_entry_frame [OF al _ this, of 1023]
    show "pmem sample_vm y = 0" by (simp add: sample_vm_def)
  qed
  then show ?thesis using sample_dir [of 769] by (simp add: pte_def pte_addr_def d load32_def)
qed

lemma sample_kernel_ok: "kernel_ok sample_vm"
  using sample_ok sample_dir [of 769] sample_heap_entry
  by (auto simp: kernel_ok_def heap_mapped_def heap_ok_def present_def)

section \<open>Device pages\<close>

lemma free_frame_ok:
  assumes "vm_ok s" and "\<And>i. unat i < 1024 \<Longrightarrow> present (pd_entry s i) \<Longrightarrow> frame_of (pd_entry s i) \<noteq> frame_of p"
  shows "vm_ok (s\<lparr>pf_bitmap := pfree p (pf_bitmap s)\<rparr>)"
  using assms vm_okD [OF assms(1)]
  by (auto simp: vm_ok_def recursive_map_def tables_distinct_def tables_used_def pd_entry_pmem used_frames_pfree)

lemma mmiomalloc_eq:
  assumes ok: "kernel_ok s" and run: "mmiomalloc paddr s = Ok (v, s')"
  obtains s1 where "kmalloc s = Ok (v, s1)" and "vm_ok (s1\<lparr>pf_bitmap := pfree (pte s1 v AND 0xFFFFF000) (pf_bitmap s1)\<rparr>)"
    and "s' = set_pte v (paddr + (pte s1 v AND 0xFFF)) (s1\<lparr>pf_bitmap := pfree (pte s1 v AND 0xFFFFF000) (pf_bitmap s1)\<rparr>)"
proof -
  obtain w s1 where km: "kmalloc s = Ok (w, s1)"
    using run by (cases "kmalloc s") (auto simp: mmiomalloc_def)
  note f = kmalloc_frame [OF ok km]
  note k = kernel_okD [OF f(1)]
  have tp: "table_present s1 w" by (rule heap_page_table [OF k(2) f(2)])
  let ?s = "s1\<lparr>pf_bitmap := pfree (pte s1 w AND 0xFFFFF000) (pf_bitmap s1)\<rparr>"
  have pr: "present (pte s1 w)" using f(5) by (simp add: translate_pte split: if_splits)
  have s2: "vm_ok ?s"
    using kmalloc_apart(3) [OF ok km] by (intro free_frame_ok [OF k(1)]) (simp add: frame_of_mask)
  have tp2: "table_present ?s w" using tp by (simp add: bitmap_upd)
  have "mmiomalloc paddr s = Ok (w, set_pte w (paddr + (pte s1 w AND 0xFFF)) ?s)"
    by (simp add: mmiomalloc_def km write_pte(2) [OF vm_okD(1) [OF k(1)] tp] write_pte(1) [OF vm_okD(1) [OF s2] tp2] Let_def)
  then show thesis using run km s2 by (intro that [of s1]) auto
qed

lemma mmio_maps:
  assumes ok: "kernel_ok s" and p: "page_aligned paddr" and run: "mmiomalloc paddr s = Ok (v, s')"
  shows "vm_ok s'" "heap_mapped s'" "heap_page v" "present (pte s' v)" "heap_used s' v" "translate s' v = Some paddr"
    and "\<forall>x. heap_page x \<and> x < v \<longrightarrow> heap_used s' x"
proof -
  obtain s1 t where km: "kmalloc s = Ok (v, s1)"
    and t: "t = s1\<lparr>pf_bitmap := pfree (pte s1 v AND 0xFFFFF000) (pf_bitmap s1)\<rparr>" and s2: "vm_ok t"
    and s': "s' = set_pte v (paddr + (pte s1 v AND 0xFFF)) t"
    using mmiomalloc_eq [OF ok run] by metis
  note f = kmalloc_frame [OF ok km]
  note k = kernel_okD [OF f(1)]
  have tp: "table_present t v" using heap_page_table [OF k(2) f(2)] by (simp add: t bitmap_upd)
  let ?e = "paddr + (pte s1 v AND 0xFFF)"
  have lt: "unat (pte s1 v AND 0xFFF) < 4096" by (simp add: unat_and_FFF)
  note fl = page_or_flags [OF p lt] page_plus_flags [OF p lt]
  have low: "bit (pte s1 v AND 0xFFF) n = bit (pte s1 v) n" if "n < 12" for n
  proof -
    have m: "(0xFFF :: u32) = mask 12" by (simp add: mask_numeral)
    show ?thesis unfolding m using that by (auto simp: bit_simps)
  qed
  have pr: "present (pte s1 v)" using f(5) by (simp add: translate_pte split: if_splits)
  then have e: "present ?e" "bit ?e 11" "?e AND 0xFFFFF000 = paddr"
    using fl low f(4) by (simp_all add: present_iff_bit heap_used_def)
  note g = set_pte_facts [OF s2 tp heap_page_window [OF f(2)], where v = ?e, folded s']
  show "vm_ok s'" by (rule g(1))
  show "heap_mapped s'" using g(2) [of 769] k(2) by (simp add: heap_mapped_def t pd_entry_pmem)
  show "heap_page v" by (rule f(2))
  have pv: "pte s' v = ?e" using g(5) [OF tp] by (simp add: same_page_def)
  show "present (pte s' v)" "heap_used s' v" using e by (simp_all add: pv heap_used_def)
  have "v AND 0xFFF = 0"
    using f(2) by (simp add: heap_page_def page_aligned_def word_unat_eq_iff [of "_ AND _"] unat_and_FFF)
  then show "translate s' v = Some paddr" using g(6) [of v] e by (simp add: same_page_def)
  show "\<forall>x. heap_page x \<and> x < v \<longrightarrow> heap_used s' x"
  proof (intro allI impI, elim conjE)
    fix x assume x: "heap_page x" "x < v"
    have "heap_used s x" using kmalloc_cases [OF kernel_okD(1,2) [OF ok] km] x by metis
    moreover have "pte s1 x = pte s x" using f(7) [OF x(1)] x(2) by auto
    moreover have "table_present t x" using heap_page_table [OF k(2) x(1)] by (simp add: t bitmap_upd)
    then have "pte s' x = pte s1 x"
      using g(5) [of x] x f(2) by (auto simp: t bitmap_upd same_page_aligned heap_page_def)
    ultimately show "heap_used s' x" by (simp add: heap_used_def)
  qed
qed

section \<open>Properties\<close>

text \<open>
  C12. The pointer \<^verbatim>\<open>page_entry(va)\<close> computes is the table entry the hardware walk reads for
  \<open>va\<close>: under the recursive mapping it translates to the physical address of that entry, and it
  faults exactly when the page table of \<open>va\<close> is missing.
\<close>

theorem page_entry_is_hardware_entry:
  assumes "recursive_map s"
  shows "translate s (page_entry va) = pt_entry_addr s va"
  using assms by (rule page_entry_recursive)

theorem page_entry_is_hardware_entry_witness:
  "translate sample_vm (page_entry 0xc0401234) = pt_entry_addr sample_vm 0xc0401234 \<and> recursive_map sample_vm"
  using page_entry_is_hardware_entry [OF vm_okD(1) [OF sample_ok]] vm_okD(1) [OF sample_ok] by blast

text \<open>
  C11. Safety of \<^verbatim>\<open>kmalloc\<close>: the page it returns is a heap page that was not in use, it is in use
  and mapped afterwards, its frame belongs to no other heap page and to no page table, every
  other page translates as before, and the invariant is kept.
\<close>

theorem kmalloc_fresh_page:
  assumes "kernel_ok s" and "kmalloc s = Ok (v, s')"
  shows "kernel_ok s' \<and> heap_page v \<and> \<not> heap_used s v \<and> heap_used s' v
    \<and> translate s' v = Some (pte s' v AND 0xFFFFF000)
    \<and> (\<forall>x. \<not> same_page x v \<longrightarrow> translate s' x = translate s x)
    \<and> (\<forall>x. heap_page x \<and> x \<noteq> v \<longrightarrow> heap_used s' x = heap_used s x
         \<and> (present (pte s' x) \<longrightarrow> frame_of (pte s' x) \<noteq> frame_of (pte s' v)))
    \<and> (\<forall>i. unat i < 1024 \<and> present (pd_entry s' i) \<longrightarrow> frame_of (pd_entry s' i) \<noteq> frame_of (pte s' v))"
proof -
  note f = kmalloc_frame [OF assms]
  have "present (pte s' v)" using f(5) by (simp add: translate_pte split: if_splits)
  note h = heap_okD(2) [OF kernel_okD(3) [OF f(1)] f(2) this] kmalloc_apart(3) [OF assms]
  have "\<forall>x. heap_page x \<and> x \<noteq> v \<longrightarrow> heap_used s' x = heap_used s x
         \<and> (present (pte s' x) \<longrightarrow> frame_of (pte s' x) \<noteq> frame_of (pte s' v))"
    using f(7) h(1) by (metis heap_used_def)
  then show ?thesis using f(1-6) h(2) by blast
qed

lemma sample_unused: "heap_page 0xc0400000" "\<not> heap_used sample_vm 0xc0400000"
  using sample_heap_entry [of "0xc0400000"] by (simp_all add: heap_page_def page_aligned_def heap_used_def)

lemma kmalloc_succeeds:
  assumes ok: "kernel_ok s" and "heap_page x" "\<not> heap_used s x" and "used_frames (pf_bitmap s) \<noteq> {..< 0x100000}"
  shows "\<exists>v s'. kmalloc s = Ok (v, s')"
proof -
  note k = kernel_okD [OF ok]
  obtain v where "heap_page v" "\<not> heap_used s v" "\<forall>y. heap_page y \<and> y < v \<longrightarrow> heap_used s y"
    using lowest_free_page [OF assms(2,3)] by metis
  from kmalloc_eq [OF vm_okD(1) [OF k(1)] k(2) this] pmalloc_total [OF assms(4)] show ?thesis by auto
qed

lemma sample_kmalloc: "\<exists>v s'. kmalloc sample_vm = Ok (v, s')"
proof (rule kmalloc_succeeds [OF sample_kernel_ok sample_unused])
  show "used_frames (pf_bitmap sample_vm) \<noteq> {..< 0x100000}"
    unfolding sample_used by (simp only: lessThan_eq_iff)
qed

theorem kmalloc_fresh_page_witness:
  "\<exists>v s'. kmalloc sample_vm = Ok (v, s') \<and> heap_page v \<and> \<not> heap_used sample_vm v \<and> heap_used s' v"
  using sample_kmalloc kmalloc_fresh_page [OF sample_kernel_ok] by blast

text \<open>
  When \<^verbatim>\<open>kmalloc\<close> fails: it panics with \<^verbatim>\<open>Kernel heap out of memory\<close> when all 1024 heap pages are
  in use, and otherwise returns a page as long as a physical frame is free.
\<close>

theorem kmalloc_outcome:
  assumes "kernel_ok s"
  shows "((\<forall>x. heap_page x \<longrightarrow> heap_used s x) \<longrightarrow> kmalloc s = Halt (KPanic ''Kernel heap out of memory''))
    \<and> ((\<exists>x. heap_page x \<and> \<not> heap_used s x) \<and> used_frames (pf_bitmap s) \<noteq> {..< 0x100000}
         \<longrightarrow> (\<exists>v s'. kmalloc s = Ok (v, s')))"
  using kmalloc_succeeds [OF assms] kmalloc_exhausted [OF vm_okD(1) [OF kernel_okD(1)] kernel_okD(2)] assms by blast

theorem kmalloc_outcome_witness: "\<exists>v s'. kmalloc sample_vm = Ok (v, s')"
proof -
  have "used_frames (pf_bitmap sample_vm) \<noteq> {..< 0x100000}"
    unfolding sample_used by (simp only: lessThan_eq_iff)
  then show ?thesis using kmalloc_outcome [OF sample_kernel_ok] sample_unused by blast
qed

text \<open>
  \<^verbatim>\<open>kfree\<close> only clears the used bit: the page stays mapped where it was, and the next
  \<^verbatim>\<open>kmalloc\<close> hands out the same page again and brings back the state before the free, bit for bit.
\<close>

theorem kfree_kmalloc:
  assumes "kernel_ok s" and "kmalloc s = Ok (v, s')"
  shows "\<exists>t. kfree v s' = Ok t \<and> \<not> heap_used t v \<and> (\<forall>x. translate t x = translate s' x) \<and> kmalloc t = Ok (v, s')"
proof (rule kmalloc_reuses)
  note f = kmalloc_frame [OF assms]
  show "vm_ok s'" "heap_mapped s'" using kernel_okD [OF f(1)] by simp_all
  show "heap_page v" "heap_used s' v" by (fact f)+
  show "present (pte s' v)" using f(5) by (simp add: translate_pte split: if_splits)
  have "\<forall>x. heap_page x \<and> x < v \<longrightarrow> heap_used s x"
    using kmalloc_cases [OF kernel_okD(1,2) [OF assms(1)] assms(2)] by metis
  then show "\<forall>x. heap_page x \<and> x < v \<longrightarrow> heap_used s' x" using f(7) by (auto simp: heap_used_def)
qed

theorem kfree_kmalloc_witness:
  "\<exists>v s' t. kmalloc sample_vm = Ok (v, s') \<and> kfree v s' = Ok t \<and> kmalloc t = Ok (v, s')"
proof -
  obtain v s' where run: "kmalloc sample_vm = Ok (v, s')" using sample_kmalloc by blast
  from kfree_kmalloc [OF sample_kernel_ok run] run show ?thesis by blast
qed

text \<open>
  A device page that is freed comes back as heap memory: after \<^verbatim>\<open>mmiomalloc(paddr)\<close> and
  \<^verbatim>\<open>kfree\<close>, the next \<^verbatim>\<open>kmalloc\<close> returns that page still mapped to the device's registers.
\<close>

theorem mmio_page_reused_as_heap:
  assumes "kernel_ok s" and "page_aligned paddr" and "mmiomalloc paddr s = Ok (v, s')"
  shows "translate s' v = Some paddr \<and>
    (\<exists>t s''. kfree v s' = Ok t \<and> kmalloc t = Ok (v, s'') \<and> translate s'' v = Some paddr)"
proof -
  note m = mmio_maps [OF assms]
  from kmalloc_reuses [OF m(1,2,3,7,4,5)] m(6) show ?thesis by blast
qed

lemma sample_mmio: "\<exists>v s'. mmiomalloc 0xfebf0000 sample_vm = Ok (v, s')"
proof -
  obtain v s1 where km: "kmalloc sample_vm = Ok (v, s1)" using sample_kmalloc by blast
  note f = kmalloc_frame [OF sample_kernel_ok km]
  note k = kernel_okD [OF f(1)]
  note tp = heap_page_table [OF k(2) f(2)]
  let ?t = "s1\<lparr>pf_bitmap := pfree (pte s1 v AND 0xFFFFF000) (pf_bitmap s1)\<rparr>"
  have "recursive_map ?t" "table_present ?t v"
    using vm_okD(1) [OF k(1)] tp by (simp_all add: recursive_map_def pd_entry_pmem bitmap_upd)
  then show ?thesis
    by (simp add: mmiomalloc_def km write_pte(2) [OF vm_okD(1) [OF k(1)] tp] write_pte(1) Let_def)
qed

theorem mmio_page_reused_as_heap_witness:
  "\<exists>v s' t s''. mmiomalloc 0xfebf0000 sample_vm = Ok (v, s') \<and> kfree v s' = Ok t \<and> kmalloc t = Ok (v, s'')
    \<and> translate s'' v = Some 0xfebf0000"
proof -
  obtain v s' where run: "mmiomalloc 0xfebf0000 sample_vm = Ok (v, s')" using sample_mmio by blast
  have "page_aligned 0xfebf0000" by (simp add: page_aligned_def)
  from mmio_page_reused_as_heap [OF sample_kernel_ok this run] run show ?thesis by blast
qed

text \<open>
  C10. \<^verbatim>\<open>mmap\<close> maps every page of the range it rounds \<^verbatim>\<open>length\<close> up to, creating missing page tables
  through nested page faults on the way: with two free frames per page it always returns, each
  page gets a frame of its own that was free before, every address below the table window and
  outside of the range translates as before, and page faults are forbidden again.
\<close>

theorem mmap_maps_range:
  assumes "vm_ok s" and "base = (if flags = 0 then 0x10000000 else hint)" and "page_aligned base"
    and "n = (unat len + 4095) div 4096" and "unat base + 4096 * n \<le> 0xFFC00000"
    and "card (used_frames (pf_bitmap s)) + 2 * n \<le> 0x100000"
  shows "\<exists>s' fs. mmap hint len flags s = Ok (base, s') \<and> vm_ok s' \<and> page_fault_allowed s' = 0
    \<and> length fs = n \<and> distinct (map frame_of fs) \<and> (\<forall>f \<in> set fs. frame_of f \<notin> used_frames (pf_bitmap s))
    \<and> (\<forall>y. unat y < 0xFFC00000 \<longrightarrow> translate s' y =
         (if frame_of base \<le> frame_of y \<and> frame_of y < frame_of base + n
          then Some (fs ! (frame_of y - frame_of base) + (y AND 0xFFF)) else translate s y))"
proof -
  let ?s = "s\<lparr>page_fault_allowed := 1\<rparr>"
  have "\<exists>s1 fs. mmap_loop base n ?s = Ok s1 \<and> vm_ok s1 \<and> length fs = n \<and> maps_pages base fs ?s s1
      \<and> used_frames (pf_bitmap ?s) \<subseteq> used_frames (pf_bitmap s1)"
    using assms by (intro mmap_loop_maps) simp_all
  then obtain s1 fs where r: "mmap_loop base n ?s = Ok s1" "vm_ok s1" "length fs = n" "maps_pages base fs ?s s1" by blast
  then have "mmap hint len flags s = Ok (base, s1\<lparr>page_fault_allowed := 0\<rparr>)"
    using assms(2,4) by (simp add: mmap_def unat_mmap_pages)
  then show ?thesis
    using r by (intro exI [of _ "s1\<lparr>page_fault_allowed := 0\<rparr>"] exI [of _ fs]) (simp add: maps_pages_def)
qed

theorem mmap_maps_range_witness:
  "\<exists>s' f. mmap 0 40960 0 sample_vm = Ok (0x10000000, s') \<and> translate s' 0x10001234 = Some (f + 0x234)"
proof -
  have c: "card (used_frames (pf_bitmap sample_vm)) = 0x800" by (simp only: sample_used card_lessThan)
  have "\<exists>s' fs. mmap 0 40960 0 sample_vm = Ok (0x10000000, s') \<and> vm_ok s' \<and> page_fault_allowed s' = 0
    \<and> length fs = 10 \<and> distinct (map frame_of fs) \<and> (\<forall>f \<in> set fs. frame_of f \<notin> used_frames (pf_bitmap sample_vm))
    \<and> (\<forall>y. unat y < 0xFFC00000 \<longrightarrow> translate s' y =
         (if frame_of 0x10000000 \<le> frame_of y \<and> frame_of y < frame_of 0x10000000 + 10
          then Some (fs ! (frame_of y - frame_of 0x10000000) + (y AND 0xFFF)) else translate sample_vm y))"
    by (rule mmap_maps_range [OF sample_ok]) (simp_all add: page_aligned_def c)
  then obtain s' fs where r: "mmap 0 40960 0 sample_vm = Ok (0x10000000, s')"
    and t: "\<And>y. unat y < 0xFFC00000 \<Longrightarrow> translate s' y =
         (if frame_of 0x10000000 \<le> frame_of y \<and> frame_of y < frame_of 0x10000000 + 10
          then Some (fs ! (frame_of y - frame_of 0x10000000) + (y AND 0xFFF)) else translate sample_vm y)" by blast
  have "translate s' 0x10001234 = Some (fs ! 1 + 0x234)" using t [of "0x10001234"] by (simp add: frame_of_def)
  with r show ?thesis by blast
qed

end
