(* ===== verification/Scheduler.thy ===== *)
theory Scheduler
  imports Vmm
begin

text \<open>
  Processes of BarrelOS (\<^verbatim>\<open>barrelOS/kernel/scheduler.c\<close>, \<^verbatim>\<open>scheduler.h\<close>, \<^verbatim>\<open>task.c\<close>, \<^verbatim>\<open>task.h\<close>): the
  circular list of processes, the round-robin \<^verbatim>\<open>scheduler\<close>, \<^verbatim>\<open>block\<close>/\<^verbatim>\<open>unblock\<close>, the creation of
  the first process and \<^verbatim>\<open>fork\<close>. A \<^verbatim>\<open>process_t\<close> lives in a page of its own and is reached by its
  address; kernel stacks, page directories and file tables are bytes of virtual memory.
  \<^verbatim>\<open>switch_kstack\<close> is assembly: it stores the current stack pointer through its first argument
  and continues on the second one.
\<close>

section \<open>Data\<close>

record isr_stack_t =
  edi :: u32
  esi :: u32
  ebp :: u32
  esp :: u32
  ebx :: u32
  edx :: u32
  ecx :: u32
  eax :: u32
  vector :: u32
  error :: u32
  eip :: u32
  cs :: u32
  eflags :: u32
  user_esp :: u32
  user_ss :: u32

record process_t =
  pid :: u32
  pstate :: u8
  page_directory :: u32
  pstack :: isr_stack_t
  kstack :: u32
  stack_pointer :: u32
  pnext :: u32

record tss_entry_t =
  prev_tss :: u32
  esp0 :: u32
  ss0 :: u32
  t_esp1 :: u32
  t_ss1 :: u32
  t_esp2 :: u32
  t_ss2 :: u32
  t_cr3 :: u32
  t_eip :: u32
  t_eflags :: u32
  t_eax :: u32
  t_ecx :: u32
  t_edx :: u32
  t_ebx :: u32
  t_esp :: u32
  t_ebp :: u32
  t_esi :: u32
  t_edi :: u32
  t_es :: u32
  t_cs :: u32
  t_ss :: u32
  t_ds :: u32
  t_fs :: u32
  t_gs :: u32
  t_ldt :: u32
  t_trap :: u16
  t_iomap_base :: u16

abbreviation (input) READY :: u8 where "READY \<equiv> 0"
abbreviation (input) WAITING :: u8 where "WAITING \<equiv> 1"

text \<open>
  The globals. \<open>procs\<close> is the store of process structures by address, \<open>idle_addr\<close> the address of
  the global \<^verbatim>\<open>idle_proc\<close>, \<open>kesp\<close> the kernel stack pointer as \<^verbatim>\<open>switch_kstack\<close> stores it, \<open>frame\<close>
  the trap frame \<^verbatim>\<open>isr_stack\<close> points to, \<open>firstret\<close> the address of the assembly label.
\<close>

record sched =
  mm :: vm
  procs :: "u32 \<Rightarrow> process_t"
  idle_addr :: u32
  active_proc :: u32
  old_proc :: u32
  active_pid :: u32
  tss :: tss_entry_t
  kesp :: u32
  frame :: isr_stack_t
  fd_tables :: "u32 \<Rightarrow> u32"
  firstret :: u32

section \<open>Task state segment\<close>

text \<open>\<^verbatim>\<open>mem_set\<close> clears the whole structure before the two fields are set.\<close>

definition init_tss :: "u32 \<Rightarrow> tss_entry_t" where
  "init_tss stack_page =
     \<lparr>prev_tss = 0, esp0 = (stack_page AND 0xFFFFF000) + 0xffc, ss0 = 0x10,
      t_esp1 = 0, t_ss1 = 0, t_esp2 = 0, t_ss2 = 0, t_cr3 = 0, t_eip = 0, t_eflags = 0, t_eax =
      0, t_ecx = 0, t_edx = 0, t_ebx = 0, t_esp = 0, t_ebp = 0, t_esi = 0, t_edi = 0, t_es = 0,
      t_cs = 0, t_ss = 0, t_ds = 0, t_fs = 0, t_gs = 0, t_ldt = 0, t_trap = 0, t_iomap_base = 0\<rparr>"

section \<open>Scheduling\<close>

text \<open>\<^verbatim>\<open>do active_proc = active_proc->next; while (active_proc->state != READY)\<close>: no result when no
  process is ready.\<close>

partial_function (option) next_ready :: "(u32 \<Rightarrow> process_t) \<Rightarrow> u32 \<Rightarrow> u32 option" where
  "next_ready ps p =
     (let q = pnext (ps p) in if pstate (ps q) \<noteq> READY then next_ready ps q else Some q)"

definition scheduler :: "sched \<Rightarrow> sched outcome option" where
  "scheduler s =
     (let old = active_proc s in
      case next_ready (procs s) old of
        None \<Rightarrow> None
      | Some p \<Rightarrow>
          Some (bind_ok (getpaddr (page_directory (procs s p)) (mm s)) (\<lambda>(directory, m).
            let new_esp = stack_pointer (procs s p)
            in Ok (s\<lparr>old_proc := old, active_proc := p, active_pid := pid (procs s p),
                 mm := m\<lparr>cr3 := directory\<rparr>,
                 tss := init_tss (kstack (procs s p)),
                 procs := (procs s)(old := (procs s old)\<lparr>stack_pointer := kesp s\<rparr>),
                 kesp := new_esp\<rparr>))))"

definition set_state :: "u32 \<Rightarrow> u8 \<Rightarrow> sched \<Rightarrow> sched" where
  "set_state p v s = s\<lparr>procs := (procs s)(p := (procs s p)\<lparr>pstate := v\<rparr>)\<rparr>"

definition block :: "sched \<Rightarrow> sched outcome option" where
  "block s = scheduler (set_state (active_proc s) WAITING s)"

definition unblock :: "u32 \<Rightarrow> sched \<Rightarrow> sched" where
  "unblock proc s = set_state proc READY s"

section \<open>Creating processes\<close>

fun write_words :: "u32 \<Rightarrow> u32 list \<Rightarrow> vm \<Rightarrow> vm outcome" where
  "write_words a [] m = Ok m"
| "write_words a (w # ws) m = bind_ok (write32 kaccess a w m) (write_words (a + 4) ws)"

definition isr_words :: "isr_stack_t \<Rightarrow> u32 list" where
  "isr_words f = [edi f, esi f, ebp f, esp f, ebx f, edx f, ecx f, eax f, vector f, error f,
     eip f, cs f, eflags f, user_esp f, user_ss f]"

text \<open>
  \<^verbatim>\<open>init_kstack\<close>: the trap frame (60 bytes) 4 bytes below the end of the new stack page, and under
  it the \<^verbatim>\<open>kstack_t\<close> (28 bytes) \<^verbatim>\<open>switch_kstack\<close> will pop; four of its fields are set.
\<close>

definition init_kstack :: "u32 \<Rightarrow> sched \<Rightarrow> sched outcome" where
  "init_kstack proc s =
     bind_ok (kmalloc (mm s)) (\<lambda>(ks, m).
       let fr = ks + 0x1000 - 60 - 4; kframe = fr - 28 in
       bind_ok (write_words fr (isr_words (pstack (procs s proc))) m) (\<lambda>m.
       bind_ok (write32 kaccess (kframe + 24) (firstret s) m) (\<lambda>m.
       bind_ok (write32 kaccess (kframe + 20) 0xb m) (\<lambda>m.
       bind_ok (write32 kaccess (kframe + 16) 0xe m) (\<lambda>m.
       bind_ok (write32 kaccess kframe 0xc m) (\<lambda>m.
         Ok (s\<lparr>mm := m, procs := (procs s)(proc := (procs s proc)\<lparr>kstack := ks, stack_pointer := kframe\<rparr>)\<rparr>)))))))"

definition init_proc :: "sched \<Rightarrow> sched outcome" where
  "init_proc s =
     bind_ok (kmalloc (mm s)) (\<lambda>(init, m).
       let p = procs s init;
           p = p\<lparr>pstack := (pstack p)\<lparr>eax := 0xcafebabe, eip := 0, cs := 0x1b, eflags := 0x282,
                   user_esp := 0xbffffffc, user_ss := 0x23\<rparr>,
                 pstate := READY, pid := 1, page_directory := page_directory (procs s (idle_addr s))\<rparr>
       in bind_ok (init_kstack init (s\<lparr>mm := m, procs := (procs s)(init := p)\<rparr>)) (\<lambda>s.
          let ps = (procs s)(idle_addr s := (procs s (idle_addr s))\<lparr>pnext := init\<rparr>)
          in Ok (s\<lparr>procs := ps(init := (ps init)\<lparr>pnext := idle_addr s\<rparr>)\<rparr>)))"

definition init_scheduler :: "sched \<Rightarrow> sched outcome" where
  "init_scheduler s =
     (let idle = (procs s (idle_addr s))\<lparr>pid := 0, page_directory := 0xc0300000,
                   pnext := idle_addr s, kstack := 0xc01ff000\<rparr>
      in init_proc (s\<lparr>procs := (procs s)(idle_addr s := idle), active_pid := 0,
           active_proc := idle_addr s, tss := init_tss 0xc01ff000\<rparr>))"

text \<open>The parent's file table, copied into a page of the child's own.\<close>

definition clone_fd_table :: "u32 \<Rightarrow> u32 \<Rightarrow> (u32 \<Rightarrow> u32) \<Rightarrow> vm \<Rightarrow> ((u32 \<Rightarrow> u32) \<times> vm) outcome" where
  "clone_fd_table parent child tables m =
     bind_ok (kmalloc m) (\<lambda>(fdt, m).
       let tables = tables(child := fdt)
       in bind_ok (mem_copy (tables parent) (tables child) 4096 m) (\<lambda>m. Ok (tables, m)))"

text \<open>The parent's page directory with all write bits cleared, pointing to itself in the last entry.\<close>

definition clone_directory :: "u32 \<Rightarrow> vm \<Rightarrow> (u32 \<times> vm) outcome" where
  "clone_directory dir m =
     bind_ok (kmalloc m) (\<lambda>(newdir, m).
     bind_ok (mem_copy dir newdir 4096 m) (\<lambda>m.
     bind_ok (clear_write_bits newdir 1024 m) (\<lambda>m.
     bind_ok (getpaddr newdir m) (\<lambda>(dirframe, m).
     bind_ok (write32 kaccess (newdir + 4 * 1023) (dirframe OR 0x803) m) (\<lambda>m.
       Ok (newdir, m))))))"

definition link_child :: "u32 \<Rightarrow> sched \<Rightarrow> sched" where
  "link_child new s =
     (let s = s\<lparr>procs := (procs s)(new := (procs s new)\<lparr>pnext := pnext (procs s (active_proc s))\<rparr>)\<rparr>
      in s\<lparr>procs := (procs s)(active_proc s := (procs s (active_proc s))\<lparr>pnext := new\<rparr>)\<rparr>)"

text \<open>The end of \<^verbatim>\<open>fork\<close>: link the child, set both return values, give the child a kernel stack.\<close>

definition start_child :: "u32 \<Rightarrow> sched \<Rightarrow> sched outcome" where
  "start_child new s =
     (let s = link_child new s;
          s = s\<lparr>frame := (frame s)\<lparr>eax := pid (procs s new)\<rparr>\<rparr>;
          q = procs s new
      in init_kstack new (s\<lparr>procs := (procs s)(new := q\<lparr>pstack := (pstack q)\<lparr>eax := 0\<rparr>\<rparr>)\<rparr>))"

definition fork :: "sched \<Rightarrow> sched outcome" where
  "fork s =
     bind_ok (kmalloc (mm s)) (\<lambda>(new, m).
       let p = (procs s new)\<lparr>pstate := pstate (procs s (active_proc s)),
                 pstack := (frame s)\<lparr>eflags := 0x282\<rparr>, pid := 2\<rparr>
       in
       bind_ok (clone_fd_table (active_pid s) (pid p) (fd_tables s) m) (\<lambda>(tables, m).
       bind_ok (clone_directory (page_directory (procs s (active_proc s))) m) (\<lambda>(newdir, m).
         start_child new (s\<lparr>mm := m, fd_tables := tables,
           procs := (procs s)(new := p\<lparr>page_directory := newdir\<rparr>)\<rparr>))))"

section \<open>Specification: the ring\<close>

text \<open>The processes form a circular list.\<close>

definition ring :: "(u32 \<Rightarrow> process_t) \<Rightarrow> u32 list \<Rightarrow> bool" where
  "ring h ps \<longleftrightarrow> ps \<noteq> [] \<and> distinct ps \<and>
     (\<forall>i < length ps. pnext (h (ps ! i)) = ps ! (Suc i mod length ps))"

section \<open>Specification\<close>

text \<open>The process picked from position \<open>i\<close>: the first ready one after it, going round.\<close>

definition pick :: "(u32 \<Rightarrow> process_t) \<Rightarrow> u32 list \<Rightarrow> nat \<Rightarrow> u32 option" where
  "pick h ps i = find (\<lambda>p. pstate (h p) = READY) (rotate (Suc i) ps)"

fun picks :: "(u32 \<Rightarrow> process_t) \<Rightarrow> nat \<Rightarrow> u32 \<Rightarrow> u32 option" where
  "picks h 0 p = Some p"
| "picks h (Suc k) p = Option.bind (next_ready h p) (picks h k)"

definition sample_proc :: process_t where
  "sample_proc = \<lparr>pid = 1, pstate = 0, page_directory = 0xc0401000,
     pstack = \<lparr>edi = 0, esi = 0, ebp = 0, esp = 0, ebx = 0, edx = 0, ecx = 0, eax = 0, vector = 0, error = 0,
       eip = 0, cs = 0x1b, eflags = 0x282, user_esp = 0xbffffffc, user_ss = 0x23\<rparr>,
     kstack = 0xc0402000, stack_pointer = 0xc0402fa4, pnext = 0xc0201000\<rparr>"

definition sample_sched :: sched where
  "sample_sched =
     \<lparr>mm = sample_vm,
      procs = (\<lambda>p. if p = 0xc0201000 then sample_proc\<lparr>pid := 0, stack_pointer := 0xc01fff00, pnext := 0xc0400000\<rparr> else sample_proc),
      idle_addr = 0xc0201000, active_proc = 0xc0201000, old_proc = 0, active_pid = 0, tss = init_tss 0xc01ff000,
      kesp = 0xc01fff80, frame = pstack sample_proc, fd_tables = (\<lambda>_. 0), firstret = 0xc0204000\<rparr>"

section \<open>Walking the ring\<close>

lemma next_ready_unfold: "next_ready h p =
    (if pstate (h (pnext (h p))) = READY then Some (pnext (h p)) else next_ready h (pnext (h p)))"
  by (subst next_ready.simps) (simp add: Let_def)

lemma ring_next: "ring h ps \<Longrightarrow> pnext (h (ps ! (i mod length ps))) = ps ! (Suc i mod length ps)"
  by (simp add: ring_def mod_Suc_eq)

lemma next_ready_skip:
  assumes "ring h ps" and "\<And>j. 0 < j \<Longrightarrow> j \<le> k \<Longrightarrow> pstate (h (ps ! ((i + j) mod length ps))) \<noteq> READY"
  shows "next_ready h (ps ! (i mod length ps)) = next_ready h (ps ! ((i + k) mod length ps))"
  using assms(2)
proof (induction k)
  case (Suc k)
  then have "next_ready h (ps ! (i mod length ps)) = next_ready h (ps ! ((i + k) mod length ps))" by simp
  also have "\<dots> = next_ready h (ps ! ((i + Suc k) mod length ps))"
    using Suc.prems [of "Suc k"] ring_next [OF assms(1), of "i + k"] by (subst next_ready_unfold) simp
  finally show ?case .
qed simp

lemma next_ready_result:
  assumes "next_ready h p = Some q"
  shows "pstate (h q) = READY \<and> (\<forall>ps i. ring h ps \<and> p = ps ! (i mod length ps) \<longrightarrow> q \<in> set ps)"
proof (rule next_ready.raw_induct [OF _ assms, where P = "\<lambda>h p q. pstate (h q) = READY
    \<and> (\<forall>ps i. ring h ps \<and> p = ps ! (i mod length ps) \<longrightarrow> q \<in> set ps)"])
  fix rec h p q
  assume IH: "\<And>h p q. rec h p = Some q \<Longrightarrow> pstate (h q) = READY
      \<and> (\<forall>ps i. ring h ps \<and> p = ps ! (i mod length ps) \<longrightarrow> q \<in> set ps)"
    and step: "(let q = pnext (h p) in if pstate (h q) \<noteq> READY then rec h q else Some q) = Some q"
  show "pstate (h q) = READY \<and> (\<forall>ps i. ring h ps \<and> p = ps ! (i mod length ps) \<longrightarrow> q \<in> set ps)"
  proof (cases "pstate (h (pnext (h p))) = READY")
    case True
    with step have q: "q = pnext (h p)" by simp
    have "q \<in> set ps" if "ring h ps" "p = ps ! (i mod length ps)" for ps i
      using that ring_next [OF that(1), of i] unfolding q by (simp add: ring_def)
    with True q show ?thesis by blast
  next
    case False
    with step have r: "rec h (pnext (h p)) = Some q" by simp
    have "q \<in> set ps" if "ring h ps" "p = ps ! (i mod length ps)" for ps i
      using IH [OF r] that ring_next [OF that(1), of i] by metis
    with IH [OF r] show ?thesis by blast
  qed
qed

lemma next_ready_pick:
  assumes r: "ring h ps" and i: "i < length ps"
  shows "next_ready h (ps ! i) = pick h ps i"
proof (cases "pick h ps i")
  case None
  then have "\<forall>q \<in> set ps. pstate (h q) \<noteq> READY" by (auto simp: pick_def find_None_iff)
  then have "next_ready h (ps ! i) \<noteq> Some q" for q
    using next_ready_result [of h "ps ! i" q] r i by (metis mod_less)
  then show ?thesis using None by (cases "next_ready h (ps ! i)") auto
next
  case (Some q)
  then obtain k where k: "k < length ps" "pstate (h q) = READY" "q = ps ! ((Suc i + k) mod length ps)"
    and before: "\<And>j. j < k \<Longrightarrow> pstate (h (ps ! ((Suc i + j) mod length ps))) \<noteq> READY"
    unfolding pick_def find_Some_iff by (auto simp: nth_rotate simp del: rotate_Suc)
  have "next_ready h (ps ! (i mod length ps)) = next_ready h (ps ! ((i + k) mod length ps))"
  proof (rule next_ready_skip [OF r])
    fix j :: nat assume "0 < j" "j \<le> k"
    then show "pstate (h (ps ! ((i + j) mod length ps))) \<noteq> READY" using before [of "j - 1"] by simp
  qed
  also have "\<dots> = Some q"
    using k ring_next [OF r, of "i + k"] by (subst next_ready_unfold) simp
  finally show ?thesis using Some i by simp
qed

section \<open>No process starves\<close>

lemma picks_reach:
  assumes r: "ring h ps" and p: "pstate (h p) = READY"
  shows "\<lbrakk>0 < d; d \<le> length ps; p = ps ! ((i + d) mod length ps)\<rbrakk> \<Longrightarrow>
    \<exists>k. 0 < k \<and> k \<le> d \<and> picks h k (ps ! (i mod length ps)) = Some p"
proof (induction d arbitrary: i rule: less_induct)
  case (less d)
  have n: "0 < length ps" using r by (simp add: ring_def)
  let ?P = "\<lambda>j. 0 < j \<and> pstate (h (ps ! ((i + j) mod length ps))) = READY"
  define k where "k = (LEAST j. ?P j)"
  have Pd: "?P d" using less.prems p by simp
  then have Pk: "?P k" and kd: "k \<le> d" unfolding k_def by (rule LeastI, rule Least_le)
  have "next_ready h (ps ! (i mod length ps)) = next_ready h (ps ! ((i + (k - 1)) mod length ps))"
  proof (rule next_ready_skip [OF r])
    fix j :: nat assume "0 < j" "j \<le> k - 1"
    then have "j < k" using Pk by linarith
    then show "pstate (h (ps ! ((i + j) mod length ps))) \<noteq> READY"
      using not_less_Least [of j ?P] \<open>0 < j\<close> unfolding k_def by blast
  qed
  also have "\<dots> = Some (ps ! ((i + k) mod length ps))"
    using Pk ring_next [OF r, of "i + (k - 1)"] by (subst next_ready_unfold) simp
  finally have nx: "next_ready h (ps ! (i mod length ps)) = Some (ps ! ((i + k) mod length ps))" .
  show ?case
  proof (cases "k = d")
    case True
    then show ?thesis using nx less.prems by (intro exI [of _ 1]) simp
  next
    case False
    then have dk: "d - k < d" "0 < d - k" "d - k \<le> length ps" and "p = ps ! ((i + k + (d - k)) mod length ps)"
      using kd Pk less.prems by simp_all
    then obtain l where "0 < l" "l \<le> d - k" "picks h l (ps ! ((i + k) mod length ps)) = Some p"
      using less.IH [OF dk(1), of "i + k"] by blast
    moreover from this have "Suc l \<le> d" using kd Pk by linarith
    ultimately show ?thesis using nx by (intro exI [of _ "Suc l"]) simp
  qed
qed

lemma picks_any:
  assumes r: "ring h ps" and "p \<in> set ps" "q \<in> set ps" and "pstate (h p) = READY"
  shows "\<exists>k. 0 < k \<and> k \<le> length ps \<and> picks h k q = Some p"
proof -
  obtain i j where i: "i < length ps" "q = ps ! i" and j: "j < length ps" "p = ps ! j"
    using assms(2,3) by (metis in_set_conv_nth)
  define d where "d = (if i < j then j - i else j + length ps - i)"
  have d: "0 < d" "d \<le> length ps" "(i + d) mod length ps = j"
    using i(1) j(1) by (auto simp: d_def)
  obtain k where "0 < k" "k \<le> d" "picks h k (ps ! (i mod length ps)) = Some p"
    using picks_reach [OF r assms(4) d(1,2), of i] d(3) j(2) by auto
  then show ?thesis using d(2) i by (intro exI [of _ k]) simp
qed

section \<open>Linking a new process\<close>

lemma ring_insert:
  assumes r: "ring h (a # qs)" and new: "new \<notin> set (a # qs)"
    and links: "pnext (h' new) = pnext (h a)" "pnext (h' a) = new" "\<And>p. p \<in> set qs \<Longrightarrow> pnext (h' p) = pnext (h p)"
  shows "ring h' (a # new # qs)"
  unfolding ring_def
proof (intro conjI allI impI)
  show "distinct (a # new # qs)" using r new by (auto simp: ring_def)
  let ?n = "length (a # qs)"
  have nx: "pnext (h ((a # qs) ! i)) = (a # qs) ! (if Suc i < ?n then Suc i else 0)" if "i < ?n" for i
    using r that by (cases "Suc i = ?n") (simp_all add: ring_def)
  fix i assume i: "i < length (a # new # qs)"
  have m: "Suc i mod length (a # new # qs) = (if Suc i < Suc ?n then Suc i else 0)"
    using i by (cases "Suc i = Suc ?n") simp_all
  consider "i = 0" | "i = 1" | j where "i = Suc (Suc j)" "j < length qs"
    using i by (metis One_nat_def Suc_less_eq length_Cons not0_implies_Suc)
  then show "pnext (h' ((a # new # qs) ! i)) = (a # new # qs) ! (Suc i mod length (a # new # qs))"
  proof cases
    case 1
    then show ?thesis unfolding m using links by simp
  next
    case 2
    then show ?thesis unfolding m using links nx [of 0] by (cases qs) simp_all
  next
    case (3 j)
    then show ?thesis unfolding m using links(3) [of "qs ! j"] nx [of "Suc j"] by auto
  qed
qed simp

section \<open>Switching\<close>

lemma getpaddr_pte: "recursive_map m \<Longrightarrow> table_present m va \<Longrightarrow> getpaddr va m = Ok (pte m va AND 0xFFFFF000, m)"
  by (simp add: getpaddr_def write_pte(2))

lemma ring_upd:
  assumes "ring h ps" and "\<And>p. pnext (h' p) = pnext (h p)"
  shows "ring h' ps"
  using assms by (simp add: ring_def)

lemma pick_ready:
  assumes "pick h ps i = Some p"
  shows "p \<in> set ps \<and> pstate (h p) = READY"
proof -
  obtain k where "k < length (rotate (Suc i) ps)" "pstate (h p) = READY" "p = rotate (Suc i) ps ! k"
    using assms unfolding pick_def find_Some_iff by blast
  then show ?thesis using nth_mem [of k "rotate (Suc i) ps"] by (simp del: rotate_Suc)
qed

lemma pick_exists: "p \<in> set ps \<Longrightarrow> pstate (h p) = READY \<Longrightarrow> \<exists>q. pick h ps i = Some q"
  by (cases "pick h ps i") (auto simp: pick_def find_None_iff)

lemma scheduler_switches:
  assumes r: "ring (procs s) ps" and i: "i < length ps" "active_proc s = ps ! i"
    and p: "pick (procs s) ps i = Some p"
    and m: "recursive_map (mm s)" "table_present (mm s) (page_directory (procs s p))"
  shows "scheduler s = Some (Ok (s\<lparr>old_proc := ps ! i, active_proc := p, active_pid := pid (procs s p),
      mm := (mm s)\<lparr>cr3 := pte (mm s) (page_directory (procs s p)) AND 0xFFFFF000\<rparr>,
      tss := init_tss (kstack (procs s p)),
      procs := (procs s)(ps ! i := (procs s (ps ! i))\<lparr>stack_pointer := kesp s\<rparr>),
      kesp := stack_pointer (procs s p)\<rparr>))"
  using p by (simp add: scheduler_def Let_def i(2) next_ready_pick [OF r i(1)] getpaddr_pte [OF m])

section \<open>Properties\<close>

text \<open>
  C13. The scheduler is round robin: it picks the first ready process after the active one,
  going round the ring, saves the stack pointer of the process it leaves, continues on the one
  it enters, loads that process's page directory and kernel stack, and keeps the ring. It
  returns whenever some process is ready.
\<close>

theorem scheduler_round_robin:
  assumes "ring (procs s) ps" and "i < length ps" and "active_proc s = ps ! i"
    and "\<exists>q \<in> set ps. pstate (procs s q) = 0" and "recursive_map (mm s)"
    and "\<forall>q \<in> set ps. table_present (mm s) (page_directory (procs s q))"
  shows "\<exists>p s'. scheduler s = Some (Ok s') \<and> find (\<lambda>q. pstate (procs s q) = 0) (rotate (Suc i) ps) = Some p
    \<and> active_proc s' = p \<and> active_pid s' = pid (procs s p) \<and> kesp s' = stack_pointer (procs s p)
    \<and> stack_pointer (procs s' (active_proc s)) = kesp s
    \<and> cr3 (mm s') = pte (mm s) (page_directory (procs s p)) AND 0xFFFFF000
    \<and> esp0 (tss s') = (kstack (procs s p) AND 0xFFFFF000) + 0xffc
    \<and> ring (procs s') ps \<and> (\<forall>q. pstate (procs s' q) = pstate (procs s q))"
proof -
  obtain p where p: "pick (procs s) ps i = Some p" using pick_exists assms(4) by blast
  have "table_present (mm s) (page_directory (procs s p))" using pick_ready [OF p] assms(6) by blast
  note sw = scheduler_switches [OF assms(1-3) p assms(5) this]
  then obtain s' where s': "scheduler s = Some (Ok s')" and "active_proc s' = p" "active_pid s' = pid (procs s p)"
    "kesp s' = stack_pointer (procs s p)" "cr3 (mm s') = pte (mm s) (page_directory (procs s p)) AND 0xFFFFF000"
    "tss s' = init_tss (kstack (procs s p))"
    and ps: "procs s' = (procs s)(ps ! i := (procs s (ps ! i))\<lparr>stack_pointer := kesp s\<rparr>)" by simp
  moreover have "ring (procs s') ps" using assms(1) by (rule ring_upd) (simp add: ps)
  ultimately show ?thesis
    using p assms(3) by (intro exI [of _ p] exI [of _ s']) (simp add: pick_def init_tss_def)
qed

lemma sample_ring: "ring (procs sample_sched) [0xc0201000, 0xc0400000]"
  by (auto simp: ring_def sample_sched_def sample_proc_def less_Suc_eq)

lemma sample_tables: "table_present sample_vm 0xc0401000"
  using sample_dir [of 769] by (simp add: table_present_def present_def)

theorem scheduler_round_robin_witness:
  "\<exists>s'. scheduler sample_sched = Some (Ok s') \<and> active_proc s' = 0xc0400000 \<and> kesp s' = 0xc0402fa4"
proof -
  have "\<exists>p s'. scheduler sample_sched = Some (Ok s') \<and> find (\<lambda>q. pstate (procs sample_sched q) = 0) (rotate (Suc 0) [0xc0201000, 0xc0400000]) = Some p
    \<and> active_proc s' = p \<and> active_pid s' = pid (procs sample_sched p) \<and> kesp s' = stack_pointer (procs sample_sched p)
    \<and> stack_pointer (procs s' (active_proc sample_sched)) = kesp sample_sched
    \<and> cr3 (mm s') = pte (mm sample_sched) (page_directory (procs sample_sched p)) AND 0xFFFFF000
    \<and> esp0 (tss s') = (kstack (procs sample_sched p) AND 0xFFFFF000) + 0xffc
    \<and> ring (procs s') [0xc0201000, 0xc0400000] \<and> (\<forall>q. pstate (procs s' q) = pstate (procs sample_sched q))"
    by (rule scheduler_round_robin [OF sample_ring])
       (simp_all add: sample_sched_def sample_proc_def sample_tables vm_okD(1) [OF sample_ok])
  then show ?thesis by (auto simp: sample_sched_def sample_proc_def)
qed

text \<open>
  C14. No ready process starves: as long as the states do not change, every ready process of the
  ring is chosen within as many switches as the ring has processes, from wherever it starts.
\<close>

theorem scheduler_no_starvation:
  assumes "ring h ps" and "p \<in> set ps" and "q \<in> set ps" and "pstate (h p) = 0"
  shows "\<exists>k. 0 < k \<and> k \<le> length ps \<and> picks h k q = Some p"
  using assms by (rule picks_any)

theorem scheduler_no_starvation_witness:
  "\<exists>k. 0 < k \<and> k \<le> 2 \<and> picks (procs sample_sched) k 0xc0400000 = Some 0xc0400000"
  using scheduler_no_starvation [OF sample_ring, of "0xc0400000" "0xc0400000"]
  by (simp add: sample_sched_def sample_proc_def numeral_2_eq_2)

text \<open>
  C15. A process that blocks gives up the processor: \<^verbatim>\<open>block\<close> continues in another process, the
  blocked one is never chosen while it waits, and after \<^verbatim>\<open>unblock\<close> it can be chosen again.
\<close>

theorem block_sleeps:
  assumes "block s = Some (Ok s')"
  shows "active_proc s' \<noteq> active_proc s \<and> pstate (procs s' (active_proc s)) = 1
    \<and> (\<forall>q. next_ready (procs s') q \<noteq> Some (active_proc s))
    \<and> (\<forall>ps q. ring (procs s') ps \<and> active_proc s \<in> set ps \<and> q \<in> set ps \<longrightarrow>
         (\<exists>k \<le> length ps. picks (procs (unblock (active_proc s) s')) k q = Some (active_proc s)))"
proof -
  let ?s = "set_state (active_proc s) WAITING s" and ?a = "active_proc s"
  obtain p where p: "next_ready (procs ?s) ?a = Some p" and s': "active_proc s' = p"
    and ps: "procs s' = (procs ?s)(?a := (procs ?s ?a)\<lparr>stack_pointer := kesp ?s\<rparr>)"
    using assms unfolding block_def scheduler_def
    by (auto simp: Let_def set_state_def split: option.splits)
  have w: "pstate (procs s' ?a) = 1" by (simp add: ps set_state_def)
  have "pstate (procs ?s p) = 0" using next_ready_result [OF p] by simp
  then have "p \<noteq> ?a" by (auto simp: set_state_def)
  moreover have "next_ready (procs s') q \<noteq> Some ?a" for q
    using next_ready_result [of "procs s'" q ?a] w by auto
  moreover have "\<exists>k \<le> length l. picks (procs (unblock ?a s')) k q = Some ?a"
    if "ring (procs s') l" "?a \<in> set l" "q \<in> set l" for l q
  proof -
    have "ring (procs (unblock ?a s')) l" using that(1) by (rule ring_upd) (simp add: unblock_def set_state_def)
    from picks_any [OF this that(2,3)] show ?thesis by (auto simp: unblock_def set_state_def)
  qed
  ultimately show ?thesis using s' w by blast
qed

theorem block_sleeps_witness:
  "\<exists>s'. block sample_sched = Some (Ok s') \<and> active_proc s' \<noteq> 0xc0201000"
proof -
  let ?s = "set_state 0xc0201000 1 sample_sched"
  have r: "ring (procs ?s) [0xc0201000, 0xc0400000]" using sample_ring by (rule ring_upd) (simp add: set_state_def)
  have "\<exists>s'. scheduler ?s = Some (Ok s')"
    using scheduler_switches [OF r, of 0 "0xc0400000"] sample_tables vm_okD(1) [OF sample_ok]
    by (simp add: pick_def set_state_def sample_sched_def sample_proc_def)
  then obtain s' where "block sample_sched = Some (Ok s')" by (auto simp: block_def sample_sched_def)
  from block_sleeps [OF this] this show ?thesis by (auto simp: sample_sched_def)
qed

end
