(* ===== verification/Libc_String.thy ===== *)
theory Libc_String
  imports Prelude
begin

text \<open>
  The string functions of BarrelOS' C library (\<^verbatim>\<open>barrelOS/libc/string.c\<close>), on the byte memory of a
  user process. A loop that looks for a terminator may never find one: such loops are
  \<open>partial_function (option)\<close>, and \<open>None\<close> means no return. The counters have the widths of the
  source: \<^verbatim>\<open>uint32_t\<close> in \<^verbatim>\<open>strlen\<close> and \<^verbatim>\<open>strcpy\<close>, \<^verbatim>\<open>uint16_t\<close> in \<^verbatim>\<open>strcmp\<close>, \<^verbatim>\<open>uint8_t\<close> for the
  delimiters of \<^verbatim>\<open>strtok\<close>.
\<close>

section \<open>Operations\<close>

partial_function (option) strlen_loop :: "32 mem \<Rightarrow> u32 \<Rightarrow> u32 \<Rightarrow> u32 option" where
  "strlen_loop m str len = (if m (str + len) \<noteq> 0 then strlen_loop m str (len + 1) else Some len)"

definition strlen :: "32 mem \<Rightarrow> u32 \<Rightarrow> u32 option" where
  "strlen m str = strlen_loop m str 0"

partial_function (option) strcmp_loop :: "32 mem \<Rightarrow> u32 \<Rightarrow> u32 \<Rightarrow> u16 \<Rightarrow> u8 option" where
  "strcmp_loop m string1 string2 i =
     (if \<not> (m (string1 + ucast i) = 0 \<and> m (string2 + ucast i) = 0)
      then if m (string1 + ucast i) \<noteq> m (string2 + ucast i) then Some 1
           else strcmp_loop m string1 string2 (i + 1)
      else Some 0)"

definition strcmp :: "32 mem \<Rightarrow> u32 \<Rightarrow> u32 \<Rightarrow> u8 option" where
  "strcmp m string1 string2 = strcmp_loop m string1 string2 0"

text \<open>\<^verbatim>\<open>do { dest[i] = src[i]; i++; } while (src[i - 1] != 0);\<close>: the test reads after the write.\<close>

partial_function (option) strcpy_loop :: "u32 \<Rightarrow> u32 \<Rightarrow> u32 \<Rightarrow> 32 mem \<Rightarrow> 32 mem option" where
  "strcpy_loop dest src i m =
     (let m = m(dest + i := m (src + i)); i = i + 1
      in if m (src + (i - 1)) \<noteq> 0 then strcpy_loop dest src i m else Some m)"

definition strcpy :: "u32 \<Rightarrow> u32 \<Rightarrow> 32 mem \<Rightarrow> (u32 \<times> 32 mem) option" where
  "strcpy dest src m = map_option (Pair dest) (strcpy_loop dest src 0 m)"

definition strcat :: "u32 \<Rightarrow> u32 \<Rightarrow> 32 mem \<Rightarrow> (u32 \<times> 32 mem) option" where
  "strcat to from m =
     Option.bind (strlen m to) (\<lambda>n. Option.bind (strcpy (to + n) from m) (\<lambda>(_, m). Some (to, m)))"

text \<open>The statics of \<^verbatim>\<open>strtok\<close>.\<close>

record strtok_state =
  token :: u32
  str_end :: u32

text \<open>\<^verbatim>\<open>for (uint8_t j = 0; j < strlen(delim); j++) if (str[i] == delim[j]) str[i] = 0;\<close>\<close>

partial_function (option) delim_loop :: "u32 \<Rightarrow> u32 \<Rightarrow> u8 \<Rightarrow> 32 mem \<Rightarrow> 32 mem option" where
  "delim_loop a delim j m =
     Option.bind (strlen m delim) (\<lambda>n.
       if ucast j < n
       then delim_loop a delim (j + 1) (if m a = m (delim + ucast j) then m(a := 0) else m)
       else Some m)"

partial_function (option) cut_loop :: "u32 \<Rightarrow> u32 \<Rightarrow> u32 \<Rightarrow> 32 mem \<Rightarrow> 32 mem option" where
  "cut_loop str delim i m =
     (if m (str + i) \<noteq> 0
      then Option.bind (delim_loop (str + i) delim 0 m) (\<lambda>m. cut_loop str delim (i + 1) m)
      else Some m)"

partial_function (option) skip_zeros :: "32 mem \<Rightarrow> u32 \<Rightarrow> u32 \<Rightarrow> u32 option" where
  "skip_zeros m tok send =
     (if m tok = 0 \<and> tok < send then skip_zeros m (tok + 1) send else Some tok)"

definition strtok :: "u32 \<Rightarrow> u32 \<Rightarrow> strtok_state \<Rightarrow> 32 mem \<Rightarrow> (u32 \<times> strtok_state \<times> 32 mem) option" where
  "strtok str delim st m =
     Option.bind
       (if str \<noteq> 0
        then Option.bind (strlen m str) (\<lambda>n.
             Option.bind (cut_loop str delim 0 m) (\<lambda>m.
               Some (Some \<lparr>token = str, str_end = str + n\<rparr>, m)))
        else if token st = 0 then Some (None, m)
        else Option.bind (strlen m (token st)) (\<lambda>n.
               Some (Some (st\<lparr>token := token st + (n + 1)\<rparr>), m)))
       (\<lambda>(r, m). case r of
          None \<Rightarrow> Some (0, st, m)
        | Some st \<Rightarrow>
            Option.bind (skip_zeros m (token st) (str_end st)) (\<lambda>t.
              let t = (if t \<ge> str_end st then 0 else t)
              in Some (t, st\<lparr>token := t\<rparr>, m)))"

section \<open>Specification\<close>

text \<open>The C string at an address: its characters, none of them zero, and the terminator.\<close>

definition string_at :: "32 mem \<Rightarrow> u32 \<Rightarrow> u8 list \<Rightarrow> bool" where
  "string_at m a xs \<longleftrightarrow> unat a + length xs < 2 ^ 32 \<and> 0 \<notin> set xs
     \<and> (\<forall>i < length xs. m (a + of_nat i) = xs ! i) \<and> m (a + of_nat (length xs)) = 0"

section \<open>Specification\<close>

definition char_at :: "u8 list \<Rightarrow> nat \<Rightarrow> u8" where
  "char_at xs k = (if k < length xs then xs ! k else 0)"

definition copied :: "u8 list \<Rightarrow> u32 \<Rightarrow> nat \<Rightarrow> 32 mem \<Rightarrow> 32 mem" where
  "copied xs dest k m = (\<lambda>x. if unat (x - dest) < k then char_at xs (unat (x - dest)) else m x)"

definition sample_text :: "32 mem" where
  "sample_text = (\<lambda>x. if x = 0x100 then 0x6c else if x = 0x101 then 0x73 else if x = 0x200 then 0x6c
     else if x = 0x201 then 0x78 else 0)"

text \<open>The pieces of a text between separators (zero bytes), empty ones dropped.\<close>

fun pieces :: "u8 list \<Rightarrow> u8 list \<Rightarrow> u8 list list" where
  "pieces acc [] = (if acc = [] then [] else [acc])"
| "pieces acc (c # xs) = (if c = 0 then (if acc = [] then [] else [acc]) @ pieces [] xs else pieces (acc @ [c]) xs)"

definition cut :: "u8 list \<Rightarrow> u8 list \<Rightarrow> u8 list" where
  "cut ds xs = map (\<lambda>c. if c \<in> set ds then 0 else c) xs"

definition tokens :: "u8 list \<Rightarrow> u8 list \<Rightarrow> u8 list list" where
  "tokens ds xs = pieces [] (cut ds xs)"

text \<open>The bytes from an address on, up to a zero byte at \<open>e\<close>.\<close>

definition bytes_to :: "32 mem \<Rightarrow> u32 \<Rightarrow> u8 list \<Rightarrow> u32 \<Rightarrow> bool" where
  "bytes_to m a zs e \<longleftrightarrow> unat a + length zs = unat e \<and> unat e + 1 < 2 ^ 32
     \<and> (\<forall>i < length zs. m (a + of_nat i) = zs ! i) \<and> m e = 0"

text \<open>The statics of \<^verbatim>\<open>strtok\<close> when the tokens \<open>ts\<close> are still to come, the first being the current one.\<close>

definition strtok_at :: "32 mem \<Rightarrow> strtok_state \<Rightarrow> u8 list list \<Rightarrow> bool" where
  "strtok_at m st ts \<longleftrightarrow> (if ts = [] then token st = 0
     else token st \<noteq> 0 \<and> string_at m (token st) (hd ts)
       \<and> (\<exists>zs. bytes_to m (token st) (hd ts @ zs) (str_end st) \<and> pieces [] zs = tl ts))"

definition sample_path :: "32 mem" where
  "sample_path = (\<lambda>x. if x = 0x100 then 0x2f else if x = 0x101 then 0x61 else if x = 0x102 then 0x2f else if x = 0x103 then 0x62
     else if x = 0x200 then 0x2f else 0)"

section \<open>Length\<close>

lemma string_at_nonzero: "string_at m a xs \<Longrightarrow> k < length xs \<Longrightarrow> m (a + of_nat k) = xs ! k \<and> xs ! k \<noteq> 0"
  by (auto simp: string_at_def) (metis nth_mem)

lemma strlen_loop_at:
  assumes "string_at m a xs"
  shows "k \<le> length xs \<Longrightarrow> strlen_loop m a (of_nat k) = Some (of_nat (length xs))"
proof (induction "length xs - k" arbitrary: k)
  case 0
  then have "k = length xs" by simp
  then show ?case using assms by (subst strlen_loop.simps) (simp add: string_at_def)
next
  case (Suc n)
  then have "k < length xs" by simp
  then have "strlen_loop m a (of_nat k) = strlen_loop m a (of_nat (Suc k))"
    using string_at_nonzero [OF assms] by (subst strlen_loop.simps) (simp add: ac_simps)
  also have "\<dots> = Some (of_nat (length xs))" using Suc by (intro Suc.hyps(1)) simp_all
  finally show ?case .
qed

lemma strlen_at: "string_at m a xs \<Longrightarrow> strlen m a = Some (of_nat (length xs))"
  using strlen_loop_at [of m a xs 0] by (simp add: strlen_def)

section \<open>Comparison\<close>

lemma ucast_index: "k < 65536 \<Longrightarrow> (ucast (of_nat k :: u16) :: u32) = of_nat k"
  by (simp add: word_unat_eq_iff unsigned_ucast_eq unat_of_nat take_bit_nat_eq_self)

lemma string_at_char: "string_at m a xs \<Longrightarrow> k \<le> length xs \<Longrightarrow> m (a + of_nat k) = char_at xs k"
  using string_at_nonzero [of m a xs k] by (auto simp: char_at_def string_at_def)

lemma char_at_0_iff: "string_at m a xs \<Longrightarrow> k \<le> length xs \<Longrightarrow> char_at xs k = 0 \<longleftrightarrow> k = length xs"
  using string_at_nonzero [of m a xs k] by (auto simp: char_at_def)

lemma strcmp_loop_step:
  assumes "k < 65536"
  shows "strcmp_loop m a b (of_nat k) =
    (if m (a + of_nat k) \<noteq> m (b + of_nat k) then Some 1
     else if m (a + of_nat k) = 0 then Some 0 else strcmp_loop m a b (of_nat (Suc k)))"
proof -
  have "(of_nat k + 1 :: u16) = of_nat (Suc k)" by simp
  then show ?thesis by (subst strcmp_loop.simps) (simp only: ucast_index [OF assms], auto)
qed

lemma strcmp_loop_at:
  assumes x: "string_at m a xs" "length xs < 65536" and y: "string_at m b ys" "length ys < 65536"
  shows "k \<le> length xs \<Longrightarrow> k \<le> length ys \<Longrightarrow> take k xs = take k ys \<Longrightarrow>
    strcmp_loop m a b (of_nat k) = Some (if xs = ys then 0 else 1)"
proof (induction "length xs - k" arbitrary: k rule: less_induct)
  case less
  have "k < 65536" using less.prems(1) x(2) by linarith
  note step = strcmp_loop_step [OF this, of m a b, unfolded string_at_char [OF x(1) less.prems(1)] string_at_char [OF y(1) less.prems(2)]]
  note z = char_at_0_iff [OF x(1) less.prems(1)] char_at_0_iff [OF y(1) less.prems(2)]
  consider (differ) "char_at xs k \<noteq> char_at ys k" | (over) "char_at xs k = 0" "char_at ys k = 0"
    | (same) "char_at xs k = char_at ys k" "char_at xs k \<noteq> 0" by metis
  then show ?case
  proof cases
    case differ
    then have "xs \<noteq> ys" by auto
    then show ?thesis using differ by (simp add: step)
  next
    case over
    then have "xs = ys" using z less.prems(3) by simp
    then show ?thesis using over by (simp add: step)
  next
    case same
    then have k: "k < length xs" "k < length ys" using z less.prems(1,2) by auto
    then have "xs ! k = ys ! k" using same by (simp add: char_at_def)
    then have "take (Suc k) xs = take (Suc k) ys" using less.prems(3) k by (simp add: take_Suc_conv_app_nth)
    then have "strcmp_loop m a b (of_nat (Suc k)) = Some (if xs = ys then 0 else 1)"
      using k by (intro less.hyps) simp_all
    then show ?thesis unfolding step using same by simp
  qed
qed

lemma strcmp_loop_result:
  assumes "strcmp_loop m a b i = Some r"
  shows "\<exists>j. (m (a + ucast (j :: u16)) = 0 \<and> m (b + ucast j) = 0) \<or> m (a + ucast j) \<noteq> m (b + ucast j)"
  by (rule strcmp_loop.raw_induct [OF _ assms, where P = "\<lambda>m a b i r. \<exists>j. (m (a + ucast (j :: u16)) = 0 \<and> m (b + ucast j) = 0)
        \<or> m (a + ucast j) \<noteq> m (b + ucast j)"]) (auto split: if_splits)

section \<open>Copying\<close>

lemma copied_step:
  assumes "k < 2 ^ 32"
  shows "(copied xs dest k m)(dest + of_nat k := char_at xs k) = copied xs dest (Suc k) m"
proof
  fix x
  have "x = dest + of_nat k \<longleftrightarrow> unat (x - dest) = k"
  proof
    assume "unat (x - dest) = k"
    then have "of_nat k = x - dest" by (metis of_nat_unat ucast_id)
    then show "x = dest + of_nat k" by simp
  qed (use assms in \<open>simp add: unat_of_nat take_bit_nat_eq_self\<close>)
  then show "((copied xs dest k m)(dest + of_nat k := char_at xs k)) x = copied xs dest (Suc k) m x"
    by (auto simp: copied_def less_Suc_eq)
qed

lemma copied_source:
  assumes src: "string_at m src xs" and k: "k \<le> j" "j \<le> length xs"
    and apart: "\<And>i. i < k \<Longrightarrow> dest + of_nat i \<noteq> src + of_nat j"
  shows "copied xs dest k m (src + of_nat j) = char_at xs j"
proof -
  have "\<not> unat (src + of_nat j - dest) < k"
  proof
    assume less: "unat (src + of_nat j - dest) < k"
    have "dest + of_nat (unat (src + of_nat j - dest)) = src + of_nat j" by simp
    with apart [OF less] show False by simp
  qed
  then show ?thesis using string_at_char [OF src k(2)] by (simp add: copied_def)
qed

lemma strcpy_loop_at:
  assumes src: "string_at m src xs"
    and apart: "\<And>i j. i < j \<Longrightarrow> j \<le> length xs \<Longrightarrow> dest + of_nat i \<noteq> src + of_nat j"
  shows "k \<le> length xs \<Longrightarrow>
    strcpy_loop dest src (of_nat k) (copied xs dest k m) = Some (copied xs dest (Suc (length xs)) m)"
proof (induction "length xs - k" arbitrary: k)
  case hyp: 0
  have n: "length xs < 2 ^ 32" using src by (simp add: string_at_def)
  from hyp have k: "k = length xs" by simp
  have "copied xs dest k m (src + of_nat k) = char_at xs k" using k apart by (intro copied_source [OF src]) simp_all
  moreover have "copied xs dest (Suc k) m (src + of_nat k) = 0"
    using copied_step [of k xs dest m] n k calculation char_at_0_iff [OF src, of k] by (metis fun_upd_apply le_refl)
  ultimately show ?case using copied_step [of k xs dest m] n k by (subst strcpy_loop.simps) (simp add: Let_def)
next
  case (Suc d)
  have n: "length xs < 2 ^ 32" using src by (simp add: string_at_def)
  from Suc have k: "k < length xs" by simp
  have c: "copied xs dest k m (src + of_nat k) = char_at xs k" using k apart by (intro copied_source [OF src]) simp_all
  then have "copied xs dest (Suc k) m (src + of_nat k) = char_at xs k"
    using copied_step [of k xs dest m] n k by (metis fun_upd_apply less_trans)
  then have "strcpy_loop dest src (of_nat k) (copied xs dest k m) = strcpy_loop dest src (of_nat (Suc k)) (copied xs dest (Suc k) m)"
    using copied_step [of k xs dest m] n k c char_at_0_iff [OF src, of k] by (subst strcpy_loop.simps) (simp add: Let_def add.commute)
  also have "\<dots> = Some (copied xs dest (Suc (length xs)) m)" using Suc by (intro Suc.hyps(1)) simp_all
  finally show ?case .
qed

lemma strcpy_at:
  assumes "string_at m src xs" and "\<And>i j. i < j \<Longrightarrow> j \<le> length xs \<Longrightarrow> dest + of_nat i \<noteq> src + of_nat j"
  shows "strcpy dest src m = Some (dest, copied xs dest (Suc (length xs)) m)"
proof -
  have "copied xs dest 0 m = m" by (simp add: copied_def)
  then show ?thesis using strcpy_loop_at [OF assms, where k = 0] by (simp add: strcpy_def)
qed

section \<open>Concatenation\<close>

lemma offset_apart:
  fixes a :: u32
  assumes "unat a + n < 2 ^ 32" and "i \<le> n" and "j \<le> n"
  shows "a + of_nat i = a + of_nat j \<longleftrightarrow> i = j"
proof
  assume "a + of_nat i = a + of_nat j"
  then have "unat (of_nat i :: u32) = unat (of_nat j :: u32)" by simp
  then show "i = j" using assms by (simp add: unat_of_nat take_bit_nat_eq_self)
qed simp

lemma copied_at: "i < k \<Longrightarrow> k \<le> 2 ^ 32 \<Longrightarrow> copied xs dest k m (dest + of_nat i) = char_at xs i"
  by (simp add: copied_def unat_of_nat take_bit_nat_eq_self)

lemma copied_elsewhere: "(\<And>i. i < k \<Longrightarrow> x \<noteq> dest + of_nat i) \<Longrightarrow> copied xs dest k m x = m x"
proof -
  assume apart: "\<And>i. i < k \<Longrightarrow> x \<noteq> dest + of_nat i"
  have "x = dest + of_nat (unat (x - dest))" by simp
  then have "\<not> unat (x - dest) < k" using apart by metis
  then show ?thesis by (simp add: copied_def)
qed

lemma strcat_at:
  assumes t: "string_at m to xs" and f: "string_at m from ys" and room: "unat to + length xs + length ys < 2 ^ 32"
    and apart: "\<And>i j. i \<le> length ys \<Longrightarrow> j \<le> length ys \<Longrightarrow> to + of_nat (length xs + i) \<noteq> from + of_nat j"
  shows "\<exists>m'. strcat to from m = Some (to, m') \<and> string_at m' to (xs @ ys) \<and>
    (\<forall>x. (\<forall>i \<le> length ys. x \<noteq> to + of_nat (length xs + i)) \<longrightarrow> m' x = m x)"
proof -
  let ?d = "to + of_nat (length xs)" and ?m = "copied ys (to + of_nat (length xs)) (Suc (length ys)) m"
  have "strcpy ?d from m = Some (?d, ?m)"
    using apart by (intro strcpy_at [OF f]) (simp add: add.assoc)
  then have run: "strcat to from m = Some (to, ?m)" by (simp add: strcat_def strlen_at [OF t])
  have frame: "?m x = m x" if "\<forall>i \<le> length ys. x \<noteq> to + of_nat (length xs + i)" for x
    using that by (intro copied_elsewhere) (simp add: add.assoc less_Suc_eq_le)
  have at: "?m (to + of_nat (length xs + i)) = char_at ys i" if "i \<le> length ys" for i
    using copied_at [of i "Suc (length ys)" ys ?d m] that room by (simp add: add.assoc)
  have low: "?m (to + of_nat i) = m (to + of_nat i)" if "i < length xs" for i
  proof (intro frame allI impI)
    fix k assume "k \<le> length ys"
    then show "to + of_nat i \<noteq> to + of_nat (length xs + k)"
      using that room offset_apart [of to "length xs + length ys" i "length xs + k"] by linarith
  qed
  have "string_at ?m to (xs @ ys)"
    unfolding string_at_def
  proof (intro conjI allI impI)
    show "unat to + length (xs @ ys) < 2 ^ 32" using room by simp
    show "0 \<notin> set (xs @ ys)" using t f by (simp add: string_at_def)
    show "?m (to + of_nat (length (xs @ ys))) = 0" using at [of "length ys"] by (simp add: char_at_def)
    fix i assume "i < length (xs @ ys)"
    then show "?m (to + of_nat i) = (xs @ ys) ! i"
      using low [of i] at [of "i - length xs"] t by (cases "i < length xs") (auto simp: nth_append string_at_def char_at_def)
  qed
  then show ?thesis using run frame by blast
qed

section \<open>Properties\<close>

text \<open>
  \<^verbatim>\<open>strcmp\<close> returns 0 on equal strings and 1 on different ones, for strings shorter than
  65536 characters; on longer equal strings its 16-bit counter wraps and it never returns.
\<close>

theorem strcmp_decides:
  "(string_at m a xs \<and> string_at m b ys \<and> length xs < 65536 \<and> length ys < 65536 \<longrightarrow>
     strcmp m a b = Some (if xs = ys then 0 else 1)) \<and>
   (string_at m a xs \<and> 65536 \<le> length xs \<longrightarrow> strcmp m a a = None)"
proof (intro conjI impI; elim conjE)
  assume "string_at m a xs" "string_at m b ys" "length xs < 65536" "length ys < 65536"
  then show "strcmp m a b = Some (if xs = ys then 0 else 1)"
    using strcmp_loop_at [of m a xs b ys 0] by (simp add: strcmp_def)
next
  assume x: "string_at m a xs" and long: "65536 \<le> length xs"
  show "strcmp m a a = None"
  proof (rule ccontr)
    assume "strcmp m a a \<noteq> None"
    then obtain r where "strcmp_loop m a a 0 = Some r" by (auto simp: strcmp_def)
    from strcmp_loop_result [OF this] obtain j :: u16 where z: "m (a + ucast j) = 0" by auto
    have "unat j < length xs" using unat_u16_less [of j] long by linarith
    moreover have "(ucast j :: u32) = of_nat (unat j)" by simp
    ultimately show False using string_at_nonzero [OF x, of "unat j"] z by simp
  qed
qed

lemma sample_text_strings: "string_at sample_text 0x100 [0x6c, 0x73]" "string_at sample_text 0x200 [0x6c, 0x78]"
  by (auto simp: string_at_def sample_text_def less_Suc_eq)

theorem strcmp_decides_witness: "strcmp sample_text 0x100 0x200 = Some 1"
  using strcmp_decides [of sample_text "0x100" "[0x6c, 0x73]" "0x200" "[0x6c, 0x78]"] sample_text_strings by simp

text \<open>
  \<^verbatim>\<open>strcat\<close> returns, leaves the concatenation of the two strings at \<^verbatim>\<open>to\<close>, and changes no byte
  outside of the room it needs, when that room does not overlap the second string.
\<close>

theorem strcat_concatenates:
  assumes "string_at m to xs" and "string_at m from ys" and "unat to + length xs + length ys < 2 ^ 32"
    and "\<And>i j. i \<le> length ys \<Longrightarrow> j \<le> length ys \<Longrightarrow> to + of_nat (length xs + i) \<noteq> from + of_nat j"
  shows "\<exists>m'. strcat to from m = Some (to, m') \<and> string_at m' to (xs @ ys) \<and>
    (\<forall>x. (\<forall>i \<le> length ys. x \<noteq> to + of_nat (length xs + i)) \<longrightarrow> m' x = m x)"
  using assms by (rule strcat_at)

theorem strcat_concatenates_witness:
  "\<exists>m'. strcat 0x100 0x200 sample_text = Some (0x100, m') \<and> string_at m' 0x100 [0x6c, 0x73, 0x6c, 0x78]"
proof -
  have "(0x100 :: u32) + of_nat (2 + i) \<noteq> 0x200 + of_nat j" if "i \<le> 2" "j \<le> 2" for i j
  proof -
    have "i \<in> {0, 1, 2}" "j \<in> {0, 1, 2}" using that by auto
    then show ?thesis by auto
  qed
  then have "\<exists>m'. strcat 0x100 0x200 sample_text = Some (0x100, m') \<and> string_at m' 0x100 ([0x6c, 0x73] @ [0x6c, 0x78]) \<and>
    (\<forall>x. (\<forall>i \<le> length [0x6c, 0x78 :: u8]. x \<noteq> 0x100 + of_nat (length [0x6c, 0x73 :: u8] + i)) \<longrightarrow> m' x = sample_text x)"
    by (intro strcat_concatenates [OF sample_text_strings]) simp_all
  then show ?thesis by auto
qed

section \<open>Tokens\<close>

lemma pieces_acc: "0 \<notin> set xs \<Longrightarrow> pieces acc (xs @ ys) = pieces (acc @ xs) ys"
  by (induction xs arbitrary: acc) auto

lemma pieces_zeros: "pieces [] (replicate n 0 @ ys) = pieces [] ys"
  by (induction n) auto

lemma pieces_word: "w \<noteq> [] \<Longrightarrow> 0 \<notin> set w \<Longrightarrow> ys = [] \<or> hd ys = 0 \<Longrightarrow> pieces [] (w @ ys) = w # pieces [] ys"
  using pieces_acc [of w "[]" ys] by (cases ys) auto

text \<open>Leading zeros, a word, the rest: how the next token is found.\<close>

lemma next_word:
  obtains n where "zs = replicate n 0" "pieces [] zs = []"
  | n w ys where "zs = replicate n 0 @ w @ ys" "w \<noteq> []" "0 \<notin> set w" "ys = [] \<or> hd ys = 0" "pieces [] zs = w # pieces [] ys"
proof -
  let ?z = "takeWhile ((=) 0) zs" and ?r = "dropWhile ((=) 0) zs"
  have z: "?z = replicate (length ?z) 0" by (rule replicate_eqI) (auto dest: set_takeWhileD)
  have split: "zs = replicate (length ?z) 0 @ ?r" using z takeWhile_dropWhile_id [of "(=) 0" zs] by metis
  show thesis
  proof (cases "?r = []")
    case True
    have e: "zs = replicate (length ?z) 0" using split True by simp
    then show thesis using that(1) [OF e] pieces_zeros [of "length ?z" "[]"] by simp
  next
    case False
    let ?w = "takeWhile ((\<noteq>) 0) ?r" and ?y = "dropWhile ((\<noteq>) 0) ?r"
    have h: "hd ?r \<noteq> 0" using False hd_dropWhile [of "(=) 0" zs] by simp
    then have w: "?w \<noteq> []" using False by (cases ?r) auto
    have w0: "0 \<notin> set ?w" by (auto dest: set_takeWhileD)
    have y: "?y = [] \<or> hd ?y = 0" using hd_dropWhile [of "(\<noteq>) 0" ?r] by auto
    have e: "zs = replicate (length ?z) 0 @ ?w @ ?y" using split by simp
    have "pieces [] zs = pieces [] (?w @ ?y)" using e pieces_zeros by metis
    then show thesis using that(2) [OF e w w0 y] pieces_word [OF w w0 y] by simp
  qed
qed

lemma offset_eq_iff: "i < 2 ^ 32 \<Longrightarrow> j < 2 ^ 32 \<Longrightarrow> (a :: u32) + of_nat i = a + of_nat j \<longleftrightarrow> i = j"
proof
  assume "i < 2 ^ 32" "j < 2 ^ 32" "a + of_nat i = a + of_nat j"
  then have "unat (of_nat i :: u32) = unat (of_nat j :: u32)" by simp
  then show "i = j" using \<open>i < 2 ^ 32\<close> \<open>j < 2 ^ 32\<close> by (simp add: unat_of_nat take_bit_nat_eq_self)
qed simp

lemma bytes_to_shift:
  assumes "bytes_to m a (xs @ ys) e"
  shows "bytes_to m (a + of_nat (length xs)) ys e" "unat (a + of_nat (length xs)) = unat a + length xs"
proof -
  have room: "unat a + length xs < 2 ^ 32" using assms by (simp add: bytes_to_def)
  then have "unat (of_nat (length xs) :: u32) = length xs" by (simp add: unat_of_nat take_bit_nat_eq_self)
  then show u: "unat (a + of_nat (length xs)) = unat a + length xs" using room by (simp add: unat_add_lem [THEN iffD1])
  have "m (a + of_nat (length xs) + of_nat i) = ys ! i" if "i < length ys" for i
  proof -
    have "m (a + of_nat (length xs + i)) = (xs @ ys) ! (length xs + i)" using assms that by (simp add: bytes_to_def del: of_nat_add)
    then show ?thesis by (simp add: add.assoc)
  qed
  then show "bytes_to m (a + of_nat (length xs)) ys e" using assms u by (simp add: bytes_to_def)
qed

lemma skip_zeros_run:
  "bytes_to m a (replicate n 0 @ ys) e \<Longrightarrow> ys = [] \<or> hd ys \<noteq> 0 \<Longrightarrow> skip_zeros m a e = Some (a + of_nat n)"
proof (induction n arbitrary: a)
  case 0
  have "\<not> (m a = 0 \<and> a < e)"
  proof (cases ys)
    case Nil
    then show ?thesis using 0 by (simp add: bytes_to_def word_less_nat_alt)
  next
    case (Cons y zs)
    then have "m (a + of_nat 0) = y" using 0 by (auto simp: bytes_to_def dest!: spec [of _ 0])
    then show ?thesis using 0 Cons by simp
  qed
  then show ?case by (subst skip_zeros.simps) auto
next
  case (Suc n)
  have b: "bytes_to m a ([0] @ (replicate n 0 @ ys)) e" using Suc.prems(1) by simp
  have "m (a + of_nat 0) = 0" using b by (auto simp: bytes_to_def dest!: spec [of _ 0])
  moreover have "a < e" using b by (auto simp: bytes_to_def word_less_nat_alt)
  moreover have "skip_zeros m (a + 1) e = Some (a + 1 + of_nat n)" using bytes_to_shift(1) [OF b] Suc by simp
  ultimately show ?case by (subst skip_zeros.simps) (simp add: add.assoc)
qed

lemma bytes_to_string:
  assumes "bytes_to m a (w @ ys) e" and "0 \<notin> set w" and "ys = [] \<or> hd ys = 0"
  shows "string_at m a w"
proof -
  have "m (a + of_nat (length w)) = 0"
  proof (cases ys)
    case Nil
    then have "a + of_nat (length w) = e" using bytes_to_shift [OF assms(1)] by (simp add: bytes_to_def word_unat_eq_iff)
    then show ?thesis using assms(1) by (simp add: bytes_to_def)
  next
    case (Cons y zs)
    then show ?thesis using assms(1,3) by (auto simp: bytes_to_def nth_append dest!: spec [of _ "length w"])
  qed
  moreover have "m (a + of_nat i) = w ! i" if "i < length w" for i
    using assms(1) that by (auto simp: bytes_to_def nth_append dest!: spec [of _ i])
  ultimately show ?thesis using assms by (simp add: string_at_def bytes_to_def)
qed

text \<open>From any position on, the scan stops at the next token and the statics describe the tokens left.\<close>

lemma advance:
  assumes b: "bytes_to m a zs e" and a: "a \<noteq> 0"
  shows "\<exists>t. skip_zeros m a e = Some t \<and> strtok_at m \<lparr>token = (if t \<ge> e then 0 else t), str_end = e\<rparr> (pieces [] zs)"
proof (cases zs rule: next_word)
  case (1 n)
  then have "skip_zeros m a e = Some (a + of_nat n)" using b skip_zeros_run [of m a n "[]"] by simp
  moreover have "a + of_nat n = e" using bytes_to_shift(2) [of m a "replicate n 0" "[]" e] b 1 by (simp add: bytes_to_def word_unat_eq_iff)
  ultimately show ?thesis using 1 by (simp add: strtok_at_def)
next
  case (2 n w ys)
  let ?t = "a + of_nat n"
  have b1: "bytes_to m a (replicate n 0 @ (w @ ys)) e" using b 2(1) by simp
  have "skip_zeros m a e = Some ?t" using 2(2,3) by (intro skip_zeros_run [OF b1]) (cases w, auto)
  moreover have bt: "bytes_to m ?t (w @ ys) e" and u: "unat ?t = unat a + n" using bytes_to_shift [OF b1] by simp_all
  moreover have "\<not> ?t \<ge> e" using bt 2(2) by (cases w) (auto simp: bytes_to_def word_le_nat_alt)
  moreover have "?t \<noteq> 0" using u a by (auto simp: word_unat_eq_iff)
  moreover have "string_at m ?t w" using bytes_to_string [OF bt 2(3,4)] .
  ultimately show ?thesis using 2(5) by (auto simp: strtok_at_def)
qed

lemma strtok_next:
  assumes "strtok_at m st ts"
  shows "\<exists>st'. strtok 0 delim st m = Some (token st', st', m) \<and> strtok_at m st' (tl ts)"
proof (cases ts)
  case Nil
  then show ?thesis using assms by (simp add: strtok_def strtok_at_def)
next
  case (Cons w ws)
  then obtain zs where t: "token st \<noteq> 0" "string_at m (token st) w" and b: "bytes_to m (token st) (w @ zs) (str_end st)" "pieces [] zs = ws"
    using assms by (auto simp: strtok_at_def)
  let ?t = "token st + (of_nat (length w) + 1)"
  note sl = strlen_at [OF t(2)]
  have nz: "?t \<noteq> 0"
  proof -
    have "unat (token st + of_nat (length w)) = unat (token st) + length w" using bytes_to_shift(2) [OF b(1)] .
    moreover have "unat (token st) + length w + 1 < 2 ^ 32" using b(1) by (simp add: bytes_to_def)
    ultimately have "unat (token st + of_nat (length w) + 1) = unat (token st) + length w + 1" by (simp add: unat_add_lem [THEN iffD1])
    then show ?thesis by (auto simp: add.assoc word_unat_eq_iff)
  qed
  show ?thesis
  proof (cases zs)
    case Nil
    have "token st + of_nat (length w) = str_end st" using bytes_to_shift [OF b(1)] Nil by (simp add: bytes_to_def word_unat_eq_iff)
    then have e: "?t = str_end st + 1" by (simp add: add.assoc [symmetric])
    have "unat (str_end st + 1) = unat (str_end st) + 1" using b(1) by (simp add: bytes_to_def unat_add_lem [THEN iffD1])
    then have "\<not> ?t < str_end st" unfolding e word_less_nat_alt by simp
    then have "skip_zeros m ?t (str_end st) = Some ?t" by (subst skip_zeros.simps) simp
    then show ?thesis using t(1) sl \<open>\<not> ?t < _\<close> b(2) Nil Cons by (simp add: strtok_def strtok_at_def Let_def not_less)
  next
    case (Cons z ys)
    have "z = 0"
    proof -
      have "m (token st + of_nat (length w)) = (w @ zs) ! length w" using b(1) Cons by (simp add: bytes_to_def)
      then show ?thesis using t(2) Cons by (simp add: string_at_def)
    qed
    have "bytes_to m (token st) ((w @ [0]) @ ys) (str_end st)" using b(1) Cons \<open>z = 0\<close> by simp
    from bytes_to_shift(1) [OF this] have "bytes_to m ?t ys (str_end st)" by (simp add: add.commute)
    from advance [OF this nz] obtain t' where "skip_zeros m ?t (str_end st) = Some t'"
      "strtok_at m \<lparr>token = (if t' \<ge> str_end st then 0 else t'), str_end = str_end st\<rparr> (pieces [] ys)" by blast
    moreover have "pieces [] ys = ws" using b(2) Cons \<open>z = 0\<close> by simp
    ultimately show ?thesis using t(1) sl \<open>ts = w # ws\<close>
      by (cases "str_end st \<le> t'") (auto simp: strtok_def strtok_at_def Let_def split: if_splits)
  qed
qed

section \<open>Cutting\<close>

lemma delim_loop_at:
  assumes ds: "string_at m delim ds" "length ds < 256" and a: "\<And>i. i \<le> length ds \<Longrightarrow> a \<noteq> delim + of_nat i" and j: "j \<le> length ds"
  shows "delim_loop a delim (of_nat j) m = Some (if m a \<in> set (drop j ds) then m(a := 0) else m)"
  using assms(1) j
proof (induction "length ds - j" arbitrary: j m)
  case 0
  then have "j = length ds" by simp
  moreover have "(ucast (of_nat (length ds) :: u8) :: u32) = of_nat (length ds)"
    using ds(2) by (simp add: word_unat_eq_iff unsigned_ucast_eq unat_of_nat take_bit_nat_eq_self)
  ultimately show ?case by (subst delim_loop.simps) (simp add: strlen_at [OF 0(2)])
next
  case (Suc n)
  then have jl: "j < length ds" by simp
  have u: "(ucast (of_nat j :: u8) :: u32) = of_nat j"
    using jl ds(2) by (simp add: word_unat_eq_iff unsigned_ucast_eq unat_of_nat take_bit_nat_eq_self)
  have less: "(of_nat j :: u32) < of_nat (length ds)"
    using jl ds(2) by (simp add: word_less_nat_alt unat_of_nat take_bit_nat_eq_self)
  have d: "m (delim + of_nat j) = ds ! j" "ds ! j \<noteq> 0" using string_at_nonzero [OF Suc.prems(1) jl] by simp_all
  let ?m = "if m a = ds ! j then m(a := 0) else m"
  have ne: "delim + of_nat i \<noteq> a" if "i \<le> length ds" for i using a [OF that] by simp
  have "string_at ?m delim ds" using Suc.prems(1) ne by (simp add: string_at_def)
  then have ih: "delim_loop a delim (of_nat (Suc j)) ?m = Some (if ?m a \<in> set (drop (Suc j) ds) then ?m(a := 0) else ?m)"
    using Suc by (intro Suc.hyps(1)) simp_all
  have "delim_loop a delim (of_nat j) m = delim_loop a delim (of_nat (Suc j)) ?m"
    by (subst delim_loop.simps) (simp add: strlen_at [OF Suc.prems(1)] u less d add.commute)
  moreover have "0 \<notin> set ds" using Suc.prems(1) by (simp add: string_at_def)
  ultimately show ?case unfolding ih using jl by (auto simp: Cons_nth_drop_Suc [symmetric] dest: in_set_dropD)
qed

lemma cut_loop_at:
  assumes ds: "length ds < 256" and len: "unat str + length xs < 2 ^ 32"
    and sep: "\<And>i k. i \<le> length ds \<Longrightarrow> k < length xs \<Longrightarrow> str + of_nat k \<noteq> delim + of_nat i"
    and "k \<le> length xs" and "string_at m delim ds"
    and "\<And>i. k \<le> i \<Longrightarrow> i < length xs \<Longrightarrow> m (str + of_nat i) = xs ! i" and "m (str + of_nat (length xs)) = 0" and "0 \<notin> set xs"
  shows "\<exists>m'. cut_loop str delim (of_nat k) m = Some m' \<and> (\<forall>i. k \<le> i \<and> i < length xs \<longrightarrow> m' (str + of_nat i) = cut ds xs ! i)
    \<and> (\<forall>x. (\<forall>i. k \<le> i \<and> i < length xs \<longrightarrow> x \<noteq> str + of_nat i) \<longrightarrow> m' x = m x)"
  using assms(4-7)
proof (induction "length xs - k" arbitrary: k m)
  case 0
  then show ?case by (subst cut_loop.simps) auto
next
  case (Suc n)
  then have k: "k < length xs" by simp
  let ?a = "str + of_nat k" and ?c = "cut ds xs ! k"
  have c: "m ?a = xs ! k" "xs ! k \<noteq> 0" using Suc.prems(3) [of k] k assms(8) by (auto dest: nth_mem)
  define m1 where "m1 = (if m ?a \<in> set ds then m(?a := 0) else m)"
  have "delim_loop ?a delim (of_nat 0) m = Some m1"
    unfolding m1_def using sep k by (subst delim_loop_at [OF Suc.prems(2) ds]) auto
  then have run: "cut_loop str delim (of_nat k) m = cut_loop str delim (of_nat (Suc k)) m1"
    using c by (subst cut_loop.simps) (simp add: add.commute)
  have ne: "?a \<noteq> str + of_nat i" if "i \<noteq> k" "i \<le> length xs" for i using that k len offset_eq_iff [of k i str] by auto
  have "delim + of_nat i \<noteq> ?a" if "i \<le> length ds" for i using sep [OF that k] by simp
  then have "string_at m1 delim ds" using Suc.prems(2) by (simp add: string_at_def m1_def)
  moreover have n: "n = length xs - Suc k" using Suc.hyps(2) by simp
  moreover have "m1 (str + of_nat (length xs)) = 0" using ne [of "length xs"] k Suc.prems(4) by (auto simp: m1_def)
  moreover have "m1 (str + of_nat i) = xs ! i" if "Suc k \<le> i" "i < length xs" for i using ne [of i] that Suc.prems(3) [of i] by (auto simp: m1_def)
  ultimately obtain m' where m': "cut_loop str delim (of_nat (Suc k)) m1 = Some m'"
    "\<And>i. Suc k \<le> i \<Longrightarrow> i < length xs \<Longrightarrow> m' (str + of_nat i) = cut ds xs ! i"
    "\<And>x. (\<And>i. Suc k \<le> i \<Longrightarrow> i < length xs \<Longrightarrow> x \<noteq> str + of_nat i) \<Longrightarrow> m' x = m1 x"
    using Suc.hyps(1) [OF n, of m1] k by (auto simp del: of_nat_Suc)
  have "m' ?a = ?c" using m'(3) [of ?a] ne k c by (auto simp: cut_def m1_def)
  then have "m' (str + of_nat i) = cut ds xs ! i" if "k \<le> i" "i < length xs" for i
    using m'(2) [of i] that by (cases "i = k") auto
  moreover have "m' x = m x" if "\<And>i. k \<le> i \<Longrightarrow> i < length xs \<Longrightarrow> x \<noteq> str + of_nat i" for x
    using m'(3) [of x] that [of k] that k by (auto simp: m1_def)
  ultimately show ?case using run m'(1) by auto
qed

lemma strtok_first:
  assumes x: "string_at m str xs" "str \<noteq> 0" "unat str + length xs + 1 < 2 ^ 32" and ds: "string_at m delim ds" "length ds < 256"
    and sep: "\<And>i k. i \<le> length ds \<Longrightarrow> k < length xs \<Longrightarrow> str + of_nat k \<noteq> delim + of_nat i"
  shows "\<exists>st' m'. strtok str delim st m = Some (token st', st', m') \<and> strtok_at m' st' (tokens ds xs)
    \<and> (\<forall>a. (\<forall>i < length xs. a \<noteq> str + of_nat i) \<longrightarrow> m' a = m a)"
proof -
  let ?e = "str + of_nat (length xs)"
  have "\<exists>m'. cut_loop str delim (of_nat 0) m = Some m' \<and> (\<forall>i. 0 \<le> i \<and> i < length xs \<longrightarrow> m' (str + of_nat i) = cut ds xs ! i)
    \<and> (\<forall>x. (\<forall>i. 0 \<le> i \<and> i < length xs \<longrightarrow> x \<noteq> str + of_nat i) \<longrightarrow> m' x = m x)"
    using x sep by (intro cut_loop_at [OF ds(2) _ _ _ ds(1)]) (auto simp: string_at_def)
  then obtain m' where m': "cut_loop str delim (of_nat 0) m = Some m'" "\<And>i. i < length xs \<Longrightarrow> m' (str + of_nat i) = cut ds xs ! i"
    "\<And>a. (\<And>i. i < length xs \<Longrightarrow> a \<noteq> str + of_nat i) \<Longrightarrow> m' a = m a" by auto
  have u: "unat ?e = unat str + length xs"
    using x(3) by (subst unat_add_lem [THEN iffD1]) (simp_all add: unat_of_nat take_bit_nat_eq_self)
  have "m' ?e = 0" using m'(3) [of ?e] x offset_eq_iff [of "length xs" _ str] by (auto simp: string_at_def)
  then have "bytes_to m' str (cut ds xs) ?e" using m'(2) u x(3) by (simp add: bytes_to_def cut_def)
  from advance [OF this x(2)] obtain t where "skip_zeros m' str ?e = Some t"
    "strtok_at m' \<lparr>token = (if t \<ge> ?e then 0 else t), str_end = ?e\<rparr> (tokens ds xs)" by (auto simp: tokens_def)
  then show ?thesis using m'(1,3) strlen_at [OF x(1)] x(2)
    by (intro exI [of _ "\<lparr>token = (if t \<ge> ?e then 0 else t), str_end = ?e\<rparr>"] exI [of _ m']) (auto simp: strtok_def Let_def)
qed

text \<open>
  C16. \<^verbatim>\<open>strtok\<close> splits a string at its delimiters: the first call returns the first token (\<^verbatim>\<open>NULL\<close> when there
  is none) as a C string and changes only bytes of the string, and whenever tokens are left a call with
  \<^verbatim>\<open>NULL\<close> moves to the next one, until it returns \<^verbatim>\<open>NULL\<close>. Empty tokens are skipped.
\<close>

theorem strtok_splits:
  assumes "string_at m str xs" "str \<noteq> 0" "unat str + length xs + 1 < 2 ^ 32" and "string_at m delim ds" "length ds < 256"
    and "\<And>i k. i \<le> length ds \<Longrightarrow> k < length xs \<Longrightarrow> str + of_nat k \<noteq> delim + of_nat i"
  shows "\<exists>st' m'. strtok str delim st m = Some (token st', st', m') \<and> strtok_at m' st' (tokens ds xs)
    \<and> (\<forall>a. (\<forall>i < length xs. a \<noteq> str + of_nat i) \<longrightarrow> m' a = m a)
    \<and> (\<forall>n now ts. strtok_at n now ts \<longrightarrow> (\<exists>later. strtok 0 delim now n = Some (token later, later, n) \<and> strtok_at n later (tl ts)))"
  using strtok_first [OF assms] strtok_next by blast

theorem strtok_splits_witness:
  "\<exists>st' m'. strtok 0x100 0x200 \<lparr>token = 0, str_end = 0\<rparr> sample_path = Some (token st', st', m') \<and> strtok_at m' st' [[0x61], [0x62]]"
proof -
  have p: "string_at sample_path 0x100 [0x2f, 0x61, 0x2f, 0x62]" "string_at sample_path 0x200 [0x2f]"
    by (simp_all add: string_at_def sample_path_def less_Suc_eq)
  have sep: "(0x100 :: u32) + of_nat k \<noteq> 0x200 + of_nat i" if "i \<le> length [0x2f :: u8]" "k < length [0x2f, 0x61, 0x2f, 0x62 :: u8]" for i k
    using that by (auto simp: less_Suc_eq le_Suc_eq)
  have "tokens [0x2f] [0x2f, 0x61, 0x2f, 0x62] = [[0x61], [0x62]]" by (simp add: tokens_def cut_def)
  with strtok_splits [OF p(1) _ _ p(2) _ sep, of "\<lparr>token = 0, str_end = 0\<rparr>"] show ?thesis by auto
qed

end
