(* ===== verification/Text_Screen.thy ===== *)
theory Text_Screen
  imports Prelude
begin

text \<open>
  The hardware cursor both kernels drive: \<^verbatim>\<open>setcursor\<close> and \<^verbatim>\<open>getcursor\<close> of
  \<^verbatim>\<open>titorOS/kernel/screen.c\<close> and of \<^verbatim>\<open>barrelOS/drivers/screen.c\<close>, on the index/data register pair of
  the CRT controller (ports \<open>0x3d4\<close> and \<open>0x3d5\<close>, registers 14 and 15). The locale
  \<open>cursor_device\<close> is what the printing code relies on; it is interpreted for both kernels.
\<close>

section \<open>The device\<close>

record crtc =
  crtc_index :: u8
  crtc_reg :: "u8 \<Rightarrow> u8"

definition crtc_out :: "u16 \<Rightarrow> u8 \<Rightarrow> crtc \<Rightarrow> crtc" where
  "crtc_out port data d =
     (if port = 0x3d4 then d\<lparr>crtc_index := data\<rparr>
      else if port = 0x3d5 then d\<lparr>crtc_reg := (crtc_reg d)(crtc_index d := data)\<rparr> else d)"

definition crtc_in :: "u16 \<Rightarrow> crtc \<Rightarrow> u8" where
  "crtc_in port d = (if port = 0x3d5 then crtc_reg d (crtc_index d) else 0xFF)"

section \<open>Cursor operations\<close>

definition setcursor :: "u16 \<Rightarrow> crtc \<Rightarrow> crtc" where
  "setcursor position d =
     (let hi = ucast (drop_bit 8 position AND 0xFF) :: u8;
          lo = ucast (position AND 0xFF) :: u8;
          d = crtc_out 0x3d4 14 d;
          d = crtc_out 0x3d5 hi d;
          d = crtc_out 0x3d4 15 d
      in crtc_out 0x3d5 lo d)"

text \<open>TitorOS computes \<^verbatim>\<open>(hi << 8) + lo\<close>, BarrelOS \<^verbatim>\<open>hi*256 + lo\<close>.\<close>

definition titor_getcursor :: "crtc \<Rightarrow> u16 \<times> crtc" where
  "titor_getcursor d =
     (let d = crtc_out 0x3d4 14 d;
          hi = crtc_in 0x3d5 d;
          d = crtc_out 0x3d4 15 d;
          lo = crtc_in 0x3d5 d
      in (push_bit 8 (ucast hi) + ucast lo, d))"

definition barrel_getcursor :: "crtc \<Rightarrow> u16 \<times> crtc" where
  "barrel_getcursor d =
     (let d = crtc_out 0x3d4 14 d;
          hi = crtc_in 0x3d5 d;
          d = crtc_out 0x3d4 15 d;
          lo = crtc_in 0x3d5 d
      in (ucast hi * 256 + ucast lo, d))"

section \<open>The contract\<close>

text \<open>
  A device with a position: reading gives what was last written and does not disturb it. The
  client is the idiom of the printing loops, which read the position several times and write it
  back.
\<close>

locale cursor_device =
  fixes put :: "u16 \<Rightarrow> 'd \<Rightarrow> 'd"
    and get :: "'d \<Rightarrow> u16 \<times> 'd"
  assumes get_put: "fst (get (put p d)) = p"
    and get_get: "fst (get (snd (get d))) = fst (get d)"
begin

text \<open>\<^verbatim>\<open>setcursor(getcursor() + (80 - getcursor()%80))\<close>\<close>

lemma newline_position:
  "(let (p, d) = get d; (q, d) = get d; d = put (p + (80 - q mod 80)) d in fst (get d))
    = fst (get d) + (80 - fst (get d) mod 80)"
  by (simp add: Let_def split_beta get_put get_get)

text \<open>\<^verbatim>\<open>setcursor(getcursor() + 1)\<close> after the character was stored at \<^verbatim>\<open>getcursor()\<close>.\<close>

lemma advance_position:
  "(let (p, d) = get d; (q, d) = get d; d = put (q + 1) d in (p, fst (get d)))
    = (fst (get d), fst (get d) + 1)"
  by (simp add: Let_def split_beta get_put get_get)

end

section \<open>Both kernels meet it\<close>

lemma cursor_bytes:
  fixes p :: u16
  shows "ucast (ucast (drop_bit 8 p AND 0xFF) :: u8) * 256 + ucast (ucast (p AND 0xFF) :: u8) = p"
proof -
  have hi: "unat (ucast (ucast (drop_bit 8 p AND 0xFF) :: u8) :: u16) = unat p div 256"
    and lo: "unat (ucast (ucast (p AND 0xFF) :: u8) :: u16) = unat p mod 256"
  proof -
    have m: "unat (x AND 0xFF) = unat x mod 256" for x :: u16
      using unat_and_mask [of x 8] by (simp add: mask_numeral)
    have "unat p div 256 < 256" using unat_u16_less [of p] by (simp add: div_less_iff_less_mult)
    then show "unat (ucast (ucast (drop_bit 8 p AND 0xFF) :: u8) :: u16) = unat p div 256"
      by (simp add: unsigned_ucast_eq take_bit_eq_mod unat_mod m unat_drop_bit)
    show "unat (ucast (ucast (p AND 0xFF) :: u8) :: u16) = unat p mod 256"
      by (simp add: unsigned_ucast_eq take_bit_eq_mod unat_mod m)
  qed
  have "unat p div 256 < 256" using unat_u16_less [of p] by (simp add: div_less_iff_less_mult)
  then show ?thesis
    by (simp add: word_unat_eq_iff unat_word_ariths hi lo)
qed

lemma getcursor_same: "titor_getcursor d = barrel_getcursor d"
  by (simp add: titor_getcursor_def barrel_getcursor_def Let_def push_bit_eq_mult)

interpretation barrel_cursor: cursor_device setcursor barrel_getcursor
  by unfold_locales
     (simp_all add: setcursor_def barrel_getcursor_def Let_def crtc_out_def crtc_in_def cursor_bytes)

interpretation titor_cursor: cursor_device setcursor titor_getcursor
  unfolding getcursor_same by unfold_locales (simp_all add: getcursor_same barrel_cursor.get_put barrel_cursor.get_get)

end
