(* ===== verification/Titor_Kernel.thy ===== *)
theory Titor_Kernel
  imports Text_Screen
begin

text \<open>
  The TitorOS kernel proper (\<^verbatim>\<open>titorOS/kernel/\<close>): the text screen (\<^verbatim>\<open>screen.c\<close>), the first part of its
  physical memory manager (\<^verbatim>\<open>pmm.c\<close>) and \<^verbatim>\<open>kernel()\<close>. Video memory is part of the byte memory, two
  bytes per cell at \<open>0xb8000\<close>. A string argument is the list of its characters before the
  terminator.
\<close>

section \<open>State\<close>

record boot_info_t =
  bi_memtable :: u32
  bi_entries :: u32
  bi_kaddr :: u32
  bi_ksize :: u32

record tkernel =
  crt :: crtc
  tmem :: "64 mem"
  total :: u64
  tfree :: u64
  regions :: u64

abbreviation (input) vidmem :: u64 where "vidmem \<equiv> 0xb8000"

section \<open>Screen\<close>

definition setcolor :: "u8 \<Rightarrow> tkernel \<Rightarrow> tkernel" where
  "setcolor color s =
     s\<lparr>tmem := fold (\<lambda>i m. m(vidmem + 2 * of_nat i + 1 := color)) [0..<80 * 25] (tmem s)\<rparr>"

definition clearscreen :: "tkernel \<Rightarrow> tkernel" where
  "clearscreen s =
     (let s = s\<lparr>tmem := fold (\<lambda>i m. m(vidmem + 2 * of_nat i := 0x20)) [0..<80 * 25] (tmem s)\<rparr>
      in s\<lparr>crt := setcursor 0 (crt s)\<rparr>)"

definition print_char :: "u8 \<Rightarrow> tkernel \<Rightarrow> tkernel" where
  "print_char c s =
     (if c = 0x0A
      then let (p, d) = titor_getcursor (crt s); (q, d) = titor_getcursor d
           in s\<lparr>crt := setcursor (p + (80 - q mod 80)) d\<rparr>
      else let (p, d) = titor_getcursor (crt s);
               m = (tmem s)(vidmem + 2 * ucast p := c);
               (q, d) = titor_getcursor d
           in s\<lparr>tmem := m, crt := setcursor (q + 1) d\<rparr>)"

fun print :: "u8 list \<Rightarrow> tkernel \<Rightarrow> tkernel" where
  "print [] s = s"
| "print (c # cs) s = print cs (print_char c s)"

text \<open>Digit \<open>i\<close> of the sixteen, from the left.\<close>

definition hex_digit :: "u64 \<Rightarrow> nat \<Rightarrow> u8" where
  "hex_digit hex i =
     (let c = ucast (drop_bit (4 * (15 - i)) hex AND 0x0f) :: u8
      in if c < 0xa then c + 48 else c + 55)"

definition printhex :: "u64 \<Rightarrow> tkernel \<Rightarrow> tkernel" where
  "printhex hex s = fold (\<lambda>i. print [hex_digit hex i]) [0..<16] (print [0x30, 0x78] s)"

section \<open>Physical memory manager\<close>

text \<open>One round of the loop of \<^verbatim>\<open>init_pmm\<close>, for the 24-byte table entry at \<open>e\<close>.\<close>

definition list_entry :: "u64 \<Rightarrow> tkernel \<Rightarrow> tkernel" where
  "list_entry e s =
     (let s = s\<lparr>total := total s + load64 (tmem s) (e + 8)\<rparr>;
          s = print (ascii ''entry:'' @ [0x0A]) s;
          s = printhex (load64 (tmem s) e) s;
          s = print (ascii ''-'') s;
          s = printhex (load64 (tmem s) (e + 8)) s;
          s = print (ascii ''-'') s;
          s = printhex (ucast (load32 (tmem s) (e + 16))) s;
          s = print (ascii ''-'') s;
          s = printhex (ucast (load32 (tmem s) (e + 20))) s
      in print [0x0A] s)"

function list_entries :: "u64 \<Rightarrow> u32 \<Rightarrow> u32 \<Rightarrow> tkernel \<Rightarrow> tkernel" where
  "list_entries tab i n s =
     (if i < n then list_entries tab (i + 1) n (list_entry (tab + 24 * ucast i) s) else s)"
  by pat_completeness auto
termination
  by (relation "measure (\<lambda>(tab, i, n, s). unat n - unat i)") (simp_all add: counter_decreases)

declare list_entries.simps [simp del]

definition init_pmm :: "u32 \<Rightarrow> u32 \<Rightarrow> tkernel \<Rightarrow> tkernel" where
  "init_pmm memtable_addr entries s =
     (let s = s\<lparr>total := 0, tfree := 0\<rparr>;
          s = s\<lparr>regions := ucast entries\<rparr>;
          s = list_entries (ucast memtable_addr) 0 entries s;
          s = print (ascii ''total: '') s
      in printhex (total s) s)"

section \<open>Kernel entry\<close>

definition kernel :: "boot_info_t \<Rightarrow> tkernel \<Rightarrow> tkernel" where
  "kernel boot_table s =
     (let s = clearscreen s;
          s = setcolor 0x60 s;
          s = print (ascii ''Boot Table'' @ [0x0A]) s;
          s = print (0x0A # ascii ''Memory map location: '') s;
          s = printhex (ucast (bi_memtable boot_table)) s;
          s = print (0x0A # ascii ''Memory map entries: '') s;
          s = printhex (ucast (bi_entries boot_table)) s;
          s = print (0x0A # ascii ''Kernel address: '') s;
          s = printhex (ucast (bi_kaddr boot_table)) s;
          s = print (0x0A # ascii ''Kernel size: '') s;
          s = printhex (ucast (bi_ksize boot_table)) s;
          s = print [0x0A, 0x0A] s
      in init_pmm (bi_memtable boot_table) (bi_entries boot_table) s)"

section \<open>Specification\<close>

text \<open>The screen a print sees: cursor position and character per cell.\<close>

definition tcursor :: "tkernel \<Rightarrow> nat" where
  "tcursor s = unat (fst (titor_getcursor (crt s)))"

definition cell_char :: "tkernel \<Rightarrow> nat \<Rightarrow> u8" where
  "cell_char s i = tmem s (vidmem + 2 * of_nat i)"

fun put :: "nat \<times> (nat \<Rightarrow> u8) \<Rightarrow> u8 \<Rightarrow> nat \<times> (nat \<Rightarrow> u8)" where
  "put (p, cells) c = (if c = 0x0A then (p + (80 - p mod 80), cells) else (p + 1, cells(p := c)))"

definition view :: "tkernel \<Rightarrow> nat \<times> (nat \<Rightarrow> u8)" where
  "view s = (tcursor s, \<lambda>i. if i < 65536 then cell_char s i else 0)"

text \<open>Reading a digit back.\<close>

definition digit_value :: "u8 \<Rightarrow> nat" where
  "digit_value c = (if unat c < 58 then unat c - 48 else unat c - 55)"

section \<open>Specification\<close>

definition blank_kernel :: tkernel where
  "blank_kernel = \<lparr>crt = setcursor 160 \<lparr>crtc_index = 0, crtc_reg = (\<lambda>_. 0)\<rparr>, tmem = (\<lambda>x. if x = 0x20008 then 0x10 else if x = 0x20021 then 0x20 else 0),
     total = 7, tfree = 7, regions = 7\<rparr>"

section \<open>Printing\<close>

lemma cell_addr_eq_iff:
  assumes "i < 65536" and "j < 65536"
  shows "(0xb8000 + 2 * of_nat i :: u64) = 0xb8000 + 2 * of_nat j \<longleftrightarrow> i = j"
proof
  assume "(0xb8000 + 2 * of_nat i :: u64) = 0xb8000 + 2 * of_nat j"
  then have "unat (2 * of_nat i :: u64) = unat (2 * of_nat j :: u64)" by simp
  moreover have "unat (2 * of_nat k :: u64) = 2 * k" if "k < 65536" for k
    using that by (simp add: unat_word_ariths unat_of_nat take_bit_eq_mod)
  ultimately show "i = j" using assms by simp
qed simp

lemma ucast_cursor: "(ucast (p :: u16) :: u64) = of_nat (unat p)"
  by simp

lemma get_cursor: "fst (titor_getcursor d) = q \<Longrightarrow> titor_getcursor d = (q, snd (titor_getcursor d))"
  by (cases "titor_getcursor d") simp

lemma cell_char_crt [simp]: "cell_char (s\<lparr>crt := d\<rparr>) = cell_char s"
  by (simp add: cell_char_def fun_eq_iff)

lemma print_char_view:
  assumes "tcursor s + 80 < 65536"
  shows "view (print_char c s) = put (view s) c"
proof -
  define p where "p = fst (titor_getcursor (crt s))"
  have p: "unat p + 80 < 65536" using assms by (simp add: tcursor_def p_def)
  show ?thesis
  proof (cases "c = 0x0A")
    case True
    have "unat (p mod 80) = unat p mod 80" by (simp add: unat_mod)
    moreover have "unat p mod 80 < 80" by simp
    ultimately have "unat (80 - p mod 80) = 80 - unat p mod 80"
      by (subst unat_sub) (simp_all add: word_le_nat_alt)
    then have "unat (p + (80 - p mod 80)) = unat p + (80 - unat p mod 80)"
      using p by (subst unat_add_lem [THEN iffD1]) auto
    then show ?thesis
      using True by (simp add: print_char_def view_def tcursor_def split_beta
          titor_cursor.get_put titor_cursor.get_get p_def cong: if_cong)
  next
    case False
    have one: "unat (p + 1) = unat p + 1" using p by (subst unat_add_lem [THEN iffD1]) auto
    have "tcursor (print_char c s) = tcursor s + 1"
      using False one by (simp add: print_char_def tcursor_def split_beta titor_cursor.get_put titor_cursor.get_get p_def)
    moreover have "cell_char (print_char c s) i = (if i = tcursor s then c else cell_char s i)" if "i < 65536" for i
      using False that cell_addr_eq_iff [OF that, of "unat p"] p
      by (auto simp: print_char_def cell_char_def split_beta tcursor_def p_def)
    ultimately show ?thesis
      using False assms by (auto simp: view_def fun_eq_iff)
  qed
qed

lemma put_advance: "fst (put v c) \<le> fst v + 80"
  by (cases v) simp

lemma print_view: "tcursor s + 80 * length xs < 65536 \<Longrightarrow> view (print xs s) = foldl put (view s) xs"
proof (induction xs arbitrary: s)
  case (Cons c cs)
  have v: "view (print_char c s) = put (view s) c" using Cons.prems by (intro print_char_view) simp
  have "tcursor (print_char c s) \<le> tcursor s + 80"
    using put_advance [of "view s" c] unfolding v [symmetric] by (simp add: view_def)
  then show ?case using Cons.IH [of "print_char c s"] Cons.prems v by simp
qed simp

lemma print_append: "print (xs @ ys) s = print ys (print xs s)"
  by (induction xs arbitrary: s) simp_all

lemma print_digits: "fold (\<lambda>i. print [d i]) is s = print (map d is) s"
  by (induction "is" arbitrary: s) simp_all

lemma printhex_eq: "printhex h s = print ([0x30, 0x78] @ map (hex_digit h) [0..<16]) s"
  by (simp only: printhex_def print_digits print_append)

section \<open>Hexadecimal digits\<close>

lemma digit_value_hex:
  assumes "i < 16"
  shows "digit_value (hex_digit h i) = unat h div 16 ^ (15 - i) mod 16"
proof -
  define n where "n = unat h div 16 ^ (15 - i) mod 16"
  have n: "n < 16" by (simp add: n_def)
  have "unat (drop_bit (4 * (15 - i)) h AND 0x0f) = n"
    using unat_and_mask [of "drop_bit (4 * (15 - i)) h" 4] by (simp add: mask_numeral unat_drop_bit n_def power_mult)
  then have c: "unat (ucast (drop_bit (4 * (15 - i)) h AND 0x0f) :: u8) = n"
    using n by (simp add: unsigned_ucast_eq take_bit_nat_eq_self)
  have "ucast (drop_bit (4 * (15 - i)) h AND 0x0f) = (of_nat n :: u8)" using c by (metis of_nat_unat ucast_id)
  moreover have "unat (of_nat n + 48 :: u8) = n + 48" "unat (of_nat n + 55 :: u8) = n + 55"
    using n by (simp_all add: unat_word_ariths unat_of_nat take_bit_eq_mod)
  moreover have "(of_nat n :: u8) < 0xa \<longleftrightarrow> n < 10"
    using n by (simp add: word_less_nat_alt unat_of_nat take_bit_nat_eq_self)
  ultimately show ?thesis using n by (auto simp: digit_value_def hex_digit_def Let_def n_def [symmetric])
qed

lemma digits_prefix:
  fixes n :: nat
  shows "j \<le> k \<Longrightarrow> foldl (\<lambda>a i. 16 * a + n div 16 ^ (k - 1 - i) mod 16) 0 [0..<j] = n div 16 ^ (k - j) mod 16 ^ j"
proof (induction j)
  case (Suc j)
  let ?N = "n div 16 ^ (k - Suc j)"
  have "k - j = Suc (k - Suc j)" using Suc.prems by simp
  then have "n div 16 ^ (k - j) = ?N div 16" by (simp only: power_Suc2 div_mult2_eq)
  then show ?case
    using Suc mod_mult2_eq [of ?N 16 "16 ^ j"] by simp
qed simp

lemma hex_roundtrip: "foldl (\<lambda>a c. 16 * a + digit_value c) 0 (map (hex_digit h) [0..<16]) = unat h"
proof -
  have "foldl (\<lambda>a c. 16 * a + digit_value c) 0 (map (hex_digit h) [0..<16])
      = foldl (\<lambda>a i. 16 * a + digit_value (hex_digit h i)) 0 [0..<16]" by (simp add: foldl_map)
  also have "\<dots> = foldl (\<lambda>a i. 16 * a + unat h div 16 ^ (16 - 1 - i) mod 16) 0 [0..<16]"
    by (rule foldl_cong) (simp_all add: digit_value_hex)
  also have "\<dots> = unat h mod 16 ^ 16" by (subst digits_prefix) simp_all
  also have "\<dots> = unat h" using unat_u64_less [of h] by simp
  finally show ?thesis .
qed

section \<open>The memory table\<close>

lemma print_char_frame: "unat x < 0xb8000 \<Longrightarrow> tmem (print_char c s) x = tmem s x \<and> total (print_char c s) = total s
    \<and> regions (print_char c s) = regions s"
proof -
  assume x: "unat x < 0xb8000"
  have "x \<noteq> 0xb8000 + 2 * ucast (p :: u16)" for p
  proof -
    have "unat (2 * ucast p :: u64) = 2 * unat p"
      using unat_u16_less [of p] by (simp add: unat_word_ariths unsigned_ucast_eq take_bit_eq_mod)
    then have "unat (0xb8000 + 2 * ucast p :: u64) = 0xb8000 + 2 * unat p"
      using unat_u16_less [of p] by (subst unat_add_lem [THEN iffD1]) auto
    with x show ?thesis by auto
  qed
  then show ?thesis by (simp add: print_char_def split_beta Let_def)
qed

lemma print_frame:
  "unat x < 0xb8000 \<Longrightarrow> tmem (print xs s) x = tmem s x" "total (print xs s) = total s" "regions (print xs s) = regions s"
  by (induction xs arbitrary: s) (simp_all add: print_char_frame print_char_frame [of 0])

lemma printhex_frame:
  "unat x < 0xb8000 \<Longrightarrow> tmem (printhex h s) x = tmem s x" "total (printhex h s) = total s" "regions (printhex h s) = regions s"
  by (simp_all only: printhex_eq print_frame)

lemma load64_low:
  fixes a :: u64
  assumes "unat a + 8 \<le> 0xb8000" and "\<And>x. unat x < 0xb8000 \<Longrightarrow> m' x = m x"
  shows "load64 m' a = load64 m a"
proof (rule load64_local)
  fix i :: nat assume "i < 8"
  then have "unat (a + of_nat i) = unat a + i"
    using assms(1) by (simp add: unat_word_ariths unat_of_nat take_bit_eq_mod)
  then show "m' (a + of_nat i) = m (a + of_nat i)" using assms \<open>i < 8\<close> by simp
qed


lemma list_entry_frame:
  "unat x < 0xb8000 \<Longrightarrow> tmem (list_entry e s) x = tmem s x"
  "total (list_entry e s) = total s + load64 (tmem s) (e + 8)" "regions (list_entry e s) = regions s"
  by (simp_all add: list_entry_def Let_def print_frame printhex_frame del: print.simps)

lemma list_entries_total:
  assumes "i \<le> n" and "unat tab + 24 * unat n \<le> 0xb8000"
  shows "total (list_entries tab i n s) =
      total s + sum_list (map (\<lambda>k. load64 (tmem s) (tab + 24 * of_nat k + 8)) [unat i..<unat n])
    \<and> regions (list_entries tab i n s) = regions s"
  using assms
proof (induction tab i n s rule: list_entries.induct)
  case (1 tab i n s)
  show ?case
  proof (cases "i < n")
    case True
    let ?s = "list_entry (tab + 24 * ucast i) s"
    have inc: "unat (i + 1) = Suc (unat i)" and lt: "unat i < unat n" using True by (simp_all add: unat_inc word_less_nat_alt)
    have low: "load64 (tmem ?s) (tab + 24 * of_nat k + 8) = load64 (tmem s) (tab + 24 * of_nat k + 8)" if "k < unat n" for k
    proof -
      have "unat (24 * of_nat k + 8 :: u64) = 24 * k + 8"
        using that "1.prems"(2) by (simp add: unat_word_ariths unat_of_nat take_bit_eq_mod)
      then have "unat (tab + (24 * of_nat k + 8)) = unat tab + (24 * k + 8)"
        using that "1.prems"(2) by (subst unat_add_lem [THEN iffD1]) auto
      then show ?thesis using that "1.prems"(2)
        by (intro load64_low) (simp_all add: add.assoc list_entry_frame)
    qed
    have "total (list_entries tab i n s) = total (list_entries tab (i + 1) n ?s) \<and>
        regions (list_entries tab i n s) = regions (list_entries tab (i + 1) n ?s)"
      using True by (subst (1 3) list_entries.simps) simp
    moreover have "map (\<lambda>k. load64 (tmem ?s) (tab + 24 * of_nat k + 8)) [unat (i + 1)..<unat n]
        = map (\<lambda>k. load64 (tmem s) (tab + 24 * of_nat k + 8)) [Suc (unat i)..<unat n]"
      using low by (simp add: inc)
    moreover have "[unat i..<unat n] = unat i # [Suc (unat i)..<unat n]" using lt by (rule upt_conv_Cons)
    moreover have "i + 1 \<le> n" using lt inc by (simp add: word_le_nat_alt)
    ultimately show ?thesis
      using "1.IH" [OF True _ "1.prems"(2)] by (simp add: list_entry_frame add.assoc)
  next
    case False
    then show ?thesis using "1.prems" by (subst (1 2) list_entries.simps) (simp add: word_le_nat_alt word_less_nat_alt)
  qed
qed

section \<open>Properties\<close>

text \<open>
  Printing a number: \<^verbatim>\<open>printhex\<close> puts \<^verbatim>\<open>0x\<close> and sixteen digits on the screen at the cursor, as the
  screen's put does character by character, and the digits read back as the number.
\<close>

theorem printhex_displays:
  assumes "tcursor s + 80 * 18 < 65536"
  shows "\<exists>ds. view (printhex h s) = foldl put (view s) (0x30 # 0x78 # ds) \<and> length ds = 16
    \<and> foldl (\<lambda>a c. 16 * a + digit_value c) 0 ds = unat h"
proof -
  have "view (printhex h s) = foldl put (view s) ([0x30, 0x78] @ map (hex_digit h) [0..<16])"
    unfolding printhex_eq using assms by (intro print_view) simp
  then show ?thesis using hex_roundtrip [of h] by (intro exI [of _ "map (hex_digit h) [0..<16]"]) simp
qed

lemma blank_cursor: "tcursor blank_kernel = 160"
  by (simp add: tcursor_def blank_kernel_def titor_cursor.get_put)

theorem printhex_displays_witness:
  "\<exists>ds. view (printhex 0xb8000 blank_kernel) = foldl put (view blank_kernel) (0x30 # 0x78 # ds)
    \<and> foldl (\<lambda>a c. 16 * a + digit_value c) 0 ds = 0xb8000"
proof -
  have "tcursor blank_kernel + 80 * 18 < 65536" by (simp add: blank_cursor)
  from printhex_displays [OF this, of "0xb8000"] show ?thesis by auto
qed

text \<open>
  \<^verbatim>\<open>init_pmm\<close> counts the memory of every entry of the boot loader's table (the sum wraps at
  64 bits) and records the number of entries, whatever it prints in between, when the table lies below
  video memory.
\<close>

theorem init_pmm_counts:
  assumes "unat tab + 24 * unat n \<le> 0xb8000"
  shows "total (init_pmm tab n s) = sum_list (map (\<lambda>k. load64 (tmem s) (ucast tab + 24 * of_nat k + 8)) [0..<unat n])
    \<and> regions (init_pmm tab n s) = ucast n"
  using list_entries_total [of 0 n "ucast tab" "s\<lparr>total := 0, tfree := 0, regions := ucast n\<rparr>"] assms
  by (simp add: init_pmm_def Let_def print_frame printhex_frame del: print.simps)

lemma blank_sizes: "load64 (tmem blank_kernel) 0x20008 = 0x10" "load64 (tmem blank_kernel) 0x20020 = 0x2000"
  by (simp_all add: blank_kernel_def load64_def load32_def)

theorem init_pmm_counts_witness: "total (init_pmm 0x20000 2 blank_kernel) = 0x2010"
proof -
  have "unat (0x20000 :: u32) + 24 * unat (2 :: u32) \<le> 0xb8000" by simp
  moreover have "[0..<unat (2 :: u32)] = [0, 1]" by (simp add: upt_rec)
  ultimately show ?thesis using init_pmm_counts [of "0x20000" 2 blank_kernel] by (simp add: blank_sizes)
qed

end
