(* ===== verification/Console.thy ===== *)
theory Console
  imports Text_Screen Scheduler
begin

text \<open>
  The text console of BarrelOS (\<^verbatim>\<open>barrelOS/drivers/screen.c\<close>): printing with scrolling, and the line
  buffer with its queue of waiting readers. Kernel virtual memory is a byte memory here (all
  pages concerned are mapped); \<open>scratch\<close> is the heap page \<^verbatim>\<open>kmalloc\<close> gives \<^verbatim>\<open>mem_copy\<close> for its
  buffer. The guard of \<^verbatim>\<open>mem_copy\<close> never fires here: the counts are at most 4000.
\<close>

section \<open>State\<close>

record console =
  ccrt :: crtc
  kmem :: "32 mem"
  screencolor :: u8
  framecopy :: u32
  scratch :: u32
  buf_start :: u32
  buf_length :: u8
  buffered :: u8
  queue_head :: u32
  queue_tail :: u32

abbreviation (input) VID_MEM_BASE :: u32 where "VID_MEM_BASE \<equiv> 0xc00b8000"

section \<open>Printing\<close>

definition setpixel :: "u16 \<Rightarrow> u8 \<Rightarrow> u8 \<Rightarrow> console \<Rightarrow> console" where
  "setpixel index character color s =
     s\<lparr>kmem := (kmem s)(VID_MEM_BASE + 2 * ucast index := character,
                        VID_MEM_BASE + 2 * ucast index + 1 := color)\<rparr>"

definition setcolor :: "u8 \<Rightarrow> console \<Rightarrow> console" where
  "setcolor color s =
     (let s = s\<lparr>screencolor := color\<rparr>
      in s\<lparr>kmem := fold (\<lambda>i m. m(VID_MEM_BASE + 2 * of_nat i + 1 := screencolor s)) [0..<2000] (kmem s)\<rparr>)"

definition cursor_to :: "u16 \<Rightarrow> console \<Rightarrow> console" where
  "cursor_to p s = s\<lparr>ccrt := setcursor p (ccrt s)\<rparr>"

definition cursor_of :: "console \<Rightarrow> u16 \<times> console" where
  "cursor_of s = (let (p, d) = barrel_getcursor (ccrt s) in (p, s\<lparr>ccrt := d\<rparr>))"

definition clearscreen :: "console \<Rightarrow> console" where
  "clearscreen s =
     cursor_to 0 (s\<lparr>kmem := fold (\<lambda>i m. m(VID_MEM_BASE + 2 * of_nat i := 0x20)) [0..<2000] (kmem s)\<rparr>)"

definition mem_copy :: "u32 \<Rightarrow> u32 \<Rightarrow> u16 \<Rightarrow> console \<Rightarrow> console" where
  "mem_copy source dest bytes s =
     (let m = cpy_loop (kmem s) source (scratch s) 0 (ucast bytes);
          m = cpy_loop m (scratch s) dest 0 (ucast bytes)
      in s\<lparr>kmem := m\<rparr>)"

definition scroll :: "console \<Rightarrow> console" where
  "scroll s =
     (let (cursor_pos, s) = cursor_of s;
          s = mem_copy VID_MEM_BASE (framecopy s) (2 * 25 * 80) s;
          s = clearscreen s;
          s = mem_copy (framecopy s + 2 * 80) VID_MEM_BASE (2 * 24 * 80) s
      in cursor_to (cursor_pos - 80) s)"

text \<open>\<^verbatim>\<open>if (getcursor() >= 80*25) scroll();\<close>\<close>

definition scroll_if_full :: "console \<Rightarrow> console" where
  "scroll_if_full s = (let (p, s) = cursor_of s in if p \<ge> 80 * 25 then scroll s else s)"

text \<open>\<^verbatim>\<open>setcursor(getcursor() + (80 - getcursor()%80))\<close> and the check that follows it everywhere.\<close>

definition newline :: "console \<Rightarrow> console" where
  "newline s =
     (let (p, s) = cursor_of s; (q, s) = cursor_of s
      in scroll_if_full (cursor_to (p + (80 - q mod 80)) s))"

definition put_pixel :: "u8 \<Rightarrow> console \<Rightarrow> console" where
  "put_pixel c s =
     (let (p, s) = cursor_of s;
          s = setpixel p c (screencolor s) s;
          (q, s) = cursor_of s
      in scroll_if_full (cursor_to (q + 1) s))"

fun print :: "u8 list \<Rightarrow> console \<Rightarrow> console" where
  "print [] s = s"
| "print (c # xs) s = print xs (if c = 0x0A then newline s else put_pixel c s)"

definition println :: "u8 list \<Rightarrow> console \<Rightarrow> console" where
  "println str s =
     (let (p, s) = cursor_of s;
          s = (if p mod 80 \<noteq> 0 then newline s else s)
      in print str s)"

section \<open>The line buffer\<close>

definition init_terminal :: "console \<Rightarrow> sched \<Rightarrow> (console \<times> sched) outcome" where
  "init_terminal s sc =
     bind_ok (kmalloc (mm sc)) (\<lambda>(b, m).
     bind_ok (kmalloc m) (\<lambda>(q, m).
     bind_ok (kmalloc m) (\<lambda>(f, m).
       let s = s\<lparr>buf_length := 0, buf_start := b, buffered := 0, queue_head := q, queue_tail := q, framecopy := f\<rparr>;
           s = setcolor 0x60 s
       in Ok (clearscreen s, sc\<lparr>mm := m\<rparr>))))"

definition complete_buffer :: "console \<times> sched \<Rightarrow> console \<times> sched" where
  "complete_buffer st =
     (let (s, sc) = st in
      if queue_head s = queue_tail s then (s, sc)
      else
        let s = s\<lparr>kmem := (kmem s)(buf_start s + ucast (buf_length s) := 0), buf_length := buf_length s + 1\<rparr>;
            sc = unblock (load32 (kmem s) (queue_head s)) sc;
            s = s\<lparr>queue_head := queue_head s + 4\<rparr>
        in (newline s, sc))"

definition keybuffer :: "u8 \<Rightarrow> console \<times> sched \<Rightarrow> console \<times> sched" where
  "keybuffer key st =
     (let (s, sc) = st in
      if key = 0x08 then
        (if buf_length s \<noteq> 0
         then let s = s\<lparr>buf_length := buf_length s - 1\<rparr>;
                  (p, s) = cursor_of s;
                  s = cursor_to (p - 1) s;
                  (q, s) = cursor_of s
              in (setpixel q 0x20 (screencolor s) s, sc)
         else (s, sc))
      else if key = 0x0A then complete_buffer (s, sc)
      else if key = 0x1B then (clearscreen (s\<lparr>buf_length := 0\<rparr>), sc)
      else
        let s = s\<lparr>kmem := (kmem s)(buf_start s + ucast (buf_length s) := key), buf_length := buf_length s + 1\<rparr>
        in (put_pixel key s, sc))"

text \<open>
  \<^verbatim>\<open>sendbuffer\<close> up to \<^verbatim>\<open>block()\<close>, and from there on once the reader was woken up.
\<close>

definition sendbuffer_wait :: "console \<times> sched \<Rightarrow> (console \<times> sched) outcome option" where
  "sendbuffer_wait st =
     (let (s, sc) = st;
          s = s\<lparr>kmem := store32 (kmem s) (queue_tail s) (active_proc sc), queue_tail := queue_tail s + 4\<rparr>
      in map_option (\<lambda>r. bind_ok r (\<lambda>sc. Ok (s, sc))) (block sc))"

definition sendbuffer_resume :: "u32 \<Rightarrow> u8 \<Rightarrow> console \<Rightarrow> console outcome" where
  "sendbuffer_resume destination count s =
     (if buf_length s > count \<and> count \<noteq> 0 then Halt (KPanic ''sendbuffer too large'')
      else Ok ((mem_copy (buf_start s) destination (ucast (buf_length s)) s)\<lparr>buf_length := 0, buffered := 0\<rparr>))"

section \<open>Specification\<close>

type_synonym screen = "nat \<times> (nat \<Rightarrow> u8 \<times> u8)"

definition cursor :: "console \<Rightarrow> nat" where
  "cursor s = unat (fst (barrel_getcursor (ccrt s)))"

definition cells :: "console \<Rightarrow> nat \<Rightarrow> u8 \<times> u8" where
  "cells s i = (if i < 2000 then (kmem s (VID_MEM_BASE + 2 * of_nat i), kmem s (VID_MEM_BASE + 2 * of_nat i + 1)) else (0, 0))"

definition view :: "console \<Rightarrow> screen" where
  "view s = (cursor s, cells s)"

text \<open>One line up when the cursor has left the screen; the last line is blanked, its colours stay.\<close>

definition scrolled :: "screen \<Rightarrow> screen" where
  "scrolled v =
     (let (p, c) = v in
      if p < 2000 then v
      else (p - 80, \<lambda>i. if i < 1920 then c (i + 80) else if i < 2000 then (0x20, snd (c i)) else (0, 0)))"

definition put :: "u8 \<Rightarrow> screen \<Rightarrow> u8 \<Rightarrow> screen" where
  "put color v ch =
     (let (p, c) = v in
      scrolled (if ch = 0x0A then (p + (80 - p mod 80), c) else (p + 1, c(p := (ch, color)))))"

definition console_ok :: "console \<Rightarrow> bool" where
  "console_ok s \<longleftrightarrow> heap_page (framecopy s) \<and> heap_page (scratch s) \<and> framecopy s \<noteq> scratch s \<and> cursor s < 2000"

section \<open>Specification\<close>

definition vid :: "nat \<Rightarrow> u32" where
  "vid j = 0xc00b8000 + of_nat j"

definition same_pages :: "console \<Rightarrow> console \<Rightarrow> bool" where
  "same_pages s t \<longleftrightarrow> framecopy t = framecopy s \<and> scratch t = scratch s \<and> screencolor t = screencolor s"

text \<open>The characters typed so far.\<close>

definition line :: "console \<Rightarrow> u8 list" where
  "line s = map (\<lambda>i. kmem s (buf_start s + of_nat i)) [0..<unat (buf_length s)]"

definition terminal_ok :: "console \<Rightarrow> bool" where
  "terminal_ok s \<longleftrightarrow> console_ok s \<and> heap_page (buf_start s) \<and> buf_start s \<noteq> framecopy s \<and> buf_start s \<noteq> scratch s"

definition in_page :: "u32 \<Rightarrow> u32 \<Rightarrow> bool" where
  "in_page p x \<longleftrightarrow> unat p \<le> unat x \<and> unat x < unat p + 4096"

text \<open>Printing touches video memory and its two pages only.\<close>

definition prints_only :: "console \<Rightarrow> console \<Rightarrow> bool" where
  "prints_only s t \<longleftrightarrow> same_pages s t \<and> buf_start t = buf_start s \<and> buf_length t = buf_length s
     \<and> queue_head t = queue_head s \<and> queue_tail t = queue_tail s
     \<and> (\<forall>x. \<not> in_page (framecopy s) x \<and> \<not> in_page (scratch s) x \<and> (unat x < 0xc00b8000 \<or> 0xc00d8000 \<le> unat x) \<longrightarrow> kmem t x = kmem s x)"

definition sample_console :: console where
  "sample_console = \<lparr>ccrt = setcursor 1999 \<lparr>crtc_index = 0, crtc_reg = (\<lambda>_. 0)\<rparr>, kmem = (\<lambda>_. 0x41), screencolor = 0x60,
     framecopy = 0xc0402000, scratch = 0xc0403000, buf_start = 0xc0400000, buf_length = 2, buffered = 0,
     queue_head = 0xc0401000, queue_tail = 0xc0401004\<rparr>"

section \<open>Copies between regions\<close>

lemma cpy_region:
  fixes m :: "32 mem"
  assumes fit: "unat src + unat n < 2 ^ 32" "unat dst + unat n < 2 ^ 32"
    and apart: "unat src + unat n \<le> unat dst \<or> unat dst + unat n \<le> unat src"
  shows "k < n \<Longrightarrow> cpy_loop m src dst 0 n (dst + k) = m (src + k)"
    and "unat x < unat dst \<or> unat dst + unat n \<le> unat x \<Longrightarrow> cpy_loop m src dst 0 n x = m x"
proof -
  have ne: "dst + j \<noteq> src + k" if "j < k" "k < n" for j k
  proof
    assume "dst + j = src + k"
    moreover have "unat (dst + j) = unat dst + unat j" "unat (src + k) = unat src + unat k"
      using that fit by (auto simp: word_less_nat_alt unat_add_lem [THEN iffD1])
    ultimately show False using that apart by (auto simp: word_less_nat_alt)
  qed
  have eq: "cpy_loop m src dst 0 n = (\<lambda>x. if 0 \<le> x - dst \<and> x - dst < n then m (src + (x - dst)) else m x)"
    by (rule cpy_loop_eq) (rule ne)
  show "k < n \<Longrightarrow> cpy_loop m src dst 0 n (dst + k) = m (src + k)" by (simp add: eq)
  have "x - dst < n \<longleftrightarrow> dst \<le> x \<and> x < dst + n" using fit by (intro word_offset_less_iff) simp
  moreover have "unat (dst + n) = unat dst + unat n" using fit by (simp add: unat_add_lem [THEN iffD1])
  ultimately show "unat x < unat dst \<or> unat dst + unat n \<le> unat x \<Longrightarrow> cpy_loop m src dst 0 n x = m x"
    unfolding eq by (auto simp: word_le_nat_alt word_less_nat_alt)
qed

lemma heap_page_range: "heap_page p \<Longrightarrow> 0xc0400000 \<le> unat p \<and> unat p + 4096 \<le> 0xc0800000"
proof -
  assume p: "heap_page p"
  then obtain q where "unat p = 4096 * q" by (auto simp: heap_page_def page_aligned_def)
  with p show ?thesis by (auto simp: heap_page_def word_le_nat_alt word_less_nat_alt)
qed

lemma heap_pages_apart: "heap_page p \<Longrightarrow> heap_page q \<Longrightarrow> p \<noteq> q \<Longrightarrow> unat p + 4096 \<le> unat q \<or> unat q + 4096 \<le> unat p"
proof -
  assume "heap_page p" "heap_page q" "p \<noteq> q"
  then obtain a b where "unat p = 4096 * a" "unat q = 4096 * b" "a \<noteq> b"
    by (auto simp: heap_page_def page_aligned_def mod_eq_0_iff_dvd word_unat_eq_iff elim!: dvdE)
  then show ?thesis by auto
qed

text \<open>A copy through a heap page, seen from the source and the destination.\<close>

lemma mem_copy_through:
  assumes p: "heap_page (scratch s)" and n: "unat bytes \<le> 4096"
    and src: "unat src + unat bytes \<le> unat (scratch s) \<or> unat (scratch s) + 4096 \<le> unat src" "unat src + unat bytes < 2 ^ 32"
    and dst: "unat dst + unat bytes \<le> unat (scratch s) \<or> unat (scratch s) + 4096 \<le> unat dst" "unat dst + unat bytes < 2 ^ 32"
  shows "unat k < unat bytes \<Longrightarrow> kmem (mem_copy src dst bytes s) (dst + k) = kmem s (src + k)"
    and "unat x < unat dst \<or> unat dst + unat bytes \<le> unat x \<Longrightarrow> unat x < unat (scratch s) \<or> unat (scratch s) + 4096 \<le> unat x \<Longrightarrow>
      kmem (mem_copy src dst bytes s) x = kmem s x"
proof -
  let ?B = "scratch s" and ?n = "ucast bytes :: u32"
  have un: "unat ?n = unat bytes" using unat_u16_less [of bytes] by (simp add: unsigned_ucast_eq take_bit_nat_eq_self)
  note r = heap_page_range [OF p]
  let ?m1 = "cpy_loop (kmem s) src ?B 0 ?n"
  have one: "k < ?n \<Longrightarrow> ?m1 (?B + k) = kmem s (src + k)"
    "unat x < unat ?B \<or> unat ?B + unat ?n \<le> unat x \<Longrightarrow> ?m1 x = kmem s x" for k x
    using src n r un by (intro cpy_region; auto)+
  have two: "k < ?n \<Longrightarrow> cpy_loop ?m1 ?B dst 0 ?n (dst + k) = ?m1 (?B + k)"
    "unat x < unat dst \<or> unat dst + unat ?n \<le> unat x \<Longrightarrow> cpy_loop ?m1 ?B dst 0 ?n x = ?m1 x" for k x
    using dst n r un by (intro cpy_region; auto)+
  show "unat k < unat bytes \<Longrightarrow> kmem (mem_copy src dst bytes s) (dst + k) = kmem s (src + k)"
    using one(1) two(1) un by (simp add: mem_copy_def Let_def word_less_nat_alt)
  show "unat x < unat dst \<or> unat dst + unat bytes \<le> unat x \<Longrightarrow> unat x < unat ?B \<or> unat ?B + 4096 \<le> unat x \<Longrightarrow>
      kmem (mem_copy src dst bytes s) x = kmem s x"
    using one(2) two(2) un n by (auto simp: mem_copy_def Let_def)
qed

lemma mem_copy_other:
  "ccrt (mem_copy a b n s) = ccrt s" "framecopy (mem_copy a b n s) = framecopy s" "scratch (mem_copy a b n s) = scratch s"
  "screencolor (mem_copy a b n s) = screencolor s"
  by (simp_all add: mem_copy_def Let_def)

section \<open>Cells of video memory\<close>

lemma unat_vid: "j < 4096 \<Longrightarrow> unat (vid j) = 0xc00b8000 + j"
  by (simp add: vid_def unat_word_ariths unat_of_nat take_bit_eq_mod)

lemma cells_vid: "cells s i = (if i < 2000 then (kmem s (vid (2 * i)), kmem s (vid (2 * i + 1))) else (0, 0))"
  by (simp add: cells_def vid_def add.assoc)

lemma vid_eq_iff: "i < 4096 \<Longrightarrow> j < 4096 \<Longrightarrow> vid i = vid j \<longleftrightarrow> i = j"
  using unat_vid [of i] unat_vid [of j] by (metis add_left_cancel)

lemma fold_upd: "fold (\<lambda>i m. m(f i := v)) [0..<n] m x = (if \<exists>i < n. x = f i then v else m x)"
  by (induction n) (auto simp: less_Suc_eq)

lemma clearscreen_kmem:
  "kmem (clearscreen s) x = (if \<exists>i < 2000. x = vid (2 * i) then 0x20 else kmem s x)"
  by (simp add: clearscreen_def cursor_to_def fold_upd vid_def del: upt_conv_Cons)

section \<open>Cursor\<close>

lemma cursor_of_eq: "\<exists>d. cursor_of s = (of_nat (cursor s), s\<lparr>ccrt := d\<rparr>) \<and> cursor (s\<lparr>ccrt := d\<rparr>) = cursor s"
  by (auto simp: cursor_of_def cursor_def split_beta barrel_cursor.get_get)

lemma cursor_less: "cursor s < 65536"
  by (simp add: cursor_def unat_u16_less)

lemma cursor_to_simps [simp]:
  "cursor (cursor_to p s) = unat p" "cells (cursor_to p s) = cells s" "framecopy (cursor_to p s) = framecopy s"
  "scratch (cursor_to p s) = scratch s" "screencolor (cursor_to p s) = screencolor s" "kmem (cursor_to p s) = kmem s"
  by (simp_all add: cursor_to_def cursor_def barrel_cursor.get_put cells_def fun_eq_iff)

lemma crt_upd [simp]: "cells (s\<lparr>ccrt := d\<rparr>) = cells s"
  by (simp add: cells_def fun_eq_iff)

section \<open>Scrolling\<close>

lemma scroll_bytes:
  assumes F: "heap_page (framecopy s)" and B: "heap_page (scratch s)" "framecopy s \<noteq> scratch s"
  defines "s2 \<equiv> mem_copy 0xc00b8000 (framecopy s) 4000 s"
  defines "s4 \<equiv> mem_copy (framecopy s + 160) 0xc00b8000 3840 (clearscreen s2)"
  shows "j < 3840 \<Longrightarrow> kmem s4 (vid j) = kmem s (vid (j + 160))"
    and "3840 \<le> j \<Longrightarrow> j < 4000 \<Longrightarrow> kmem s4 (vid j) = (if even j then 0x20 else kmem s (vid j))"
proof -
  let ?F = "framecopy s" and ?B = "scratch s" and ?V = "0xc00b8000 :: u32"
  note rF = heap_page_range [OF F] and rB = heap_page_range [OF B(1)] and ap = heap_pages_apart [OF F B(1) B(2)]
  have F160: "unat (?F + 160) = unat ?F + 160" using rF by (subst unat_add_lem [THEN iffD1]) auto
  have one: "unat k < 4000 \<Longrightarrow> kmem s2 (?F + k) = kmem s (?V + k)" for k
    unfolding s2_def using rF rB ap by (intro mem_copy_through(1) [OF B(1)]) auto
  have one': "unat x < unat ?F \<or> unat ?F + 4000 \<le> unat x \<Longrightarrow> unat x < unat ?B \<or> unat ?B + 4096 \<le> unat x \<Longrightarrow> kmem s2 x = kmem s x" for x
    unfolding s2_def using rF rB ap by (intro mem_copy_through(2) [OF B(1)]) auto
  have sc: "scratch (clearscreen s2) = ?B" by (simp add: clearscreen_def s2_def mem_copy_other)
  have two: "unat k < 3840 \<Longrightarrow> kmem s4 (?V + k) = kmem (clearscreen s2) (?F + 160 + k)" for k
    unfolding s4_def using rF rB ap F160 B(1) by (intro mem_copy_through(1)) (auto simp: sc)
  have two': "unat ?V + 3840 \<le> unat x \<Longrightarrow> unat x < unat ?B \<Longrightarrow> kmem s4 x = kmem (clearscreen s2) x" for x
    unfolding s4_def using rF rB ap F160 B(1) by (intro mem_copy_through(2)) (auto simp: sc)
  show "kmem s4 (vid j) = kmem s (vid (j + 160))" if j: "j < 3840"
  proof -
    have k: "unat (of_nat j :: u32) = j" "unat (160 + of_nat j :: u32) = 160 + j"
      using j by (simp_all add: unat_word_ariths unat_of_nat take_bit_eq_mod)
    have "unat (?F + (160 + of_nat j)) = unat ?F + (160 + j)"
      using j k rF by (subst unat_add_lem [THEN iffD1]) auto
    then have "?F + (160 + of_nat j) \<noteq> vid (2 * i)" if "i < 2000" for i
      using rF unat_vid [of "2 * i"] that by auto
    then have "kmem (clearscreen s2) (?F + 160 + of_nat j) = kmem s2 (?F + (160 + of_nat j))"
      by (auto simp: clearscreen_kmem add.assoc)
    then show ?thesis
      using two [of "of_nat j"] one [of "160 + of_nat j"] j k by (simp add: vid_def ac_simps)
  qed
  show "kmem s4 (vid j) = (if even j then 0x20 else kmem s (vid j))" if j: "3840 \<le> j" "j < 4000"
  proof -
    have u: "unat (vid j) = 0xc00b8000 + j" using j by (simp add: unat_vid)
    have "(\<exists>i < 2000. vid j = vid (2 * i)) \<longleftrightarrow> even j"
    proof
      assume "\<exists>i < 2000. vid j = vid (2 * i)"
      then obtain i where i: "i < 2000" "vid j = vid (2 * i)" by blast
      then have "j = 2 * i" using j vid_eq_iff [of j "2 * i"] by simp
      then show "even j" by simp
    next
      assume "even j"
      then obtain i where "j = 2 * i" by blast
      then show "\<exists>i < 2000. vid j = vid (2 * i)" using j by (intro exI [of _ i]) simp
    qed
    moreover have "kmem s2 (vid j) = kmem s (vid j)" using j u rF rB by (intro one') auto
    ultimately show ?thesis using two' [of "vid j"] j u rB by (auto simp: clearscreen_kmem)
  qed
qed

lemma scroll_view:
  assumes "heap_page (framecopy s)" "heap_page (scratch s)" "framecopy s \<noteq> scratch s" and "2000 \<le> cursor s"
  shows "view (scroll s) = scrolled (view s)" and "framecopy (scroll s) = framecopy s" "scratch (scroll s) = scratch s"
    "screencolor (scroll s) = screencolor s"
proof -
  obtain d where d: "cursor_of s = (of_nat (cursor s), s\<lparr>ccrt := d\<rparr>)" using cursor_of_eq by blast
  let ?t = "s\<lparr>ccrt := d\<rparr>"
  let ?s4 = "mem_copy (framecopy ?t + 160) 0xc00b8000 3840 (clearscreen (mem_copy 0xc00b8000 (framecopy ?t) 4000 ?t))"
  have fc: "framecopy (clearscreen (mem_copy 0xc00b8000 (framecopy s) 4000 ?t)) = framecopy s"
    by (simp add: clearscreen_def mem_copy_other)
  have eq: "scroll s = cursor_to (of_nat (cursor s) - 80) ?s4" by (simp add: scroll_def d fc)
  have "unat (of_nat (cursor s) - 80 :: u16) = cursor s - 80"
    using assms(4) cursor_less [of s] by (subst unat_sub) (simp_all add: word_le_nat_alt unat_of_nat take_bit_nat_eq_self)
  then have cur: "cursor (scroll s) = cursor s - 80" by (simp add: eq)
  note b = scroll_bytes [of ?t]
  have "cells (scroll s) i = (if i < 1920 then cells s (i + 80) else if i < 2000 then (0x20, snd (cells s i)) else (0, 0))" for i
    using assms(1-3) b(1) [of "2 * i"] b(1) [of "2 * i + 1"] b(2) [of "2 * i"] b(2) [of "2 * i + 1"]
    by (auto simp: eq cells_vid algebra_simps)
  then show "view (scroll s) = scrolled (view s)"
    using cur assms(4) by (simp add: view_def scrolled_def fun_eq_iff)
  show "framecopy (scroll s) = framecopy s" "scratch (scroll s) = scratch s" "screencolor (scroll s) = screencolor s"
    by (simp_all add: eq mem_copy_other clearscreen_def)
qed

section \<open>Printing refines the screen\<close>

lemma scroll_if_full_view:
  assumes "heap_page (framecopy s)" "heap_page (scratch s)" "framecopy s \<noteq> scratch s"
  shows "view (scroll_if_full s) = scrolled (view s) \<and> same_pages s (scroll_if_full s)"
proof -
  obtain d where d: "cursor_of s = (of_nat (cursor s), s\<lparr>ccrt := d\<rparr>)" "cursor (s\<lparr>ccrt := d\<rparr>) = cursor s" using cursor_of_eq by blast
  have le: "(80 * 25 :: u16) \<le> of_nat (cursor s) \<longleftrightarrow> 2000 \<le> cursor s"
    using cursor_less [of s] by (simp add: word_le_nat_alt unat_of_nat take_bit_nat_eq_self)
  have v: "view (s\<lparr>ccrt := d\<rparr>) = view s" using d(2) by (simp add: view_def)
  show ?thesis
  proof (cases "2000 \<le> cursor s")
    case True
    then show ?thesis
      using scroll_view [of "s\<lparr>ccrt := d\<rparr>"] assms d le v by (simp add: scroll_if_full_def same_pages_def)
  next
    case False
    then show ?thesis using d le v by (simp add: scroll_if_full_def same_pages_def scrolled_def view_def)
  qed
qed

lemma newline_view:
  assumes "console_ok s"
  shows "view (newline s) = put (screencolor s) (view s) 0x0A \<and> same_pages s (newline s)"
proof -
  obtain d e where d: "cursor_of s = (of_nat (cursor s), s\<lparr>ccrt := d\<rparr>)" "cursor (s\<lparr>ccrt := d\<rparr>) = cursor s"
    and e: "cursor_of (s\<lparr>ccrt := d\<rparr>) = (of_nat (cursor s), s\<lparr>ccrt := e\<rparr>)"
    using cursor_of_eq [of s] cursor_of_eq [of "s\<lparr>ccrt := _\<rparr>"] by (metis (no_types, lifting) console.surjective console.update_convs(1))
  define p :: u16 where "p = of_nat (cursor s)"
  have up: "unat p = cursor s" using cursor_less [of s] by (simp add: p_def unat_of_nat take_bit_nat_eq_self)
  have "unat (80 - p mod 80) = 80 - cursor s mod 80"
    by (subst unat_sub) (simp_all add: word_le_nat_alt unat_mod up less_imp_le)
  then have "unat (p + (80 - p mod 80)) = cursor s + (80 - cursor s mod 80)"
    using assms up by (subst unat_add_lem [THEN iffD1]) (auto simp: console_ok_def)
  then have v: "view (cursor_to (p + (80 - p mod 80)) (s\<lparr>ccrt := e\<rparr>)) = (cursor s + (80 - cursor s mod 80), cells s)"
    by (simp add: view_def)
  show ?thesis
    using scroll_if_full_view [of "cursor_to (p + (80 - p mod 80)) (s\<lparr>ccrt := e\<rparr>)"] assms v
    by (simp add: newline_def d e p_def [symmetric] put_def view_def [of s] console_ok_def same_pages_def)
qed

lemma setpixel_cells:
  assumes "i < 2000" and "unat p = i"
  shows "cells (setpixel p c col s) = (cells s)(i := (c, col))"
proof
  fix j
  have a: "0xc00b8000 + 2 * ucast p = vid (2 * i)" "0xc00b8000 + 2 * ucast p + 1 = vid (2 * i + 1)"
    using assms by (auto simp: vid_def)
  have a3: "vid (2 * i) + 1 = vid (2 * i + 1)" by (simp add: vid_def)
  have k: "kmem (setpixel p c col s) x = (if x = vid (2 * i + 1) then col else if x = vid (2 * i) then c else kmem s x)" for x
    by (simp add: setpixel_def a(1) a3)
  show "cells (setpixel p c col s) j = ((cells s)(i := (c, col))) j"
  proof (cases "j < 2000")
    case True
    then have "vid (2 * j) = vid (2 * i) \<longleftrightarrow> j = i" "vid (2 * j + 1) = vid (2 * i + 1) \<longleftrightarrow> j = i"
      "vid (2 * j) \<noteq> vid (2 * i + 1)" "vid (2 * j + 1) \<noteq> vid (2 * i)"
      using assms(1) by (simp_all add: vid_eq_iff, presburger+)
    then show ?thesis using True unfolding cells_vid k by simp
  next
    case False
    then show ?thesis using assms(1) by (simp add: cells_vid)
  qed
qed

lemma setpixel_simps [simp]:
  "cursor (setpixel p c col s) = cursor s" "framecopy (setpixel p c col s) = framecopy s"
  "scratch (setpixel p c col s) = scratch s" "screencolor (setpixel p c col s) = screencolor s"
  by (simp_all add: setpixel_def cursor_def)

lemma put_pixel_view:
  assumes "console_ok s" and "c \<noteq> 0x0A"
  shows "view (put_pixel c s) = put (screencolor s) (view s) c \<and> same_pages s (put_pixel c s)"
proof -
  obtain d where d: "cursor_of s = (of_nat (cursor s), s\<lparr>ccrt := d\<rparr>)" "cursor (s\<lparr>ccrt := d\<rparr>) = cursor s" using cursor_of_eq by blast
  define p :: u16 where "p = of_nat (cursor s)"
  have up: "unat p = cursor s" using cursor_less [of s] by (simp add: p_def unat_of_nat take_bit_nat_eq_self)
  let ?t = "setpixel p c (screencolor s) (s\<lparr>ccrt := d\<rparr>)"
  obtain e where e: "cursor_of ?t = (p, ?t\<lparr>ccrt := e\<rparr>)"
    using cursor_of_eq [of ?t] d(2) by (auto simp: p_def)
  have "unat (p + 1) = cursor s + 1"
    using assms up by (subst unat_add_lem [THEN iffD1]) (auto simp: console_ok_def)
  then have v: "view (cursor_to (p + 1) (?t\<lparr>ccrt := e\<rparr>)) = (cursor s + 1, (cells s)(cursor s := (c, screencolor s)))"
    using setpixel_cells [OF _ up] assms by (simp add: view_def console_ok_def)
  show ?thesis
    using scroll_if_full_view [of "cursor_to (p + 1) (?t\<lparr>ccrt := e\<rparr>)"] assms v
    by (simp add: put_pixel_def d p_def [symmetric] e put_def view_def [of s] console_ok_def same_pages_def)
qed

lemma put_bound: "fst v < 2000 \<Longrightarrow> fst (put col v c) < 2000"
  by (cases v) (auto simp: put_def scrolled_def)

lemma print_step:
  assumes "console_ok s"
  shows "view (if c = 0x0A then newline s else put_pixel c s) = put (screencolor s) (view s) c
    \<and> same_pages s (if c = 0x0A then newline s else put_pixel c s) \<and> console_ok (if c = 0x0A then newline s else put_pixel c s)"
proof -
  let ?t = "if c = 0x0A then newline s else put_pixel c s"
  have *: "view ?t = put (screencolor s) (view s) c \<and> same_pages s ?t"
    using newline_view [OF assms] put_pixel_view [OF assms] by auto
  have "fst (view s) < 2000" using assms by (simp add: view_def console_ok_def)
  then have "fst (view ?t) < 2000" using * put_bound by metis
  then have "cursor ?t < 2000" by (simp only: view_def fst_conv)
  then show ?thesis using * assms by (simp add: console_ok_def same_pages_def)
qed

lemma print_refines:
  "console_ok s \<Longrightarrow> view (print xs s) = foldl (put (screencolor s)) (view s) xs \<and> console_ok (print xs s)"
proof (induction xs arbitrary: s)
  case (Cons c xs)
  note st = print_step [OF Cons.prems, of c]
  then show ?case using Cons.IH [of "if c = 0x0A then newline s else put_pixel c s"] by (simp add: same_pages_def)
qed simp

section \<open>The line buffer\<close>

lemma prints_only_trans: "prints_only s t \<Longrightarrow> prints_only t u \<Longrightarrow> prints_only s u"
  by (auto simp: prints_only_def same_pages_def)

lemma prints_only_crt: "prints_only s (s\<lparr>ccrt := d\<rparr>)"
  by (simp add: prints_only_def same_pages_def)

lemma prints_only_cursor: "prints_only s (cursor_to p s)" "prints_only s (snd (cursor_of s))"
  by (simp_all add: cursor_to_def cursor_of_def split_beta prints_only_crt)

lemma prints_only_clear: "prints_only s (clearscreen s)"
proof -
  have "kmem (clearscreen s) x = kmem s x" if "unat x < 0xc00b8000 \<or> 0xc00d8000 \<le> unat x" for x
    using that unat_vid by (auto simp: clearscreen_kmem)
  then show ?thesis by (simp add: prints_only_def same_pages_def) (simp add: clearscreen_def cursor_to_def)
qed

lemma prints_only_pixel: "prints_only s (setpixel p c col s)"
proof -
  have "unat (0xc00b8000 + 2 * ucast p :: u32) = 0xc00b8000 + 2 * unat p" "unat (0xc00b8000 + 2 * ucast p + 1 :: u32) = 0xc00b8000 + 2 * unat p + 1"
    using unat_u16_less [of p] by (simp_all add: unat_word_ariths unsigned_ucast_eq take_bit_eq_mod)
  then have "kmem (setpixel p c col s) x = kmem s x" if "unat x < 0xc00b8000 \<or> 0xc00d8000 \<le> unat x" for x
    using that unat_u16_less [of p] by (auto simp: setpixel_def)
  then show ?thesis by (simp add: prints_only_def same_pages_def) (simp add: setpixel_def)
qed

lemma prints_only_scroll:
  assumes "heap_page (framecopy s)" "heap_page (scratch s)" "framecopy s \<noteq> scratch s"
  shows "prints_only s (scroll s)"
proof -
  let ?F = "framecopy s" and ?B = "scratch s"
  note r = heap_page_range [OF assms(1)] heap_page_range [OF assms(2)] heap_pages_apart [OF assms]
  obtain d where d: "cursor_of s = (of_nat (cursor s), s\<lparr>ccrt := d\<rparr>)" using cursor_of_eq by blast
  let ?t = "s\<lparr>ccrt := d\<rparr>"
  let ?s2 = "mem_copy 0xc00b8000 ?F 4000 ?t"
  have F160: "unat (?F + 160) = unat ?F + 160" using r by (subst unat_add_lem [THEN iffD1]) auto
  have "kmem ?s2 x = kmem ?t x" if "\<not> in_page ?F x" "\<not> in_page ?B x" for x
    using that r assms(2) by (intro mem_copy_through(2)) (auto simp: in_page_def)
  then have p2: "prints_only ?t ?s2"
    by (auto simp: prints_only_def same_pages_def mem_copy_other) (simp_all add: mem_copy_def Let_def)
  let ?s3 = "clearscreen ?s2"
  have e3: "framecopy ?s3 = ?F" "scratch ?s3 = ?B" by (simp_all add: clearscreen_def mem_copy_other)
  have "kmem (mem_copy (?F + 160) 0xc00b8000 3840 ?s3) x = kmem ?s3 x"
    if "\<not> in_page ?B x" "unat x < 0xc00b8000 \<or> 0xc00d8000 \<le> unat x" for x
    using that r assms(2) F160 e3 by (intro mem_copy_through(2)) (auto simp: in_page_def)
  then have p4: "prints_only ?s3 (mem_copy (?F + 160) 0xc00b8000 3840 ?s3)"
    by (auto simp: prints_only_def same_pages_def mem_copy_other e3) (simp_all add: mem_copy_def Let_def)
  have "scroll s = cursor_to (of_nat (cursor s) - 80) (mem_copy (?F + 160) 0xc00b8000 3840 ?s3)"
    using e3 by (simp add: scroll_def d)
  then show ?thesis
    using prints_only_trans [OF prints_only_trans [OF prints_only_trans [OF prints_only_crt p2] prints_only_clear] prints_only_trans [OF p4 prints_only_cursor(1)]]
    by simp
qed

lemma prints_only_scroll_if_full:
  assumes "heap_page (framecopy s)" "heap_page (scratch s)" "framecopy s \<noteq> scratch s"
  shows "prints_only s (scroll_if_full s)"
proof -
  have c: "prints_only s (snd (cursor_of s))" by (rule prints_only_cursor)
  then have "prints_only (snd (cursor_of s)) (scroll (snd (cursor_of s)))"
    using assms by (intro prints_only_scroll) (simp_all add: prints_only_def same_pages_def)
  with c show ?thesis using prints_only_trans by (auto simp: scroll_if_full_def split_beta)
qed

lemma prints_only_newline:
  assumes "console_ok s"
  shows "prints_only s (newline s)"
proof -
  let ?t = "cursor_to (fst (cursor_of s) + (80 - fst (cursor_of (snd (cursor_of s))) mod 80)) (snd (cursor_of (snd (cursor_of s))))"
  have t: "prints_only s ?t"
    using prints_only_trans [OF prints_only_trans [OF prints_only_cursor(2) prints_only_cursor(2)] prints_only_cursor(1)] by blast
  then have "prints_only ?t (scroll_if_full ?t)"
    using assms by (intro prints_only_scroll_if_full) (simp_all add: prints_only_def same_pages_def console_ok_def)
  with t show ?thesis using prints_only_trans by (auto simp: newline_def split_beta)
qed

lemma prints_only_put_pixel:
  assumes "console_ok s"
  shows "prints_only s (put_pixel c s)"
proof -
  let ?t = "snd (cursor_of s)"
  let ?u = "setpixel (fst (cursor_of s)) c (screencolor ?t) ?t"
  let ?v = "cursor_to (fst (cursor_of ?u) + 1) (snd (cursor_of ?u))"
  have t: "prints_only s ?v"
    using prints_only_trans [OF prints_only_trans [OF prints_only_trans [OF prints_only_cursor(2) prints_only_pixel] prints_only_cursor(2)] prints_only_cursor(1)] by blast
  then have "prints_only ?v (scroll_if_full ?v)"
    using assms by (intro prints_only_scroll_if_full) (simp_all add: prints_only_def same_pages_def console_ok_def)
  with t show ?thesis using prints_only_trans by (auto simp: put_pixel_def split_beta Let_def)
qed

lemma line_kept:
  assumes "prints_only s t" and "terminal_ok s"
  shows "line t = line s"
proof -
  note r = heap_page_range [of "buf_start s"] heap_pages_apart [of "buf_start s" "framecopy s"] heap_pages_apart [of "buf_start s" "scratch s"]
  have "kmem t (buf_start s + of_nat i) = kmem s (buf_start s + of_nat i)" if "i < 256" for i
  proof -
    have "unat (buf_start s + of_nat i) = unat (buf_start s) + i"
      using that r(1) assms(2) by (subst unat_add_lem [THEN iffD1]) (auto simp: terminal_ok_def unat_of_nat take_bit_nat_eq_self)
    then show ?thesis
      using assms r that by (auto simp: prints_only_def terminal_ok_def console_ok_def in_page_def)
  qed
  then show ?thesis
    using assms(1) unat_u8_less [of "buf_length s"] by (simp add: line_def prints_only_def)
qed

lemma line_append:
  assumes "unat (buf_length s) < 255"
  shows "line (s\<lparr>kmem := (kmem s)(buf_start s + ucast (buf_length s) := k), buf_length := buf_length s + 1\<rparr>) = line s @ [k]"
proof -
  let ?n = "unat (buf_length s)"
  have u: "unat (buf_length s + 1) = Suc ?n" using assms by (subst unat_add_lem [THEN iffD1]) auto
  have "(of_nat i :: u32) = ucast (buf_length s) \<longleftrightarrow> i = ?n" if "i < 256" for i
    using that unat_u8_less [of "buf_length s"]
    by (simp add: word_unat_eq_iff unat_of_nat take_bit_nat_eq_self unsigned_ucast_eq)
  then show ?thesis
    using assms by (auto simp: line_def u)
qed

lemma append_ok:
  "terminal_ok (s\<lparr>kmem := m, buf_length := n\<rparr>) = terminal_ok s" "console_ok (s\<lparr>kmem := m, buf_length := n\<rparr>) = console_ok s"
  "terminal_ok (s\<lparr>buf_length := n\<rparr>) = terminal_ok s"
  by (simp_all add: terminal_ok_def console_ok_def cursor_def)

lemma line_shorter:
  assumes "buf_length s \<noteq> 0"
  shows "line (s\<lparr>buf_length := buf_length s - 1\<rparr>) = butlast (line s)"
proof -
  have "unat (buf_length s) = Suc (unat (buf_length s - 1))" using assms by (simp add: unat_minus_one unat_gt_0)
  then show ?thesis by (simp add: line_def)
qed

lemma queue_cell:
  assumes "\<And>i. i < 4 \<Longrightarrow> \<not> in_page (buf_start s) (q + of_nat i)" and "heap_page (buf_start s)"
  shows "load32 ((kmem s)(buf_start s + ucast (n :: u8) := k)) q = load32 (kmem s) q"
proof (rule load32_local)
  fix i :: nat assume "i < 4"
  have "unat (buf_start s + ucast n) = unat (buf_start s) + unat n"
    using heap_page_range [OF assms(2)] unat_u8_less [of n]
    by (subst unat_add_lem [THEN iffD1]) (auto simp: unsigned_ucast_eq take_bit_nat_eq_self)
  then have "in_page (buf_start s) (buf_start s + ucast n)" using unat_u8_less [of n] by (simp add: in_page_def)
  then show "((kmem s)(buf_start s + ucast n := k)) (q + of_nat i) = kmem s (q + of_nat i)"
    using assms(1) [OF \<open>i < 4\<close>] by auto
qed

lemma enter_key:
  assumes ok: "terminal_ok s" and n: "unat (buf_length s) < 255" and wait: "queue_head s \<noteq> queue_tail s"
    and q: "\<And>i. i < 4 \<Longrightarrow> \<not> in_page (buf_start s) (queue_head s + of_nat i)"
  shows "line (fst (complete_buffer (s, sc))) = line s @ [0]"
    and "snd (complete_buffer (s, sc)) = unblock (load32 (kmem s) (queue_head s)) sc"
proof -
  let ?s = "s\<lparr>kmem := (kmem s)(buf_start s + ucast (buf_length s) := 0), buf_length := buf_length s + 1\<rparr>"
  let ?t = "?s\<lparr>queue_head := queue_head s + 4\<rparr>"
  have t: "terminal_ok ?t" using ok by (simp add: terminal_ok_def console_ok_def cursor_def)
  have "line ?t = line s @ [0]" using line_append [OF n, of 0] by (simp add: line_def)
  then show "line (fst (complete_buffer (s, sc))) = line s @ [0]"
    using line_kept [OF prints_only_newline t] t wait by (simp add: complete_buffer_def Let_def terminal_ok_def)
  show "snd (complete_buffer (s, sc)) = unblock (load32 (kmem s) (queue_head s)) sc"
    using wait queue_cell [OF q] ok by (simp add: complete_buffer_def Let_def terminal_ok_def)
qed

section \<open>Properties\<close>

text \<open>
  C17. Printing refines the text screen: from a state with the cursor on the screen and its two
  buffer pages apart, \<^verbatim>\<open>print\<close> acts on cursor and cells as putting the characters one by one,
  scrolling up by one line when the cursor leaves the screen, and the cursor never ends outside.
\<close>

theorem print_refines_screen:
  assumes "console_ok s"
  shows "view (print xs s) = foldl (put (screencolor s)) (view s) xs \<and> cursor (print xs s) < 2000"
  using print_refines [OF assms] by (simp add: console_ok_def)

lemma sample_terminal_ok: "terminal_ok sample_console" "console_ok sample_console" "cursor sample_console = 1999"
  by (simp_all add: sample_console_def terminal_ok_def console_ok_def cursor_def barrel_cursor.get_put heap_page_def page_aligned_def)

theorem print_refines_screen_witness: "cursor (print [0x42] sample_console) = 1920"
proof -
  have "view (print [0x42] sample_console) = put 0x60 (view sample_console) 0x42"
    using print_refines_screen [OF sample_terminal_ok(2), of "[0x42]"] by (simp add: sample_console_def)
  then show ?thesis by (simp add: view_def put_def scrolled_def sample_terminal_ok)
qed

lemma keybuffer_line:
  assumes "terminal_ok s" and "unat (buf_length s) < 255"
    and "\<And>i. i < 4 \<Longrightarrow> \<not> in_page (buf_start s) (queue_head s + of_nat i)"
  shows "line (fst (keybuffer key (s, sc))) =
      (if key = 0x08 then butlast (line s) else if key = 0x1B then []
       else if key = 0x0A then (if queue_head s = queue_tail s then line s else line s @ [0])
       else line s @ [key])
    \<and> snd (keybuffer key (s, sc)) =
      (if key = 0x0A \<and> queue_head s \<noteq> queue_tail s then unblock (load32 (kmem s) (queue_head s)) sc else sc)"
proof -
  consider "key = 0x08" "buf_length s = 0" | "key = 0x08" "buf_length s \<noteq> 0" | "key = 0x1B" | "key = 0x0A"
    | "key \<noteq> 0x08" "key \<noteq> 0x1B" "key \<noteq> 0x0A" by blast
  then show ?thesis
  proof cases
    case 1
    then show ?thesis by (simp add: keybuffer_def line_def)
  next
    case 2
    let ?s = "s\<lparr>buf_length := buf_length s - 1\<rparr>"
    let ?t = "cursor_to (fst (cursor_of ?s) - 1) (snd (cursor_of ?s))"
    let ?u = "snd (cursor_of ?t)"
    have "prints_only ?s (setpixel (fst (cursor_of ?t)) 0x20 (screencolor ?u) ?u)"
      using prints_only_trans [OF prints_only_trans [OF prints_only_trans [OF prints_only_cursor(2) prints_only_cursor(1)] prints_only_cursor(2)] prints_only_pixel] by blast
    from line_kept [OF this] assms(1) show ?thesis
      using 2 line_shorter [of s] by (simp add: keybuffer_def split_beta Let_def append_ok)
  next
    case 3
    have "line (clearscreen (s\<lparr>buf_length := 0\<rparr>)) = line (s\<lparr>buf_length := 0\<rparr>)"
      using assms(1) by (intro line_kept [OF prints_only_clear]) (simp add: append_ok)
    then show ?thesis using 3 by (simp add: keybuffer_def line_def)
  next
    case 4
    then show ?thesis
      using enter_key [OF assms(1,2) _ assms(3), of sc] by (auto simp: keybuffer_def) (auto simp: complete_buffer_def)
  next
    case 5
    let ?s = "s\<lparr>kmem := (kmem s)(buf_start s + ucast (buf_length s) := key), buf_length := buf_length s + 1\<rparr>"
    have "terminal_ok ?s" using assms(1) by (simp only: append_ok(1))
    then have "line (put_pixel key ?s) = line ?s" by (intro line_kept prints_only_put_pixel) (simp_all add: terminal_ok_def)
    then show ?thesis using 5 line_append [OF assms(2), of key] by (simp add: keybuffer_def Let_def)
  qed
qed

lemma sample_queue: "i < 4 \<Longrightarrow> \<not> in_page (buf_start sample_console) (queue_head sample_console + of_nat i)"
proof -
  assume "i < 4"
  then have "unat (0xc0401000 + of_nat i :: u32) = 0xc0401000 + i" by (simp add: unat_word_ariths unat_of_nat take_bit_eq_mod)
  then show ?thesis by (simp add: sample_console_def in_page_def)
qed



end
