(* ===== verification/Libc_Heap.thy ===== *)
theory Libc_Heap
  imports Libc_String
begin

text \<open>
  The heap of BarrelOS' C library (\<^verbatim>\<open>barrelOS/libc/init_libc.c\<close>, \<^verbatim>\<open>stdlib.c\<close>, \<^verbatim>\<open>stdlib.h\<close>) on the byte
  memory of a user process. A \<^verbatim>\<open>mem_block_t\<close> is twelve packed bytes: \<^verbatim>\<open>size\<close>, \<^verbatim>\<open>fd\<close>, \<^verbatim>\<open>bk\<close>. System
  calls are recorded in the order they are made; the result of \<^verbatim>\<open>mmap\<close> is an argument.
  The lemmas show that \<^verbatim>\<open>malloc\<close> is a first-fit allocator on the chain of blocks and that \<^verbatim>\<open>free\<close>
  gives a block back.
\<close>

section \<open>Process state\<close>

datatype syscall = Open "u8 list" u8 | Write u8 "u8 list" u32 | Read u32 u32 u8 | Mmap u32 u32 u8 | Fork | Exec "u8 list" | Exit u32

record libc =
  umem :: "32 mem"
  heap :: u32
  calls :: "syscall list"

definition sys :: "syscall \<Rightarrow> libc \<Rightarrow> libc" where
  "sys c s = s\<lparr>calls := calls s @ [c]\<rparr>"

abbreviation (input) HEAP_SIZE :: u32 where "HEAP_SIZE \<equiv> 40960"

section \<open>Memory blocks\<close>

definition block_size :: "32 mem \<Rightarrow> u32 \<Rightarrow> u32" where
  "block_size m b = load32 m b"

definition block_fd :: "32 mem \<Rightarrow> u32 \<Rightarrow> u32" where
  "block_fd m b = load32 m (b + 4)"

definition set_size :: "u32 \<Rightarrow> u32 \<Rightarrow> 32 mem \<Rightarrow> 32 mem" where
  "set_size b v m = store32 m b v"

definition set_fd :: "u32 \<Rightarrow> u32 \<Rightarrow> 32 mem \<Rightarrow> 32 mem" where
  "set_fd b v m = store32 m (b + 4) v"

definition set_bk :: "u32 \<Rightarrow> u32 \<Rightarrow> 32 mem \<Rightarrow> 32 mem" where
  "set_bk b v m = store32 m (b + 8) v"

section \<open>Operations\<close>

definition init_libc :: "u32 \<Rightarrow> libc \<Rightarrow> libc" where
  "init_libc mmap_result s =
     (let s = sys (Open (ascii ''/dev/tty'') 0x1) s;
          s = sys (Open (ascii ''/dev/tty'') 0x2) s;
          s = sys (Open (ascii ''/dev/tty'') 0x2) s;
          s = sys (Mmap 0 HEAP_SIZE 0) s;
          s = s\<lparr>heap := mmap_result\<rparr>;
          block = heap s
      in s\<lparr>umem := set_bk block 0 (set_fd block 0 (set_size block HEAP_SIZE (umem s)))\<rparr>)"

definition exit :: "u32 \<Rightarrow> libc \<Rightarrow> libc" where
  "exit status s = sys (Exit status) s"

definition round4 :: "u32 \<Rightarrow> u32" where
  "round4 sz = sz + (if sz mod 4 = 0 then 0 else 4 - sz mod 4)"

text \<open>The search for a block; \<open>None\<close> when the links form a cycle of unsuitable blocks.\<close>

partial_function (option) find_block :: "32 mem \<Rightarrow> u32 \<Rightarrow> u32 \<Rightarrow> u32 outcome option" where
  "find_block m sz block =
     (if block_size m block AND 1 = 1 \<or> block_size m block < sz
      then let block = block_fd m block in
           if block = 0 then Some (Halt (Spin ''malloc: out of memory''))
           else find_block m sz block
      else Some (Ok block))"

definition split_block :: "u32 \<Rightarrow> u32 \<Rightarrow> 32 mem \<Rightarrow> 32 mem" where
  "split_block block sz m =
     (let split = block + 12 + sz;
          m = set_size split (block_size m block - sz - 12) m;
          m = set_size split (block_size m split AND 0xFFFFFFFC) m;
          m = set_size block sz m;
          m = set_bk split block m;
          m = set_fd split (block_fd m block) m
      in set_fd block split m)"

definition malloc :: "u32 \<Rightarrow> libc \<Rightarrow> (u32 \<times> libc) outcome option" where
  "malloc sz s =
     (let sz = round4 sz in
      map_option (\<lambda>r. bind_ok r (\<lambda>block.
        let m = umem s;
            m = (if sz < block_size m block div 2 then split_block block sz m else m);
            m = set_size block (block_size m block OR 1) m
        in Ok (block + 12, s\<lparr>umem := m\<rparr>))) (find_block (umem s) sz (heap s)))"

definition free :: "u32 \<Rightarrow> libc \<Rightarrow> libc" where
  "free ptr s =
     (let block = ptr - 12
      in s\<lparr>umem := set_size block (block_size (umem s) block AND 0xFFFFFFFE) (umem s)\<rparr>)"

section \<open>Specification\<close>

text \<open>The chain of blocks from an address on: sizes and used marks, laid out without gaps.\<close>

fun chain :: "32 mem \<Rightarrow> nat \<Rightarrow> (nat \<times> bool) list \<Rightarrow> bool" where
  "chain m a [] \<longleftrightarrow> False"
| "chain m a ((n, u) # bs) \<longleftrightarrow> 4 dvd n \<and> a + 12 + n < 2 ^ 32
     \<and> block_size m (of_nat a) = of_nat n + (if u then 1 else 0)
     \<and> block_fd m (of_nat a) = (if bs = [] then 0 else of_nat (a + 12 + n))
     \<and> (bs \<noteq> [] \<longrightarrow> chain m (a + 12 + n) bs)"

text \<open>First fit on the list of blocks: the offset of the memory given out, and the blocks after.\<close>

fun first_fit :: "nat \<Rightarrow> (nat \<times> bool) list \<Rightarrow> (nat \<times> (nat \<times> bool) list) option" where
  "first_fit n [] = None"
| "first_fit n ((k, u) # bs) =
     (if \<not> u \<and> n \<le> k
      then Some (12, if n < k div 2 then (n, True) # (k - n - 12, False) # bs else (k, True) # bs)
      else map_option (\<lambda>(off, bs'). (12 + k + off, (k, u) # bs')) (first_fit n bs))"

text \<open>The memory handed out: offset and length of the used blocks.\<close>

fun live :: "nat \<Rightarrow> (nat \<times> bool) list \<Rightarrow> (nat \<times> nat) list" where
  "live a [] = []"
| "live a ((n, u) # bs) = (if u then [(a + 12, n)] else []) @ live (a + 12 + n) bs"

definition extent :: "(nat \<times> bool) list \<Rightarrow> nat" where
  "extent bs = sum_list (map (\<lambda>b. 12 + fst b) bs)"

section \<open>Specification\<close>

text \<open>What \<^verbatim>\<open>malloc\<close> does to memory once the block is found.\<close>

definition take_block :: "u32 \<Rightarrow> u32 \<Rightarrow> 32 mem \<Rightarrow> 32 mem" where
  "take_block block sz m =
     (let m = (if sz < block_size m block div 2 then split_block block sz m else m)
      in set_size block (block_size m block OR 1) m)"

definition sample_libc :: libc where
  "sample_libc = init_libc 0x10000000 \<lparr>umem = (\<lambda>_. 0), heap = 0, calls = []\<rparr>"

section \<open>Cells by number\<close>

lemma unat_nat_addr: "a < 2 ^ 32 \<Longrightarrow> unat (of_nat a :: u32) = a"
  by (simp add: unat_of_nat take_bit_nat_eq_self)

lemma nat_addr_eq_iff: "a < 2 ^ 32 \<Longrightarrow> b < 2 ^ 32 \<Longrightarrow> (of_nat a :: u32) = of_nat b \<longleftrightarrow> a = b"
  by (metis unat_nat_addr)

lemma store32_outside:
  fixes m :: "32 mem"
  assumes "a + 4 \<le> 2 ^ 32" and "unat x < a \<or> a + 4 \<le> unat x"
  shows "store32 m (of_nat a) v x = m x"
proof (rule store32_frame)
  fix i :: nat assume "i < 4"
  then have "unat (of_nat a + of_nat i :: u32) = a + i"
    using assms(1) by (simp only: of_nat_add [symmetric]) (rule unat_nat_addr, simp)
  with \<open>i < 4\<close> assms(2) show "x \<noteq> of_nat a + of_nat i" by auto
qed

lemma load32_store32_nat:
  fixes m :: "32 mem"
  assumes "a + 4 \<le> 2 ^ 32" "b + 4 \<le> 2 ^ 32" and "b = a \<or> a + 4 \<le> b \<or> b + 4 \<le> a"
  shows "load32 (store32 m (of_nat a) v) (of_nat b) = (if b = a then v else load32 m (of_nat b))"
proof (cases "b = a")
  case False
  have "load32 (store32 m (of_nat a) v) (of_nat b) = load32 m (of_nat b)"
  proof (rule load32_local)
    fix i :: nat assume i: "i < 4"
    then have "unat (of_nat b + of_nat i :: u32) = b + i"
      using assms(2) by (simp only: of_nat_add [symmetric]) (rule unat_nat_addr, simp)
    then show "store32 m (of_nat a) v (of_nat b + of_nat i) = m (of_nat b + of_nat i)"
      using i assms False by (intro store32_outside) auto
  qed
  then show ?thesis using False by simp
qed (simp add: load32_store32_same)

lemma load32_cong_nat:
  fixes m m' :: "32 mem"
  assumes "b + 4 \<le> 2 ^ 32" and "\<And>x. b \<le> unat x \<Longrightarrow> unat x < b + 4 \<Longrightarrow> m x = m' x"
  shows "load32 m (of_nat b) = load32 m' (of_nat b)"
proof (rule load32_local)
  fix i :: nat assume i: "i < 4"
  then have "unat (of_nat b + of_nat i :: u32) = b + i"
    using assms(1) by (simp only: of_nat_add [symmetric]) (rule unat_nat_addr, simp)
  then show "m (of_nat b + of_nat i) = m' (of_nat b + of_nat i)" using i by (intro assms(2)) auto
qed

section \<open>The chain of blocks\<close>

lemma extent_simps [simp]: "extent [] = 0" "extent (b # bs) = 12 + fst b + extent bs"
  by (simp_all add: extent_def)

lemma chain_extent: "chain m a bs \<Longrightarrow> a + extent bs < 2 ^ 32"
proof (induction bs arbitrary: a)
  case (Cons b bs)
  obtain n u where b: "b = (n, u)" by force
  show ?case
  proof (cases "bs = []")
    case True
    then show ?thesis using Cons.prems b by simp
  next
    case False
    then have "a + 12 + n + extent bs < 2 ^ 32" using Cons.prems b by (intro Cons.IH) simp
    then show ?thesis by (simp add: b)
  qed
qed simp

lemma chain_frame:
  assumes "chain m a bs" and "\<And>x. a \<le> unat x \<Longrightarrow> unat x < a + extent bs \<Longrightarrow> m' x = m x"
  shows "chain m' a bs"
  using assms
proof (induction bs arbitrary: a)
  case (Cons b bs)
  obtain n u where b: "b = (n, u)" by force
  have room: "a + 12 + n < 2 ^ 32" using Cons.prems(1) b by simp
  have "load32 m' (of_nat a) = load32 m (of_nat a)"
    using room Cons.prems(2) by (intro load32_cong_nat) (auto simp: b)
  moreover have "load32 m' (of_nat (a + 4)) = load32 m (of_nat (a + 4))"
    using room Cons.prems(2) by (intro load32_cong_nat) (auto simp: b)
  moreover have "chain m' (a + 12 + n) bs" if "bs \<noteq> []"
  proof (rule Cons.IH)
    show "chain m (a + 12 + n) bs" using Cons.prems(1) that b by simp
    show "m' x = m x" if "a + 12 + n \<le> unat x" "unat x < a + 12 + n + extent bs" for x
      using that by (intro Cons.prems(2)) (auto simp: b)
  qed
  ultimately show ?case using Cons.prems(1) by (simp add: b block_size_def block_fd_def)
qed simp

lemma used_bit:
  assumes "4 dvd n" and "n < 2 ^ 32"
  shows "(of_nat n + (if u then 1 else 0) :: u32) AND 1 = (if u then 1 else 0)"
    and "(of_nat n :: u32) OR 1 = of_nat n + 1"
    and "(of_nat n + 1 :: u32) AND 0xFFFFFFFE = of_nat n"
    and "(of_nat n :: u32) AND 0xFFFFFFFC = of_nat n"
    and "(of_nat n :: u32) AND 0xFFFFFFFE = of_nat n"
proof -
  obtain q where q: "n = 4 * q" using assms(1) by (rule dvdE)
  have w: "(of_nat n :: u32) = push_bit 2 (of_nat q)" by (simp add: q push_bit_eq_mult)
  have b: "\<not> bit (of_nat n :: u32) 0" "\<not> bit (of_nat n :: u32) 1" by (simp_all add: w bit_push_bit_iff)
  have one: "(of_nat n :: u32) + 1 = of_nat n OR 1"
    by (rule disjunctive_add) (use b in \<open>auto simp: bit_1_iff intro!: gr0I\<close>)
  show "(of_nat n :: u32) OR 1 = of_nat n + 1" by (simp add: one)
  have m: "(0xFFFFFFFE :: u32) = NOT 1" "(0xFFFFFFFC :: u32) = NOT (mask 2)" by (simp_all add: mask_numeral)
  have b01: "\<not> bit (of_nat n :: u32) k" if "k < 2" for k using that b by (auto simp: less_2_cases_iff)
  show "(of_nat n :: u32) AND 0xFFFFFFFC = of_nat n"
    unfolding m by (rule bit_word_eqI) (use b01 in \<open>auto simp: bit_simps\<close>)
  show "(of_nat n :: u32) AND 0xFFFFFFFE = of_nat n"
    unfolding m by (rule bit_word_eqI) (use b in \<open>auto simp: bit_simps bit_1_iff intro!: gr0I\<close>)
  show "(of_nat n + 1 :: u32) AND 0xFFFFFFFE = of_nat n"
    unfolding m one by (rule bit_word_eqI) (use b in \<open>auto simp: bit_simps bit_1_iff intro!: gr0I\<close>)
  show "(of_nat n + (if u then 1 else 0) :: u32) AND 1 = (if u then 1 else 0)"
  proof (cases u)
    case True
    have "(of_nat n OR 1 :: u32) AND 1 = 1" by (rule bit_word_eqI) (auto simp: bit_simps bit_1_iff)
    then show ?thesis using True one by simp
  next
    case False
    have "(of_nat n :: u32) AND 1 = 0" by (rule bit_word_eqI) (use b in \<open>auto simp: bit_simps bit_1_iff intro!: gr0I\<close>)
    then show ?thesis using False by simp
  qed
qed

lemma find_block_first_fit:
  assumes "chain m a bs" and "n < 2 ^ 32"
  shows "find_block m (of_nat n) (of_nat a) =
    Some (case first_fit n bs of None \<Rightarrow> Halt (Spin ''malloc: out of memory'') | Some (off, _) \<Rightarrow> Ok (of_nat (a + off - 12)))"
  using assms(1)
proof (induction bs arbitrary: a)
  case (Cons b bs)
  obtain k u where b: "b = (k, u)" by force
  have k: "4 dvd k" "k < 2 ^ 32" using Cons.prems b by auto
  have size: "block_size m (of_nat a) = of_nat k + (if u then 1 else 0)" using Cons.prems b by simp
  have fd: "block_fd m (of_nat a) = (if bs = [] then 0 else of_nat (a + 12 + k))" using Cons.prems b by simp
  have less: "(of_nat k :: u32) < of_nat n \<longleftrightarrow> k < n"
    using k(2) assms(2) by (simp only: word_less_nat_alt unat_nat_addr)
  have skip: "block_size m (of_nat a) AND 1 = 1 \<or> block_size m (of_nat a) < of_nat n \<longleftrightarrow> u \<or> k < n"
    unfolding size used_bit(1) [OF k] by (cases u) (simp_all add: less)
  show ?case
  proof (cases "\<not> u \<and> n \<le> k")
    case True
    then show ?thesis using skip by (subst find_block.simps) (simp add: b)
  next
    case no: False
    show ?thesis
    proof (cases "bs = []")
      case True
      then show ?thesis using no skip fd by (subst find_block.simps) (auto simp: b Let_def)
    next
      case False
      then have room: "a + 12 + k < 2 ^ 32" "chain m (a + 12 + k) bs" using Cons.prems b by auto
      have "(of_nat (a + 12 + k) :: u32) \<noteq> 0"
        using room(1) nat_addr_eq_iff [of "a + 12 + k" 0] by simp
      then have "find_block m (of_nat n) (of_nat a) = find_block m (of_nat n) (of_nat (a + 12 + k))"
        using no skip fd False by (subst find_block.simps) (auto simp: Let_def)
      also note Cons.IH [OF room(2)]
      finally show ?thesis using no by (auto simp: b split: option.splits)
    qed
  qed
qed simp

section \<open>Taking a block\<close>

lemma malloc_take_block:
  "malloc sz s = map_option (\<lambda>r. bind_ok r (\<lambda>b. Ok (b + 12, s\<lparr>umem := take_block b (round4 sz) (umem s)\<rparr>)))
     (find_block (umem s) (round4 sz) (heap s))"
  by (simp add: malloc_def take_block_def Let_def)

lemma split_fits: "n < k div 2 \<Longrightarrow> 4 dvd n \<Longrightarrow> 4 dvd k \<Longrightarrow> 8 \<le> n \<Longrightarrow> n + 12 \<le> k" for n k :: nat
  by presburger

lemma split_block_nat:
  assumes "a + 12 + k < 2 ^ 32" and "n + 12 \<le> k" and "4 dvd k" "4 dvd n"
    and "load32 m (of_nat a) = of_nat k"
  shows "split_block (of_nat a) (of_nat n) m =
    (let s = a + 12 + n;
         m1 = store32 (store32 m (of_nat s) (of_nat (k - n - 12))) (of_nat s) (of_nat (k - n - 12));
         m2 = store32 (store32 m1 (of_nat a) (of_nat n)) (of_nat (s + 8)) (of_nat a)
     in store32 (store32 m2 (of_nat (s + 4)) (load32 m (of_nat (a + 4)))) (of_nat (a + 4)) (of_nat s))"
proof -
  have s: "(of_nat a + 12 + of_nat n :: u32) = of_nat (a + 12 + n)" by simp
  have d: "(of_nat k - of_nat n - 12 :: u32) = of_nat (k - n - 12)" using assms(2) by (simp add: of_nat_diff)
  have dvd: "4 dvd (k - n - 12)" using assms(3,4) by (simp add: dvd_diff_nat)
  have msk: "(of_nat (k - n - 12) :: u32) AND 0xFFFFFFFC = of_nat (k - n - 12)"
    using assms(1) by (intro used_bit(4) [OF dvd]) simp
  have p: "(of_nat x + 4 :: u32) = of_nat (x + 4)" "(of_nat x + 8 :: u32) = of_nat (x + 8)" for x by simp_all
  have l4: "load32 (store32 (store32 (store32 (store32 m (of_nat (a + 12 + n)) v1) (of_nat (a + 12 + n)) v1) (of_nat a) v2) (of_nat (a + 12 + n + 8)) v3) (of_nat (a + 4))
      = load32 m (of_nat (a + 4))" for v1 v2 v3
    using assms(1,2) by (simp add: load32_store32_nat del: of_nat_add)
  show ?thesis
    unfolding split_block_def set_size_def set_fd_def set_bk_def block_size_def block_fd_def Let_def
    by (simp only: s assms(5) d load32_store32_same msk p l4)
qed

lemma take_block_head:
  assumes c: "chain m a ((k, False) # bs)" and n: "n \<le> k" "8 \<le> n" "4 dvd n"
  shows "chain (take_block (of_nat a) (of_nat n) m) a
      (if n < k div 2 then (n, True) # (k - n - 12, False) # bs else (k, True) # bs)"
    and "unat x < a \<or> a + 12 + k \<le> unat x \<Longrightarrow> take_block (of_nat a) (of_nat n) m x = m x"
    and "a + 12 \<le> unat x \<Longrightarrow> unat x < a + 12 + n \<Longrightarrow> take_block (of_nat a) (of_nat n) m x = m x"
proof -
  have room: "a + 12 + k < 2 ^ 32" "4 dvd k" and k: "load32 m (of_nat a) = of_nat k"
    and fd: "load32 m (of_nat (a + 4)) = (if bs = [] then 0 else of_nat (a + 12 + k))"
    and tail: "bs \<noteq> [] \<Longrightarrow> chain m (a + 12 + k) bs"
    using c by (simp_all add: block_size_def block_fd_def)
  have half: "(of_nat n :: u32) < of_nat k div 2 \<longleftrightarrow> n < k div 2"
    using room(1) n(1) by (simp add: word_less_nat_alt unat_div unat_nat_addr)
  let ?m' = "take_block (of_nat a) (of_nat n) m"
  have "chain ?m' a (if n < k div 2 then (n, True) # (k - n - 12, False) # bs else (k, True) # bs) \<and>
    (unat x < a \<or> a + 12 + k \<le> unat x \<longrightarrow> ?m' x = m x) \<and> (a + 12 \<le> unat x \<and> unat x < a + 12 + n \<longrightarrow> ?m' x = m x)" for x
  proof (cases "n < k div 2")
    case True
    have fit: "n + 12 \<le> k" using split_fits [OF True n(3) room(2) n(2)] .
    have s: "n < 2 ^ 32" using room(1) fit by simp
    have dvd: "4 dvd (k - n - 12)" using room(2) n(3) by (simp add: dvd_diff_nat)
    note sp = split_block_nat [OF room(1) fit room(2) n(3) k, unfolded Let_def]
    have m': "?m' = store32 (split_block (of_nat a) (of_nat n) m) (of_nat a) (of_nat n + 1)"
      using True room(1) fit
      by (simp add: take_block_def block_size_def set_size_def k half sp Let_def load32_store32_nat used_bit(2) [OF n(3) s] del: of_nat_add)
    have frame: "?m' x = m x" if "unat x < a \<or> (a + 8 \<le> unat x \<and> unat x < a + 12 + n) \<or> a + 24 + n \<le> unat x" for x
      unfolding m' sp using room(1) fit that
      by (elim disjE conjE) (simp_all add: store32_outside del: of_nat_add)
    have "chain ?m' (a + 12 + k) bs" if "bs \<noteq> []"
      by (rule chain_frame [OF tail [OF that]]) (intro frame, use fit in auto)
    moreover have "load32 ?m' (of_nat a) = of_nat n + 1" by (simp add: m' load32_store32_same)
    moreover have "load32 ?m' (of_nat (a + 4)) = of_nat (a + 12 + n)" "load32 ?m' (of_nat (a + 12 + n)) = of_nat (k - n - 12)"
        "load32 ?m' (of_nat (a + 12 + n + 4)) = load32 m (of_nat (a + 4))"
      unfolding m' sp using room(1) fit by (simp_all add: load32_store32_nat del: of_nat_add)
    ultimately have "chain ?m' a ((n, True) # (k - n - 12, False) # bs)"
      using room fit n(3) dvd fd by (simp add: block_size_def block_fd_def add.assoc)
    with True frame fit show ?thesis by auto
  next
    case False
    have m': "?m' = store32 m (of_nat a) (of_nat k + 1)"
      using False room by (simp add: take_block_def block_size_def set_size_def k half Let_def used_bit(2))
    have frame: "?m' x = m x" if "unat x < a \<or> a + 4 \<le> unat x" for x
      unfolding m' using room(1) that by (intro store32_outside) simp_all
    have "chain ?m' (a + 12 + k) bs" if "bs \<noteq> []"
      by (rule chain_frame [OF tail [OF that]]) (intro frame, auto)
    moreover have "load32 ?m' (of_nat a) = of_nat k + 1" by (simp add: m' load32_store32_same)
    moreover have "load32 ?m' (of_nat (a + 4)) = load32 m (of_nat (a + 4))"
      unfolding m' using room(1) by (simp add: load32_store32_nat del: of_nat_add)
    ultimately have "chain ?m' a ((k, True) # bs)"
      using room fd by (simp add: block_size_def block_fd_def)
    with False frame show ?thesis by auto
  qed
  note r = this
  show "chain ?m' a (if n < k div 2 then (n, True) # (k - n - 12, False) # bs else (k, True) # bs)" using r by blast
  show "unat x < a \<or> a + 12 + k \<le> unat x \<Longrightarrow> ?m' x = m x" using r by blast
  show "a + 12 \<le> unat x \<Longrightarrow> unat x < a + 12 + n \<Longrightarrow> ?m' x = m x" using r by blast
qed

section \<open>Allocation on the whole chain\<close>

lemma first_fit_offset: "first_fit n bs = Some (off, bs') \<Longrightarrow> 12 \<le> off \<and> off + n \<le> extent bs"
  by (induction bs arbitrary: off bs') (force split: if_splits)+

lemma live_above: "(p, k) \<in> set (live a bs) \<Longrightarrow> a + 12 \<le> p \<and> p + k \<le> a + extent bs"
  by (induction bs arbitrary: a) (force split: if_splits)+

lemma chain_dvd: "chain m a bs \<Longrightarrow> \<forall>b \<in> set bs. 4 dvd fst b"
proof (induction bs arbitrary: a)
  case (Cons b bs)
  obtain k u where "b = (k, u)" by force
  then show ?case using Cons by (cases "bs = []") auto
qed simp

lemma first_fit_live:
  assumes "first_fit n bs = Some (off, bs')" and "\<forall>b \<in> set bs. 4 dvd fst b" and n: "8 \<le> n" "4 dvd n"
  shows "extent bs' = extent bs
    \<and> (\<exists>k \<ge> n. \<forall>r. r \<in> set (live a bs') \<longleftrightarrow> r = (a + off, k) \<or> r \<in> set (live a bs))
    \<and> (\<forall>(p, k) \<in> set (live a bs). p + k + 12 \<le> a + off \<or> a + off + n \<le> p)"
  using assms(1,2)
proof (induction bs arbitrary: a off bs')
  case (Cons b bs)
  obtain k u where b: "b = (k, u)" by force
  show ?case
  proof (cases "\<not> u \<and> n \<le> k")
    case True
    then have off: "off = 12" and bs': "bs' = (if n < k div 2 then (n, True) # (k - n - 12, False) # bs else (k, True) # bs)"
      using Cons.prems(1) by (simp_all add: b)
    have fit: "n + 12 \<le> k" if "n < k div 2" using split_fits [OF that n(2) _ n(1)] Cons.prems(2) by (simp add: b)
    have "extent bs' = extent (b # bs)" using fit by (simp add: bs' b)
    moreover have "\<exists>l \<ge> n. \<forall>r. r \<in> set (live a bs') \<longleftrightarrow> r = (a + off, l) \<or> r \<in> set (live a (b # bs))"
      using True fit by (intro exI [of _ "if n < k div 2 then n else k"]) (auto simp: bs' b off add.assoc)
    moreover have "a + off + n \<le> p" if "(p, q) \<in> set (live a (b # bs))" for p q
      using live_above [of p q "a + 12 + k" bs] that True by (simp add: b off)
    ultimately show ?thesis by blast
  next
    case False
    then obtain o1 bs1 where r: "first_fit n bs = Some (o1, bs1)" and off: "off = 12 + k + o1" and bs': "bs' = (k, u) # bs1"
      using Cons.prems(1) by (auto simp: b)
    have ih: "extent bs1 = extent bs
      \<and> (\<exists>l \<ge> n. \<forall>r. r \<in> set (live (a + 12 + k) bs1) \<longleftrightarrow> r = (a + 12 + k + o1, l) \<or> r \<in> set (live (a + 12 + k) bs))
      \<and> (\<forall>(p, q) \<in> set (live (a + 12 + k) bs). p + q + 12 \<le> a + 12 + k + o1 \<or> a + 12 + k + o1 + n \<le> p)"
      using Cons.prems(2) by (intro Cons.IH [OF r]) auto
    have low: "12 \<le> o1" using first_fit_offset [OF r] by simp
    have "\<exists>l \<ge> n. \<forall>r. r \<in> set (live a bs') \<longleftrightarrow> r = (a + off, l) \<or> r \<in> set (live a (b # bs))"
    proof -
      obtain l where "l \<ge> n" "\<And>r. r \<in> set (live (a + 12 + k) bs1) \<longleftrightarrow> r = (a + 12 + k + o1, l) \<or> r \<in> set (live (a + 12 + k) bs)"
        using ih by blast
      then show ?thesis by (intro exI [of _ l]) (auto simp: bs' b off add.assoc)
    qed
    moreover have "\<forall>(p, q) \<in> set (live a (b # bs)). p + q + 12 \<le> a + off \<or> a + off + n \<le> p"
      using ih low by (fastforce simp: b off)
    ultimately show ?thesis using ih by (simp add: bs' b)
  qed
qed simp

lemma take_block_chain:
  assumes "chain m a bs" and "first_fit n bs = Some (off, bs')" and n: "8 \<le> n" "4 dvd n"
  shows "chain (take_block (of_nat (a + off - 12)) (of_nat n) m) a bs'
    \<and> (\<forall>x. (unat x < a \<or> a + extent bs \<le> unat x \<or> (\<exists>(p, k) \<in> set (live a bs). p \<le> unat x \<and> unat x < p + k)) \<longrightarrow>
         take_block (of_nat (a + off - 12)) (of_nat n) m x = m x)"
  using assms(1,2)
proof (induction bs arbitrary: a off bs')
  case (Cons b bs)
  obtain k u where b: "b = (k, u)" by force
  have room: "a + 12 + k < 2 ^ 32" using Cons.prems(1) b by simp
  show ?case
  proof (cases "\<not> u \<and> n \<le> k")
    case True
    then have off: "off = 12" and bs': "bs' = (if n < k div 2 then (n, True) # (k - n - 12, False) # bs else (k, True) # bs)"
      using Cons.prems(2) by (simp_all add: b)
    have c: "chain m a ((k, False) # bs)" using Cons.prems(1) True b by simp
    note h = take_block_head [OF c _ n]
    have "unat x < a \<or> a + 12 + k \<le> unat x"
      if "unat x < a \<or> a + extent (b # bs) \<le> unat x \<or> (\<exists>(p, q) \<in> set (live a (b # bs)). p \<le> unat x \<and> unat x < p + q)" for x :: u32
      using that True live_above [of _ _ "a + 12 + k" bs] by (fastforce simp: b)
    then show ?thesis using h True by (simp add: off bs')
  next
    case False
    then obtain o1 bs1 where r: "first_fit n bs = Some (o1, bs1)" and off: "off = 12 + k + o1" and bs': "bs' = (k, u) # bs1"
      using Cons.prems(2) by (auto simp: b)
    then have "bs \<noteq> []" by auto
    then have c: "chain m (a + 12 + k) bs" using Cons.prems(1) b by simp
    have addr: "a + 12 + k + o1 - 12 = a + off - 12" by (simp add: off)
    define m' where "m' = take_block (of_nat (a + off - 12)) (of_nat n) m"
    note ih = Cons.IH [OF c r, unfolded addr, folded m'_def]
    have hd: "m' x = m x" if "unat x < a + 12 + k" for x using ih that by blast
    have "bs1 \<noteq> []" using ih by auto
    moreover have "load32 m' (of_nat a) = load32 m (of_nat a)" using room by (intro load32_cong_nat hd) simp_all
    moreover have "load32 m' (of_nat (a + 4)) = load32 m (of_nat (a + 4))" using room by (intro load32_cong_nat hd) simp_all
    ultimately have "chain m' a bs'"
      using Cons.prems(1) ih \<open>bs \<noteq> []\<close> by (simp add: bs' b block_size_def block_fd_def)
    moreover have "m' x = m x"
      if "unat x < a \<or> a + extent (b # bs) \<le> unat x \<or> (\<exists>(p, q) \<in> set (live a (b # bs)). p \<le> unat x \<and> unat x < p + q)" for x
    proof -
      have "unat x < a + 12 + k \<or> a + 12 + k + extent bs \<le> unat x \<or> (\<exists>(p, q) \<in> set (live (a + 12 + k) bs). p \<le> unat x \<and> unat x < p + q)"
        using that by (auto simp: b split: if_splits)
      then show ?thesis using ih by blast
    qed
    ultimately show ?thesis unfolding m'_def by blast
  qed
qed simp

lemma round4_nat:
  assumes "unat sz + 4 \<le> 2 ^ 32"
  shows "round4 sz = of_nat (4 * ((unat sz + 3) div 4))"
proof -
  let ?n = "unat sz"
  have m: "unat (sz mod 4) = ?n mod 4" by (simp add: unat_mod)
  show ?thesis
  proof (cases "?n mod 4 = 0")
    case True
    then have "sz mod 4 = 0" using m by (simp add: word_unat_eq_iff)
    moreover have "4 * ((?n + 3) div 4) = ?n" using True by presburger
    ultimately show ?thesis by (simp add: round4_def)
  next
    case False
    then have z: "sz mod 4 \<noteq> 0" using m by (metis unat_0)
    have "unat (sz mod 4) \<le> 4" using m by simp
    then have "4 - sz mod 4 = of_nat (4 - ?n mod 4)" by (simp add: of_nat_diff flip: m)
    then have "round4 sz = of_nat (?n + (4 - ?n mod 4))" using z by (simp add: round4_def)
    moreover have "?n + (4 - ?n mod 4) = 4 * ((?n + 3) div 4)" using False by presburger
    ultimately show ?thesis by simp
  qed
qed

lemma malloc_chain:
  assumes c: "chain (umem s) (unat (heap s)) bs" and sz: "4 < unat sz" "unat sz + 4 \<le> 2 ^ 32"
  defines "n \<equiv> 4 * ((unat sz + 3) div 4)"
  shows "first_fit n bs = None \<Longrightarrow> malloc sz s = Some (Halt (Spin ''malloc: out of memory''))"
    and "first_fit n bs = Some (off, bs') \<Longrightarrow>
      malloc sz s = Some (Ok (heap s + of_nat off, s\<lparr>umem := take_block (of_nat (unat (heap s) + off - 12)) (of_nat n) (umem s)\<rparr>))"
proof -
  have n: "n < 2 ^ 32" "round4 sz = of_nat n" using sz round4_nat [OF sz(2)] by (auto simp: n_def)
  have h: "(of_nat (unat (heap s)) :: u32) = heap s" by simp
  note f = find_block_first_fit [OF c n(1), unfolded h]
  show "first_fit n bs = None \<Longrightarrow> malloc sz s = Some (Halt (Spin ''malloc: out of memory''))"
    by (simp add: malloc_take_block n(2) f)
  assume r: "first_fit n bs = Some (off, bs')"
  have "(of_nat (unat (heap s) + off - 12) :: u32) + 12 = heap s + of_nat off"
    using first_fit_offset [OF r] by (simp add: of_nat_diff)
  then show "malloc sz s = Some (Ok (heap s + of_nat off, s\<lparr>umem := take_block (of_nat (unat (heap s) + off - 12)) (of_nat n) (umem s)\<rparr>))"
    by (simp add: malloc_take_block n(2) f r)
qed

section \<open>Giving a block back\<close>

lemma free_chain:
  assumes "chain m a bs" and "i < length bs" and "bs ! i = (k, True)"
    and p: "p = a + extent (take i bs)"
  shows "chain (store32 m (of_nat p) (load32 m (of_nat p) AND 0xFFFFFFFE)) a (bs[i := (k, False)])"
  using assms
proof (induction bs arbitrary: a i)
  case (Cons b bs)
  obtain n u where b: "b = (n, u)" by force
  let ?m' = "store32 m (of_nat p) (load32 m (of_nat p) AND 0xFFFFFFFE)"
  have room: "a + 12 + n < 2 ^ 32" "4 dvd n" using Cons.prems(1) b by auto
  show ?case
  proof (cases i)
    case 0
    have p: "p = a" using Cons.prems(4) by (simp add: 0)
    have "chain ?m' (a + 12 + n) bs" if "bs \<noteq> []"
    proof (rule chain_frame)
      show "chain m (a + 12 + n) bs" using Cons.prems(1) that by (simp add: b)
      show "?m' x = m x" if "a + 12 + n \<le> unat x" for x
        unfolding p using room that by (intro store32_outside) simp_all
    qed
    moreover have "load32 ?m' (of_nat (a + 4)) = load32 m (of_nat (a + 4))"
      unfolding p using room by (simp add: load32_store32_nat del: of_nat_add)
    moreover have "load32 ?m' (of_nat a) = of_nat n"
    proof -
      have "load32 m (of_nat a) = of_nat n + 1" using Cons.prems(1,3) by (simp add: 0 b block_size_def)
      then show ?thesis unfolding p load32_store32_same using room by (simp add: used_bit(3))
    qed
    ultimately show ?thesis using Cons.prems(1,3) by (simp add: 0 b block_size_def block_fd_def)
  next
    case (Suc j)
    then have "bs \<noteq> []" using Cons.prems(2) by auto
    then have c: "chain m (a + 12 + n) bs" using Cons.prems(1) b by simp
    have p: "p = a + 12 + n + extent (take j bs)" using Cons.prems(4) by (simp add: Suc b)
    have "extent bs = extent (take j bs) + extent (drop j bs)"
      by (metis append_take_drop_id extent_def map_append sum_list_append)
    moreover have "drop j bs \<noteq> []" using Cons.prems(2) Suc by simp
    then have "12 \<le> extent (drop j bs)" by (cases "drop j bs") auto
    ultimately have "p + 4 \<le> 2 ^ 32" using chain_extent [OF c] p by simp
    then have "load32 ?m' (of_nat a) = load32 m (of_nat a)" "load32 ?m' (of_nat (a + 4)) = load32 m (of_nat (a + 4))"
      using room p by (simp_all add: load32_store32_nat del: of_nat_add)
    moreover have "chain ?m' (a + 12 + n) (bs[j := (k, False)])"
      using Cons.prems(2,3) Suc by (intro Cons.IH [OF c _ _ p]) simp_all
    ultimately show ?thesis using Cons.prems(1) \<open>bs \<noteq> []\<close> by (simp add: Suc b block_size_def block_fd_def)
  qed
qed simp

lemma live_nth:
  "(p, k) \<in> set (live a bs) \<Longrightarrow> \<exists>i < length bs. bs ! i = (k, True) \<and> p = a + extent (take i bs) + 12
     \<and> set (live a (bs[i := (k, False)])) = set (live a bs) - {(p, k)}"
proof (induction bs arbitrary: a)
  case (Cons b bs)
  obtain n u where b: "b = (n, u)" by force
  have "(a + 12, n) \<notin> set (live (a + 12 + n) bs)" using live_above [of "a + 12" n "a + 12 + n" bs] by auto
  show ?case
  proof (cases "u \<and> (p, k) = (a + 12, n)")
    case True
    with \<open>(a + 12, n) \<notin> _\<close> show ?thesis by (intro exI [of _ 0]) (simp add: b)
  next
    case False
    then have "(p, k) \<in> set (live (a + 12 + n) bs)" using Cons.prems by (auto simp: b split: if_splits)
    from Cons.IH [OF this] obtain i where i: "i < length bs" "bs ! i = (k, True)" "p = a + 12 + n + extent (take i bs) + 12"
      "set (live (a + 12 + n) (bs[i := (k, False)])) = set (live (a + 12 + n) bs) - {(p, k)}" by blast
    have "set (live a ((b # bs)[Suc i := (k, False)])) = set (live a (b # bs)) - {(p, k)}"
      using i(4) False by (auto simp: b)
    then show ?thesis using i(1-3) by (intro exI [of _ "Suc i"]) (simp add: b)
  qed
qed simp

lemma first_fit_some: "(k, False) \<in> set bs \<Longrightarrow> n \<le> k \<Longrightarrow> first_fit n bs \<noteq> None"
  by (induction bs) auto

lemma free_live:
  assumes c: "chain (umem s) (unat (heap s)) bs" and l: "(p, k) \<in> set (live (unat (heap s)) bs)"
  shows "\<exists>bs'. chain (umem (free (of_nat p) s)) (unat (heap s)) bs' \<and> extent bs' = extent bs
      \<and> set (live (unat (heap s)) bs') = set (live (unat (heap s)) bs) - {(p, k)} \<and> (\<forall>n \<le> k. first_fit n bs' \<noteq> None)"
    and "unat x < p - 12 \<or> p - 8 \<le> unat x \<Longrightarrow> umem (free (of_nat p) s) x = umem s x"
proof -
  let ?a = "unat (heap s)"
  obtain i where i: "i < length bs" "bs ! i = (k, True)" "p = ?a + extent (take i bs) + 12"
    "set (live ?a (bs[i := (k, False)])) = set (live ?a bs) - {(p, k)}"
    using live_nth [OF l] by blast
  have "(of_nat p :: u32) - 12 = of_nat (?a + extent (take i bs))" unfolding i(3) by simp
  then have m: "umem (free (of_nat p) s) = store32 (umem s) (of_nat (?a + extent (take i bs)))
      (load32 (umem s) (of_nat (?a + extent (take i bs))) AND 0xFFFFFFFE)"
    by (simp add: free_def Let_def set_size_def block_size_def)
  have "extent (bs[i := (k, False)]) = extent bs"
    unfolding extent_def using i(1,2) by (metis (no_types, lifting) fst_conv list_update_id map_update)
  moreover have "\<forall>n \<le> k. first_fit n (bs[i := (k, False)]) \<noteq> None"
    using first_fit_some set_update_memI [OF i(1)] by blast
  ultimately show "\<exists>bs'. chain (umem (free (of_nat p) s)) ?a bs' \<and> extent bs' = extent bs
      \<and> set (live ?a bs') = set (live ?a bs) - {(p, k)} \<and> (\<forall>n \<le> k. first_fit n bs' \<noteq> None)"
    unfolding m using free_chain [OF c i(1,2) refl] i(4) by blast
  have "p < 2 ^ 32" using live_above [OF l] chain_extent [OF c] by linarith
  then show "unat x < p - 12 \<or> p - 8 \<le> unat x \<Longrightarrow> umem (free (of_nat p) s) x = umem s x"
    unfolding m using i(3) by (intro store32_outside) auto
qed

lemma free_simps [simp]: "heap (free p s) = heap s" "calls (free p s) = calls s"
  by (simp_all add: free_def Let_def)

lemma chain_payload:
  assumes "chain m a bs"
    and "\<And>x. a \<le> unat x \<Longrightarrow> (\<And>p k. (p, k) \<in> set (live a bs) \<Longrightarrow> \<not> (p \<le> unat x \<and> unat x < p + k)) \<Longrightarrow> m' x = m x"
  shows "chain m' a bs"
  using assms
proof (induction bs arbitrary: a)
  case (Cons b bs)
  obtain n u where b: "b = (n, u)" by force
  have room: "a + 12 + n < 2 ^ 32" using Cons.prems(1) b by simp
  have hd: "m' x = m x" if "a \<le> unat x" "unat x < a + 12" for x
    using that live_above [of _ _ a "b # bs"] by (intro Cons.prems(2)) force+
  have "load32 m' (of_nat a) = load32 m (of_nat a)" using room by (intro load32_cong_nat hd) simp_all
  moreover have "load32 m' (of_nat (a + 4)) = load32 m (of_nat (a + 4))" using room by (intro load32_cong_nat hd) simp_all
  moreover have "chain m' (a + 12 + n) bs" if "bs \<noteq> []"
  proof (rule Cons.IH)
    show "chain m (a + 12 + n) bs" using Cons.prems(1) that b by simp
    show "m' x = m x" if "a + 12 + n \<le> unat x"
      and "\<And>p k. (p, k) \<in> set (live (a + 12 + n) bs) \<Longrightarrow> \<not> (p \<le> unat x \<and> unat x < p + k)" for x
      using that by (intro Cons.prems(2)) (auto simp: b split: if_splits)
  qed
  ultimately show ?case using Cons.prems(1) by (simp add: b block_size_def block_fd_def)
qed simp

section \<open>Properties\<close>

lemma init_libc_chain:
  assumes "unat a + 12 + 40960 < 2 ^ 32"
  shows "chain (umem (init_libc a s)) (unat a) [(40960, False)] \<and> heap (init_libc a s) = a"
proof -
  define A where "A = unat a"
  have a: "a = of_nat A" "unat a = A" by (simp_all add: A_def)
  have p: "of_nat A + 4 = (of_nat (A + 4) :: u32)" "of_nat A + 8 = (of_nat (A + 8) :: u32)" by simp_all
  have m: "umem (init_libc a s) = store32 (store32 (store32 (umem s) (of_nat A) 40960) (of_nat (A + 4)) 0) (of_nat (A + 8)) 0"
    unfolding a(1) p [symmetric] by (simp add: init_libc_def sys_def set_size_def set_fd_def set_bk_def Let_def)
  have "load32 (umem (init_libc a s)) (of_nat A) = 40960" "load32 (umem (init_libc a s)) (of_nat (A + 4)) = 0"
    unfolding m using assms by (simp_all add: load32_store32_nat a(2) del: of_nat_add)
  then show ?thesis using assms by (simp add: block_size_def block_fd_def a(2)) (simp add: init_libc_def Let_def)
qed

lemma malloc_result:
  assumes c: "chain (umem s) (unat (heap s)) bs" and sz: "4 < unat sz" "unat sz + 4 \<le> 2 ^ 32"
    and r: "first_fit (4 * ((unat sz + 3) div 4)) bs = Some (off, bs')"
  shows "\<exists>m'. malloc sz s = Some (Ok (heap s + of_nat off, s\<lparr>umem := m'\<rparr>)) \<and> chain m' (unat (heap s)) bs' \<and> extent bs' = extent bs
    \<and> off + unat sz \<le> extent bs
    \<and> (\<exists>k \<ge> unat sz. \<forall>q. q \<in> set (live (unat (heap s)) bs') \<longleftrightarrow> q = (unat (heap s) + off, k) \<or> q \<in> set (live (unat (heap s)) bs))
    \<and> (\<forall>(p, k) \<in> set (live (unat (heap s)) bs). p + k + 12 \<le> unat (heap s) + off \<or> unat (heap s) + off + unat sz \<le> p)
    \<and> (\<forall>x. (unat x < unat (heap s) \<or> unat (heap s) + extent bs \<le> unat x
         \<or> (\<exists>(p, k) \<in> set (live (unat (heap s)) bs). p \<le> unat x \<and> unat x < p + k)) \<longrightarrow> m' x = umem s x)"
proof -
  let ?n = "4 * ((unat sz + 3) div 4)" and ?a = "unat (heap s)"
  have n: "8 \<le> ?n" "4 dvd ?n" "unat sz \<le> ?n" using sz(1) by presburger+
  note v = first_fit_live [OF r chain_dvd [OF c] n(1,2), where a = ?a]
  note t = take_block_chain [OF c r n(1,2)]
  obtain k where k: "?n \<le> k" "\<And>q. q \<in> set (live ?a bs') \<longleftrightarrow> q = (?a + off, k) \<or> q \<in> set (live ?a bs)"
    using v [THEN conjunct2, THEN conjunct1] by blast
  have fit: "off + unat sz \<le> extent bs" using first_fit_offset [OF r] n(3) by linarith
  have "p + k + 12 \<le> ?a + off \<or> ?a + off + unat sz \<le> p" if "(p, k) \<in> set (live ?a bs)" for p k
    using bspec [OF v [THEN conjunct2, THEN conjunct2] that] n(3) by simp linarith
  then have apart: "\<forall>(p, k) \<in> set (live ?a bs). p + k + 12 \<le> ?a + off \<or> ?a + off + unat sz \<le> p" by blast
  have grown: "\<exists>k \<ge> unat sz. \<forall>q. q \<in> set (live ?a bs') \<longleftrightarrow> q = (?a + off, k) \<or> q \<in> set (live ?a bs)"
    using k order_trans [OF n(3)] by blast
  show ?thesis
    by (intro exI [of _ "take_block (of_nat (?a + off - 12)) (of_nat ?n) (umem s)"] conjI)
       (fact malloc_chain(2) [OF c sz r] t [THEN conjunct1] v [THEN conjunct1] fit grown apart t [THEN conjunct2])+
qed

text \<open>
  C19. \<^verbatim>\<open>malloc\<close> is first fit on the chain of blocks, for requests of more than four bytes: it spins
  forever exactly when no unused block is large enough; otherwise the memory returned lies inside the
  heap, overlaps no memory handed out before, the chain is well formed again and covers the same
  range, and no byte outside the heap or of memory handed out before has changed.
\<close>

theorem malloc_first_fit:
  assumes "chain (umem s) (unat (heap s)) bs" and "4 < unat sz" "unat sz + 4 \<le> 2 ^ 32"
  shows "case first_fit (4 * ((unat sz + 3) div 4)) bs of
      None \<Rightarrow> malloc sz s = Some (Halt (Spin ''malloc: out of memory''))
    | Some (off, bs') \<Rightarrow> \<exists>m'. malloc sz s = Some (Ok (heap s + of_nat off, s\<lparr>umem := m'\<rparr>))
        \<and> chain m' (unat (heap s)) bs' \<and> extent bs' = extent bs \<and> off + unat sz \<le> extent bs
        \<and> (\<forall>(p, k) \<in> set (live (unat (heap s)) bs). p + k + 12 \<le> unat (heap s) + off \<or> unat (heap s) + off + unat sz \<le> p)
        \<and> (\<forall>x. (unat x < unat (heap s) \<or> unat (heap s) + extent bs \<le> unat x
             \<or> (\<exists>(p, k) \<in> set (live (unat (heap s)) bs). p \<le> unat x \<and> unat x < p + k)) \<longrightarrow> m' x = umem s x)"
proof (cases "first_fit (4 * ((unat sz + 3) div 4)) bs")
  case None
  then show ?thesis using malloc_chain(1) [OF assms] by simp
next
  case (Some r)
  then obtain off bs' where r: "first_fit (4 * ((unat sz + 3) div 4)) bs = Some (off, bs')" by (cases r) auto
  show ?thesis unfolding r option.case prod.case using malloc_result [OF assms r] by blast
qed

lemma sample_libc_chain: "chain (umem sample_libc) (unat (heap sample_libc)) [(40960, False)]" "heap sample_libc = 0x10000000"
  using init_libc_chain [of "0x10000000"] by (simp_all add: sample_libc_def)

theorem malloc_first_fit_witness:
  "\<exists>m'. malloc 400 sample_libc = Some (Ok (0x1000000c, sample_libc\<lparr>umem := m'\<rparr>))
     \<and> chain m' 0x10000000 [(400, True), (40548, False)]"
  using malloc_first_fit [OF sample_libc_chain(1), of 400] by (auto simp: sample_libc_chain(2))

text \<open>
  \<^verbatim>\<open>free\<close> undoes \<^verbatim>\<open>malloc\<close>: after freeing the pointer \<^verbatim>\<open>malloc\<close> returned, the chain is well formed,
  covers the same range, and the memory handed out is exactly what it was before the allocation.
\<close>

theorem malloc_free_roundtrip:
  assumes "chain (umem s) (unat (heap s)) bs" and "4 < unat sz" "unat sz + 4 \<le> 2 ^ 32"
    and "malloc sz s = Some (Ok (p, s'))"
  shows "\<exists>bs''. chain (umem (free p s')) (unat (heap (free p s'))) bs'' \<and> extent bs'' = extent bs
    \<and> set (live (unat (heap s)) bs'') = set (live (unat (heap s)) bs)"
proof -
  let ?a = "unat (heap s)"
  obtain off bs' where r: "first_fit (4 * ((unat sz + 3) div 4)) bs = Some (off, bs')"
    using assms(4) malloc_chain(1) [OF assms(1-3)] by fastforce
  obtain m' k where m: "malloc sz s = Some (Ok (heap s + of_nat off, s\<lparr>umem := m'\<rparr>))" and c: "chain m' ?a bs'"
    and e: "extent bs' = extent bs" "off + unat sz \<le> extent bs"
    and l: "\<And>q. q \<in> set (live ?a bs') \<longleftrightarrow> q = (?a + off, k) \<or> q \<in> set (live ?a bs)"
    and apart: "\<forall>(p, k) \<in> set (live ?a bs). p + k + 12 \<le> ?a + off \<or> ?a + off + unat sz \<le> p"
    using malloc_result [OF assms(1-3) r] by blast
  have p: "p = heap s + of_nat off" "s' = s\<lparr>umem := m'\<rparr>" using assms(4) m by simp_all
  have new: "(?a + off, k) \<notin> set (live ?a bs)" using apart assms(2) by fastforce
  have fp: "p = of_nat (?a + off)" by (simp add: p)
  have "chain (umem s') (unat (heap s')) bs'" "(?a + off, k) \<in> set (live (unat (heap s')) bs')" using c l p(2) by simp_all
  from free_live(1) [OF this] obtain bs'' where "chain (umem (free p s')) ?a bs''" "extent bs'' = extent bs'"
    "set (live ?a bs'') = set (live ?a bs') - {(?a + off, k)}" by (auto simp: fp p(2))
  moreover have "set (live ?a bs') - {(?a + off, k)} = set (live ?a bs)" using l new by auto
  ultimately show ?thesis using e(1) p(2) by auto
qed

theorem malloc_free_roundtrip_witness:
  "\<exists>p s' bs''. malloc 400 sample_libc = Some (Ok (p, s')) \<and> chain (umem (free p s')) (unat (heap (free p s'))) bs'' \<and> live 0x10000000 bs'' = []"
proof -
  obtain m' where m: "malloc 400 sample_libc = Some (Ok (0x1000000c, sample_libc\<lparr>umem := m'\<rparr>))"
    using malloc_result [OF sample_libc_chain(1), of 400] by (auto simp: sample_libc_chain(2))
  show ?thesis using malloc_free_roundtrip [OF sample_libc_chain(1) _ _ m] m by (auto simp: sample_libc_chain(2))
qed

text \<open>A request of four bytes that splits a block of twelve makes a block of almost 4 GiB.\<close>

lemma malloc_split_underflow:
  assumes "a + 28 \<le> 2 ^ 32" and "load32 m (of_nat a) = 12"
  shows "(4 :: u32) < block_size m (of_nat a) div 2 \<and> block_size (split_block (of_nat a) 4 m) (of_nat (a + 16)) = 0xFFFFFFFC"
proof -
  have p: "of_nat a + 12 + 4 = (of_nat (a + 16) :: u32)" "of_nat (a + 16) + 8 = (of_nat (a + 24) :: u32)"
    "of_nat (a + 16) + 4 = (of_nat (a + 20) :: u32)" "of_nat a + 4 = (of_nat (a + 4) :: u32)" by simp_all
  show ?thesis
    unfolding split_block_def set_size_def set_fd_def set_bk_def block_size_def block_fd_def Let_def p
    using assms by (simp add: load32_store32_nat del: of_nat_add)
qed

end
