(* ===== verification/Libc_Stdio.thy ===== *)
theory Libc_Stdio
  imports Libc_Heap
begin

text \<open>
  Formatted output of BarrelOS' C library (\<^verbatim>\<open>barrelOS/libc/stdio.c\<close>), on the memory of a user process.
  The format string is modified in place while its literal parts are written out, and restored.
  A \<^verbatim>\<open>write\<close> system call carries the C string at its pointer at that moment, as the kernel's console
  reads it. The variable arguments are a list of words. The lemmas show that the text written is the
  one the format describes, digit by digit.
\<close>

section \<open>Operations\<close>

text \<open>The bytes up to the terminator.\<close>

partial_function (option) cstring :: "32 mem \<Rightarrow> u32 \<Rightarrow> u8 list option" where
  "cstring m a = (if m a = 0 then Some [] else Option.bind (cstring m (a + 1)) (\<lambda>xs. Some (m a # xs)))"

abbreviation (input) stdout :: u8 where "stdout \<equiv> 1"

definition write_str :: "u32 \<Rightarrow> libc \<Rightarrow> libc option" where
  "write_str a s = Option.bind (cstring (umem s) a) (\<lambda>xs. Some (sys (Write stdout xs 0) s))"

definition poke :: "u32 \<Rightarrow> u8 \<Rightarrow> libc \<Rightarrow> libc" where
  "poke a v s = s\<lparr>umem := (umem s)(a := v)\<rparr>"

text \<open>Ten decimal digits from the leading one (\<open>k\<close> rounds left), and the skipping of zeros.\<close>

fun dec_loop :: "nat \<Rightarrow> u32 \<Rightarrow> u32 \<Rightarrow> u32 \<Rightarrow> 32 mem \<Rightarrow> 32 mem" where
  "dec_loop 0 a v divisor m = m"
| "dec_loop (Suc k) a v divisor m =
     dec_loop k (a + 1) (v - (v div divisor) * divisor) (divisor div 10) (m(a := ucast (v div divisor + 0x30)))"

fun skip_zero :: "nat \<Rightarrow> 32 mem \<Rightarrow> u32 \<Rightarrow> u32" where
  "skip_zero 0 m a = a"
| "skip_zero (Suc k) m a = (if m a = 0x30 then skip_zero k m (a + 1) else a)"

definition print_u :: "u32 \<Rightarrow> u32 \<Rightarrow> libc \<Rightarrow> libc option" where
  "print_u fstring v s =
     (let m = dec_loop 10 fstring v 1000000000 (umem s);
          m = m(fstring + 10 := 0)
      in write_str (skip_zero 9 m fstring) (s\<lparr>umem := m\<rparr>))"

text \<open>Eight hexadecimal digits; those above \<^verbatim>\<open>'9'\<close> are moved to the letters of the case of \<open>c\<close>.\<close>

definition hex_char :: "u8 \<Rightarrow> u32 \<Rightarrow> nat \<Rightarrow> u8" where
  "hex_char c v j =
     (let d = ucast ((drop_bit (28 - 4 * j) v AND 0xF) + 0x30) :: u8
      in if d > 0x39 then d + (7 + c - 0x58) else d)"

definition hex_loop :: "u32 \<Rightarrow> u8 \<Rightarrow> u32 \<Rightarrow> 32 mem \<Rightarrow> 32 mem" where
  "hex_loop a c v m = fold (\<lambda>j m. m(a + of_nat j := hex_char c v j)) [0..<8] m"

fun skip_pairs :: "nat \<Rightarrow> 32 mem \<Rightarrow> u32 \<Rightarrow> u32" where
  "skip_pairs 0 m a = a"
| "skip_pairs (Suc k) m a = (if m a = 0x30 \<and> m (a + 1) = 0x30 then skip_pairs k m (a + 2) else a)"

definition print_x :: "u32 \<Rightarrow> u8 \<Rightarrow> u32 \<Rightarrow> libc \<Rightarrow> libc option" where
  "print_x fstring c v s =
     (let m = hex_loop fstring c v (umem s);
          s = sys (Write stdout (ascii ''0x'') 0) (s\<lparr>umem := m\<rparr>);
          s = poke (fstring + 8) 0 s
      in write_str (skip_pairs 3 (umem s) fstring) s)"

definition print_c :: "u32 \<Rightarrow> u8 \<Rightarrow> libc \<Rightarrow> libc option" where
  "print_c fstring c s = write_str fstring (poke (fstring + 1) 0 (poke fstring c s))"

text \<open>The \<^verbatim>\<open>switch\<close> on the character after the percent sign.\<close>

definition convert :: "u32 \<Rightarrow> u8 \<Rightarrow> u32 list \<Rightarrow> libc \<Rightarrow> (u32 list \<times> libc) outcome option" where
  "convert fstring c args s =
     (if c = 0x25 then map_option (\<lambda>s. Ok (args, s)) (print_c fstring 0x25 s)
      else if c = 0x75 \<or> c = 0x78 \<or> c = 0x58 \<or> c = 0x63 \<or> c = 0x73
      then case args of
             [] \<Rightarrow> Some (Halt (Undefined ''va_arg''))
           | v # args \<Rightarrow> map_option (\<lambda>s. Ok (args, s))
               (if c = 0x75 then print_u fstring v s
                else if c = 0x78 \<or> c = 0x58 then print_x fstring c v s
                else if c = 0x63 then print_c fstring (ucast v) s
                else write_str v s)
      else map_option (\<lambda>s. Ok (args, s)) (print_c fstring c (sys (Write stdout (ascii ''%'') 0) s)))"

partial_function (option) printf_loop ::
  "u32 \<Rightarrow> u32 \<Rightarrow> u32 \<Rightarrow> u32 \<Rightarrow> u32 list \<Rightarrow> libc \<Rightarrow> (u32 \<times> libc) outcome option" where
  "printf_loop fstring str part i args s =
     (if umem s (str + i) = 0 then Some (Ok (part, s))
      else if umem s (str + i) = 0x25
      then Option.bind (write_str part (poke (str + i) 0 s)) (\<lambda>s.
           let s = poke (str + i) 0x25 s; i = i + 1 in
           Option.bind (convert fstring (umem s (str + i)) args s) (\<lambda>r.
             case r of
               Halt h \<Rightarrow> Some (Halt h)
             | Ok p \<Rightarrow> printf_loop fstring str (str + i + 1) (i + 1) (fst p) (snd p)))
      else printf_loop fstring str part (i + 1) args s)"

definition printf :: "u32 \<Rightarrow> u32 list \<Rightarrow> libc \<Rightarrow> libc outcome option" where
  "printf str args s =
     Option.bind (malloc 400 s) (\<lambda>r.
       case r of
         Halt h \<Rightarrow> Some (Halt h)
       | Ok (fstring, s) \<Rightarrow>
           Option.bind (printf_loop fstring str str 0 args s) (\<lambda>r.
             case r of
               Halt h \<Rightarrow> Some (Halt h)
             | Ok (part, s) \<Rightarrow> Option.bind (write_str part s) (\<lambda>s. Some (Ok (free fstring s)))))"

section \<open>Specification\<close>

text \<open>Decimal numerals without leading zeros.\<close>

fun decimal :: "nat \<Rightarrow> u8 list" where
  "decimal n = (if n < 10 then [of_nat n + 0x30] else decimal (n div 10) @ [of_nat (n mod 10) + 0x30])"

text \<open>One hexadecimal digit in the case of \<open>c\<close>, a byte as two of them, a word as the bytes from the first
  one that is not zero (at least one).\<close>

definition nibble :: "u8 \<Rightarrow> nat \<Rightarrow> u8" where
  "nibble c d = (if d < 10 then of_nat d + 0x30 else of_nat (d - 10) + (if c = 0x58 then 0x41 else 0x61))"

definition hex_byte :: "u8 \<Rightarrow> nat \<Rightarrow> u8 list" where
  "hex_byte c b = [nibble c (b div 16), nibble c (b mod 16)]"

fun strip0 :: "nat list \<Rightarrow> nat list" where
  "strip0 (b # b' # bs) = (if b = 0 then strip0 (b' # bs) else b # b' # bs)"
| "strip0 bs = bs"

definition hexadecimal :: "u8 \<Rightarrow> nat \<Rightarrow> u8 list" where
  "hexadecimal c n = concat (map (hex_byte c) (strip0 [n div 2 ^ 24, n div 2 ^ 16 mod 256, n div 2 ^ 8 mod 256, n mod 256]))"

text \<open>The text a conversion produces from the next argument, and whether it takes one.\<close>

definition takes_arg :: "u8 \<Rightarrow> bool" where
  "takes_arg c \<longleftrightarrow> c \<in> {0x75, 0x78, 0x58, 0x63, 0x73}"

definition conv_text :: "(u32 \<Rightarrow> u8 list) \<Rightarrow> u8 \<Rightarrow> u32 \<Rightarrow> u8 list" where
  "conv_text str c v =
     (if c = 0x25 then [0x25]
      else if c = 0x75 then decimal (unat v)
      else if c = 0x78 \<or> c = 0x58 then [0x30, 0x78] @ hexadecimal c (unat v)
      else if c = 0x63 then (if ucast v = (0 :: u8) then [] else [ucast v])
      else if c = 0x73 then str v
      else [0x25, c])"

text \<open>The text a format describes; \<open>str\<close> gives the string at a pointer.\<close>

fun format :: "(u32 \<Rightarrow> u8 list) \<Rightarrow> u8 list \<Rightarrow> u32 list \<Rightarrow> u8 list option" where
  "format str [] args = Some []"
| "format str [c] args = (if c = 0x25 then None else Some [c])"
| "format str (c # d # xs) args =
     (if c = 0x25
      then if takes_arg d
           then case args of [] \<Rightarrow> None | v # args \<Rightarrow> map_option ((@) (conv_text str d v)) (format str xs args)
           else map_option ((@) (conv_text str d 0)) (format str xs args)
      else map_option (Cons c) (format str (d # xs) args))"

text \<open>The decimal digits from the one of weight \<open>10 ^ (k - 1)\<close> on.\<close>

fun digs :: "nat \<Rightarrow> nat \<Rightarrow> nat list" where
  "digs 0 n = []"
| "digs (Suc k) n = n div 10 ^ k # digs k (n mod 10 ^ k)"

fun strip_front :: "nat \<Rightarrow> nat list \<Rightarrow> nat list" where
  "strip_front 0 xs = xs"
| "strip_front (Suc k) xs = (case xs of [] \<Rightarrow> [] | x # ys \<Rightarrow> if x = 0 then strip_front k ys else xs)"

text \<open>The memory is the same outside the first 16 bytes of the buffer.\<close>

definition same_but :: "u32 \<Rightarrow> 32 mem \<Rightarrow> 32 mem \<Rightarrow> bool" where
  "same_but a m m' \<longleftrightarrow> (\<forall>x. 16 \<le> unat (x - a) \<longrightarrow> m' x = m x)"

text \<open>The C string at an address, by recursion.\<close>

fun text_at :: "32 mem \<Rightarrow> u32 \<Rightarrow> u8 list \<Rightarrow> bool" where
  "text_at m a [] \<longleftrightarrow> m a = 0"
| "text_at m a (x # xs) \<longleftrightarrow> x \<noteq> 0 \<and> m a = x \<and> text_at m (a + 1) xs"

abbreviation (input) W :: "u8 list \<Rightarrow> syscall" where "W t \<equiv> Write stdout t 0"

text \<open>The pointers the format's \<^verbatim>\<open>%s\<close> conversions take.\<close>

fun str_args :: "u8 list \<Rightarrow> u32 list \<Rightarrow> u32 list" where
  "str_args (c # d # xs) args =
     (if c = 0x25
      then if takes_arg d
           then case args of [] \<Rightarrow> [] | v # args \<Rightarrow> (if d = 0x73 then [v] else []) @ str_args xs args
           else str_args xs args
      else str_args (d # xs) args)"
| "str_args _ args = []"

text \<open>A string outside the first 16 bytes of the buffer.\<close>

definition string_clear :: "u32 \<Rightarrow> 32 mem \<Rightarrow> u32 \<Rightarrow> u8 list \<Rightarrow> bool" where
  "string_clear a m p xs \<longleftrightarrow> text_at m p xs \<and> (\<forall>i \<le> length xs. 16 \<le> unat (p + of_nat i - a))"

text \<open>A byte no allocation or conversion buffer can be at: outside the heap, or handed out already.\<close>

definition kept :: "libc \<Rightarrow> (nat \<times> bool) list \<Rightarrow> u32 \<Rightarrow> bool" where
  "kept s bs x \<longleftrightarrow> unat x < unat (heap s) \<or> unat (heap s) + extent bs \<le> unat x
     \<or> (\<exists>(p, k) \<in> set (live (unat (heap s)) bs). p \<le> unat x \<and> unat x < p + k)"

definition kept_string :: "libc \<Rightarrow> (nat \<times> bool) list \<Rightarrow> u32 \<Rightarrow> u8 list \<Rightarrow> bool" where
  "kept_string s bs a xs \<longleftrightarrow> string_at (umem s) a xs \<and> (\<forall>i \<le> length xs. kept s bs (a + of_nat i))"

definition sample_print :: libc where
  "sample_print = init_libc 0x10000000
     \<lparr>umem = (\<lambda>x. if x = 0x1000 then 0x25 else if x = 0x1001 then 0x75 else 0), heap = 0, calls = []\<rparr>"

declare decimal.simps [simp del]

section \<open>Decimal numerals\<close>

lemma digs_length [simp]: "length (digs k n) = k"
  by (induction k arbitrary: n) auto

lemma digs_snoc: "n < 10 ^ Suc k \<Longrightarrow> digs (Suc k) n = digs k (n div 10) @ [n mod 10]"
proof (induction k arbitrary: n)
  case (Suc k)
  have "digs (Suc (Suc k)) n = n div 10 ^ Suc k # digs k (n mod 10 ^ Suc k div 10) @ [n mod 10 ^ Suc k mod 10]"
    using Suc.IH [of "n mod 10 ^ Suc k"] by simp
  moreover have "n div 10 ^ Suc k = n div 10 div 10 ^ k" by (simp add: div_mult2_eq)
  moreover have "n mod 10 ^ Suc k div 10 = n div 10 mod 10 ^ k"
    by (simp add: mod_mult2_eq)
  moreover have "n mod 10 ^ Suc k mod 10 = n mod 10" by (simp add: mod_mod_cancel)
  ultimately show ?case by simp
qed simp

lemma digs_less: "n < 10 ^ k \<Longrightarrow> d \<in> set (digs k n) \<Longrightarrow> d < 10"
proof (induction k arbitrary: n)
  case (Suc k)
  have "n div 10 ^ k < 10" using Suc.prems(1) by (simp add: less_mult_imp_div_less mult.commute)
  moreover have "n mod 10 ^ k < 10 ^ k" by simp
  ultimately show ?case using Suc.IH [of "n mod 10 ^ k"] Suc.prems(2) by auto
qed simp

lemma decimal_digs: "n < 10 ^ Suc k \<Longrightarrow> 10 ^ k \<le> n \<Longrightarrow> decimal n = map (\<lambda>d. of_nat d + 0x30) (digs (Suc k) n)"
proof (induction k arbitrary: n)
  case 0
  then show ?case by (subst decimal.simps) simp
next
  case (Suc k)
  have "10 ^ k \<le> n div 10" "n div 10 < 10 ^ Suc k" using Suc.prems by (simp_all add: less_eq_div_iff_mult_less_eq div_less_iff_less_mult)
  then have "decimal (n div 10) = map (\<lambda>d. of_nat d + 0x30) (digs (Suc k) (n div 10))" by (intro Suc.IH)
  moreover have "\<not> n < 10"
  proof -
    have "(10::nat) * 1 \<le> 10 * 10 ^ k" by (intro mult_le_mono) simp_all
    then show ?thesis using Suc.prems(2) by (simp only: power_Suc)
  qed
  ultimately show ?case by (subst decimal.simps) (simp del: digs.simps add: digs_snoc [OF Suc.prems(1)])
qed

lemma decimal_strip: "n < 10 ^ Suc k \<Longrightarrow> decimal n = map (\<lambda>d. of_nat d + 0x30) (strip_front k (digs (Suc k) n))"
proof (induction k arbitrary: n)
  case 0
  then show ?case by (subst decimal.simps) simp
next
  case (Suc k)
  show ?case
  proof (cases "n < 10 ^ Suc k")
    case True
    then have "digs (Suc (Suc k)) n = 0 # digs (Suc k) n" by (simp only: digs.simps(2) [of "Suc k"] div_less mod_less)
    then show ?thesis using Suc.IH [OF True] by (simp del: digs.simps)
  next
    case False
    then have "n div 10 ^ Suc k \<noteq> 0" by (simp add: div_eq_0_iff)
    then have "strip_front (Suc k) (digs (Suc (Suc k)) n) = digs (Suc (Suc k)) n" by (subst digs.simps(2)) (simp add: div_eq_0_iff)
    then show ?thesis using decimal_digs [OF Suc.prems] False by simp
  qed
qed

section \<open>Strings in memory\<close>

lemma cstring_text: "text_at m a xs \<Longrightarrow> cstring m a = Some xs"
  by (induction xs arbitrary: a) (subst cstring.simps, simp)+

lemma text_at_cong: "text_at m a xs \<Longrightarrow> (\<And>i. i \<le> length xs \<Longrightarrow> m' (a + of_nat i) = m (a + of_nat i)) \<Longrightarrow> text_at m' a xs"
proof (induction xs arbitrary: a)
  case Nil
  then show ?case using Nil.prems(2) [of 0] by simp
next
  case (Cons x xs)
  have "m' (a + 1 + of_nat i) = m (a + 1 + of_nat i)" if "i \<le> length xs" for i
    using Cons.prems(2) [of "Suc i"] that by (simp add: add.assoc)
  then show ?case using Cons.prems(1) Cons.prems(2) [of 0] Cons.IH by simp
qed

lemma string_at_text_at: "string_at m a xs \<Longrightarrow> text_at m a xs"
proof (induction xs arbitrary: a)
  case (Cons x xs)
  have room: "unat a + Suc (length xs) < 2 ^ 32" using Cons.prems by (simp add: string_at_def)
  then have "unat (a + 1) = unat a + 1" by (simp add: unat_add_lem [THEN iffD1])
  moreover have "m (a + 1 + of_nat i) = xs ! i" if "i < length xs" for i
    using Cons.prems that by (auto simp: string_at_def add.assoc dest!: spec [of _ "Suc i"])
  moreover have "m (a + 1 + of_nat (length xs)) = 0" using Cons.prems by (simp add: string_at_def add.assoc)
  ultimately have "string_at m (a + 1) xs" using Cons.prems room by (simp add: string_at_def)
  moreover have "m a = x" using Cons.prems by (auto simp: string_at_def dest!: spec [of _ 0])
  ultimately show ?case using Cons by (simp add: string_at_def)
qed (simp add: string_at_def)

lemma write_str_text: "text_at (umem s) a xs \<Longrightarrow> write_str a s = Some (sys (Write stdout xs 0) s)"
  by (simp add: write_str_def cstring_text)

lemma offset_ne: "0 < i \<Longrightarrow> i < 2 ^ 32 \<Longrightarrow> (a :: u32) \<noteq> a + of_nat i"
proof
  assume i: "0 < i" "i < 2 ^ 32" and "a = a + of_nat i"
  then have "(of_nat i :: u32) = 0" by simp
  then show False using i nat_addr_eq_iff [of i 0] by simp
qed

lemma same_but_refl [simp]: "same_but a m m"
  by (simp add: same_but_def)

lemma same_but_trans: "same_but a m m' \<Longrightarrow> same_but a m' m'' \<Longrightarrow> same_but a m m''"
  by (simp add: same_but_def)

lemma same_but_upd: "same_but a m m' \<Longrightarrow> i < 16 \<Longrightarrow> same_but a m (m'(a + of_nat i := v))"
  by (auto simp: same_but_def unat_of_nat take_bit_nat_eq_self)

section \<open>Decimal conversion\<close>

lemma ucast_of_nat8: "(ucast (of_nat n :: u32) :: u8) = of_nat n"
  by (rule bit_word_eqI) (simp add: bit_simps)

lemma digit_char: "d < 10 \<Longrightarrow> (of_nat d + 0x30 :: u8) \<noteq> 0 \<and> ((of_nat d + 0x30 :: u8) = 0x30 \<longleftrightarrow> d = 0)"
proof -
  assume "d < 10"
  then have "unat (of_nat d + 0x30 :: u8) = d + 0x30"
    by (subst unat_add_lem [THEN iffD1]) (simp_all add: unat_of_nat take_bit_nat_eq_self)
  then show ?thesis by (auto simp: word_unat_eq_iff)
qed

lemma dec_loop_frame: "(\<And>i. i < k \<Longrightarrow> x \<noteq> a + of_nat i) \<Longrightarrow> dec_loop k a v d m x = m x"
proof (induction k arbitrary: a v d m)
  case (Suc k)
  have "x \<noteq> a + 1 + of_nat i" if "i < k" for i using Suc.prems [of "Suc i"] that by (simp add: add.assoc)
  then show ?case using Suc.IH [of "a + 1"] Suc.prems [of 0] by simp
qed simp

lemma dec_loop_text:
  assumes "unat v < 10 ^ k" and "k < 2 ^ 32" and "\<And>j. k = Suc j \<Longrightarrow> unat d = 10 ^ j"
  shows "text_at ((dec_loop k a v d m)(a + of_nat k := 0)) a (map (\<lambda>x. of_nat x + 0x30) (digs k (unat v)))"
  using assms
proof (induction k arbitrary: a v d m)
  case (Suc k)
  have d: "unat d = 10 ^ k" using Suc.prems(3) by simp
  let ?c = "ucast (v div d + 0x30) :: u8" and ?v = "v - v div d * d"
  have digit: "unat v div 10 ^ k < 10" using Suc.prems(1) by (simp add: less_mult_imp_div_less mult.commute)
  have "v div d + 0x30 = of_nat (unat (v div d) + 0x30)" by simp
  then have "?c = of_nat (unat (v div d) + 0x30)" by (simp only: ucast_of_nat8)
  then have c: "?c = of_nat (unat v div 10 ^ k) + 0x30" by (simp add: unat_div d)
  have "?v = v mod d" by (simp add: minus_div_mult_eq_mod)
  then have v: "unat ?v = unat v mod 10 ^ k" by (simp add: unat_mod d)
  have below: "unat ?v < 10 ^ k" unfolding v by simp
  have small: "k < 2 ^ 32" using Suc.prems(2) by simp
  have lower: "unat (d div 10) = 10 ^ j" if "k = Suc j" for j by (simp add: unat_div d that)
  have "text_at ((dec_loop k (a + 1) ?v (d div 10) (m(a := ?c)))(a + 1 + of_nat k := 0)) (a + 1)
      (map (\<lambda>x. of_nat x + 0x30) (digs k (unat ?v)))"
    using below small lower by (rule Suc.IH)
  moreover have "dec_loop k (a + 1) ?v (d div 10) (m(a := ?c)) a = ?c"
  proof (subst dec_loop_frame)
    show "a \<noteq> a + 1 + of_nat i" if "i < k" for i
      using offset_ne [of "Suc i" a] that Suc.prems(2) by (simp add: add.assoc)
  qed simp
  moreover have "a \<noteq> a + of_nat (Suc k)" using Suc.prems(2) by (intro offset_ne) simp_all
  moreover have "a + 1 + of_nat k = a + of_nat (Suc k)" by simp
  ultimately show ?case
    unfolding dec_loop.simps digs.simps list.map text_at.simps using digit_char [OF digit]
    by (simp only: v c fun_upd_apply if_False simp_thms)
qed simp

lemma skip_zero_text:
  "text_at m a (map (\<lambda>x. of_nat x + 0x30) ds) \<Longrightarrow> (\<And>d. d \<in> set ds \<Longrightarrow> d < 10) \<Longrightarrow> k < length ds \<Longrightarrow>
   text_at m (skip_zero k m a) (map (\<lambda>x. of_nat x + 0x30) (strip_front k ds))"
proof (induction k arbitrary: ds a)
  case (Suc k)
  then obtain d es where ds: "ds = d # es" by (cases ds) auto
  have "d < 10" using Suc.prems(2) ds by simp
  from digit_char [OF this] show ?case using Suc by (simp add: ds)
qed simp

lemma print_u_text:
  "\<exists>m'. print_u a v s = Some (sys (Write stdout (decimal (unat v)) 0) (s\<lparr>umem := m'\<rparr>)) \<and> same_but a (umem s) m'"
proof -
  let ?m = "(dec_loop 10 a v 1000000000 (umem s))(a + 10 := 0)"
  have n: "unat v < 10 ^ 10" using unat_u32_less [of v] by simp
  have t: "text_at ?m a (map (\<lambda>x. of_nat x + 0x30) (digs 10 (unat v)))"
    using dec_loop_text [OF n, of "1000000000" a "umem s"] by simp
  have "text_at ?m (skip_zero 9 ?m a) (map (\<lambda>x. of_nat x + 0x30) (strip_front 9 (digs 10 (unat v))))"
  proof (rule skip_zero_text [OF t])
    show "d < 10" if "d \<in> set (digs 10 (unat v))" for d using digs_less [OF n that] .
    show "9 < length (digs 10 (unat v))" unfolding digs_length by simp
  qed
  moreover have "decimal (unat v) = map (\<lambda>x. of_nat x + 0x30) (strip_front 9 (digs 10 (unat v)))"
    using decimal_strip [of "unat v" 9] n by simp
  ultimately have "print_u a v s = Some (sys (Write stdout (decimal (unat v)) 0) (s\<lparr>umem := ?m\<rparr>))"
    by (simp only: print_u_def Let_def) (simp add: write_str_text)
  moreover have "dec_loop 10 a v d (umem s) x = umem s x" if "16 \<le> unat (x - a)" for x d
    using that by (intro dec_loop_frame) (auto simp: unat_of_nat take_bit_nat_eq_self)
  then have "same_but a (umem s) ?m"
    using same_but_upd [of a "umem s" "dec_loop 10 a v 1000000000 (umem s)" 10 0] by (simp add: same_but_def)
  ultimately show ?thesis by blast
qed

section \<open>Hexadecimal conversion\<close>

lemma hex_digit_cases: "d < 16 \<Longrightarrow> d = 0 \<or> d = 1 \<or> d = 2 \<or> d = 3 \<or> d = 4 \<or> d = 5 \<or> d = 6 \<or> d = 7 \<or> d = 8 \<or> d = 9
    \<or> d = 10 \<or> d = 11 \<or> d = 12 \<or> d = 13 \<or> d = 14 \<or> d = 15" for d :: nat
  by presburger

lemma hex_char_nibble:
  assumes "c = 0x78 \<or> c = 0x58" and "j < 8"
  shows "hex_char c v j = nibble c (unat v div 2 ^ (28 - 4 * j) mod 16)"
proof -
  let ?d = "unat v div 2 ^ (28 - 4 * j) mod 16"
  have "unat (drop_bit (28 - 4 * j) v AND 0xF) = ?d"
    using unat_and_mask [of "drop_bit (28 - 4 * j) v" 4] by (simp add: mask_numeral unat_drop_bit)
  then have w: "drop_bit (28 - 4 * j) v AND 0xF = of_nat ?d" by (metis of_nat_unat ucast_id)
  have "(drop_bit (28 - 4 * j) v AND 0xF) + 0x30 = of_nat (?d + 0x30)" unfolding w by simp
  then have c: "(ucast ((drop_bit (28 - 4 * j) v AND 0xF) + 0x30) :: u8) = of_nat (?d + 0x30)" by (simp only: ucast_of_nat8)
  have "(if of_nat (d + 0x30) > (0x39 :: u8) then of_nat (d + 0x30) + (7 + c - 0x58) else of_nat (d + 0x30)) = nibble c d" if "d < 16" for d
    using hex_digit_cases [OF that] assms(1) by (elim disjE; simp add: nibble_def)
  then show ?thesis unfolding hex_char_def c Let_def by simp
qed

lemma nibble_zero: "d < 16 \<Longrightarrow> nibble c d \<noteq> 0 \<and> (nibble c d = 0x30 \<longleftrightarrow> d = 0)"
  by (drule hex_digit_cases) (elim disjE; simp add: nibble_def)

lemma upt8: "[0..<8] = [0, 1, 2, 3, 4, 5, 6, 7]"
  by (simp add: upt_rec eval_nat_numeral)

lemma hex_loop_text:
  assumes "c = 0x78 \<or> c = 0x58"
  shows "text_at ((hex_loop a c v m)(a + 8 := 0)) a
    (concat (map (hex_byte c) [unat v div 2 ^ 24, unat v div 2 ^ 16 mod 256, unat v div 2 ^ 8 mod 256, unat v mod 256]))"
proof -
  let ?n = "unat v"
  have nib: "x mod 256 div 16 = x div 16 mod 16" "x mod 256 mod 16 = x mod 16" for x :: nat
    using mod_mult2_eq [of x 16 16] by (simp_all add: mod_mod_cancel)
  have q: "?n div 268435456 = ?n div 16777216 div 16" "?n div 1048576 = ?n div 65536 div 16" "?n div 4096 = ?n div 256 div 16"
    by (simp_all flip: div_mult2_eq)
  have "?n div 16777216 div 16 < 16" using unat_u32_less [of v] by (simp flip: div_mult2_eq add: div_less_iff_less_mult)
  then have h: "map (hex_char c v) [0, 1, 2, 3, 4, 5, 6, 7] = concat (map (hex_byte c) [?n div 2 ^ 24, ?n div 2 ^ 16 mod 256, ?n div 2 ^ 8 mod 256, ?n mod 256])"
    by (simp add: hex_char_nibble [OF assms] hex_byte_def nib q)
  have "hex_char c v j \<noteq> 0" if "j < 8" for j
    using hex_char_nibble [OF assms that] nibble_zero [of "?n div 2 ^ (28 - 4 * j) mod 16" c] by simp
  then have "text_at ((hex_loop a c v m)(a + 8 := 0)) a (map (hex_char c v) [0, 1, 2, 3, 4, 5, 6, 7])"
    by (simp add: hex_loop_def upt8 add.assoc)
  then show ?thesis unfolding h .
qed

lemma skip_pairs_text:
  "text_at m a (concat (map (hex_byte c) bs)) \<Longrightarrow> (\<And>b. b \<in> set bs \<Longrightarrow> b < 256) \<Longrightarrow> length bs = Suc k \<Longrightarrow>
   text_at m (skip_pairs k m a) (concat (map (hex_byte c) (strip0 bs)))"
proof (induction k arbitrary: bs a)
  case 0
  then show ?case by (cases bs) auto
next
  case (Suc k)
  then obtain b b' es where bs: "bs = b # b' # es" by (cases bs; cases "tl bs") auto
  have "b < 256" using Suc.prems(2) bs by simp
  then have "b div 16 < 16" "b mod 16 < 16" by simp_all
  from nibble_zero [OF this(1), of c] nibble_zero [OF this(2), of c]
  have z: "nibble c (b div 16) = 0x30 \<and> nibble c (b mod 16) = 0x30 \<longleftrightarrow> b = 0" by auto
  have hd: "m a = nibble c (b div 16)" "m (a + 1) = nibble c (b mod 16)" and tl: "text_at m (a + 2) (concat (map (hex_byte c) (b' # es)))"
    using Suc.prems(1) by (simp_all add: bs hex_byte_def [of c b] add.assoc)
  show ?case
  proof (cases "b = 0")
    case True
    have "text_at m (skip_pairs k m (a + 2)) (concat (map (hex_byte c) (strip0 (b' # es))))"
      using Suc.prems(2,3) bs by (intro Suc.IH [OF tl]) auto
    then show ?thesis using z True hd by (simp add: bs)
  next
    case False
    then show ?thesis using z hd Suc.prems(1) by (auto simp: bs)
  qed
qed

lemma print_x_text:
  assumes "c = 0x78 \<or> c = 0x58"
  shows "\<exists>m'. print_x a c v s = Some (sys (Write stdout (hexadecimal c (unat v)) 0) (sys (Write stdout [0x30, 0x78] 0) (s\<lparr>umem := m'\<rparr>)))
    \<and> same_but a (umem s) m'"
proof -
  let ?m = "(hex_loop a c v (umem s))(a + 8 := 0)" and ?n = "unat v"
  let ?bs = "[?n div 2 ^ 24, ?n div 2 ^ 16 mod 256, ?n div 2 ^ 8 mod 256, ?n mod 256]"
  have "?n div 2 ^ 24 < 256" using unat_u32_less [of v] by (simp add: div_less_iff_less_mult)
  then have "text_at ?m (skip_pairs 3 ?m a) (concat (map (hex_byte c) (strip0 ?bs)))"
    by (intro skip_pairs_text [OF hex_loop_text [OF assms]]) auto
  then have "print_x a c v s = Some (sys (Write stdout (hexadecimal c ?n) 0) (sys (Write stdout [0x30, 0x78] 0) (s\<lparr>umem := ?m\<rparr>)))"
    by (simp add: print_x_def Let_def poke_def sys_def write_str_text hexadecimal_def ascii_def)
  moreover have "same_but a (umem s) ?m"
    using same_but_upd [OF same_but_refl, of 0 a "umem s" "hex_char c v 0"]
    by (auto simp: hex_loop_def same_but_def upt8 unat_of_nat)
  ultimately show ?thesis by blast
qed

section \<open>One conversion\<close>

lemma string_clear_same: "string_clear a m p xs \<Longrightarrow> same_but a m m' \<Longrightarrow> string_clear a m' p xs"
  by (auto simp: string_clear_def same_but_def intro: text_at_cong)

lemma print_c_text: "\<exists>m'. print_c a c s = Some (sys (W (if c = 0 then [] else [c])) (s\<lparr>umem := m'\<rparr>)) \<and> same_but a (umem s) m'"
proof -
  let ?m = "(umem s)(a := c, a + 1 := 0)"
  have "text_at ?m a (if c = 0 then [] else [c])" by simp
  moreover have "same_but a (umem s) ?m"
    using same_but_upd [OF same_but_upd [OF same_but_refl, of 0], of 1 a "umem s" c 0] by simp
  ultimately show ?thesis by (intro exI [of _ ?m]) (simp add: print_c_def poke_def write_str_text)
qed

lemma convert_text:
  assumes "c \<noteq> 0" and "if takes_arg c then args = v # args' else args' = args"
    and "c = 0x73 \<Longrightarrow> text_at (umem s) v (str v)"
  shows "\<exists>ts m'. convert a c args s = Some (Ok (args', s\<lparr>umem := m', calls := calls s @ map W ts\<rparr>))
    \<and> same_but a (umem s) m' \<and> concat ts = conv_text str c v"
proof -
  consider (percent) "c = 0x25" | (u) "c = 0x75" | (x) "c = 0x78 \<or> c = 0x58" | (ch) "c = 0x63" | (st) "c = 0x73"
    | (other) "\<not> takes_arg c" "c \<noteq> 0x25" by (auto simp: takes_arg_def)
  then show ?thesis
  proof cases
    case percent
    then show ?thesis using assms(2) print_c_text [of a "0x25" s]
      by (auto simp: convert_def conv_text_def takes_arg_def sys_def intro!: exI [of _ "[[0x25]]"])
  next
    case u
    then show ?thesis using assms(2) print_u_text [of a v s]
      by (auto simp: convert_def conv_text_def takes_arg_def sys_def intro!: exI [of _ "[decimal (unat v)]"])
  next
    case x
    then show ?thesis using assms(2) print_x_text [OF x, of a v s]
      by (auto simp: convert_def conv_text_def takes_arg_def sys_def intro!: exI [of _ "[[0x30, 0x78], hexadecimal c (unat v)]"])
  next
    case ch
    then show ?thesis using assms(2) print_c_text [of a "ucast v" s]
      by (auto simp: convert_def conv_text_def takes_arg_def sys_def intro!: exI [of _ "[if ucast v = (0 :: u8) then [] else [ucast v]]"])
  next
    case st
    then show ?thesis using assms(2) write_str_text [OF assms(3)]
      by (auto simp: convert_def conv_text_def takes_arg_def sys_def intro!: exI [of _ "[str v]"] exI [of _ "umem s"])
  next
    case other
    then show ?thesis using assms(1,2) print_c_text [of a c "sys (W (ascii ''%'')) s"]
      by (auto simp: convert_def conv_text_def takes_arg_def sys_def ascii_def intro!: exI [of _ "[[0x25], [c]]"])
  qed
qed

section \<open>The format loop\<close>

lemma text_at_drop: "text_at m a xs \<Longrightarrow> p \<le> length xs \<Longrightarrow> text_at m (a + of_nat p) (drop p xs)"
proof (induction p arbitrary: a xs)
  case (Suc p)
  then obtain y ys where "xs = y # ys" by (cases xs) auto
  then show ?case using Suc.IH [of "a + 1" ys] Suc.prems by (simp add: add.assoc)
qed simp

lemma text_at_cut: "text_at m a xs \<Longrightarrow> k \<le> length xs \<Longrightarrow> k < 2 ^ 32 \<Longrightarrow> text_at (m(a + of_nat k := 0)) a (take k xs)"
proof (induction k arbitrary: a xs)
  case (Suc k)
  then obtain y ys where xs: "xs = y # ys" by (cases xs) auto
  have "text_at (m(a + 1 + of_nat k := 0)) (a + 1) (take k ys)" by (rule Suc.IH) (use Suc.prems xs in simp_all)
  moreover have "a \<noteq> a + of_nat (Suc k)" using Suc.prems(3) by (intro offset_ne) simp_all
  moreover have "a + 1 + of_nat k = a + of_nat (Suc k)" by simp
  ultimately show ?case using Suc.prems(1) unfolding xs take_Suc_Cons text_at.simps by (simp only: fun_upd_apply if_False simp_thms)
qed simp

lemma text_at_nth: "text_at m a xs \<Longrightarrow> k < length xs \<Longrightarrow> m (a + of_nat k) = xs ! k \<and> xs ! k \<noteq> 0"
  using text_at_drop [of m a xs k] by (simp add: Cons_nth_drop_Suc [symmetric])

lemma text_at_end: "text_at m a xs \<Longrightarrow> m (a + of_nat (length xs)) = 0"
  using text_at_drop [of m a xs "length xs"] by simp

lemma format_literal: "c \<noteq> 0x25 \<Longrightarrow> format str (c # xs) args = map_option (Cons c) (format str xs args)"
  by (cases xs) auto

lemma str_args_literal: "c \<noteq> 0x25 \<Longrightarrow> str_args (c # xs) args = str_args xs args"
  by (cases xs) auto

lemma format_conversion:
  assumes "format str (0x25 # xs) args = Some out"
  obtains d ys v args' out' where "xs = d # ys" "if takes_arg d then args = v # args' else args' = args"
    "format str ys args' = Some out'" "out = conv_text str d v @ out'"
    "str_args (0x25 # xs) args = (if d = 0x73 then [v] else []) @ str_args ys args'"
proof (cases xs)
  case (Cons d ys)
  show ?thesis
  proof (cases "takes_arg d")
    case True
    then obtain v args' where "args = v # args'" using assms Cons by (cases args) auto
    then show ?thesis using that [of d ys v args'] assms Cons True by auto
  next
    case False
    have "conv_text str d 0 = conv_text str d v" for v using False by (simp add: conv_text_def takes_arg_def)
    then show ?thesis using that [of d ys 0 args] assms Cons False by (auto simp: takes_arg_def)
  qed
qed (use assms in simp)

lemma printf_loop_end: "umem s (S + i) = 0 \<Longrightarrow> printf_loop F S part i args s = Some (Ok (part, s))"
  by (subst printf_loop.simps) simp

lemma printf_loop_literal:
  "umem s (S + i) \<noteq> 0 \<Longrightarrow> umem s (S + i) \<noteq> 0x25 \<Longrightarrow> printf_loop F S part i args s = printf_loop F S part (i + 1) args s"
  by (subst printf_loop.simps) simp

lemma printf_loop_percent:
  assumes "umem s (S + i) = 0x25" and "text_at ((umem s)(S + i := 0)) part xs"
    and "convert F (umem s (S + (i + 1))) args (sys (W xs) s) = Some (Ok (args', s'))"
  shows "printf_loop F S part i args s = printf_loop F S (S + (i + 1) + 1) (i + 1 + 1) args' s'"
proof -
  have w: "write_str part (poke (S + i) 0 s) = Some (sys (W xs) (poke (S + i) 0 s))"
    using assms(2) by (intro write_str_text) (simp add: poke_def)
  have restored: "poke (S + i) 0x25 (sys (W xs) (poke (S + i) 0 s)) = sys (W xs) s"
    using assms(1) by (simp add: poke_def sys_def fun_upd_idem)
  have mem: "umem (sys (W xs) s) = umem s" by (simp add: sys_def)
  show ?thesis
    by (subst printf_loop.simps) (simp only: assms(1,3) w restored mem Let_def bind.simps outcome.case fst_conv snd_conv, simp)
qed

lemma printf_conversion_step:
  assumes cl: "text_at (umem s) S xs" and len: "length xs < 2 ^ 32" and k: "Suc k < length xs" "p \<le> k" "xs ! k = 0x25"
    and args: "if takes_arg (xs ! Suc k) then args = v # args' else args' = args"
    and str: "xs ! Suc k = 0x73 \<Longrightarrow> text_at (umem s) v (str v)"
  shows "\<exists>ts m'. printf_loop F S (S + of_nat p) (of_nat k) args s =
      printf_loop F S (S + of_nat (Suc (Suc k))) (of_nat (Suc (Suc k))) args'
        (s\<lparr>umem := m', calls := calls s @ map W (take (k - p) (drop p xs) # ts)\<rparr>)
    \<and> same_but F (umem s) m' \<and> concat ts = conv_text str (xs ! Suc k) v"
proof -
  let ?part = "take (k - p) (drop p xs)" and ?d = "xs ! Suc k"
  have here: "umem s (S + of_nat k) = 0x25" using text_at_nth [OF cl, of k] k by simp
  note chd = text_at_nth [OF cl k(1)]
  have "text_at ((umem s)(S + of_nat p + of_nat (k - p) := 0)) (S + of_nat p) ?part"
    using text_at_drop [OF cl, of p] k len by (intro text_at_cut) simp_all
  moreover have "S + of_nat p + of_nat (k - p) = S + of_nat k" using k by simp
  ultimately have cut: "text_at ((umem s)(S + of_nat k := 0)) (S + of_nat p) ?part" by (simp only:)
  have "?d = 0x73 \<Longrightarrow> text_at (umem (sys (W ?part) s)) v (str v)" using str by (simp add: sys_def)
  from convert_text [where s = "sys (W ?part) s" and a = F and str = str, OF _ args this] chd
  obtain ts m' where c: "convert F ?d args (sys (W ?part) s) = Some (Ok (args', s\<lparr>umem := m', calls := calls s @ map W (?part # ts)\<rparr>))"
    "same_but F (umem s) m'" "concat ts = conv_text str ?d v" by (auto simp: sys_def)
  have at: "umem s (S + (of_nat k + 1)) = ?d" "S + (of_nat k + 1) + 1 = S + of_nat (Suc (Suc k))" "of_nat k + 1 + 1 = (of_nat (Suc (Suc k)) :: u32)"
    using chd by (simp_all add: add.assoc add.commute)
  show ?thesis
    using printf_loop_percent [OF here cut, of F args] c unfolding at by (intro exI [of _ ts] exI [of _ m']) simp
qed

lemma printf_loop_text:
  assumes fmt: "string_clear F m0 S xs" and "length xs < 2 ^ 32"
    and "k \<le> length xs" "p \<le> k" and "same_but F m0 (umem s)" and "format str (drop k xs) args = Some out"
    and "\<And>v. v \<in> set (str_args (drop k xs) args) \<Longrightarrow> string_clear F m0 v (str v)"
  shows "\<exists>part' tl ts m'. printf_loop F S (S + of_nat p) (of_nat k) args s = Some (Ok (part', s\<lparr>umem := m', calls := calls s @ map W ts\<rparr>))
    \<and> same_but F m0 m' \<and> text_at m' part' tl \<and> concat ts @ tl = take (k - p) (drop p xs) @ out"
  using assms(3-)
proof (induction "length xs - k" arbitrary: k p args s out rule: less_induct)
  case less
  have cl: "text_at (umem s) S xs" using string_clear_same [OF fmt less.prems(3)] by (simp add: string_clear_def)
  show ?case
  proof (cases "k = length xs")
    case True
    have "printf_loop F S (S + of_nat p) (of_nat k) args s = Some (Ok (S + of_nat p, s))"
      using text_at_end [OF cl] True by (intro printf_loop_end) simp
    moreover have "text_at (umem s) (S + of_nat p) (drop p xs)" using text_at_drop [OF cl] less.prems True by simp
    ultimately show ?thesis
      using less.prems True by (intro exI [of _ "S + of_nat p"] exI [of _ "drop p xs"] exI [of _ "[]"] exI [of _ "umem s"]) simp
  next
    case False
    then have k: "k < length xs" using less.prems(1) by simp
    note ch = text_at_nth [OF cl k]
    have dk: "drop k xs = xs ! k # drop (Suc k) xs" using k by (simp add: Cons_nth_drop_Suc)
    show ?thesis
    proof (cases "xs ! k = 0x25")
      case lit: False
      from less.prems(4) obtain o' where o': "format str (drop (Suc k) xs) args = Some o'" "out = xs ! k # o'"
        unfolding dk format_literal [OF lit] by auto
      have sa: "str_args (drop k xs) args = str_args (drop (Suc k) xs) args" unfolding dk str_args_literal [OF lit] ..
      have "take (Suc k - p) (drop p xs) = take (k - p) (drop p xs) @ [xs ! k]"
        using k less.prems(2) by (simp add: Suc_diff_le take_Suc_conv_app_nth)
      moreover have "printf_loop F S (S + of_nat p) (of_nat k) args s = printf_loop F S (S + of_nat p) (of_nat (Suc k)) args s"
        using printf_loop_literal [of s S "of_nat k"] ch lit by (simp add: add.commute)
      ultimately show ?thesis
        using less.hyps [of "Suc k" p s args o'] less.prems k o' unfolding sa by simp
    next
      case True
      from less.prems(4) [unfolded dk True] obtain d ys v args' o' where f: "drop (Suc k) xs = d # ys"
        "if takes_arg d then args = v # args' else args' = args" "format str ys args' = Some o'" "out = conv_text str d v @ o'"
        "str_args (0x25 # drop (Suc k) xs) args = (if d = 0x73 then [v] else []) @ str_args ys args'"
        by (rule format_conversion)
      have k2: "Suc k < length xs" using f(1) by (cases "Suc k < length xs") auto
      then have d: "d = xs ! Suc k" "ys = drop (Suc (Suc k)) xs" using f(1) by (simp_all add: Cons_nth_drop_Suc [symmetric])
      have sa: "str_args (drop k xs) args = (if d = 0x73 then [v] else []) @ str_args ys args'" using f(5) by (simp add: dk True)
      let ?part = "take (k - p) (drop p xs)"
      have "d = 0x73 \<Longrightarrow> text_at (umem s) v (str v)"
        using string_clear_same [OF _ less.prems(3)] less.prems(5) [of v] sa by (simp add: string_clear_def)
      with printf_conversion_step [OF cl assms(2) k2 less.prems(2) True, folded d(1), OF f(2)]
      obtain ts m' where run: "printf_loop F S (S + of_nat p) (of_nat k) args s =
          printf_loop F S (S + of_nat (Suc (Suc k))) (of_nat (Suc (Suc k))) args' (s\<lparr>umem := m', calls := calls s @ map W (?part # ts)\<rparr>)"
        and c: "same_but F (umem s) m'" "concat ts = conv_text str d v" by blast
      let ?s = "s\<lparr>umem := m', calls := calls s @ map W (?part # ts)\<rparr>"
      have "\<exists>part' tl ts' m''. printf_loop F S (S + of_nat (Suc (Suc k))) (of_nat (Suc (Suc k))) args' ?s = Some (Ok (part', ?s\<lparr>umem := m'', calls := calls ?s @ map W ts'\<rparr>))
        \<and> same_but F m0 m'' \<and> text_at m'' part' tl \<and> concat ts' @ tl = take (Suc (Suc k) - Suc (Suc k)) (drop (Suc (Suc k)) xs) @ o'"
        using k2 f(3) d less.prems(5) sa same_but_trans [OF less.prems(3) c(1)] by (intro less.hyps) auto
      then obtain part' tl ts' m'' where e: "printf_loop F S (S + of_nat (Suc (Suc k))) (of_nat (Suc (Suc k))) args' ?s
            = Some (Ok (part', ?s\<lparr>umem := m'', calls := calls ?s @ map W ts'\<rparr>))"
          "same_but F m0 m''" "text_at m'' part' tl" "concat ts' @ tl = o'" by auto
      show ?thesis
        using e c(2) f(4) unfolding run e(1) by (intro exI [of _ part'] exI [of _ tl] exI [of _ "?part # ts @ ts'"] exI [of _ m'']) simp
    qed
  qed
qed

section \<open>The whole function\<close>

lemma away_from_buffer:
  fixes F x :: u32
  assumes "unat F = f" "f + 400 \<le> 2 ^ 32" and "unat x < f \<or> f + 400 \<le> unat x"
  shows "16 \<le> unat (x - F)"
proof (cases "unat x < f")
  case True
  then have "unat (x - F) = 2 ^ 32 + unat x - f" using assms(1) by (simp add: unat_sub_if')
  then show ?thesis using assms(2) by simp
next
  case False
  then show ?thesis using assms by (simp add: unat_sub_if')
qed

lemma kept_string_clear:
  assumes s: "kept_string s bs a xs" and same: "\<And>x. kept s bs x \<Longrightarrow> m x = umem s x"
    and away: "\<And>x. kept s bs x \<Longrightarrow> 16 \<le> unat (x - F)"
  shows "string_clear F m a xs"
proof -
  have "text_at (umem s) a xs" using s by (simp add: kept_string_def string_at_text_at)
  then have "text_at m a xs" by (rule text_at_cong) (use s in \<open>simp add: same kept_string_def\<close>)
  then show ?thesis using s away by (simp add: string_clear_def kept_string_def)
qed

lemma printf_run:
  assumes c: "chain (umem s) (unat (heap s)) bs" and r: "first_fit 400 bs = Some (off, bs')"
    and fmt: "kept_string s bs S xs" "format str xs args = Some out"
    and str: "\<And>v. v \<in> set (str_args xs args) \<Longrightarrow> kept_string s bs v (str v)"
  shows "\<exists>ts s'. printf S args s = Some (Ok s') \<and> calls s' = calls s @ map W ts \<and> concat ts = out \<and> heap s' = heap s
    \<and> (\<exists>bs''. chain (umem s') (unat (heap s)) bs'' \<and> extent bs'' = extent bs \<and> set (live (unat (heap s)) bs'') = set (live (unat (heap s)) bs)
        \<and> first_fit 400 bs'' \<noteq> None)
    \<and> (\<forall>x. kept s bs x \<longrightarrow> umem s' x = umem s x)"
proof -
  let ?a = "unat (heap s)" and ?F = "heap s + of_nat off"
  have n400: "unat (400 :: u32) = 400" and big: "4 < unat (400 :: u32)" "unat (400 :: u32) + 4 \<le> 2 ^ 32" by simp_all
  have r': "first_fit (4 * ((unat (400 :: u32) + 3) div 4)) bs = Some (off, bs')" using r by simp
  obtain m1 k where ml: "malloc 400 s = Some (Ok (?F, s\<lparr>umem := m1\<rparr>))" and c1: "chain m1 ?a bs'" and e: "extent bs' = extent bs"
    and fit: "off + 400 \<le> extent bs" and k: "400 \<le> k"
    and l: "\<And>q. q \<in> set (live ?a bs') \<longleftrightarrow> q = (?a + off, k) \<or> q \<in> set (live ?a bs)"
    and apart: "\<forall>(p, k) \<in> set (live ?a bs). p + k + 12 \<le> ?a + off \<or> ?a + off + 400 \<le> p"
    and same: "\<And>x. kept s bs x \<Longrightarrow> m1 x = umem s x"
    using malloc_result [OF c big r', folded kept_def, unfolded n400] by blast
  have room: "?a + off + 400 < 2 ^ 32" using chain_extent [OF c] fit by linarith
  have F: "?F = of_nat (?a + off)" by simp
  have uF: "unat ?F = ?a + off" unfolding F using room by (intro unat_nat_addr) linarith
  have "unat x < ?a + off - 12 \<or> ?a + off + 400 \<le> unat x" if "kept s bs x" for x
    using that apart fit first_fit_offset [OF r] unfolding kept_def by fastforce
  then have out12: "kept s bs x \<Longrightarrow> unat x < ?a + off - 12 \<or> ?a + off + 400 \<le> unat x" for x by blast
  then have away: "kept s bs x \<Longrightarrow> 16 \<le> unat (x - ?F)" for x using room by (intro away_from_buffer [OF uF]) force+
  note clear = kept_string_clear [OF _ same away]
  have len: "length xs < 2 ^ 32" using fmt(1) by (simp add: kept_string_def string_at_def)
  obtain part tl ts m2 where lp: "printf_loop ?F S S 0 args (s\<lparr>umem := m1\<rparr>) = Some (Ok (part, s\<lparr>umem := m2, calls := calls s @ map W ts\<rparr>))"
    and m2: "same_but ?F m1 m2" "text_at m2 part tl" "concat ts @ tl = out"
    using printf_loop_text [OF clear [OF fmt(1)] len, of 0 0 "s\<lparr>umem := m1\<rparr>" str args out] fmt(2) clear [OF str] by auto
  let ?s = "s\<lparr>umem := m2, calls := calls s @ map W (ts @ [tl])\<rparr>"
  have run: "printf S args s = Some (Ok (free ?F ?s))"
    using write_str_text [of "s\<lparr>umem := m2, calls := calls s @ map W ts\<rparr>" part tl] m2(2)
    by (simp add: printf_def ml lp sys_def)
  have "chain m2 ?a bs'"
  proof (rule chain_payload [OF c1])
    fix x :: u32 assume "\<And>p q. (p, q) \<in> set (live ?a bs') \<Longrightarrow> \<not> (p \<le> unat x \<and> unat x < p + q)"
    then have "unat x < ?a + off \<or> ?a + off + 400 \<le> unat x" using l k by force
    then show "m2 x = m1 x" using m2(1) away_from_buffer [OF uF] room by (simp add: same_but_def)
  qed
  then have c2: "chain (umem ?s) (unat (heap ?s)) bs'" "(?a + off, k) \<in> set (live (unat (heap ?s)) bs')" using l by simp_all
  have new: "(?a + off, k) \<notin> set (live ?a bs)" using apart k by fastforce
  have "\<exists>bs''. chain (umem (free ?F ?s)) ?a bs'' \<and> extent bs'' = extent bs \<and> set (live ?a bs'') = set (live ?a bs)
      \<and> first_fit 400 bs'' \<noteq> None"
    using free_live(1) [OF c2] e l new k unfolding F by auto
  moreover have "umem (free ?F ?s) x = umem s x" if "kept s bs x" for x
  proof -
    have "unat x < ?a + off - 12 \<or> ?a + off - 8 \<le> unat x" using out12 [OF that] by linarith
    then show ?thesis using free_live(2) [OF c2, of x] m2(1) away [OF that] same [OF that] unfolding F by (simp add: same_but_def)
  qed
  ultimately show ?thesis using run m2(3) by (intro exI [of _ "ts @ [tl]"] exI [of _ "free ?F ?s"]) simp
qed

section \<open>Properties\<close>

text \<open>
  C20. \<^verbatim>\<open>printf\<close> writes, piece by piece, exactly the text its format describes: literal characters, \<^verbatim>\<open>%u\<close>
  as the decimal numeral without leading zeros, \<^verbatim>\<open>%x\<close>/\<^verbatim>\<open>%X\<close> as \<^verbatim>\<open>0x\<close> and the bytes of the number without
  leading zero bytes, \<^verbatim>\<open>%c\<close>, \<^verbatim>\<open>%s\<close>, \<^verbatim>\<open>%%\<close>, and an unknown conversion as itself. It returns, gives its buffer
  back (so that it can be called again), and leaves the format string and all memory in use as they were. (The format must not end in a
  single percent sign, and the heap must have 400 bytes free.)
\<close>

theorem printf_formats:
  assumes "chain (umem s) (unat (heap s)) bs" and "first_fit 400 bs \<noteq> None"
    and "kept_string s bs S xs" and "format str xs args = Some out"
    and "\<And>v. v \<in> set (str_args xs args) \<Longrightarrow> kept_string s bs v (str v)"
  shows "\<exists>ts s'. printf S args s = Some (Ok s') \<and> calls s' = calls s @ map (\<lambda>t. Write 1 t 0) ts \<and> concat ts = out \<and> heap s' = heap s
    \<and> (\<exists>bs''. chain (umem s') (unat (heap s)) bs'' \<and> extent bs'' = extent bs \<and> set (live (unat (heap s)) bs'') = set (live (unat (heap s)) bs)
        \<and> first_fit 400 bs'' \<noteq> None)
    \<and> (\<forall>x. kept s bs x \<longrightarrow> umem s' x = umem s x)"
proof -
  obtain off bs' where "first_fit 400 bs = Some (off, bs')" using assms(2) by auto
  from printf_run [OF assms(1) this assms(3-5)] show ?thesis .
qed

lemma sample_print_facts: "chain (umem sample_print) (unat (heap sample_print)) [(40960, False)]" "heap sample_print = 0x10000000"
  "kept_string sample_print [(40960, False)] 0x1000 [0x25, 0x75]"
proof -
  show "chain (umem sample_print) (unat (heap sample_print)) [(40960, False)]" and h: "heap sample_print = 0x10000000"
    using init_libc_chain [of "0x10000000"] by (simp_all add: sample_print_def)
  have "string_at (umem sample_print) 0x1000 [0x25, 0x75]"
    by (simp add: string_at_def sample_print_def init_libc_def sys_def set_size_def set_fd_def set_bk_def store32_def Let_def less_Suc_eq)
  moreover have "kept sample_print [(40960, False)] (0x1000 + of_nat i)" if "i \<le> 2" for i
  proof -
    have "i = 0 \<or> i = 1 \<or> i = 2" using that by linarith
    then show ?thesis by (elim disjE; simp add: kept_def h)
  qed
  ultimately show "kept_string sample_print [(40960, False)] 0x1000 [0x25, 0x75]" by (simp add: kept_string_def)
qed

theorem printf_formats_witness:
  "\<exists>ts s'. printf 0x1000 [42] sample_print = Some (Ok s') \<and> calls s' = calls sample_print @ map (\<lambda>t. Write 1 t 0) ts \<and> concat ts = [0x34, 0x32]"
proof -
  have "decimal 42 = [0x34, 0x32]" by (simp add: decimal.simps)
  then have "format (\<lambda>_. []) [0x25, 0x75] [42] = Some [0x34, 0x32]" by (simp add: takes_arg_def conv_text_def)
  moreover have "str_args [0x25, 0x75] [42] = []" by (simp add: takes_arg_def)
  ultimately show ?thesis
    using printf_formats [OF sample_print_facts(1) _ sample_print_facts(3), of "\<lambda>_. []" "[42]" "[0x34, 0x32]"] by auto
qed

end
