(* ===== verification/Pci.thy ===== *)
theory Pci
  imports Vmm
begin

text \<open>
  The PCI bus of BarrelOS (\<^verbatim>\<open>barrelOS/drivers/pci.c\<close>, \<^verbatim>\<open>pci.h\<close>). The configuration mechanism is the
  address port \<^verbatim>\<open>0xCF8\<close>, which selects what the data port \<^verbatim>\<open>0xCFC\<close> shows: \<open>config_space\<close> is what the bus
  answers for each address. How a device reacts to a write is an argument of \<^verbatim>\<open>pciwrite\<close>.
  The lemmas show that the scan lists the devices present and that \<^verbatim>\<open>detect_nvme\<close> finds the drive.
\<close>

section \<open>Configuration accesses\<close>

record pci =
  config_address :: u32
  config_space :: "u32 \<Rightarrow> u32"
  pci_devices :: "u32 list"

definition getaddress :: "u8 \<Rightarrow> u8 \<Rightarrow> u8 \<Rightarrow> u8 \<Rightarrow> u32" where
  "getaddress bus device func offset =
     (let lbus = ucast bus :: u32; lslot = ucast device :: u32; lfunc = ucast func :: u32
      in push_bit 16 lbus OR push_bit 11 lslot OR push_bit 8 lfunc OR (ucast offset AND 0xFC) OR 0x80000000)"

definition pciread :: "u32 \<Rightarrow> pci \<Rightarrow> u32 \<times> pci" where
  "pciread address s = (let s = s\<lparr>config_address := address\<rparr> in (config_space s (config_address s), s))"

definition pciwrite :: "(u32 \<Rightarrow> u32 \<Rightarrow> (u32 \<Rightarrow> u32) \<Rightarrow> u32 \<Rightarrow> u32) \<Rightarrow> u32 \<Rightarrow> u32 \<Rightarrow> pci \<Rightarrow> pci" where
  "pciwrite react address data s =
     (let s = s\<lparr>config_address := address\<rparr>
      in s\<lparr>config_space := react (config_address s) data (config_space s)\<rparr>)"

section \<open>Enumeration\<close>

text \<open>The two nested loops, for the pairs of bus and device still to visit.\<close>

fun pci_scan :: "(u8 \<times> u8) list \<Rightarrow> u8 \<Rightarrow> pci \<Rightarrow> (u8 \<times> pci) outcome" where
  "pci_scan [] no_pci_devices s = Ok (no_pci_devices, s)"
| "pci_scan ((bus, device) # rest) no_pci_devices s =
     (let address = getaddress bus device 0 0; (v, s) = pciread address s in
      if v \<noteq> 0xFFFFFFFF
      then if unat no_pci_devices < 32
           then pci_scan rest (no_pci_devices + 1)
                  (s\<lparr>pci_devices := (pci_devices s)[unat no_pci_devices := address]\<rparr>)
           else Halt (Undefined ''pci_devices overflow'')
      else pci_scan rest no_pci_devices s)"

definition all_slots :: "(u8 \<times> u8) list" where
  "all_slots = concat (map (\<lambda>bus. map (\<lambda>device. (of_nat bus, of_nat device)) [0..<32]) [0..<255])"

definition init_pci :: "pci \<Rightarrow> pci outcome" where
  "init_pci s =
     bind_ok (pci_scan all_slots 0 s) (\<lambda>(no_pci_devices, s).
       if unat no_pci_devices < 32
       then Ok (s\<lparr>pci_devices := (pci_devices s)[unat no_pci_devices := 0xFFFFFFFF]\<rparr>)
       else Halt (Undefined ''pci_devices overflow''))"

function detect_loop :: "nat \<Rightarrow> pci \<Rightarrow> (u32 \<times> pci) outcome" where
  "detect_loop i s =
     (if i < 32
      then let nvme = pci_devices s ! i; (v, s) = pciread (nvme + 0x8) s in
           if drop_bit 16 v = 0x0108 then Ok (nvme, s)
           else if nvme \<noteq> 0xFFFFFFFF then detect_loop (i + 1) s
           else Halt (KPanic ''NO NVME DRIVE DETECTED'')
      else Halt (Undefined ''pci_devices overflow''))"
  by pat_completeness auto
termination
  by (relation "measure (\<lambda>(i, s). 32 - i)") auto

declare detect_loop.simps [simp del]

definition detect_nvme :: "pci \<Rightarrow> (u32 \<times> pci) outcome" where
  "detect_nvme s = detect_loop 0 s"

section \<open>Device headers\<close>

record pci_header_t =
  vendor_id :: u16
  device_id :: u16
  pci_command :: u16
  pci_status :: u16
  revision :: u8
  progIF :: u8
  psubclass :: u8
  pclass :: u8
  cache :: u8
  latency_timer :: u8
  header_type :: u8
  BIST :: u8
  BAR0 :: u32
  BAR1 :: u32
  BAR2 :: u32
  BAR3 :: u32
  BAR4 :: u32
  BAR5 :: u32
  CISpointer :: u32
  subsystem_vendor_id :: u16
  subsystem_id :: u16
  ROM_base :: u32
  cap_pointer :: u8
  reserved1 :: u16
  reserved2 :: u8
  reserved3 :: u32
  interrupt_line :: u8
  interrupt_pin :: u8
  min_grant :: u8
  max_latency :: u8

text \<open>The structure over sixteen little-endian words.\<close>

definition header_of :: "u32 list \<Rightarrow> pci_header_t" where
  "header_of w =
     \<lparr>vendor_id = ucast (w ! 0), device_id = ucast (drop_bit 16 (w ! 0)),
      pci_command = ucast (w ! 1), pci_status = ucast (drop_bit 16 (w ! 1)),
      revision = ucast (w ! 2), progIF = ucast (drop_bit 8 (w ! 2)),
      psubclass = ucast (drop_bit 16 (w ! 2)), pclass = ucast (drop_bit 24 (w ! 2)),
      cache = ucast (w ! 3), latency_timer = ucast (drop_bit 8 (w ! 3)),
      header_type = ucast (drop_bit 16 (w ! 3)), BIST = ucast (drop_bit 24 (w ! 3)),
      BAR0 = w ! 4, BAR1 = w ! 5, BAR2 = w ! 6, BAR3 = w ! 7, BAR4 = w ! 8, BAR5 = w ! 9,
      CISpointer = w ! 10, subsystem_vendor_id = ucast (w ! 11), subsystem_id = ucast (drop_bit 16 (w ! 11)),
      ROM_base = w ! 12, cap_pointer = ucast (w ! 13), reserved1 = ucast (drop_bit 8 (w ! 13)),
      reserved2 = ucast (drop_bit 24 (w ! 13)), reserved3 = w ! 14,
      interrupt_line = ucast (w ! 15), interrupt_pin = ucast (drop_bit 8 (w ! 15)),
      min_grant = ucast (drop_bit 16 (w ! 15)), max_latency = ucast (drop_bit 24 (w ! 15))\<rparr>"

text \<open>\<^verbatim>\<open>for (int i = 0; i < 0xF; i++) registers[i] = pciread(address + i * 4);\<close>\<close>

fun fill_header :: "u32 \<Rightarrow> u32 \<Rightarrow> nat list \<Rightarrow> pci \<Rightarrow> vm \<Rightarrow> (pci \<times> vm) outcome" where
  "fill_header registers address [] s m = Ok (s, m)"
| "fill_header registers address (i # is) s m =
     (let (v, s) = pciread (address + of_nat i * 4) s
      in bind_ok (write32 kaccess (registers + 4 * of_nat i) v m) (fill_header registers address is s))"

fun read_words :: "u32 \<Rightarrow> nat \<Rightarrow> vm \<Rightarrow> (u32 list \<times> vm) outcome" where
  "read_words a 0 m = Ok ([], m)"
| "read_words a (Suc n) m =
     bind_ok (read32 kaccess a m) (\<lambda>(w, m).
     bind_ok (read_words (a + 4) n m) (\<lambda>(ws, m). Ok (w # ws, m)))"

definition getHeader :: "u32 \<Rightarrow> pci \<Rightarrow> vm \<Rightarrow> (pci_header_t \<times> pci \<times> vm) outcome" where
  "getHeader address s m =
     bind_ok (kmalloc m) (\<lambda>(registers, m).
     bind_ok (fill_header registers address [0..<0xF] s m) (\<lambda>(s, m).
     bind_ok (read_words registers 16 m) (\<lambda>(w, m). Ok (header_of w, s, m))))"

section \<open>Specification\<close>

text \<open>The addresses of the devices that answer, in the order of the scan.\<close>

definition answering :: "(u32 \<Rightarrow> u32) \<Rightarrow> (u8 \<times> u8) list \<Rightarrow> u32 list" where
  "answering cs slots = filter (\<lambda>a. cs a \<noteq> 0xFFFFFFFF) (map (\<lambda>(bus, device). getaddress bus device 0 0) slots)"

definition is_nvme :: "(u32 \<Rightarrow> u32) \<Rightarrow> u32 \<Rightarrow> bool" where
  "is_nvme cs a \<longleftrightarrow> drop_bit 16 (cs (a + 8)) = 0x0108"

section \<open>The scan\<close>

lemma pciread_eq [simp]: "pciread a s = (config_space s a, s\<lparr>config_address := a\<rparr>)"
  by (simp add: pciread_def Let_def)

lemma pci_scan_lists:
  assumes "length (pci_devices s) = 32" and "unat n + length (answering (config_space s) slots) \<le> 32"
  shows "\<exists>s'. pci_scan slots n s = Ok (of_nat (unat n + length (answering (config_space s) slots)), s')
    \<and> config_space s' = config_space s \<and> length (pci_devices s') = 32
    \<and> take (unat n + length (answering (config_space s) slots)) (pci_devices s')
        = take (unat n) (pci_devices s) @ answering (config_space s) slots"
  using assms
proof (induction slots arbitrary: n s)
  case Nil
  then show ?case by (simp add: answering_def)
next
  case (Cons p slots)
  obtain bus device where p: "p = (bus, device)" by force
  let ?a = "getaddress bus device 0 0" and ?cs = "config_space s"
  show ?case
  proof (cases "?cs ?a = 0xFFFFFFFF")
    case True
    have "answering ?cs (p # slots) = answering ?cs slots" using True by (simp add: answering_def p)
    then show ?thesis using True Cons.prems Cons.IH [of "s\<lparr>config_address := ?a\<rparr>" n] by (simp add: p Let_def)
  next
    case False
    then have a: "answering ?cs (p # slots) = ?a # answering ?cs slots" by (simp add: answering_def p)
    then have n: "unat n < 32" using Cons.prems(2) by simp
    have n1: "unat (n + 1) = unat n + 1" using n unat_inc [of n 32] by (simp add: word_less_nat_alt)
    let ?s = "s\<lparr>config_address := ?a, pci_devices := (pci_devices s)[unat n := ?a]\<rparr>"
    have run: "pci_scan (p # slots) n s = pci_scan slots (n + 1) ?s" using False n by (simp add: p Let_def)
    have "take (unat n + 1) (pci_devices ?s) = take (unat n) (pci_devices s) @ [?a]"
      using n Cons.prems(1) by (simp add: take_Suc_conv_app_nth)
    moreover have "unat (n + 1) + length (answering (config_space ?s) slots) \<le> 32" using Cons.prems(2) by (simp add: a n1)
    ultimately show ?thesis unfolding run
      using Cons.IH [of ?s "n + 1"] Cons.prems(1) by (simp add: a n1)
  qed
qed

lemma detect_loop_finds:
  assumes "length (pci_devices s) = 32" and "as @ [0xFFFFFFFF] = take (Suc (length as)) (pci_devices s)" and "length as < 32"
    and "\<And>a. a \<in> set as \<Longrightarrow> a \<noteq> 0xFFFFFFFF" and "\<not> is_nvme (config_space s) 0xFFFFFFFF" and "i \<le> length as"
  shows "\<exists>s'. detect_loop i s = (case find (is_nvme (config_space s)) (drop i as) of
      None \<Rightarrow> Halt (KPanic ''NO NVME DRIVE DETECTED'') | Some a \<Rightarrow> Ok (a, s')) \<and> config_space s' = config_space s"
  using assms
proof (induction "length as - i" arbitrary: i s)
  case 0
  then have i: "i = length as" by simp
  have "pci_devices s ! i = (as @ [0xFFFFFFFF]) ! i" using 0 i by (metis lessI nth_take)
  then have "pci_devices s ! i = 0xFFFFFFFF" by (simp add: i)
  then show ?case using 0 i by (subst detect_loop.simps) (auto simp: is_nvme_def Let_def)
next
  case (Suc n)
  then have i: "i < length as" by simp
  have "pci_devices s ! i = (as @ [0xFFFFFFFF]) ! i" using Suc.prems(2) i by (metis less_Suc_eq less_or_eq_imp_le nth_take order.strict_trans2)
  then have d: "pci_devices s ! i = as ! i" using i by (simp add: nth_append)
  have dr: "drop i as = as ! i # drop (Suc i) as" using i by (simp add: Cons_nth_drop_Suc)
  show ?case
  proof (cases "is_nvme (config_space s) (as ! i)")
    case True
    then show ?thesis using Suc.prems(3) i by (subst detect_loop.simps) (auto simp: d dr is_nvme_def Let_def)
  next
    case False
    then have "detect_loop i s = detect_loop (Suc i) (s\<lparr>config_address := as ! i + 8\<rparr>)"
      using Suc.prems(3,4) i by (subst detect_loop.simps) (simp add: d is_nvme_def Let_def)
    then show ?thesis using Suc.hyps(1) [of "Suc i" "s\<lparr>config_address := as ! i + 8\<rparr>"] Suc.hyps(2) Suc.prems False by (simp add: dr)
  qed
qed

section \<open>Specification\<close>

definition sample_pci :: pci where
  "sample_pci = \<lparr>config_address = 0,
     config_space = (\<lambda>a. if a = 0x80001800 then 0x5845aaaa else if a = 0x80001808 then 0x01080200 else 0xFFFFFFFF),
     pci_devices = replicate 32 0\<rparr>"

section \<open>Addresses\<close>

lemma getaddress_fields:
  assumes "device < 32"
  shows "drop_bit 16 (getaddress bus device 0 0) AND 0xFF = ucast bus"
    and "drop_bit 11 (getaddress bus device 0 0) AND 0x1F = ucast device"
    and "getaddress bus device 0 0 AND 0xFF = 0"
proof -
  have m: "(0xFF :: u32) = mask 8" "(0x1F :: u32) = mask 5" by (simp_all add: mask_numeral)
  have e: "getaddress bus device 0 0 = push_bit 16 (ucast bus) OR push_bit 11 (ucast device) OR 2 ^ 31"
    by (simp add: getaddress_def Let_def)
  have d: "device = take_bit 5 device"
  proof -
    have "unat device < 2 ^ 5" using assms by (simp add: word_less_nat_alt)
    then show ?thesis by (simp add: word_unat_eq_iff unsigned_take_bit_eq take_bit_nat_eq_self)
  qed
  have high: "\<not> bit device n" if "5 \<le> n" for n by (subst d) (use that in \<open>simp add: bit_take_bit_iff\<close>)
  have b: "\<not> bit bus n" if "8 \<le> n" for n using that bit_imp_le_length [of bus n] by auto
  have g: "bit (getaddress bus device 0 0) n \<longleftrightarrow> (16 \<le> n \<and> bit bus (n - 16)) \<or> (11 \<le> n \<and> bit device (n - 11)) \<or> n = 31" if "n < 32" for n
    unfolding e bit_or_iff bit_push_bit_iff bit_ucast_iff bit_exp_iff using that by (auto dest: bit_imp_le_length)
  show "drop_bit 16 (getaddress bus device 0 0) AND 0xFF = ucast bus"
  proof (rule bit_word_eqI)
    fix n assume "n < LENGTH(32)"
    then show "bit (drop_bit 16 (getaddress bus device 0 0) AND 0xFF) n \<longleftrightarrow> bit (ucast bus :: u32) n"
      using g [of "16 + n"] high [of "n + 5"] b [of n]
      by (cases "n < 8") (simp_all add: m(1) bit_and_iff bit_drop_bit_eq bit_mask_iff bit_ucast_iff add.commute)
  qed
  show "drop_bit 11 (getaddress bus device 0 0) AND 0x1F = ucast device"
  proof (rule bit_word_eqI)
    fix n assume "n < LENGTH(32)"
    then show "bit (drop_bit 11 (getaddress bus device 0 0) AND 0x1F) n \<longleftrightarrow> bit (ucast device :: u32) n"
      using g [of "11 + n"] high [of n]
      by (cases "n < 5") (simp_all add: m(2) bit_and_iff bit_drop_bit_eq bit_mask_iff bit_ucast_iff add.commute)
  qed
  show "getaddress bus device 0 0 AND 0xFF = 0"
  proof (rule bit_word_eqI)
    fix n assume "n < LENGTH(32)"
    then show "bit (getaddress bus device 0 0 AND 0xFF) n \<longleftrightarrow> bit (0 :: u32) n"
      using g [of n] by (cases "n < 8") (simp_all add: m(1) bit_and_iff bit_mask_iff)
  qed
qed

lemma getaddress_inj:
  assumes "getaddress b d 0 0 = getaddress b' d' 0 0" and "d < 32" "d' < 32"
  shows "b = b' \<and> d = d'"
proof -
  have "ucast b = (ucast b' :: u32)" "ucast d = (ucast d' :: u32)" using getaddress_fields [of d b] getaddress_fields [of d' b'] assms by metis+
  then have "unat (ucast b :: u32) = unat (ucast b' :: u32)" "unat (ucast d :: u32) = unat (ucast d' :: u32)" by simp_all
  then have "unat b = unat b'" "unat d = unat d'"
    using unat_u8_less [of b] unat_u8_less [of b'] unat_u8_less [of d] unat_u8_less [of d']
    by (simp_all add: unsigned_ucast_eq take_bit_nat_eq_self)
  then show ?thesis by (simp add: word_unat_eq_iff)
qed

lemma all_slots_range: "(b, d) \<in> set all_slots \<Longrightarrow> d < 32"
  by (auto simp: all_slots_def word_less_nat_alt unat_of_nat take_bit_nat_eq_self)

lemma answering_valid: "a \<in> set (answering cs all_slots) \<Longrightarrow> a AND 0xFF = 0 \<and> a \<noteq> 0xFFFFFFFF"
proof -
  assume "a \<in> set (answering cs all_slots)"
  then have z: "a AND 0xFF = 0" using getaddress_fields(3) all_slots_range by (auto simp: answering_def)
  moreover have "(0xFFFFFFFF :: u32) AND 0xFF \<noteq> 0" by simp
  ultimately show ?thesis by metis
qed

lemma distinct_slots: "distinct all_slots"
proof -
  have byte: "(of_nat i :: u8) = of_nat j \<longleftrightarrow> i = j" if "i < 256" "j < 256" for i j
  proof
    assume "(of_nat i :: u8) = of_nat j"
    then have "unat (of_nat i :: u8) = unat (of_nat j :: u8)" by simp
    then show "i = j" using that by (simp add: unat_of_nat take_bit_nat_eq_self)
  qed simp
  have row: "distinct (map (\<lambda>device. (of_nat bus :: u8, of_nat device :: u8)) [0..<32])" for bus
    by (simp add: distinct_map inj_on_def byte)
  have "\<exists>x :: nat. x < 32" by (rule exI [of _ 0]) simp
  then have "distinct (map (\<lambda>bus. map (\<lambda>device. (of_nat bus :: u8, of_nat device :: u8)) [0..<32]) [0..<255])"
    by (simp add: distinct_map inj_on_def byte)
  then show ?thesis unfolding all_slots_def by (rule distinct_concat) (auto simp: row byte)
qed

lemma answering_distinct: "distinct (answering cs all_slots)"
proof -
  have "inj_on (\<lambda>(bus, device). getaddress bus device 0 0) (set all_slots)"
    using getaddress_inj all_slots_range by (auto simp: inj_on_def)
  then show ?thesis using distinct_slots by (simp add: answering_def distinct_map)
qed

section \<open>Properties\<close>

text \<open>
  C21. With fewer than 32 devices on buses 0 to 254, \<^verbatim>\<open>init_pci\<close> lists all of them and nothing else, in
  order, each once; \<^verbatim>\<open>detect_nvme\<close> then returns the address of the first one whose class is NVMe storage,
  and panics when there is none. (The answer of the bus to the address after the end marker, which has
  the enable bit clear, is not taken for an NVMe drive.)
\<close>

theorem pci_finds_nvme:
  assumes "length (pci_devices s) = 32" and "length (answering (config_space s) all_slots) < 32"
    and "\<not> is_nvme (config_space s) 0xFFFFFFFF"
  shows "\<exists>s1 s2. init_pci s = Ok s1 \<and> distinct (answering (config_space s) all_slots)
    \<and> take (Suc (length (answering (config_space s) all_slots))) (pci_devices s1) = answering (config_space s) all_slots @ [0xFFFFFFFF]
    \<and> detect_nvme s1 = (case find (is_nvme (config_space s)) (answering (config_space s) all_slots) of
        None \<Rightarrow> Halt (KPanic ''NO NVME DRIVE DETECTED'') | Some a \<Rightarrow> Ok (a, s2))"
proof -
  let ?as = "answering (config_space s) all_slots"
  obtain s' where s': "pci_scan all_slots 0 s = Ok (of_nat (length ?as), s')" "config_space s' = config_space s"
    "length (pci_devices s') = 32" "take (length ?as) (pci_devices s') = ?as"
    using pci_scan_lists [of s 0 all_slots] assms by auto
  let ?s1 = "s'\<lparr>pci_devices := (pci_devices s')[length ?as := 0xFFFFFFFF]\<rparr>"
  have n: "unat (of_nat (length ?as) :: u8) = length ?as" using assms(2) by (simp add: unat_of_nat take_bit_nat_eq_self)
  have i: "init_pci s = Ok ?s1" using assms(2) by (simp add: init_pci_def s'(1) n)
  have t: "take (Suc (length ?as)) (pci_devices ?s1) = ?as @ [0xFFFFFFFF]"
    using assms(2) s'(3,4) by (simp add: take_Suc_conv_app_nth)
  have "\<exists>s2. detect_loop 0 ?s1 = (case find (is_nvme (config_space ?s1)) (drop 0 ?as) of
      None \<Rightarrow> Halt (KPanic ''NO NVME DRIVE DETECTED'') | Some a \<Rightarrow> Ok (a, s2)) \<and> config_space s2 = config_space ?s1"
    using answering_valid s' assms(2,3) t by (intro detect_loop_finds) simp_all
  then show ?thesis using i t answering_distinct s'(2) by (auto simp: detect_nvme_def)
qed

lemma set_singleton: "set xs = {a} \<Longrightarrow> distinct xs \<Longrightarrow> xs = [a]"
  by (cases xs; cases "tl xs") auto

lemma sample_answering: "answering (config_space sample_pci) all_slots = [0x80001800]"
proof -
  let ?cs = "config_space sample_pci"
  have "a = 0x80001800" if "a \<in> set (answering ?cs all_slots)" for a
  proof -
    have "?cs a \<noteq> 0xFFFFFFFF" using that unfolding answering_def set_filter by blast
    then have "a = 0x80001800 \<or> a = 0x80001808" unfolding sample_pci_def pci.select_convs by presburger
    moreover have "a AND 0xFF = 0" using answering_valid [OF that] by blast
    moreover have "(0x80001808 :: u32) AND 0xFF \<noteq> 0" by simp
    ultimately show ?thesis by blast
  qed
  moreover have "0x80001800 \<in> set (answering ?cs all_slots)"
  proof -
    have "(of_nat 0, of_nat 3) \<in> set (map (\<lambda>device. (of_nat 0 :: u8, of_nat device :: u8)) [0..<32])"
      unfolding set_map set_upt by (rule image_eqI [of _ _ 3]) simp_all
    then have "(of_nat 0, of_nat 3) \<in> set all_slots" unfolding all_slots_def set_concat set_map [of _ "[0..<255]"] set_upt [of 0 255]
      by (rule UN_I [rotated]) (rule imageI, simp)
    moreover have "getaddress (of_nat 0) (of_nat 3) 0 0 = 0x80001800" by (simp add: getaddress_def Let_def)
    moreover have "?cs 0x80001800 \<noteq> 0xFFFFFFFF" by (simp add: sample_pci_def)
    ultimately show ?thesis unfolding answering_def set_filter set_map by (intro CollectI conjI image_eqI) auto
  qed
  ultimately have "set (answering ?cs all_slots) = {0x80001800}" by blast
  then show ?thesis using answering_distinct by (rule set_singleton)
qed

theorem pci_finds_nvme_witness:
  "\<exists>s1 s2. init_pci sample_pci = Ok s1 \<and> detect_nvme s1 = Ok (0x80001800, s2)"
proof -
  let ?cs = "config_space sample_pci"
  have "is_nvme ?cs 0x80001800" "\<not> is_nvme ?cs 0xFFFFFFFF" by (simp_all add: is_nvme_def sample_pci_def)
  moreover have "length (pci_devices sample_pci) = 32" by (simp add: sample_pci_def)
  ultimately show ?thesis using pci_finds_nvme [of sample_pci] by (auto simp: sample_answering)
qed

end
