(* ===== verification/Nvme.thy ===== *)
theory Nvme
  imports Vmm
begin

text \<open>
  The NVMe driver of BarrelOS (\<^verbatim>\<open>barrelOS/drivers/nvme.c\<close>, \<^verbatim>\<open>nvme.h\<close>). The submission and completion queues
  are arrays of structures in one page each (64 commands, 256 completion entries); an index outside of
  the page is \<open>Undefined\<close>. The controller is hardware: it fetches commands in order, posts completions in
  order with the phase tag that flips on every pass, and what a command does to physical memory, whether
  it completes at all, and how \<^verbatim>\<open>CSTS\<close> follows \<^verbatim>\<open>CC\<close> are arguments. It reacts at once to a doorbell,
  so a wait that is not over then never is.
\<close>

section \<open>Structures\<close>

record queue_pair =
  sq_base :: u32
  cq_base :: u32
  queue_length :: u16
  sq_tail :: u16
  sq_head :: u16
  cq_head :: u16
  cq_tail :: u16
  command_id :: u16

record config =
  cap1 :: u32
  cap2 :: u32
  vs :: u32
  intms :: u32
  intmc :: u32
  cc :: u32
  creserved :: u32
  csts :: u32
  nssr :: u32
  aqa :: u32
  asq1 :: u32
  asq2 :: u32
  acq1 :: u32
  acq2 :: u32

record command =
  dword0 :: u32
  nsid :: u32
  dword2 :: u32
  dword3 :: u32
  mptr_lo :: u32
  mptr_hi :: u32
  dptr_1 :: u32
  dptr_2 :: u32
  dptr_3 :: u32
  dptr_4 :: u32
  dword10 :: u32
  dword11 :: u32
  dword12 :: u32
  dword13 :: u32
  dword14 :: u32
  dword15 :: u32

record cq_entry =
  cqe_dword0 :: u32
  cqe_dword1 :: u32
  cqe_sq_head :: u16
  cqe_sq_id :: u16
  cqe_command_id :: u16
  cqe_status :: u16

text \<open>The driver's globals, the contents of the queues, and how many commands the controller has completed
  per queue.\<close>

record nvme =
  qid :: "u8 \<Rightarrow> queue_pair"
  sq :: "u8 \<Rightarrow> nat \<Rightarrow> command"
  cq :: "u8 \<Rightarrow> nat \<Rightarrow> cq_entry"
  doorbells :: u32
  regs :: config
  posted :: "u8 \<Rightarrow> nat"

text \<open>The controller: the effect of a command on memory with its status code (\<open>None\<close>: it never completes),
  and the value of \<^verbatim>\<open>CSTS\<close> after \<^verbatim>\<open>CC\<close> was written.\<close>

record controller =
  perform :: "u8 \<Rightarrow> command \<Rightarrow> 32 mem \<Rightarrow> (32 mem \<times> u16) option"
  csts_of :: "u32 \<Rightarrow> u32"

abbreviation (input) QL :: u16 where "QL \<equiv> 0x80"

definition zero_command :: command where
  "zero_command = \<lparr>dword0 = 0, nsid = 0, dword2 = 0, dword3 = 0, mptr_lo = 0, mptr_hi = 0, dptr_1 = 0, dptr_2 = 0,
     dptr_3 = 0, dptr_4 = 0, dword10 = 0, dword11 = 0, dword12 = 0, dword13 = 0, dword14 = 0, dword15 = 0\<rparr>"

definition zero_cqe :: cq_entry where
  "zero_cqe = \<lparr>cqe_dword0 = 0, cqe_dword1 = 0, cqe_sq_head = 0, cqe_sq_id = 0, cqe_command_id = 0, cqe_status = 0\<rparr>"

section \<open>The controller\<close>

definition on_doorbell :: "controller \<Rightarrow> u8 \<Rightarrow> u32 \<Rightarrow> nvme \<Rightarrow> 32 mem \<Rightarrow> nvme \<times> 32 mem" where
  "on_doorbell hw q tail d m =
     (let len = unat (queue_length (qid d q)); n = posted d q; slot = n mod len in
      if unat tail = slot then (d, m)
      else case perform hw q (sq d q slot) m of
             None \<Rightarrow> (d, m)
           | Some (m, code) \<Rightarrow>
               let phase = (if even (n div len) then 1 else 0);
                   e = \<lparr>cqe_dword0 = 0, cqe_dword1 = 0, cqe_sq_head = of_nat (Suc slot mod len), cqe_sq_id = ucast q,
                        cqe_command_id = ucast (drop_bit 16 (dword0 (sq d q slot))), cqe_status = push_bit 1 code OR phase\<rparr>
               in (d\<lparr>cq := (cq d)(q := (cq d q)(slot := e)), posted := (posted d)(q := Suc n)\<rparr>, m))"

section \<open>Submitting commands\<close>

definition set_queue :: "u8 \<Rightarrow> queue_pair \<Rightarrow> nvme \<Rightarrow> nvme" where
  "set_queue q p d = d\<lparr>qid := (qid d)(q := p)\<rparr>"

definition set_command :: "u8 \<Rightarrow> nat \<Rightarrow> command \<Rightarrow> nvme \<Rightarrow> nvme" where
  "set_command q slot c d = d\<lparr>sq := (sq d)(q := (sq d q)(slot := c))\<rparr>"

text \<open>The result is the slot \<^verbatim>\<open>command\<close> points to.\<close>

definition setup_queue :: "u8 \<Rightarrow> nvme \<Rightarrow> (nat \<times> nvme) outcome" where
  "setup_queue q d =
     (let p = qid d q in
      if q \<ge> 2 then Halt (Undefined ''qid'')
      else if int (unat (sq_tail p)) - int (unat (sq_head p)) = int (unat (queue_length p))
      then Halt (KPanic ''NVME submission queue is full!'')
      else if unat (sq_tail p) < 64 then Ok (unat (sq_tail p), set_command q (unat (sq_tail p)) zero_command d)
      else Halt (Undefined ''submission queue page''))"

definition submit :: "controller \<Rightarrow> u8 \<Rightarrow> nvme \<Rightarrow> vm \<Rightarrow> (nvme \<times> vm) outcome" where
  "submit hw q d m =
     (let p = (qid d q)\<lparr>sq_tail := sq_tail (qid d q) + 1\<rparr> in
      if q \<ge> 2 then Halt (Undefined ''qid'')
      else if queue_length p = 0 then Halt (Undefined ''division by zero'')
      else
        let (d, pm) = on_doorbell hw q (ucast (sq_tail p mod queue_length p)) (set_queue q p d) (pmem m);
            p = p\<lparr>command_id := command_id p + 1\<rparr>
        in if unat (cq_head p) < 256
           then if cqe_status (cq d q (unat (cq_head p))) AND 1 \<noteq> 1 then Halt (Spin ''waiting for completion'')
                else Ok (set_queue q (p\<lparr>cq_head := cq_head p + 1\<rparr>) d, m\<lparr>pmem := pm\<rparr>)
           else Halt (Undefined ''completion queue page''))"

text \<open>The handler for a completion interrupt (nothing calls it yet).\<close>

definition complete :: "u8 \<Rightarrow> nvme \<Rightarrow> vm \<Rightarrow> (nvme \<times> vm) outcome" where
  "complete q d m =
     (let p = qid d q in
      if q \<ge> 2 then Halt (Undefined ''qid'')
      else if unat (cq_head p) < 256
      then let p = p\<lparr>sq_head := cqe_sq_head (cq d q (unat (cq_head p)))\<rparr>;
               p = p\<lparr>cq_head := cq_head p + 1\<rparr>
           in if queue_length p = 0 then Halt (Undefined ''division by zero'')
              else bind_ok (write32 kaccess (doorbells d + 4) (ucast (cq_head p mod queue_length p)) m) (\<lambda>m.
                     Ok (set_queue q p d, m))
      else Halt (Undefined ''completion queue page''))"

definition clear_cq :: "u8 \<Rightarrow> nvme \<Rightarrow> nvme" where
  "clear_cq q d =
     d\<lparr>cq := (cq d)(q := (\<lambda>i. if i < unat (queue_length (qid d q)) then zero_cqe else cq d q i))\<rparr>"

section \<open>Initialisation\<close>

definition write_cc :: "controller \<Rightarrow> u32 \<Rightarrow> config \<Rightarrow> config" where
  "write_cc hw v c = c\<lparr>cc := v, csts := csts_of hw v\<rparr>"

definition init_admin :: "controller \<Rightarrow> u32 \<Rightarrow> nvme \<Rightarrow> vm \<Rightarrow> (nvme \<times> vm) outcome" where
  "init_admin hw mmio_base d m =
     bind_ok (mmiomalloc mmio_base m) (\<lambda>(_, m).
     bind_ok (mmiomalloc (mmio_base + 0x1000) m) (\<lambda>(db, m).
     bind_ok (kmalloc m) (\<lambda>(sqb, m).
     bind_ok (kmalloc m) (\<lambda>(cqb, m).
       let p = \<lparr>sq_base = sqb, cq_base = cqb, queue_length = QL, sq_tail = 0, sq_head = 0, cq_head = 0, cq_tail = 0, command_id = 0\<rparr>;
           d = set_queue 0 p (d\<lparr>doorbells := db\<rparr>);
           c = regs d
       in if csts c \<noteq> 1 then Halt (Spin ''waiting for the controller'')
          else
            let c = write_cc hw 0 c in
            if csts c \<noteq> 0 then Halt (Spin ''waiting for the controller'')
            else
              let c = c\<lparr>aqa := push_bit 16 (ucast (queue_length p)) OR ucast (queue_length p)\<rparr> in
              bind_ok (getpaddr sqb m) (\<lambda>(spa, m).
              bind_ok (getpaddr cqb m) (\<lambda>(cpa, m).
                let c = write_cc hw 0x00460001 (c\<lparr>asq1 := spa, asq2 := 0, acq1 := cpa, acq2 := 0\<rparr>)
                in if csts c \<noteq> 1 then Halt (Spin ''waiting for the controller'')
                   else Ok (clear_cq 0 (d\<lparr>regs := c, posted := (posted d)(0 := 0)\<rparr>), m)))))))"

definition init_ioq :: "controller \<Rightarrow> nvme \<Rightarrow> vm \<Rightarrow> (nvme \<times> vm) outcome" where
  "init_ioq hw d m =
     bind_ok (setup_queue 0 d) (\<lambda>(slot, d).
       let c = (sq d 0 slot)\<lparr>dword0 := push_bit 16 (ucast (command_id (qid d 0))) OR 0x9, dword10 := 0x7, dword11 := 0x00010001\<rparr>
       in submit hw 0 (set_command 0 slot c d) m)"

definition create_iocq :: "controller \<Rightarrow> u8 \<Rightarrow> nvme \<Rightarrow> vm \<Rightarrow> (nvme \<times> vm) outcome" where
  "create_iocq hw q d m =
     bind_ok (setup_queue 0 d) (\<lambda>(slot, d).
     bind_ok (if q \<ge> 2 then Halt (Undefined ''qid'') else kmalloc m) (\<lambda>(cqb, m).
       let d = set_queue q ((qid d q)\<lparr>cq_base := cqb, queue_length := QL, cq_head := 0, cq_tail := 0\<rparr>) d in
       bind_ok (getpaddr cqb m) (\<lambda>(cpa, m).
         let c = (sq d 0 slot)\<lparr>dword0 := push_bit 16 (ucast (command_id (qid d 0))) OR 0x5, dptr_1 := cpa,
               dword10 := push_bit 16 (ucast (queue_length (qid d q))) OR ucast q, dword11 := 0x1\<rparr>
         in bind_ok (submit hw 0 (set_command 0 slot c d) m) (\<lambda>(d, m).
              Ok (clear_cq 1 (d\<lparr>posted := (posted d)(q := 0)\<rparr>), m)))))"

definition create_iosq :: "controller \<Rightarrow> u8 \<Rightarrow> nvme \<Rightarrow> vm \<Rightarrow> (nvme \<times> vm) outcome" where
  "create_iosq hw q d m =
     bind_ok (setup_queue 0 d) (\<lambda>(slot, d).
     bind_ok (if q \<ge> 2 then Halt (Undefined ''qid'') else kmalloc m) (\<lambda>(sqb, m).
       let d = set_queue q ((qid d q)\<lparr>sq_base := sqb, sq_head := 0, sq_tail := 0, command_id := 0\<rparr>) d in
       bind_ok (getpaddr sqb m) (\<lambda>(spa, m).
         let c = (sq d 0 slot)\<lparr>dword0 := push_bit 16 (ucast (command_id (qid d 0))) OR 0x1, dptr_1 := spa,
               dword10 := push_bit 16 (ucast (queue_length (qid d q))) OR ucast q,
               dword11 := push_bit 16 (ucast q) OR 0x1, dword12 := 0\<rparr>
         in submit hw 0 (set_command 0 slot c d) m)))"

definition identify :: "controller \<Rightarrow> u32 \<Rightarrow> u8 \<Rightarrow> nvme \<Rightarrow> vm \<Rightarrow> (nvme \<times> vm) outcome" where
  "identify hw destination cns d m =
     bind_ok (setup_queue 0 d) (\<lambda>(slot, d).
       let c = (sq d 0 slot)\<lparr>dword0 := push_bit 16 (ucast (command_id (qid d 0))) OR 0x6, dptr_1 := destination, dword10 := ucast cns\<rparr>
       in submit hw 0 (set_command 0 slot c d) m)"

section \<open>Reading\<close>

definition nvme_read :: "controller \<Rightarrow> u32 \<Rightarrow> u32 \<Rightarrow> u32 \<Rightarrow> nvme \<Rightarrow> vm \<Rightarrow> (u8 \<times> nvme \<times> vm) outcome" where
  "nvme_read hw destination no_blocks source_lo d m =
     bind_ok (setup_queue 1 d) (\<lambda>(slot, d).
     bind_ok (getpaddr destination m) (\<lambda>(pa, m).
       let c = (sq d 1 slot)\<lparr>dword0 := 0x2, nsid := 0x1, dptr_1 := pa, dword12 := no_blocks, dword10 := source_lo\<rparr>
       in bind_ok (submit hw 1 (set_command 1 slot c d) m) (\<lambda>(d, m). Ok (0, d, m))))"

section \<open>Specification\<close>

text \<open>
  The documented read command: one block more than the count in dword 12, from the block in dword 10,
  to the first page pointer up to the end of its page and from there to the second one.
\<close>

definition disk_byte :: "(u32 \<Rightarrow> nat \<Rightarrow> u8) \<Rightarrow> u32 \<Rightarrow> nat \<Rightarrow> u8" where
  "disk_byte disk lba k = disk (lba + of_nat (k div 512)) (k mod 512)"

definition read_blocks :: "(u32 \<Rightarrow> nat \<Rightarrow> u8) \<Rightarrow> command \<Rightarrow> 32 mem \<Rightarrow> 32 mem" where
  "read_blocks disk c m = (\<lambda>x.
     let n = 512 * (unat (dword12 c AND 0xFFFF) + 1); room = 4096 - unat (dptr_1 c) mod 4096;
         k = unat (x - dptr_1 c); j = unat (x - dptr_3 c)
     in if k < min n room then disk_byte disk (dword10 c) k
        else if j < n - room then disk_byte disk (dword10 c) (room + j) else m x)"

text \<open>A queue after \<open>n\<close> commands on its first pass: driver and controller agree, the rest is empty.\<close>

definition in_sync :: "nvme \<Rightarrow> u8 \<Rightarrow> nat \<Rightarrow> bool" where
  "in_sync d q n \<longleftrightarrow> n < 128 \<and> queue_length (qid d q) = QL \<and> sq_tail (qid d q) = of_nat n \<and> sq_head (qid d q) = 0
     \<and> cq_head (qid d q) = of_nat n \<and> posted d q = n \<and> (\<forall>i. n \<le> i \<and> i < 128 \<longrightarrow> cqe_status (cq d q i) AND 1 = 0)"

definition sample_nvme :: nvme where
  "sample_nvme =
     \<lparr>qid = (\<lambda>_. \<lparr>sq_base = 0xc0401000, cq_base = 0xc0402000, queue_length = QL, sq_tail = 0, sq_head = 0, cq_head = 0, cq_tail = 0, command_id = 0\<rparr>),
      sq = (\<lambda>_ _. zero_command), cq = (\<lambda>_ _. zero_cqe), doorbells = 0xc0403000,
      regs = \<lparr>cap1 = 0, cap2 = 0, vs = 0, intms = 0, intmc = 0, cc = 0x00460001, creserved = 0, csts = 1, nssr = 0, aqa = 0, asq1 = 0, asq2 = 0, acq1 = 0, acq2 = 0\<rparr>,
      posted = (\<lambda>_. 0)\<rparr>"

section \<open>Commands\<close>

lemma unat_small16: "n < 65536 \<Longrightarrow> unat (of_nat n :: u16) = n"
  by (simp add: unat_of_nat take_bit_nat_eq_self)

lemma setup_in_sync:
  assumes "in_sync d q n" and "q < 2"
  shows "setup_queue q d = (if n < 64 then Ok (n, set_command q n zero_command d) else Halt (Undefined ''submission queue page''))"
proof -
  have n: "n < 128" using assms(1) by (simp add: in_sync_def)
  have "unat (of_nat n :: u16) = n" using n by (intro unat_small16) simp
  moreover from this have "uint (of_nat n :: u16) = int n" by (simp add: uint_nat)
  ultimately show ?thesis using assms n by (simp add: setup_queue_def in_sync_def Let_def linorder_not_le [symmetric])
qed

lemma submit_in_sync:
  assumes s: "in_sync d q n" and q: "q < 2" and n: "n < 64"
  shows "perform hw q (sq d q n) (pmem m) = Some (pm, code) \<Longrightarrow>
      \<exists>d'. submit hw q d m = Ok (d', m\<lparr>pmem := pm\<rparr>) \<and> in_sync d' q (Suc n)"
    and "perform hw q (sq d q n) (pmem m) = None \<Longrightarrow> submit hw q d m = Halt (Spin ''waiting for completion'')"
proof -
  have f: "queue_length (qid d q) = QL" "sq_tail (qid d q) + 1 = of_nat (Suc n)" "cq_head (qid d q) = of_nat n" "cq_head (qid d q) + 1 = of_nat (Suc n)"
    "posted d q = n" "sq_head (qid d q) = 0" "\<And>i. n \<le> i \<Longrightarrow> i < 128 \<Longrightarrow> cqe_status (cq d q i) AND 1 = 0"
    using s by (auto simp: in_sync_def)
  have "unat (of_nat (Suc n) mod QL) = Suc n" using n unat_small16 [of "Suc n"] by (simp add: unat_mod del: of_nat_Suc)
  then have tail: "unat (ucast (of_nat (Suc n) mod QL :: u16) :: u32) = Suc n"
    using n by (simp add: unsigned_ucast_eq take_bit_nat_eq_self del: of_nat_Suc)
  have one: "(push_bit 1 code OR 1) AND 1 = (1 :: u16)" for code :: u16
    by (rule bit_word_eqI) (auto simp: bit_simps bit_1_iff)
  note defs = submit_def on_doorbell_def set_queue_def Let_def
  have q': "\<not> 2 \<le> q" using q by simp
  have head: "unat (of_nat n :: u16) = n" using n by (intro unat_small16) simp
  show "\<exists>d'. submit hw q d m = Ok (d', m\<lparr>pmem := pm\<rparr>) \<and> in_sync d' q (Suc n)"
    if p: "perform hw q (sq d q n) (pmem m) = Some (pm, code)"
    using n f q' p by (simp add: defs tail head one in_sync_def del: of_nat_Suc)
  show "submit hw q d m = Halt (Spin ''waiting for completion'')" if p: "perform hw q (sq d q n) (pmem m) = None"
    using n f(1-6) f(7) [of n] q' p by (simp add: defs tail head del: of_nat_Suc)
qed

lemma nvme_read_in_sync:
  fixes no_blocks source_lo :: u32
  assumes s: "in_sync d 1 n" and g: "getpaddr destination m = Ok (pa, m1)"
  defines "c \<equiv> zero_command\<lparr>dword0 := 0x2, nsid := 0x1, dptr_1 := pa, dword12 := no_blocks, dword10 := source_lo\<rparr>"
  shows "n < 64 \<Longrightarrow> perform hw 1 c (pmem m1) = Some (pm, code) \<Longrightarrow>
      \<exists>d'. nvme_read hw destination no_blocks source_lo d m = Ok (0, d', m1\<lparr>pmem := pm\<rparr>) \<and> in_sync d' 1 (Suc n)"
    and "64 \<le> n \<Longrightarrow> nvme_read hw destination no_blocks source_lo d m = Halt (Undefined ''submission queue page'')"
proof -
  let ?d = "set_command 1 n c (set_command 1 n zero_command d)"
  have q: "(1 :: u8) < 2" by simp
  have s': "in_sync ?d 1 n" using s by (simp add: in_sync_def set_command_def)
  have c: "sq ?d 1 n = c" by (simp add: set_command_def)
  assume n: "n < 64" and p: "perform hw 1 c (pmem m1) = Some (pm, code)"
  from submit_in_sync(1) [OF s' q n, unfolded c, OF p]
  obtain d' where d': "submit hw 1 ?d m1 = Ok (d', m1\<lparr>pmem := pm\<rparr>)" "in_sync d' 1 (Suc n)" by blast
  have z: "sq (set_command 1 n zero_command d) 1 n = zero_command" by (simp add: set_command_def)
  show "\<exists>d'. nvme_read hw destination no_blocks source_lo d m = Ok (0, d', m1\<lparr>pmem := pm\<rparr>) \<and> in_sync d' 1 (Suc n)"
    using d' n by (simp add: nvme_read_def setup_in_sync [OF s q] g z c_def Let_def)
next
  assume "64 \<le> n"
  then show "nvme_read hw destination no_blocks source_lo d m = Halt (Undefined ''submission queue page'')"
    by (simp add: nvme_read_def setup_in_sync [OF s])
qed

lemma getpaddr_aligned: "getpaddr va m = Ok (pa, m1) \<Longrightarrow> page_aligned pa"
  by (auto simp: getpaddr_def)

lemma read_blocks_page:
  assumes pa: "page_aligned pa" and n: "unat no_blocks \<le> 8"
    and c: "dptr_1 c = pa" "dptr_3 c = 0" "dword12 c = no_blocks" "dword10 c = lba"
  shows "read_blocks disk c pm = (\<lambda>x.
    if unat (x - pa) < 512 * min 8 (unat no_blocks + 1) then disk_byte disk lba (unat (x - pa))
    else if no_blocks = 8 \<and> unat x < 512 then disk_byte disk lba (4096 + unat x) else pm x)"
proof -
  have "unat (no_blocks AND 0xFFFF) = unat no_blocks mod 65536" using unat_and_mask [of no_blocks 16] by (simp add: mask_numeral)
  then have k: "unat (no_blocks AND 0xFFFF) = unat no_blocks" using n by simp
  have room: "unat pa mod 4096 = 0" using pa by (simp add: page_aligned_def)
  have e8: "no_blocks = 8 \<longleftrightarrow> unat no_blocks = 8" by (auto simp: word_unat_eq_iff)
  have mn: "min (512 * (b + 1)) 4096 = 512 * min 8 (b + 1)" for b :: nat by (simp add: min_def)
  show ?thesis
    using n by (intro ext) (auto simp: read_blocks_def c k room e8 mn Let_def)
qed

section \<open>Properties\<close>



end
