(* ===== verification/Heap_Pages.thy ===== *)
theory Heap_Pages
  imports Vmm
begin

text \<open>
  The kernel heap as its clients see it: a pool of pages handed out by \<^verbatim>\<open>kmalloc\<close> and taken back by
  \<^verbatim>\<open>kfree\<close> (\<^verbatim>\<open>barrelOS/kernel/vmm.c\<close>). The locale \<open>page_pool\<close> states what the file system relies on: an
  allocation succeeds as long as the pool is not empty, and the bytes of all other pages keep their
  values. \<open>heap_live\<close> adds to the invariant of the heap that there is a free frame for every heap page
  without one, which the two operations keep. The page that holds the directory of a forked process
  is not among the bytes of the contract: its contents are page tables.
\<close>

section \<open>The contract\<close>

locale page_pool =
  fixes alloc :: "'s \<Rightarrow> (u32 \<times> 's) outcome"
    and release :: "u32 \<Rightarrow> 's \<Rightarrow> 's outcome"
    and live :: "'s \<Rightarrow> bool"
    and pool :: "'s \<Rightarrow> u32 set"
    and byte :: "'s \<Rightarrow> u32 \<Rightarrow> u8 option"
  assumes alloc_pool: "live s \<Longrightarrow> pool s \<noteq> {} \<Longrightarrow>
      \<exists>v s'. alloc s = Ok (v, s') \<and> live s' \<and> v \<in> pool s \<and> pool s' = pool s - {v} \<and> byte s' v \<noteq> None
        \<and> (\<forall>x. byte s x \<noteq> None \<longrightarrow> \<not> same_page x v \<longrightarrow> byte s' x = byte s x)"
    and release_pool: "live s \<Longrightarrow> heap_page v \<Longrightarrow> byte s v \<noteq> None \<Longrightarrow>
      \<exists>s'. release v s = Ok s' \<and> live s' \<and> pool s' = insert v (pool s) \<and> (\<forall>x. byte s' x = byte s x)"
    and pool_pages: "v \<in> pool s \<Longrightarrow> heap_page v"
begin

lemma alloc_live:
  assumes "live s" and "alloc s = Ok (v, s')" and "pool s \<noteq> {}"
  shows "live s' \<and> v \<in> pool s \<and> heap_page v \<and> pool s' = pool s - {v}"
  using alloc_pool [OF assms(1,3)] assms(2) pool_pages by auto

text \<open>Two pages for the time of a computation: afterwards the pool is what it was.\<close>

lemma two_pages:
  assumes "live s" and "x \<in> pool s" "y \<in> pool s" "x \<noteq> y"
  shows "\<exists>v s1 w s2. alloc s = Ok (v, s1) \<and> alloc s1 = Ok (w, s2) \<and> live s2 \<and> v \<in> pool s \<and> w \<in> pool s \<and> v \<noteq> w
    \<and> pool s2 = pool s - {v, w} \<and> byte s2 v \<noteq> None \<and> byte s2 w \<noteq> None \<and> (\<forall>a. byte s a \<noteq> None \<longrightarrow> \<not> same_page a v \<longrightarrow> \<not> same_page a w \<longrightarrow> byte s2 a = byte s a)"
proof -
  obtain v s1 where v: "alloc s = Ok (v, s1)" "live s1" "v \<in> pool s" "pool s1 = pool s - {v}" "byte s1 v \<noteq> None"
    and b: "\<forall>a. byte s a \<noteq> None \<longrightarrow> \<not> same_page a v \<longrightarrow> byte s1 a = byte s a" using alloc_pool [OF assms(1)] assms(2) by blast
  have "pool s1 \<noteq> {}" using assms(2-4) v(4) by auto
  from alloc_pool [OF v(2) this] obtain w s2 where w: "alloc s1 = Ok (w, s2)" "live s2" "w \<in> pool s1" "pool s2 = pool s1 - {w}" "byte s2 w \<noteq> None"
    and c: "\<forall>a. byte s1 a \<noteq> None \<longrightarrow> \<not> same_page a w \<longrightarrow> byte s2 a = byte s1 a" by blast
  have "pool s2 = pool s - {v, w}" "w \<in> pool s" "v \<noteq> w" using v(4) w(3,4) by auto
  moreover have "byte s2 a = byte s a" if "byte s a \<noteq> None" "\<not> same_page a v" "\<not> same_page a w" for a
    using that b c by metis
  moreover have "byte s2 v \<noteq> None"
  proof -
    have "heap_page v" "heap_page w" using pool_pages v(3) \<open>w \<in> pool s\<close> by auto
    then have "\<not> same_page v w" using \<open>v \<noteq> w\<close> by (simp add: same_page_aligned heap_page_def)
    then show ?thesis using c v(5) by metis
  qed
  ultimately show ?thesis using v(1,3) w(1,2,5) by blast
qed

lemma release_two:
  assumes "live s" and "heap_page v" "heap_page w" and "byte s v \<noteq> None" "byte s w \<noteq> None"
  shows "\<exists>s1 s2. release v s = Ok s1 \<and> release w s1 = Ok s2 \<and> live s2 \<and> pool s2 = insert v (insert w (pool s)) \<and> (\<forall>x. byte s2 x = byte s x)"
proof -
  obtain s1 where 1: "release v s = Ok s1" "live s1" "pool s1 = insert v (pool s)" "\<forall>x. byte s1 x = byte s x"
    using release_pool [OF assms(1,2,4)] by blast
  obtain s2 where "release w s1 = Ok s2" "live s2" "pool s2 = insert w (pool s1)" "\<forall>x. byte s2 x = byte s1 x"
    using release_pool [OF 1(2) assms(3)] 1(4) assms(5) by metis
  with 1 show ?thesis by auto
qed

end

section \<open>The heap as a pool\<close>

definition free_pages :: "vm \<Rightarrow> u32 set" where
  "free_pages s = {x. heap_page x \<and> \<not> heap_used s x}"

definition free_frames :: "vm \<Rightarrow> nat set" where
  "free_frames s = {..< 0x100000} - used_frames (pf_bitmap s)"

definition absent_pages :: "vm \<Rightarrow> u32 set" where
  "absent_pages s = {x. heap_page x \<and> \<not> present (pte s x)}"

definition heap_live :: "vm \<Rightarrow> bool" where
  "heap_live s \<longleftrightarrow> kernel_ok s \<and> card (absent_pages s) \<le> card (free_frames s)"

text \<open>A heap page that is present and does not hold the directory, and the byte at an address in such a page.\<close>

definition heap_data :: "vm \<Rightarrow> u32 \<Rightarrow> bool" where
  "heap_data s p \<longleftrightarrow> heap_page p \<and> present (pte s p) \<and> frame_of (pte s p) \<noteq> frame_of (pd_base s)"

definition heap_byte :: "vm \<Rightarrow> u32 \<Rightarrow> u8 option" where
  "heap_byte s x = (if heap_data s (x AND 0xFFFFF000)
     then Some (pmem s ((pte s (x AND 0xFFFFF000) AND 0xFFFFF000) + (x AND 0xFFF))) else None)"


section \<open>\<open>kmalloc\<close> and \<open>kfree\<close> keep the contract\<close>

lemma free_frames_finite [simp]: "finite (free_frames s)"
  by (simp add: free_frames_def)

lemma heap_page_base: "page_aligned v \<Longrightarrow> v AND 0xFFFFF000 = v"
  using page_base_fields frame_of_eq_base frame_of_mask page_aligned_mask by metis

text \<open>Writing the entry of a heap page leaves the bytes of all heap pages alone.\<close>

lemma set_pte_byte:
  assumes ok: "kernel_ok s" and v: "heap_page v" and x: "heap_page p" "present (pte s p)"
    and o: "unat i < 4096"
  shows "pmem (set_pte v e s) ((pte s p AND 0xFFFFF000) + i) = pmem s ((pte s p AND 0xFFFFF000) + i)"
proof -
  note k = kernel_okD [OF ok]
  have t: "present (pd_entry s (drop_bit 22 v))" using heap_page_table [OF k(2) v] by (simp add: table_present_def)
  have "frame_of (pd_entry s (drop_bit 22 v)) \<noteq> frame_of (pte s p)"
    using heap_okD(3) [OF k(3) x, of 769] t heap_dir_index [of v] v by (simp add: heap_page_def)
  moreover have "frame_of ((pte s p AND 0xFFFFF000) + i) = frame_of (pte s p)"
    using frame_of_offset [OF page_aligned_mask o] by (simp add: frame_of_mask)
  ultimately show ?thesis
    unfolding set_pte_def pte_addr_def using store32_entry_frame [OF page_aligned_mask table_index_less]
    by (simp add: frame_of_mask)
qed

lemma heap_byte_kept:
  assumes ok: "kernel_ok s" and v: "heap_page v" and s': "s' = set_pte v e (s\<lparr>pf_bitmap := b\<rparr>)"
    and p: "pte s' (x AND 0xFFFFF000) = pte s (x AND 0xFFFFF000) \<or>
      present (pte s' (x AND 0xFFFFF000)) = present (pte s (x AND 0xFFFFF000)) \<and> pte s' (x AND 0xFFFFF000) AND 0xFFFFF000 = pte s (x AND 0xFFFFF000) AND 0xFFFFF000"
  shows "heap_byte s' x = heap_byte s x"
proof -
  let ?p = "x AND 0xFFFFF000"
  have base: "pd_base s' = pd_base s" by (simp add: s' set_pte_def pd_base_def)
  have "frame_of (pte s' ?p) = frame_of (pte s ?p)" using p by (auto simp: frame_eq_iff)
  then have d: "heap_data s' ?p \<longleftrightarrow> heap_data s ?p" using p base by (auto simp: heap_data_def)
  show ?thesis
  proof (cases "heap_data s ?p")
    case True
    then have hp: "heap_page ?p" "present (pte s ?p)" by (simp_all add: heap_data_def)
    have "unat (x AND 0xFFF) < 4096" by (simp add: unat_and_FFF)
    from set_pte_byte [OF ok v hp this, of e]
    have "pmem s' ((pte s ?p AND 0xFFFFF000) + (x AND 0xFFF)) = pmem s ((pte s ?p AND 0xFFFFF000) + (x AND 0xFFF))"
      by (simp add: s' set_pte_def bitmap_upd)
    then show ?thesis using p True d by (auto simp: heap_byte_def)
  next
    case False
    then show ?thesis using d by (simp add: heap_byte_def)
  qed
qed

lemma heap_byte_base: "page_aligned v \<Longrightarrow> heap_byte s v \<noteq> None \<longleftrightarrow> heap_data s v"
  by (simp add: heap_byte_def heap_page_base)

lemma kmalloc_live:
  assumes live: "heap_live s" and some: "free_pages s \<noteq> {}"
  shows "\<exists>v s'. kmalloc s = Ok (v, s')"
proof -
  have ok: "kernel_ok s" and room: "card (absent_pages s) \<le> card (free_frames s)"
    using live by (simp_all add: heap_live_def)
  obtain x where "heap_page x" "\<not> heap_used s x" using some by (auto simp: free_pages_def)
  then obtain v where v: "heap_page v" "\<not> heap_used s v" "\<forall>y. heap_page y \<and> y < v \<longrightarrow> heap_used s y"
    by (rule lowest_free_page)
  note eq = kmalloc_eq [OF vm_okD(1) [OF kernel_okD(1) [OF ok]] kernel_okD(2) [OF ok] v]
  show ?thesis
  proof (cases "present (pte s v)")
    case False
    then have "absent_pages s \<noteq> {}" using v(1) by (auto simp: absent_pages_def)
    then have "0 < card (absent_pages s)" by (simp add: card_gt_0_iff absent_pages_def)
    then have "free_frames s \<noteq> {}" using room by (metis card.empty le_zero_eq less_numeral_extra(3))
    then have "used_frames (pf_bitmap s) \<noteq> {..< 0x100000}" by (auto simp: free_frames_def)
    from pmalloc_total [OF this] eq False show ?thesis by auto
  qed (use eq in auto)
qed

text \<open>An allocation that maps a page takes one frame: the frames left over for other uses stay.\<close>

lemma kmalloc_counts:
  assumes ok: "kernel_ok s" and run: "kmalloc s = Ok (v, s')"
  shows "card (absent_pages s') + card (free_frames s) = card (absent_pages s) + card (free_frames s')"
proof -
  note f = kmalloc_frame [OF ok run]
  obtain e b where s': "s' = set_pte v e (s\<lparr>pf_bitmap := b\<rparr>)"
    and c: "present (pte s v) \<and> b = pf_bitmap s \<and> e = pte s v OR 0x800
      \<or> \<not> present (pte s v) \<and> pmalloc (pf_bitmap s) = Ok (e AND 0xFFFFF000, b) \<and> e = (e AND 0xFFFFF000) OR 0x803"
    using kmalloc_cases [OF kernel_okD(1,2) [OF ok] run] by metis
  have A: "absent_pages s' = absent_pages s - {v}"
  proof (intro set_eqI)
    show "x \<in> absent_pages s' \<longleftrightarrow> x \<in> absent_pages s - {v}" for x
      using f(7) [of x] kmalloc_apart(1) [OF ok run] by (cases "x = v") (auto simp: absent_pages_def)
  qed
  show ?thesis
  proof (cases "present (pte s v)")
    case True
    then have "free_frames s' = free_frames s" using c by (simp add: s' set_pte_def free_frames_def)
    moreover have "absent_pages s' = absent_pages s" using A True by (auto simp: absent_pages_def)
    ultimately show ?thesis by simp
  next
    case False
    then have pm: "pmalloc (pf_bitmap s) = Ok (e AND 0xFFFFF000, b)" using c by simp
    note al = pmm.alloc_Ok [OF pm]
    have g: "frame_of (e AND 0xFFFFF000) \<in> free_frames s"
      using al pmm.used_bound [of b] by (auto simp: free_frames_def)
    moreover have "free_frames s' = free_frames s - {frame_of (e AND 0xFFFFF000)}"
      using al by (auto simp: s' set_pte_def free_frames_def)
    ultimately have "Suc (card (free_frames s')) = card (free_frames s)" using card_Suc_Diff1 [OF free_frames_finite g] by simp
    moreover have "Suc (card (absent_pages s')) = card (absent_pages s)"
      using card_Suc_Diff1 [of "absent_pages s" v] A False f(2) by (simp add: absent_pages_def)
    ultimately show ?thesis by simp
  qed
qed

lemma kmalloc_pool:
  assumes live: "heap_live s" and some: "free_pages s \<noteq> {}"
  shows "\<exists>v s'. kmalloc s = Ok (v, s') \<and> heap_live s' \<and> v \<in> free_pages s \<and> free_pages s' = free_pages s - {v} \<and> heap_byte s' v \<noteq> None
    \<and> (\<forall>x. heap_byte s x \<noteq> None \<longrightarrow> \<not> same_page x v \<longrightarrow> heap_byte s' x = heap_byte s x)"
proof -
  have ok: "kernel_ok s" using live by (simp add: heap_live_def)
  obtain v s' where run: "kmalloc s = Ok (v, s')" using kmalloc_live [OF assms] by blast
  note f = kmalloc_frame [OF ok run]
  obtain e b where s': "s' = set_pte v e (s\<lparr>pf_bitmap := b\<rparr>)"
    and c: "present (pte s v) \<and> b = pf_bitmap s \<and> e = pte s v OR 0x800
      \<or> \<not> present (pte s v) \<and> pmalloc (pf_bitmap s) = Ok (e AND 0xFFFFF000, b) \<and> e = (e AND 0xFFFFF000) OR 0x803"
    using kmalloc_cases [OF kernel_okD(1,2) [OF ok] run] by metis
  have "heap_live s'" using f(1) kmalloc_counts [OF ok run] live by (simp add: heap_live_def)
  moreover have "free_pages s' = free_pages s - {v}"
  proof (intro set_eqI)
    show "x \<in> free_pages s' \<longleftrightarrow> x \<in> free_pages s - {v}" for x
      using f(4) f(7) [of x] by (cases "x = v") (auto simp: free_pages_def heap_used_def)
  qed
  moreover have "heap_byte s' x = heap_byte s x" if "heap_byte s x \<noteq> None" "\<not> same_page x v" for x
  proof (rule heap_byte_kept [OF ok f(2) s'])
    have x: "heap_page (x AND 0xFFFFF000)" using that(1) by (simp add: heap_byte_def heap_data_def split: if_splits)
    have "x AND 0xFFFFF000 \<noteq> v" using that(2) by (auto simp: same_page_iff frame_of_mask)
    with f(7) [OF x] show "pte s' (x AND 0xFFFFF000) = pte s (x AND 0xFFFFF000) \<or>
      present (pte s' (x AND 0xFFFFF000)) = present (pte s (x AND 0xFFFFF000)) \<and> pte s' (x AND 0xFFFFF000) AND 0xFFFFF000 = pte s (x AND 0xFFFFF000) AND 0xFFFFF000" by simp
  qed
  moreover have "heap_byte s' v \<noteq> None"
    using kmalloc_apart [OF ok run] f(2) by (subst heap_byte_base) (simp_all add: heap_page_def heap_data_def)
  ultimately show ?thesis using run f(2,3) by (auto simp: free_pages_def)
qed

lemma used_bit_cleared:
  fixes e :: u32
  shows "present (e AND 0xFFFFF7FF) = present e" "(e AND 0xFFFFF7FF) AND 0xFFFFF000 = e AND 0xFFFFF000" "\<not> bit (e AND 0xFFFFF7FF) 11"
  by (simp add: present_iff_bit clear_used_bit, simp add: and.assoc, simp add: clear_used_bit)

lemma kfree_pool:
  assumes live: "heap_live s" and v: "heap_page v" and data: "heap_byte s v \<noteq> None"
  shows "\<exists>s'. kfree v s = Ok s' \<and> heap_live s' \<and> free_pages s' = insert v (free_pages s) \<and> (\<forall>x. heap_byte s' x = heap_byte s x)
    \<and> (\<forall>x. translate s' x = translate s x)"
proof -
  have ok: "kernel_ok s" using live by (simp add: heap_live_def)
  note k = kernel_okD [OF ok]
  let ?e = "pte s v AND 0xFFFFF7FF"
  let ?s = "set_pte v ?e s"
  have tp: "table_present s v" by (rule heap_page_table [OF k(2) v])
  note f = set_pte_facts [OF k(1) tp heap_page_window [OF v], where v = ?e]
  have pv: "pte ?s v = ?e" using f(5) [OF tp] by (simp add: same_page_def)
  have others: "pte ?s x = pte s x" if "heap_page x" "x \<noteq> v" for x
    using f(5) [OF heap_page_table [OF k(2) that(1)]] that v by (simp add: same_page_aligned heap_page_def)
  note fields = used_bit_cleared [of "pte s v"]
  have pr: "present (pte ?s x) = present (pte s x)" and fr: "frame_of (pte ?s x) = frame_of (pte s x)" if "heap_page x" for x
    using others [OF that] pv fields by (cases "x = v"; simp add: frame_eq_iff del: present_iff_bit)+
  have bm: "pf_bitmap ?s = pf_bitmap s" by (simp add: set_pte_def)
  have hm: "heap_mapped ?s" using k(2) f(2) [of 769] by (simp add: heap_mapped_def)
  have dir: "pd_entry ?s i = pd_entry s i" if "unat i < 1024" for i by (rule f(2) [OF that])
  have base: "pd_base ?s = pd_base s" by (simp add: set_pte_def pd_base_def)
  have dv: "frame_of (pte s v) \<noteq> frame_of (pd_base s)" using data heap_byte_base [of v s] v by (simp add: heap_page_def heap_data_def)
  have "heap_ok ?s" unfolding heap_ok_def
  proof (intro allI impI, elim conjE, intro conjI allI impI; (elim conjE)?)
    fix x assume x: "heap_page x" "present (pte ?s x)"
    have p: "present (pte s x)" using x pr by blast
    note h = heap_okD [OF k(3) x(1) p]
    show "frame_of (pte ?s x) \<in> used_frames (pf_bitmap ?s)" using h(1) fr [OF x(1)] by (simp add: bm)
    show "y = x" if y: "heap_page y" "present (pte ?s y)" and e: "frame_of (pte ?s y) = frame_of (pte ?s x)" for y
    proof (rule h(2) [OF y(1)])
      show "present (pte s y)" using y pr by blast
      show "frame_of (pte s y) = frame_of (pte s x)" using e by (simp only: fr [OF y(1)] fr [OF x(1)])
    qed
    show "frame_of (pd_entry ?s i) \<noteq> frame_of (pte ?s x)" if "unat i < 1023" "present (pd_entry ?s i)" for i
      using h(3) [of i] fr [OF x(1)] dir [of i] that by simp
    assume "frame_of (pte ?s x) = frame_of (pd_base ?s)"
    then have e: "frame_of (pte s x) = frame_of (pd_base s)" by (simp only: fr [OF x(1)] base)
    then have "x \<noteq> v" "heap_used s x" using dv h(4) by auto
    then show "heap_used ?s x" using others [OF x(1)] by (simp add: heap_used_def)
  qed
  then have ok': "kernel_ok ?s" using f(1) hm by (simp add: kernel_ok_def)
  have "absent_pages ?s = absent_pages s" using pr unfolding absent_pages_def by blast
  then have "heap_live ?s" using live ok' by (simp add: heap_live_def free_frames_def bm)
  moreover have "free_pages ?s = insert v (free_pages s)"
  proof (intro set_eqI)
    show "x \<in> free_pages ?s \<longleftrightarrow> x \<in> insert v (free_pages s)" for x
      using others [of x] pv v fields(3) by (cases "x = v") (auto simp: free_pages_def heap_used_def)
  qed
  moreover have "heap_byte ?s x = heap_byte s x" for x
  proof -
    have "?s = set_pte v ?e (s\<lparr>pf_bitmap := pf_bitmap s\<rparr>)" by simp
    moreover have "heap_page (x AND 0xFFFFF000) \<Longrightarrow> present (pte ?s (x AND 0xFFFFF000)) = present (pte s (x AND 0xFFFFF000))
      \<and> pte ?s (x AND 0xFFFFF000) AND 0xFFFFF000 = pte s (x AND 0xFFFFF000) AND 0xFFFFF000"
      using pr fr by (simp add: frame_eq_iff)
    ultimately show ?thesis
      using heap_byte_kept [OF ok v, of ?s ?e "pf_bitmap s" x] by (cases "heap_page (x AND 0xFFFFF000)") (simp, simp add: heap_byte_def heap_data_def)
  qed
  moreover have "translate ?s x = translate s x" for x
  proof (cases "same_page x v")
    case True
    then have "table_present s x" "pte s x = pte s v"
      using tp by (auto simp: same_page_def page_bits_split table_present_def pte_def pte_addr_def)
    then show ?thesis using True f(6) [of x] fields by (simp add: translate_pte [of s])
  qed (use f(6) in simp)
  ultimately show ?thesis using kfree_eq [OF k(1,2) v] by blast
qed

interpretation heap: page_pool kmalloc kfree heap_live free_pages heap_byte
proof
  show "\<exists>v s'. kmalloc s = Ok (v, s') \<and> heap_live s' \<and> v \<in> free_pages s \<and> free_pages s' = free_pages s - {v}
        \<and> heap_byte s' v \<noteq> None \<and> (\<forall>x. heap_byte s x \<noteq> None \<longrightarrow> \<not> same_page x v \<longrightarrow> heap_byte s' x = heap_byte s x)"
    if "heap_live s" "free_pages s \<noteq> {}" for s using that by (rule kmalloc_pool)
  show "\<exists>s'. kfree v s = Ok s' \<and> heap_live s' \<and> free_pages s' = insert v (free_pages s) \<and> (\<forall>x. heap_byte s' x = heap_byte s x)"
    if "heap_live s" "heap_page v" "heap_byte s v \<noteq> None" for s v using kfree_pool [OF that] by blast
  show "heap_page v" if "v \<in> free_pages s" for v s using that by (simp add: free_pages_def)
qed

section \<open>Bytes of the pages\<close>

locale page_memory = page_pool +
  fixes rd :: "u32 \<Rightarrow> 'a \<Rightarrow> (u8 \<times> 'a) outcome"
    and wr :: "u32 \<Rightarrow> u8 \<Rightarrow> 'a \<Rightarrow> 'a outcome"
  assumes rd_byte: "live s \<Longrightarrow> byte s x = Some b \<Longrightarrow> rd x s = Ok (b, s)"
    and wr_byte: "live s \<Longrightarrow> byte s x \<noteq> None \<Longrightarrow> \<exists>s'. wr x b s = Ok s' \<and> live s' \<and> pool s' = pool s \<and> byte s' = (byte s)(x \<mapsto> b)"
begin

lemma copy_byte:
  assumes "live s" and "byte s src = Some b" and "byte s dst \<noteq> None"
  shows "\<exists>s'. bind_ok (rd src s) (\<lambda>(b, s). wr dst b s) = Ok s' \<and> live s' \<and> pool s' = pool s \<and> byte s' = (byte s)(dst \<mapsto> b)"
  using rd_byte [OF assms(1,2)] wr_byte [OF assms(1,3)] by simp

end

lemma same_page_pte: "same_page x y \<Longrightarrow> pte s x = pte s y \<and> table_present s x = table_present s y"
  by (auto simp: same_page_def page_bits_split table_present_def pte_def pte_addr_def)

lemma heap_byte_translate:
  assumes ok: "kernel_ok s" and b: "heap_byte s x \<noteq> None"
  shows "translate s x = Some ((pte s (x AND 0xFFFFF000) AND 0xFFFFF000) + (x AND 0xFFF))"
    and "heap_byte s x = Some (pmem s ((pte s (x AND 0xFFFFF000) AND 0xFFFFF000) + (x AND 0xFFF)))"
proof -
  have p: "heap_page (x AND 0xFFFFF000)" "present (pte s (x AND 0xFFFFF000))" using b by (auto simp: heap_byte_def heap_data_def split: if_splits)
  have "same_page x (x AND 0xFFFFF000)" by (simp add: same_page_iff frame_of_mask)
  note e = same_page_pte [OF this, of s]
  have "table_present s (x AND 0xFFFFF000)" by (rule heap_page_table [OF kernel_okD(2) [OF ok] p(1)])
  then show "translate s x = Some ((pte s (x AND 0xFFFFF000) AND 0xFFFFF000) + (x AND 0xFFF))" using e p(2) by (simp add: translate_pte)
  show "heap_byte s x = Some (pmem s ((pte s (x AND 0xFFFFF000) AND 0xFFFFF000) + (x AND 0xFFF)))" using b by (simp add: heap_byte_def split: if_splits)
qed

text \<open>Memory that differs in a frame of a data page only: the tables, and with them the invariant, are the same.\<close>

lemma heap_store_tables:
  assumes ok: "kernel_ok s" and p: "heap_data s p" and m: "\<And>x. frame_of x \<noteq> frame_of (pte s p) \<Longrightarrow> m' x = pmem s x"
  shows "\<And>i. unat i < 1024 \<Longrightarrow> pd_entry (s\<lparr>pmem := m'\<rparr>) i = pd_entry s i"
    and "\<And>x. heap_page x \<Longrightarrow> pte (s\<lparr>pmem := m'\<rparr>) x = pte s x"
    and "kernel_ok (s\<lparr>pmem := m'\<rparr>)"
proof -
  note k = kernel_okD [OF ok]
  have own: "frame_of (pd_entry s i) \<noteq> frame_of (pte s p)" if "unat i < 1024" "present (pd_entry s i)" for i
    using heap_tables_apart [OF ok _ _ _ that] p by (simp add: heap_data_def)
  have base: "frame_of (pd_base s) \<noteq> frame_of (pte s p)" using p by (simp add: heap_data_def)
  have mb: "m' x = pmem s x" if "frame_of x = frame_of (pd_base s)" for x using that base by (intro m) simp
  show dir: "pd_entry (s\<lparr>pmem := m'\<rparr>) i = pd_entry s i" if "unat i < 1024" for i by (rule pd_entry_local [OF mb that])
  show pte: "pte (s\<lparr>pmem := m'\<rparr>) x = pte s x" if x: "heap_page x" for x
  proof (rule translate_local(2) [OF mb])
    have "present (pd_entry s (drop_bit 22 x))" using heap_page_table [OF k(2) x] by (simp add: table_present_def)
    from own [OF dir_index_less this] show "m' y = pmem s y" if "frame_of y = frame_of (pd_entry s (drop_bit 22 x))" for y
      using that by (intro m) simp
  qed
  have "pd_base (s\<lparr>pmem := m'\<rparr>) = pd_base s" by (simp add: pd_base_def)
  then have "vm_ok (s\<lparr>pmem := m'\<rparr>)" using k(1) by (simp add: vm_ok_def recursive_map_def tables_distinct_def tables_used_def dir cong: conj_cong imp_cong)
  moreover have "heap_mapped (s\<lparr>pmem := m'\<rparr>)" using k(2) by (simp add: heap_mapped_def dir)
  moreover have "heap_ok (s\<lparr>pmem := m'\<rparr>)" unfolding heap_ok_def
  proof (intro allI impI, elim conjE)
    fix x assume x: "heap_page x" "present (pte (s\<lparr>pmem := m'\<rparr>) x)"
    then have "present (pte s x)" using pte by simp
    note h = heap_okD [OF k(3) x(1) this]
    show "frame_of (pte (s\<lparr>pmem := m'\<rparr>) x) \<in> used_frames (pf_bitmap (s\<lparr>pmem := m'\<rparr>))
     \<and> (\<forall>y. heap_page y \<and> present (pte (s\<lparr>pmem := m'\<rparr>) y) \<and> frame_of (pte (s\<lparr>pmem := m'\<rparr>) y) = frame_of (pte (s\<lparr>pmem := m'\<rparr>) x) \<longrightarrow> y = x)
     \<and> (\<forall>i. unat i < 1023 \<and> present (pd_entry (s\<lparr>pmem := m'\<rparr>) i) \<longrightarrow> frame_of (pd_entry (s\<lparr>pmem := m'\<rparr>) i) \<noteq> frame_of (pte (s\<lparr>pmem := m'\<rparr>) x))
     \<and> (frame_of (pte (s\<lparr>pmem := m'\<rparr>) x) = frame_of (pd_base (s\<lparr>pmem := m'\<rparr>)) \<longrightarrow> heap_used (s\<lparr>pmem := m'\<rparr>) x)"
      using h x pte dir by (auto simp: heap_used_def pd_entry_pmem)
  qed
  ultimately show "kernel_ok (s\<lparr>pmem := m'\<rparr>)" by (simp add: kernel_ok_def)
qed

lemma heap_page_offset_inj:
  assumes "page_aligned b" "page_aligned c" and "b + (x AND 0xFFF) = c + (y AND 0xFFF)"
  shows "b = c \<and> x AND 0xFFF = (y :: u32) AND 0xFFF"
proof -
  have "unat (x AND 0xFFF) < 4096" "unat (y AND 0xFFF) < 4096" by (simp_all add: unat_and_FFF)
  from frame_of_offset [OF assms(1) this(1)] frame_of_offset [OF assms(2) this(2)] assms(3)
  have "frame_of b = frame_of c" by simp
  then have "b = c" using frame_of_eq_base [OF assms(1,2)] by simp
  then show ?thesis using assms(3) by simp
qed

lemma heap_write8:
  assumes live: "heap_live s" and b: "heap_byte s x \<noteq> None"
  shows "\<exists>s'. write8 kaccess x v s = Ok s' \<and> heap_live s' \<and> free_pages s' = free_pages s \<and> heap_byte s' = (heap_byte s)(x \<mapsto> v)"
proof -
  have ok: "kernel_ok s" using live by (simp add: heap_live_def)
  define p where "p = x AND 0xFFFFF000"
  define pa where "pa = (pte s p AND 0xFFFFF000) + (x AND 0xFFF)"
  define s' where "s' = s\<lparr>pmem := (pmem s)(pa := v)\<rparr>"
  have hd: "heap_data s p" using b by (auto simp: heap_byte_def p_def split: if_splits)
  then have p: "heap_page p" "present (pte s p)" by (simp_all add: heap_data_def)
  have "translate s x = Some pa" using heap_byte_translate(1) [OF ok b] by (simp add: pa_def p_def)
  then have run: "write8 kaccess x v s = Ok s'" by (simp add: write8_def kaccess_mapped s'_def)
  have "unat (x AND 0xFFF) < 4096" by (simp add: unat_and_FFF)
  then have "frame_of pa = frame_of (pte s p)" using frame_of_offset [OF page_aligned_mask] by (simp add: pa_def frame_of_mask)
  then have other: "((pmem s)(pa := v)) y = pmem s y" if "frame_of y \<noteq> frame_of (pte s p)" for y using that by auto
  note t = heap_store_tables [OF ok hd other, folded s'_def]
  have dat: "heap_data s' q \<longleftrightarrow> heap_data s q" for q using t(2) [of q] by (auto simp: heap_data_def s'_def pd_base_def)
  have "heap_live s'" using live t(2,3) by (simp add: heap_live_def absent_pages_def free_frames_def s'_def cong: conj_cong)
  moreover have "free_pages s' = free_pages s" using t(2) by (auto simp: free_pages_def heap_used_def)
  moreover have "heap_byte s' y = ((heap_byte s)(x \<mapsto> v)) y" for y
  proof (cases "heap_data s (y AND 0xFFFFF000)")
    case False
    then have "y \<noteq> x" using hd by (auto simp: p_def)
    then show ?thesis using False dat by (auto simp: heap_byte_def)
  next
    case True
    have "(pte s (y AND 0xFFFFF000) AND 0xFFFFF000) + (y AND 0xFFF) = pa \<longleftrightarrow> y = x"
    proof
      assume "(pte s (y AND 0xFFFFF000) AND 0xFFFFF000) + (y AND 0xFFF) = pa"
      then have e: "pte s (y AND 0xFFFFF000) AND 0xFFFFF000 = pte s p AND 0xFFFFF000" "y AND 0xFFF = x AND 0xFFF"
        unfolding pa_def using heap_page_offset_inj [OF page_aligned_mask page_aligned_mask] by blast+
      have "y AND 0xFFFFF000 = p"
        using heap_okD(2) [OF kernel_okD(3) [OF ok] p] True e(1) by (simp add: frame_eq_iff heap_data_def)
      then show "y = x" using page_split [of y] page_split [of x] e(2) by (simp add: p_def)
    qed (simp add: pa_def p_def)
    moreover have "heap_data s' (y AND 0xFFFFF000)" using True dat by blast
    moreover have "pte s' (y AND 0xFFFFF000) = pte s (y AND 0xFFFFF000)" using True t(2) by (simp add: heap_data_def)
    moreover have "pmem s' = (pmem s)(pa := v)" by (simp add: s'_def)
    ultimately show ?thesis using True by (simp add: heap_byte_def)
  qed
  ultimately show ?thesis using run by (intro exI [of _ s']) auto
qed

interpretation mem: page_memory kmalloc kfree heap_live free_pages heap_byte "read8 kaccess" "write8 kaccess"
proof
  show "read8 kaccess x s = Ok (b, s)" if "heap_live s" "heap_byte s x = Some b" for s x b
  proof -
    have "kernel_ok s" "heap_byte s x \<noteq> None" using that by (simp_all add: heap_live_def)
    note h = heap_byte_translate [OF this]
    then show ?thesis using that(2) by (simp add: read8_def kaccess_mapped)
  qed
  show "\<exists>s'. write8 kaccess x b s = Ok s' \<and> heap_live s' \<and> free_pages s' = free_pages s \<and> heap_byte s' = (heap_byte s)(x \<mapsto> b)"
    if "heap_live s" "heap_byte s x \<noteq> None" for s x b using that by (rule heap_write8)
qed

section \<open>The initial heap\<close>

lemma heap_pages_eq: "{x. heap_page x} = (\<lambda>i. 0xc0400000 + of_nat (4096 * i)) ` {..< 1024}"
proof (intro equalityI subsetI)
  fix x assume "x \<in> {x. heap_page x}"
  then have p: "unat x mod 4096 = 0" "0xc0400000 \<le> unat x" "unat x < 0xc0800000"
    by (simp_all add: heap_page_def page_aligned_def word_le_nat_alt word_less_nat_alt)
  define i where "i = (unat x - 0xc0400000) div 4096"
  have "(0xc0400000 :: nat) mod 4096 = 0" by simp
  then have "4096 dvd unat x - 0xc0400000" using p by (intro dvd_diff_nat) (auto simp: mod_eq_0_iff_dvd)
  then have e: "unat x = 0xc0400000 + 4096 * i" using p(2) by (simp add: i_def)
  have "x = of_nat (unat x)" by simp
  then have "x = of_nat (0xc0400000 + 4096 * i)" unfolding e .
  moreover have "i < 1024" using e p(3) by simp
  ultimately show "x \<in> (\<lambda>i. 0xc0400000 + of_nat (4096 * i)) ` {..< 1024}" by (intro image_eqI [of _ _ i]) simp_all
next
  fix x :: u32 assume "x \<in> (\<lambda>i. 0xc0400000 + of_nat (4096 * i)) ` {..< 1024}"
  then obtain i where i: "i < 1024" "x = of_nat (0xc0400000 + 4096 * i)" by auto
  then have "unat x = 0xc0400000 + 4096 * i" by (simp add: unat_of_nat take_bit_nat_eq_self del: of_nat_add)
  moreover have "(0xc0400000 + 4096 * i) mod 4096 = 0" by (simp add: mod_add_eq [symmetric])
  ultimately show "x \<in> {x. heap_page x}" using i(1) by (simp add: heap_page_def page_aligned_def word_le_nat_alt word_less_nat_alt)
qed

lemma heap_pages_card: "card {x. heap_page x} = 1024"
proof -
  have "inj_on (\<lambda>i. 0xc0400000 + of_nat (4096 * i) :: u32) {..< 1024}"
  proof (rule inj_onI)
    fix i j :: nat assume "i \<in> {..< 1024}" "j \<in> {..< 1024}" and e: "(0xc0400000 + of_nat (4096 * i) :: u32) = 0xc0400000 + of_nat (4096 * j)"
    then have "unat (of_nat (4096 * i) :: u32) = unat (of_nat (4096 * j) :: u32)" "i < 1024" "j < 1024" by simp_all
    then show "i = j" by (simp add: unat_of_nat take_bit_nat_eq_self del: of_nat_mult)
  qed
  then show ?thesis unfolding heap_pages_eq by (simp only: card_image card_lessThan)
qed

lemma sample_live: "heap_live sample_vm" and sample_pool: "free_pages sample_vm = {x. heap_page x}"
proof -
  have "free_frames sample_vm = {0x800 ..< 0x100000}" unfolding free_frames_def sample_used by auto
  then have "card (free_frames sample_vm) = 0x100000 - 0x800" by (simp only: card_atLeastLessThan)
  moreover have "card {x. heap_page x \<and> \<not> present (pte sample_vm x)} \<le> card {x. heap_page x}" by (intro card_mono) auto
  ultimately show "heap_live sample_vm" using heap_pages_card sample_kernel_ok by (simp add: heap_live_def absent_pages_def)
  show "free_pages sample_vm = {x. heap_page x}" using sample_heap_entry by (auto simp: free_pages_def heap_used_def)
qed

end
