(* ===== verification/Vfs.thy ===== *)
theory Vfs
  imports Console Nvme Pci Libc_String
begin

text \<open>
  The virtual file system of BarrelOS (\<^verbatim>\<open>barrelOS/kernel/vfs.c\<close>, \<^verbatim>\<open>vfs.h\<close>) with the temporary and the device
  file system (\<^verbatim>\<open>drivers/filesystems/tmpfs.c\<close>, \<^verbatim>\<open>devfs.c\<close>). A \<^verbatim>\<open>vnode_t\<close> is the global root or an entry of a page
  of 68 directory entries, reached by page address and index (entry 68 can hold the terminator only);
  file tables are reached by page address. Paths and names are the characters of the C strings (\<^verbatim>\<open>strcmp\<close>,
  \<^verbatim>\<open>strcat\<close> and \<^verbatim>\<open>strtok\<close> on them are what the theorems of the string library say), and the statics of
  \<^verbatim>\<open>strtok\<close> are the tokens still to come. The functions a file system registers for listing and reading
  are called through \<open>drivers\<close>, which holds the two that call back into this file. Where an access
  leaves its page the result is \<open>Undefined\<close>.
\<close>

section \<open>Data\<close>

datatype nref = Root | Entry u32 nat

datatype fs_func = Tmpread | Tmpwrite | Dev_read | Dev_write | Ext2_read | Ext2_enum | Ext2_mount

record fs_t =
  fs_read :: "fs_func option"
  fs_write :: "fs_func option"
  fs_enumdir :: "fs_func option"
  fs_mount :: "fs_func option"

definition tmpfs :: fs_t where
  "tmpfs = \<lparr>fs_read = Some Tmpread, fs_write = Some Tmpwrite, fs_enumdir = None, fs_mount = None\<rparr>"

definition devfs :: fs_t where
  "devfs = \<lparr>fs_read = Some Dev_read, fs_write = Some Dev_write, fs_enumdir = None, fs_mount = None\<rparr>"

definition ext2fs :: fs_t where
  "ext2fs = \<lparr>fs_read = Some Ext2_read, fs_write = None, fs_enumdir = Some Ext2_enum, fs_mount = Some Ext2_mount\<rparr>"

record vnode_t =
  name :: "u8 list"
  nflags :: u32
  nsize :: u32
  nfs :: "fs_t option"
  inode :: u32
  fs_instance :: u8
  parent :: u32
  dirents :: u32

record fd_t =
  fnode :: "nref option"
  fmode :: u8
  position :: u32

record ext2_sb_t =
  no_inodes :: u32
  no_blocks :: u32
  block_size :: u32
  group_block_count :: u32
  group_inode_count :: u32
  inode_size :: u32
  ext2_sig :: u32

text \<open>The kernel as the file system sees it: all globals, with the nodes and file tables as typed stores.\<close>

record kern =
  ksched :: sched
  kcon :: console
  ntab :: "nref \<Rightarrow> vnode_t"
  fdt :: "u32 \<Rightarrow> nat \<Rightarrow> fd_t"
  toks :: "u8 list list"
  tmpfile :: u32
  nvme_parts :: "nat \<Rightarrow> u32"
  knvme :: nvme
  kpci :: pci
  superblock :: ext2_sb_t
  bgd_table :: u32

abbreviation (input) DIRECTORY :: u32 where "DIRECTORY \<equiv> 0x80000000"
abbreviation (input) MAX_DIRENTS :: nat where "MAX_DIRENTS \<equiv> 68"
abbreviation (input) FD_TABLE_SIZE :: nat where "FD_TABLE_SIZE \<equiv> 8"

text \<open>What \<^verbatim>\<open>mem_set\<close> with zero leaves of the structures.\<close>

definition zero_vnode :: vnode_t where
  "zero_vnode = \<lparr>name = [], nflags = 0, nsize = 0, nfs = None, inode = 0, fs_instance = 0, parent = 0, dirents = 0\<rparr>"

definition zero_fd :: fd_t where
  "zero_fd = \<lparr>fnode = None, fmode = 0, position = 0\<rparr>"

text \<open>A read that waits for the keyboard has not returned yet: the buffer and count it will use.\<close>

datatype progress = Done | Waiting u32 u8

text \<open>The registered functions that call back: \<^verbatim>\<open>ext2_enum\<close> and \<^verbatim>\<open>ext2_read\<close>.\<close>

record drivers =
  enum_fn :: "nref \<Rightarrow> kern \<Rightarrow> kern outcome"
  read_fn :: "u32 \<Rightarrow> u32 \<Rightarrow> u32 \<Rightarrow> nref \<Rightarrow> kern \<Rightarrow> kern outcome"

section \<open>Memory\<close>

definition set_vm :: "vm \<Rightarrow> kern \<Rightarrow> kern" where
  "set_vm m k = k\<lparr>ksched := (ksched k)\<lparr>mm := m\<rparr>\<rparr>"

definition on_vm :: "(vm \<Rightarrow> vm outcome) \<Rightarrow> kern \<Rightarrow> kern outcome" where
  "on_vm f k = bind_ok (f (mm (ksched k))) (\<lambda>m. Ok (set_vm m k))"

definition from_vm :: "(vm \<Rightarrow> ('a \<times> vm) outcome) \<Rightarrow> kern \<Rightarrow> ('a \<times> kern) outcome" where
  "from_vm f k = bind_ok (f (mm (ksched k))) (\<lambda>(a, m). Ok (a, set_vm m k))"

definition upd_node :: "nref \<Rightarrow> (vnode_t \<Rightarrow> vnode_t) \<Rightarrow> kern \<Rightarrow> kern" where
  "upd_node r f k = k\<lparr>ntab := (ntab k)(r := f (ntab k r))\<rparr>"

definition clear_dirents :: "u32 \<Rightarrow> kern \<Rightarrow> kern" where
  "clear_dirents p k = k\<lparr>ntab := (\<lambda>r. case r of Root \<Rightarrow> ntab k r | Entry q i \<Rightarrow> if q = p then zero_vnode else ntab k r)\<rparr>"

text \<open>The C string at a virtual address, and \<^verbatim>\<open>strcpy\<close> between virtual addresses; both may run forever.\<close>

partial_function (option) vstring :: "u32 \<Rightarrow> vm \<Rightarrow> (u8 list \<times> vm) outcome option" where
  "vstring a m =
     (case read8 kaccess a m of
        Halt h \<Rightarrow> Some (Halt h)
      | Ok p \<Rightarrow>
          if fst p = 0 then Some (Ok ([], snd p))
          else Option.bind (vstring (a + 1) (snd p)) (\<lambda>r.
                 case r of Halt h \<Rightarrow> Some (Halt h) | Ok q \<Rightarrow> Some (Ok (fst p # fst q, snd q))))"

partial_function (option) vstrcpy :: "u32 \<Rightarrow> u32 \<Rightarrow> vm \<Rightarrow> vm outcome option" where
  "vstrcpy dest src m =
     (case bind_ok (read8 kaccess src m) (\<lambda>(b, m). write8 kaccess dest b m) of
        Halt h \<Rightarrow> Some (Halt h)
      | Ok m \<Rightarrow>
          (case read8 kaccess src m of
             Halt h \<Rightarrow> Some (Halt h)
           | Ok p \<Rightarrow> if fst p \<noteq> 0 then vstrcpy (dest + 1) (src + 1) (snd p) else Some (Ok (snd p))))"

definition total :: "string \<Rightarrow> 'a outcome option \<Rightarrow> 'a outcome" where
  "total msg r = (case r of None \<Rightarrow> Halt (Spin msg) | Some x \<Rightarrow> x)"

fun vput :: "u32 \<Rightarrow> u8 list \<Rightarrow> vm \<Rightarrow> vm outcome" where
  "vput a [] m = write8 kaccess a 0 m"
| "vput a (x # xs) m = bind_ok (write8 kaccess a x m) (vput (a + 1) xs)"

section \<open>Finding nodes\<close>

definition call_enum :: "drivers \<Rightarrow> fs_func \<Rightarrow> nref \<Rightarrow> kern \<Rightarrow> kern outcome" where
  "call_enum drv f node k = (if f = Ext2_enum then enum_fn drv node k else Halt (Undefined ''enumdir''))"

text \<open>\<^verbatim>\<open>if (fs->enumdir != NULL)\<close>: clear the entries and let the file system list the directory.\<close>

definition refresh :: "drivers \<Rightarrow> nref \<Rightarrow> kern \<Rightarrow> kern outcome" where
  "refresh drv node k =
     (case nfs (ntab k node) of
        None \<Rightarrow> Halt (Undefined ''fs'')
      | Some fs \<Rightarrow>
          (case fs_enumdir fs of
             None \<Rightarrow> Ok k
           | Some f \<Rightarrow> call_enum drv f node (clear_dirents (dirents (ntab k node)) k)))"

function navigate :: "drivers \<Rightarrow> u8 list \<Rightarrow> nref \<Rightarrow> nat \<Rightarrow> kern \<Rightarrow> (nref \<times> kern) outcome" where
  "navigate drv pathpart node i k =
     (if nflags (ntab k node) AND DIRECTORY = 0 then Halt (KPanic ''Part of path is not a directory'')
      else bind_ok (refresh drv node k) (\<lambda>k.
        if i > MAX_DIRENTS then Halt (Undefined ''dirents page'')
        else
          let e = Entry (dirents (ntab k node)) i in
          if name (ntab k e) = pathpart then Ok (e, k)
          else if name (ntab k e) = [] then Halt (Spin ''could not find'')
          else navigate drv pathpart node (i + 1) k))"
  by pat_completeness auto
termination
  by (relation "measure (\<lambda>(drv, p, node, i, k). Suc MAX_DIRENTS - i)") auto

text \<open>\<^verbatim>\<open>strtok(NULL, "/")\<close>.\<close>

definition next_token :: "kern \<Rightarrow> u8 list option \<times> kern" where
  "next_token k =
     (let ts = tl (toks k) in (if ts = [] then None else Some (hd ts), k\<lparr>toks := ts\<rparr>))"

function walk :: "drivers \<Rightarrow> u8 list \<Rightarrow> u8 list \<Rightarrow> nref \<Rightarrow> u8 list option \<Rightarrow> kern \<Rightarrow> (nref \<times> kern) outcome" where
  "walk drv path currentpath node pathpart k =
     (if currentpath = path then Ok (node, k)
      else if length currentpath + 1 \<ge> 4096 then Halt (Undefined ''currentpath page'')
      else
        let currentpath = currentpath @ [0x2F] in
        case pathpart of
          None \<Rightarrow> Halt (KPanic ''Critical error in open()'')
        | Some p \<Rightarrow>
            bind_ok (navigate drv p node 0 k) (\<lambda>r.
              if length currentpath + length p \<ge> 4096 then Halt (Undefined ''currentpath page'')
              else let (q, k) = next_token (snd r)
                   in walk drv path (currentpath @ p) (fst r) q k))"
  by pat_completeness auto
termination
  by (relation "measure (\<lambda>(drv, path, cur, node, p, k). 4096 - length cur)") auto

declare navigate.simps [simp del] walk.simps [simp del]

definition getnode :: "drivers \<Rightarrow> u8 list \<Rightarrow> kern \<Rightarrow> (nref \<times> kern) outcome" where
  "getnode drv path k =
     bind_ok (from_vm kmalloc k) (\<lambda>(currentpath, k).
     bind_ok (from_vm kmalloc k) (\<lambda>(pathpart_page, k).
       if length path \<ge> 4096 then Halt (Undefined ''pathpart page'')
       else
         let ts = tokens [0x2F] path in
         bind_ok (walk drv path [] Root (if ts = [] then None else Some (hd ts)) (k\<lparr>toks := ts\<rparr>)) (\<lambda>(node, k).
         bind_ok (on_vm (kfree currentpath) k) (\<lambda>k.
         bind_ok (on_vm (kfree pathpart_page) k) (\<lambda>k. Ok (node, k))))))"

section \<open>Creating nodes\<close>

function free_entry :: "kern \<Rightarrow> u32 \<Rightarrow> u8 list \<Rightarrow> nat \<Rightarrow> nat outcome" where
  "free_entry k page nm i =
     (if i > MAX_DIRENTS then Halt (Undefined ''dirents page'')
      else if name (ntab k (Entry page i)) = [] then Ok i
      else if name (ntab k (Entry page i)) = nm then Halt (KPanic ''file/direcory with that name already exists'')
      else free_entry k page nm (i + 1))"
  by pat_completeness auto
termination
  by (relation "measure (\<lambda>(k, page, nm, i). Suc MAX_DIRENTS - i)") auto

declare free_entry.simps [simp del]

definition new_vnode :: "nref \<Rightarrow> u8 list \<Rightarrow> kern \<Rightarrow> (nref \<times> kern) outcome" where
  "new_vnode par nm k =
     (let page = dirents (ntab k par) in
      bind_ok (free_entry k page nm 0) (\<lambda>i.
        if i \<ge> MAX_DIRENTS \<or> length nm \<ge> 32 then Halt (Undefined ''vnode overflow'')
        else
          let newnode = Entry page i;
              k = upd_node newnode (\<lambda>n. n\<lparr>name := nm\<rparr>) k;
              k = upd_node (Entry page (i + 1)) (\<lambda>n. n\<lparr>name := []\<rparr>) k
          in bind_ok (from_vm kmalloc k) (\<lambda>(d, k).
               let k = upd_node newnode (\<lambda>n. n\<lparr>dirents := d\<rparr>) k;
                   k = upd_node (Entry d 0) (\<lambda>n. n\<lparr>name := []\<rparr>) k
               in Ok (newnode, k))))"

section \<open>Directory contents\<close>

text \<open>\<^verbatim>\<open>strcat\<close> of every name and a newline; the names of a page fit into one page.\<close>

function list_names :: "kern \<Rightarrow> u32 \<Rightarrow> nat \<Rightarrow> u8 list outcome" where
  "list_names k page i =
     (if i > MAX_DIRENTS then Halt (Undefined ''dirents page'')
      else if name (ntab k (Entry page i)) = [] then Ok []
      else bind_ok (list_names k page (i + 1)) (\<lambda>xs. Ok (name (ntab k (Entry page i)) @ [0x0A] @ xs)))"
  by pat_completeness auto
termination
  by (relation "measure (\<lambda>(k, page, i). Suc MAX_DIRENTS - i)") auto

declare list_names.simps [simp del]

text \<open>The test for a directory is \<^verbatim>\<open>flags & (0x80000000 == 0)\<close>, which is never true.\<close>

definition readdir :: "drivers \<Rightarrow> u8 list \<Rightarrow> u32 \<Rightarrow> kern \<Rightarrow> kern outcome" where
  "readdir drv path buf k =
     bind_ok (getnode drv path k) (\<lambda>(node, k).
       if nflags (ntab k node) AND (if DIRECTORY = 0 then 1 else 0) \<noteq> 0 then Ok k
       else
         bind_ok (refresh drv node k) (\<lambda>k.
         bind_ok (from_vm kmalloc k) (\<lambda>(contents, k).
         bind_ok (list_names k (dirents (ntab k node)) 0) (\<lambda>text.
         bind_ok (on_vm (vput buf text) k) (\<lambda>k.
           on_vm (kfree contents) k)))))"

section \<open>Temporary files and devices\<close>

definition tmpread :: "u32 \<Rightarrow> u32 \<Rightarrow> u32 \<Rightarrow> kern \<Rightarrow> kern outcome" where
  "tmpread buffer count pos k = on_vm (\<lambda>m. total ''strcpy'' (vstrcpy buffer (tmpfile k + pos) m)) k"

definition tmpwrite :: "u32 \<Rightarrow> u32 \<Rightarrow> u32 \<Rightarrow> kern \<Rightarrow> kern outcome" where
  "tmpwrite buffer count pos k = on_vm (\<lambda>m. total ''strcpy'' (vstrcpy (tmpfile k + pos) buffer m)) k"

definition read_drive :: "controller \<Rightarrow> u32 \<Rightarrow> u32 \<Rightarrow> u32 \<Rightarrow> kern \<Rightarrow> kern outcome" where
  "read_drive hw buf count pos k =
     bind_ok (nvme_read hw buf count pos (knvme k) (mm (ksched k))) (\<lambda>(_, d, m). Ok (set_vm m (k\<lparr>knvme := d\<rparr>)))"

text \<open>Reading the terminal puts the process to sleep; \<^verbatim>\<open>sendbuffer_resume\<close> continues it.\<close>

definition read_tty :: "kern \<Rightarrow> kern outcome" where
  "read_tty k =
     bind_ok (total ''no process is ready'' (sendbuffer_wait (kcon k, ksched k))) (\<lambda>(c, sc).
       Ok (k\<lparr>kcon := c, ksched := sc\<rparr>))"

definition dev_read :: "controller \<Rightarrow> u32 \<Rightarrow> u32 \<Rightarrow> u32 \<Rightarrow> nref \<Rightarrow> kern \<Rightarrow> (progress \<times> kern) outcome" where
  "dev_read hw buf count pos vnode k =
     (let nm = name (ntab k vnode) in
      if nm = ascii ''tty'' then bind_ok (read_tty k) (\<lambda>k. Ok (Waiting buf (ucast count), k))
      else if nm = ascii ''nvme'' then bind_ok (read_drive hw buf count pos k) (\<lambda>k. Ok (Done, k))
      else if nm = ascii ''nvme5'' then bind_ok (read_drive hw buf count (pos + nvme_parts k 5) k) (\<lambda>k. Ok (Done, k))
      else Halt (KPanic ''Unknown device''))"

definition dev_write :: "u32 \<Rightarrow> u32 \<Rightarrow> u32 \<Rightarrow> nref \<Rightarrow> kern \<Rightarrow> kern outcome" where
  "dev_write buf count pos vnode k =
     (let nm = name (ntab k vnode) in
      if nm = ascii ''tty''
      then bind_ok (from_vm (\<lambda>m. total ''print'' (vstring buf m)) k) (\<lambda>(text, k). Ok (k\<lparr>kcon := print text (kcon k)\<rparr>))
      else if nm = ascii ''nvme'' then Halt (KPanic ''Atempted to write to nvme'')
      else Halt (KPanic ''Unknown device''))"

section \<open>Open files\<close>

text \<open>\<^verbatim>\<open>fd_tables[active_pid]\<close>; the array has 255 elements.\<close>

definition table_page :: "kern \<Rightarrow> u32 outcome" where
  "table_page k =
     (if active_pid (ksched k) \<ge> 255 then Halt (Undefined ''fd_tables'')
      else Ok (fd_tables (ksched k) (active_pid (ksched k))))"

text \<open>An operation on a descriptor of a process that has no table reads through a null pointer.\<close>

definition fd_table :: "kern \<Rightarrow> u32 outcome" where
  "fd_table k = bind_ok (table_page k) (\<lambda>p. if p = 0 then Halt (Undefined ''fd_table'') else Ok p)"

definition set_fd :: "u32 \<Rightarrow> nat \<Rightarrow> fd_t \<Rightarrow> kern \<Rightarrow> kern" where
  "set_fd p i f k = k\<lparr>fdt := (fdt k)(p := (fdt k p)(i := f))\<rparr>"

definition ensure_table :: "kern \<Rightarrow> kern outcome" where
  "ensure_table k =
     bind_ok (table_page k) (\<lambda>p.
       if p = 0
       then bind_ok (from_vm kmalloc k) (\<lambda>(p, k).
              Ok (k\<lparr>ksched := (ksched k)\<lparr>fd_tables := (fd_tables (ksched k))(active_pid (ksched k) := p)\<rparr>,
                    fdt := (fdt k)(p := (\<lambda>_. zero_fd))\<rparr>))
       else Ok k)"

fun free_fd :: "(nat \<Rightarrow> fd_t) \<Rightarrow> nat list \<Rightarrow> nat option" where
  "free_fd t [] = None"
| "free_fd t (i # is) = (if fmode (t i) = 0 then Some i else free_fd t is)"

definition vopen :: "drivers \<Rightarrow> u8 list \<Rightarrow> u8 \<Rightarrow> kern \<Rightarrow> (u8 \<times> kern) outcome" where
  "vopen drv path mode k =
     bind_ok (ensure_table k) (\<lambda>k.
     bind_ok (table_page k) (\<lambda>p.
     bind_ok (getnode drv path k) (\<lambda>(vnode, k).
       case free_fd (fdt k p) [0..<FD_TABLE_SIZE] of
         None \<Rightarrow> Halt (KPanic ''File descriptor table is full'')
       | Some i \<Rightarrow> Ok (of_nat i, set_fd p i \<lparr>fnode = Some vnode, fmode = mode, position = 0\<rparr> k))))"

definition node_of :: "fd_t \<Rightarrow> nref outcome" where
  "node_of f = (case fnode f of None \<Rightarrow> Halt (Undefined ''node'') | Some n \<Rightarrow> Ok n)"

definition vstat :: "u8 \<Rightarrow> kern \<Rightarrow> u32 outcome" where
  "vstat fd k =
     bind_ok (fd_table k) (\<lambda>p.
     bind_ok (node_of (fdt k p (unat fd))) (\<lambda>n. Ok (nsize (ntab k n))))"

definition vseek :: "u8 \<Rightarrow> u32 \<Rightarrow> u8 \<Rightarrow> kern \<Rightarrow> (u32 \<times> kern) outcome" where
  "vseek fd count whence k =
     bind_ok (fd_table k) (\<lambda>p.
       let f = fdt k p (unat fd) in
       bind_ok (if whence = 0 then Ok (f\<lparr>position := count\<rparr>)
                else if whence = 1 then Ok (f\<lparr>position := position f + count\<rparr>)
                else if whence = 2 then bind_ok (node_of f) (\<lambda>n. Ok (f\<lparr>position := nsize (ntab k n) + count\<rparr>))
                else Ok f) (\<lambda>f. Ok (position f, set_fd p (unat fd) f k)))"

definition fs_of :: "nref \<Rightarrow> kern \<Rightarrow> fs_t outcome" where
  "fs_of n k = (case nfs (ntab k n) of None \<Rightarrow> Halt (Undefined ''fs'') | Some fs \<Rightarrow> Ok fs)"

text \<open>The call through \<^verbatim>\<open>fs->read\<close>.\<close>

definition call_read :: "controller \<Rightarrow> drivers \<Rightarrow> fs_func \<Rightarrow> u32 \<Rightarrow> u32 \<Rightarrow> u32 \<Rightarrow> nref \<Rightarrow> kern \<Rightarrow> (progress \<times> kern) outcome" where
  "call_read hw drv f buf count pos n k =
     (if f = Tmpread then bind_ok (tmpread buf count pos k) (\<lambda>k. Ok (Done, k))
      else if f = Dev_read then dev_read hw buf count pos n k
      else if f = Ext2_read then bind_ok (read_fn drv buf count pos n k) (\<lambda>k. Ok (Done, k))
      else Halt (Undefined ''read''))"

definition vread :: "controller \<Rightarrow> drivers \<Rightarrow> u8 \<Rightarrow> u32 \<Rightarrow> u32 \<Rightarrow> kern \<Rightarrow> (progress \<times> kern) outcome" where
  "vread hw drv fd buf count k =
     bind_ok (fd_table k) (\<lambda>p.
       let f = fdt k p (unat fd) in
       if fmode f = 0 then Halt (KPanic ''Attempted to read from invalid file descriptor'')
       else if fmode f AND 1 = 0 then Halt (KPanic ''Attempted to read without read mode enabled'')
       else
         bind_ok (node_of f) (\<lambda>n.
         bind_ok (fs_of n k) (\<lambda>fs.
           case fs_read fs of
             None \<Rightarrow> Halt (KPanic ''File descriptor has no read function'')
           | Some func \<Rightarrow>
               if position f + count > nsize (ntab k n) \<and> nsize (ntab k n) \<noteq> 0
               then Halt (Spin ''Attempted to read outside size of file'')
               else call_read hw drv func buf count (position f) n k)))"

definition call_write :: "fs_func \<Rightarrow> u32 \<Rightarrow> u32 \<Rightarrow> u32 \<Rightarrow> nref \<Rightarrow> kern \<Rightarrow> kern outcome" where
  "call_write f buf count pos n k =
     (if f = Tmpwrite then tmpwrite buf count pos k
      else if f = Dev_write then dev_write buf count pos n k
      else Halt (Undefined ''write''))"

definition vwrite :: "u8 \<Rightarrow> u32 \<Rightarrow> u32 \<Rightarrow> kern \<Rightarrow> kern outcome" where
  "vwrite fd buf count k =
     bind_ok (fd_table k) (\<lambda>p.
       let f = fdt k p (unat fd) in
       if fmode f = 0 then Halt (KPanic ''Attempted to write to invalid file descriptor'')
       else if fmode f AND 2 = 0 then Halt (KPanic ''Attempted to write without write mode enabled'')
       else
         bind_ok (node_of f) (\<lambda>n.
         bind_ok (fs_of n k) (\<lambda>fs.
           case fs_write fs of
             None \<Rightarrow> Halt (KPanic ''File descriptor has no write function'')
           | Some func \<Rightarrow>
               if position f + count > nsize (ntab k n) \<and> nsize (ntab k n) \<noteq> 0
               then Halt (KPanic ''Attempted to write outside size of file'')
               else call_write func buf count (position f) n k)))"

definition vclose :: "u8 \<Rightarrow> kern \<Rightarrow> kern outcome" where
  "vclose fd k =
     bind_ok (table_page k) (\<lambda>p.
       if p = 0 then Halt (KPanic ''Attempted to access fd_table of process without one'')
       else
         let f = fdt k p (unat fd) in
         if fmode f = 0 then Halt (KPanic ''Attempted to close unopened descriptor'')
         else Ok (set_fd p (unat fd) (f\<lparr>fmode := 0\<rparr>) k))"

section \<open>Building the tree\<close>

text \<open>\<^verbatim>\<open>new_vnode\<close> and the three assignments that follow it everywhere.\<close>

definition make_node :: "nref \<Rightarrow> u8 list \<Rightarrow> u32 \<Rightarrow> fs_t \<Rightarrow> kern \<Rightarrow> (nref \<times> kern) outcome" where
  "make_node par nm fl fs k =
     bind_ok (new_vnode par nm k) (\<lambda>(n, k).
       Ok (n, upd_node n (\<lambda>v. v\<lparr>nflags := fl, nsize := 0, nfs := Some fs\<rparr>) k))"

definition init_tmpfs :: "kern \<Rightarrow> kern outcome" where
  "init_tmpfs k =
     bind_ok (from_vm kmalloc k) (\<lambda>(p, k).
     bind_ok (make_node Root (ascii ''mnt'') DIRECTORY tmpfs (k\<lparr>tmpfile := p\<rparr>)) (\<lambda>(_, k).
     bind_ok (make_node Root (ascii ''file'') 0 tmpfs k) (\<lambda>(_, k). Ok k)))"

text \<open>The sum of the bytes of a type GUID.\<close>

fun sum_bytes :: "u32 \<Rightarrow> nat \<Rightarrow> vm \<Rightarrow> (u32 \<times> vm) outcome" where
  "sum_bytes a 0 m = Ok (0, m)"
| "sum_bytes a (Suc n) m =
     bind_ok (read8 kaccess a m) (\<lambda>(b, m).
     bind_ok (sum_bytes (a + 1) n m) (\<lambda>(s, m). Ok (ucast b + s, m)))"

text \<open>One round of the partition loop: entry \<open>i\<close> of the table at \<open>pentry\<close>.\<close>

definition add_partition :: "nref \<Rightarrow> u32 \<Rightarrow> nat \<Rightarrow> kern \<Rightarrow> kern outcome" where
  "add_partition dev pentry i k =
     (let e = pentry + of_nat (128 * i) in
      bind_ok (from_vm (sum_bytes e 16) k) (\<lambda>(used, k).
        if used = 0 then Ok k
        else
          bind_ok (new_vnode dev (ascii ''nvme'' @ [of_nat i + 48]) k) (\<lambda>(n, k).
          bind_ok (from_vm (read32 kaccess (e + 40)) k) (\<lambda>(lba_end, k).
          bind_ok (from_vm (read32 kaccess (e + 32)) k) (\<lambda>(lba_start, k).
            let k = upd_node n (\<lambda>v. v\<lparr>nflags := 0, nsize := lba_end - lba_start + 1, nfs := Some devfs, fs_instance := of_nat i\<rparr>) k
            in Ok (k\<lparr>nvme_parts := (nvme_parts k)(i := lba_start)\<rparr>))))))"

fun add_partitions :: "nref \<Rightarrow> u32 \<Rightarrow> nat list \<Rightarrow> kern \<Rightarrow> kern outcome" where
  "add_partitions dev pentry [] k = Ok k"
| "add_partitions dev pentry (i # is) k = bind_ok (add_partition dev pentry i k) (add_partitions dev pentry is)"

definition read16 :: "accessor \<Rightarrow> u32 \<Rightarrow> vm \<Rightarrow> (u16 \<times> vm) outcome" where
  "read16 acc va m =
     bind_ok (read8 acc va m) (\<lambda>(lo, m).
     bind_ok (read8 acc (va + 1) m) (\<lambda>(hi, m). Ok (ucast lo OR push_bit 8 (ucast hi), m)))"

text \<open>The search for partitions in the first sectors of the drive, loaded at \<open>buffer\<close>.\<close>

definition find_partitions :: "nref \<Rightarrow> u32 \<Rightarrow> kern \<Rightarrow> kern outcome" where
  "find_partitions dev buffer k =
     bind_ok (from_vm (read16 kaccess (buffer + 0x1fe)) k) (\<lambda>(sig, k).
       if sig = 0xaa55
       then let gpt = buffer + 512 in
            bind_ok (on_vm (write8 kaccess (gpt + 8) 0) k) (\<lambda>k.
            bind_ok (from_vm (\<lambda>m. total ''strcmp'' (vstring gpt m)) k) (\<lambda>(str, k).
              if str = ascii ''EFI PART'' then add_partitions dev (buffer + 1024) [0..<8] k else Ok k))
       else Ok k)"

text \<open>The start of the drive: bus scan, controller and queues.\<close>

definition start_drive :: "controller \<Rightarrow> kern \<Rightarrow> kern outcome" where
  "start_drive hw k =
     bind_ok (init_pci (kpci k)) (\<lambda>pc.
     bind_ok (detect_nvme pc) (\<lambda>(address, pc).
     bind_ok (getHeader address pc (mm (ksched k))) (\<lambda>(header, pc, m).
       let mmio = BAR0 header AND 0xFFFFFFF0 in
       bind_ok (init_admin hw mmio (knvme k) m) (\<lambda>(d, m).
       bind_ok (init_ioq hw d m) (\<lambda>(d, m).
       bind_ok (create_iocq hw 1 d m) (\<lambda>(d, m).
       bind_ok (create_iosq hw 1 d m) (\<lambda>(d, m).
         Ok (set_vm m (k\<lparr>kpci := pc, knvme := d\<rparr>)))))))))"

definition dev_enum :: "controller \<Rightarrow> kern \<Rightarrow> kern outcome" where
  "dev_enum hw k =
     bind_ok (make_node Root (ascii ''dev'') DIRECTORY devfs k) (\<lambda>(dev, k).
     bind_ok (make_node dev (ascii ''zero'') 0 devfs k) (\<lambda>(_, k).
     bind_ok (make_node dev (ascii ''rand'') 0 devfs k) (\<lambda>(_, k).
     bind_ok (init_terminal (kcon k) (ksched k)) (\<lambda>(c, sc).
     bind_ok (make_node dev (ascii ''tty'') 0 devfs (k\<lparr>kcon := c, ksched := sc\<rparr>)) (\<lambda>(_, k).
     bind_ok (start_drive hw k) (\<lambda>k.
     bind_ok (from_vm kmalloc k) (\<lambda>(nvme_name, k).
     bind_ok (make_node dev (ascii ''nvme'') 0 devfs k) (\<lambda>(_, k).
     bind_ok (from_vm kmalloc k) (\<lambda>(buffer, k).
     bind_ok (read_drive hw buffer 8 0 k) (\<lambda>k.
     bind_ok (find_partitions dev buffer k) (\<lambda>k.
     bind_ok (on_vm (kfree nvme_name) k) (\<lambda>k.
       on_vm (kfree buffer) k))))))))))))"

text \<open>The four bytes \<^verbatim>\<open>mem_set\<close> clears behind the 255 elements of \<^verbatim>\<open>fd_tables\<close> are another object's.\<close>

definition init_root :: "kern \<Rightarrow> kern outcome" where
  "init_root k =
     (let k = k\<lparr>ksched := (ksched k)\<lparr>fd_tables := (\<lambda>i. if i < 255 then 0 else fd_tables (ksched k) i)\<rparr>\<rparr>;
          k = upd_node Root (\<lambda>n. n\<lparr>name := ascii ''root'', nflags := DIRECTORY, nsize := 0\<rparr>) k
      in bind_ok (from_vm kmalloc k) (\<lambda>(d, k).
           let k = upd_node Root (\<lambda>n. n\<lparr>dirents := d\<rparr>) k;
               k = upd_node (Entry d 0) (\<lambda>n. n\<lparr>name := []\<rparr>) k
           in Ok (upd_node Root (\<lambda>n. n\<lparr>nfs := Some tmpfs\<rparr>) k)))"

definition init_vfs :: "controller \<Rightarrow> kern \<Rightarrow> kern outcome" where
  "init_vfs hw k = bind_ok (init_root k) (\<lambda>k. bind_ok (init_tmpfs k) (dev_enum hw))"

end
