(* ===== verification/Vfs_Tree.thy ===== *)
theory Vfs_Tree
  imports Vfs Heap_Pages
begin

text \<open>
  The directory tree of the virtual file system: looking up paths (\<^verbatim>\<open>getnode\<close>) against an abstract
  resolution over the names of the directories, and the invariant of the tree that creating nodes
  (\<^verbatim>\<open>new_vnode\<close>) keeps.
\<close>

section \<open>Specification\<close>

fun path_of :: "u8 list list \<Rightarrow> u8 list" where
  "path_of [] = []"
| "path_of (p # ps) = 0x2F # p @ path_of ps"

definition is_dir :: "kern \<Rightarrow> nref \<Rightarrow> bool" where
  "is_dir k n \<longleftrightarrow> nflags (ntab k n) AND DIRECTORY \<noteq> 0"

text \<open>The names in a page of directory entries, and the entry with a given one.\<close>

definition children :: "kern \<Rightarrow> u32 \<Rightarrow> u8 list list" where
  "children k p = takeWhile (\<lambda>x. x \<noteq> []) (map (\<lambda>i. name (ntab k (Entry p i))) [0..<69])"

definition child :: "kern \<Rightarrow> u32 \<Rightarrow> u8 list \<Rightarrow> nref outcome" where
  "child k p nm =
     (if nm \<in> set (children k p) then Ok (Entry p (length (takeWhile (\<lambda>x. x \<noteq> nm) (children k p))))
      else if length (children k p) < 69 then Halt (Spin ''could not find'')
      else Halt (Undefined ''dirents page''))"

text \<open>Following the names from a node, and: no directory on the way is listed by its file system first.\<close>

fun resolve :: "kern \<Rightarrow> nref \<Rightarrow> u8 list list \<Rightarrow> nref outcome" where
  "resolve k n [] = Ok n"
| "resolve k n (p # ps) =
     (if is_dir k n then bind_ok (child k (dirents (ntab k n)) p) (\<lambda>n'. resolve k n' ps)
      else Halt (KPanic ''Part of path is not a directory''))"

definition static_node :: "kern \<Rightarrow> nref \<Rightarrow> bool" where
  "static_node k n \<longleftrightarrow> (\<exists>fs. nfs (ntab k n) = Some fs \<and> fs_enumdir fs = None)"

fun static_path :: "kern \<Rightarrow> nref \<Rightarrow> u8 list list \<Rightarrow> bool" where
  "static_path k n [] = True"
| "static_path k n (p # ps) \<longleftrightarrow> (is_dir k n \<longrightarrow> static_node k n)
     \<and> (\<forall>n'. is_dir k n \<longrightarrow> child k (dirents (ntab k n)) p = Ok n' \<longrightarrow> static_path k n' ps)"

definition klive :: "kern \<Rightarrow> bool" where
  "klive k \<longleftrightarrow> heap_live (mm (ksched k))"

definition kpool :: "kern \<Rightarrow> u32 set" where
  "kpool k = free_pages (mm (ksched k))"

definition kbyte :: "kern \<Rightarrow> u32 \<Rightarrow> u8 option" where
  "kbyte k = heap_byte (mm (ksched k))"

definition is_name :: "u8 list \<Rightarrow> bool" where
  "is_name p \<longleftrightarrow> p \<noteq> [] \<and> 0 \<notin> set p \<and> 0x2F \<notin> set p"

definition first_token :: "u8 list list \<Rightarrow> u8 list option" where
  "first_token ps = (if ps = [] then None else Some (hd ps))"

text \<open>Two heap pages differ in nothing the file system keeps: the pool, the invariant and the bytes in use.\<close>

definition same_heap :: "vm \<Rightarrow> vm \<Rightarrow> bool" where
  "same_heap s s' \<longleftrightarrow> heap_live s' \<and> free_pages s' = free_pages s
     \<and> (\<forall>x. heap_byte s x \<noteq> None \<longrightarrow> x AND 0xFFFFF000 \<notin> free_pages s \<longrightarrow> heap_byte s' x = heap_byte s x)"

inductive reach :: "kern \<Rightarrow> nref \<Rightarrow> bool" for k where
  root: "reach k Root"
| entry: "reach k n \<Longrightarrow> i < length (children k (dirents (ntab k n))) \<Longrightarrow> reach k (Entry (dirents (ntab k n)) i)"

text \<open>
  The invariant of the tree: every node that can be reached has a page of entries of its own, taken from the
  heap, that ends with an empty name, lists no name twice and holds names a path can name; and it has a
  file system.
\<close>

definition node_ok :: "kern \<Rightarrow> nref \<Rightarrow> bool" where
  "node_ok k n \<longleftrightarrow> heap_page (dirents (ntab k n)) \<and> dirents (ntab k n) \<notin> kpool k
     \<and> length (children k (dirents (ntab k n))) \<le> 68 \<and> distinct (children k (dirents (ntab k n)))
     \<and> (\<forall>x \<in> set (children k (dirents (ntab k n))). is_name x) \<and> nfs (ntab k n) \<noteq> None"

definition tree_ok :: "kern \<Rightarrow> bool" where
  "tree_ok k \<longleftrightarrow> (\<forall>n. reach k n \<longrightarrow> node_ok k n)
     \<and> (\<forall>n n'. reach k n \<longrightarrow> reach k n' \<longrightarrow> dirents (ntab k n) = dirents (ntab k n') \<longrightarrow> n = n')"

text \<open>One node more: \<open>k'\<close> differs from \<open>k\<close> by an entry \<open>nm\<close> behind those of \<open>par\<close>, with an empty page \<open>d\<close>.\<close>

definition adds_node :: "nref \<Rightarrow> u8 list \<Rightarrow> u32 \<Rightarrow> kern \<Rightarrow> nref \<Rightarrow> kern \<Rightarrow> bool" where
  "adds_node par nm d k n k' \<longleftrightarrow>
     (let page = dirents (ntab k par); i = length (children k page) in
      n = Entry page i \<and> d \<in> kpool k \<and> kpool k' = kpool k - {d}
      \<and> (\<forall>r. r \<noteq> n \<longrightarrow> r \<noteq> Entry page (i + 1) \<longrightarrow> r \<noteq> Entry d 0 \<longrightarrow> ntab k' r = ntab k r)
      \<and> name (ntab k' n) = nm \<and> dirents (ntab k' n) = d \<and> nfs (ntab k' n) \<noteq> None
      \<and> name (ntab k' (Entry page (i + 1))) = [] \<and> name (ntab k' (Entry d 0)) = [])"

text \<open>The tree after a node was made: all that was there, and the new node under its name.\<close>

definition grown :: "nref \<Rightarrow> u8 list \<Rightarrow> nref \<Rightarrow> kern \<Rightarrow> kern \<Rightarrow> bool" where
  "grown par nm n k k' \<longleftrightarrow> tree_ok k' \<and> klive k' \<and> card (kpool k') = card (kpool k) - 1 \<and> reach k' n \<and> children k' (dirents (ntab k' n)) = []
     \<and> children k' (dirents (ntab k par)) = children k (dirents (ntab k par)) @ [nm]
     \<and> (\<forall>m. reach k m \<longrightarrow> reach k' m \<and> ntab k' m = ntab k m)
     \<and> (\<forall>ps r. resolve k Root ps = Ok r \<longrightarrow> resolve k' Root ps = Ok r)
     \<and> (\<forall>ps. is_dir k par \<longrightarrow> resolve k Root ps = Ok par \<longrightarrow> resolve k' Root (ps @ [nm]) = Ok n)
     \<and> (\<forall>m p m'. reach k m \<longrightarrow> child k (dirents (ntab k m)) p = Ok m' \<longrightarrow> child k' (dirents (ntab k m)) p = Ok m')"

definition sample_kern :: kern where
  "sample_kern =
     \<lparr>ksched = sample_sched, kcon = sample_console, ntab = (\<lambda>_. zero_vnode), fdt = (\<lambda>_ _. zero_fd), toks = [], tmpfile = 0,
      nvme_parts = (\<lambda>_. 0), knvme = sample_nvme, kpci = sample_pci,
      superblock = \<lparr>no_inodes = 0, no_blocks = 0, block_size = 0, group_block_count = 0, group_inode_count = 0, inode_size = 0, ext2_sig = 0\<rparr>,
      bgd_table = 0\<rparr>"

definition no_drivers :: drivers where
  "no_drivers = \<lparr>enum_fn = (\<lambda>_ _. Halt (Undefined ''enumdir'')), read_fn = (\<lambda>_ _ _ _ _. Halt (Undefined ''read''))\<rparr>"

section \<open>The heap of the kernel state\<close>

lemma set_vm_simps [simp]:
  "mm (ksched (set_vm m k)) = m" "ntab (set_vm m k) = ntab k" "fdt (set_vm m k) = fdt k" "toks (set_vm m k) = toks k"
  "kcon (set_vm m k) = kcon k" "knvme (set_vm m k) = knvme k" "kpci (set_vm m k) = kpci k" "tmpfile (set_vm m k) = tmpfile k"
  "nvme_parts (set_vm m k) = nvme_parts k" "superblock (set_vm m k) = superblock k" "bgd_table (set_vm m k) = bgd_table k"
  "fd_tables (ksched (set_vm m k)) = fd_tables (ksched k)" "active_pid (ksched (set_vm m k)) = active_pid (ksched k)"
  "set_vm m (set_vm m' k) = set_vm m k" "set_vm (mm (ksched k)) k = k"
  "toks_update f (set_vm m k) = set_vm m (toks_update f k)"
  by (simp_all add: set_vm_def)

lemma from_vm_Ok: "from_vm f k = Ok (a, k') \<longleftrightarrow> (\<exists>m. f (mm (ksched k)) = Ok (a, m) \<and> k' = set_vm m k)"
  by (cases "f (mm (ksched k))") (auto simp: from_vm_def)

lemma on_vm_Ok: "on_vm f k = Ok k' \<longleftrightarrow> (\<exists>m. f (mm (ksched k)) = Ok m \<and> k' = set_vm m k)"
  by (cases "f (mm (ksched k))") (auto simp: on_vm_def)

interpretation kheap: page_pool "from_vm kmalloc" "\<lambda>v. on_vm (kfree v)" klive kpool kbyte
proof
  show "\<exists>v s'. from_vm kmalloc s = Ok (v, s') \<and> klive s' \<and> v \<in> kpool s \<and> kpool s' = kpool s - {v} \<and> kbyte s' v \<noteq> None
      \<and> (\<forall>x. kbyte s x \<noteq> None \<longrightarrow> \<not> same_page x v \<longrightarrow> kbyte s' x = kbyte s x)" if "klive s" "kpool s \<noteq> {}" for s
    using heap.alloc_pool [of "mm (ksched s)"] that unfolding klive_def kpool_def kbyte_def from_vm_Ok by (metis set_vm_simps(1))
  show "\<exists>s'. on_vm (kfree v) s = Ok s' \<and> klive s' \<and> kpool s' = insert v (kpool s) \<and> (\<forall>x. kbyte s' x = kbyte s x)"
    if "klive s" "heap_page v" "kbyte s v \<noteq> None" for s v
    using heap.release_pool [of "mm (ksched s)" v] that unfolding klive_def kpool_def kbyte_def on_vm_Ok by (metis set_vm_simps(1))
  show "heap_page v" if "v \<in> kpool s" for v s using that heap.pool_pages by (simp add: kpool_def)
qed

section \<open>Looking up one name\<close>

lemma navigate_step:
  assumes d: "is_dir k n" and s: "static_node k n"
  shows "navigate drv nm n i k =
    (if i > 68 then Halt (Undefined ''dirents page'')
     else if name (ntab k (Entry (dirents (ntab k n)) i)) = nm then Ok (Entry (dirents (ntab k n)) i, k)
     else if name (ntab k (Entry (dirents (ntab k n)) i)) = [] then Halt (Spin ''could not find'')
     else navigate drv nm n (Suc i) k)"
proof -
  have "refresh drv n k = Ok k" using s by (auto simp: refresh_def static_node_def)
  then show ?thesis using d unfolding is_dir_def by (subst navigate.simps) (simp only: Let_def if_False bind_ok.simps Suc_eq_plus1)
qed

lemma navigate_scan:
  assumes d: "is_dir k n" and s: "static_node k n" and nm: "nm \<noteq> []" and i: "i \<le> 69"
  shows "navigate drv nm n i k =
    (let xs = takeWhile (\<lambda>x. x \<noteq> []) (map (\<lambda>j. name (ntab k (Entry (dirents (ntab k n)) j))) [i..<69]) in
     if nm \<in> set xs then Ok (Entry (dirents (ntab k n)) (i + length (takeWhile (\<lambda>x. x \<noteq> nm) xs)), k)
     else if i + length xs < 69 then Halt (Spin ''could not find'') else Halt (Undefined ''dirents page''))"
  using i
proof (induction "69 - i" arbitrary: i)
  case 0
  then have "i = 69" by simp
  then show ?case by (subst navigate_step [OF d s]) simp
next
  case (Suc m)
  then have i: "i < 69" by simp
  define x where "x = name (ntab k (Entry (dirents (ntab k n)) i))"
  define ys where "ys = takeWhile (\<lambda>x. x \<noteq> []) (map (\<lambda>j. name (ntab k (Entry (dirents (ntab k n)) j))) [Suc i..<69])"
  have up: "takeWhile (\<lambda>x. x \<noteq> []) (map (\<lambda>j. name (ntab k (Entry (dirents (ntab k n)) j))) [i..<69]) = (if x = [] then [] else x # ys)"
    using i by (simp add: upt_conv_Cons x_def ys_def)
  have IH: "navigate drv nm n (Suc i) k =
    (if nm \<in> set ys then Ok (Entry (dirents (ntab k n)) (Suc i + length (takeWhile (\<lambda>x. x \<noteq> nm) ys)), k)
     else if Suc i + length ys < 69 then Halt (Spin ''could not find'') else Halt (Undefined ''dirents page''))"
    using Suc(1) [of "Suc i"] Suc(2) i by (simp add: ys_def Let_def)
  have st: "navigate drv nm n i k = (if x = nm then Ok (Entry (dirents (ntab k n)) i, k)
      else if x = [] then Halt (Spin ''could not find'') else navigate drv nm n (Suc i) k)"
    using i by (subst navigate_step [OF d s]) (simp add: x_def)
  show ?case unfolding st up IH Let_def using nm i by auto
qed

lemma navigate_child:
  assumes "nm \<noteq> []" and "is_dir k n \<longrightarrow> static_node k n"
  shows "navigate drv nm n 0 k = (if is_dir k n then bind_ok (child k (dirents (ntab k n)) nm) (\<lambda>e. Ok (e, k))
     else Halt (KPanic ''Part of path is not a directory''))"
proof (cases "is_dir k n")
  case True
  then show ?thesis using navigate_scan [of k n nm 0 drv] assms by (simp add: child_def children_def Let_def)
next
  case False
  then show ?thesis by (subst navigate.simps) (simp add: is_dir_def)
qed

section \<open>Paths and their tokens\<close>

lemma pieces_names:
  assumes "0 \<notin> set acc" and "0x2F \<notin> set acc" and "0x2F \<notin> set xs"
  shows "\<forall>p \<in> set (pieces acc xs). is_name p"
  using assms by (induction acc xs rule: pieces.induct) (auto simp: is_name_def)

lemma cut_slash: "0x2F \<notin> set (cut [0x2F] xs)"
  by (auto simp: cut_def)

lemma tokens_names: "p \<in> set (tokens [0x2F] xs) \<Longrightarrow> is_name p"
  using pieces_names [of "[]"] cut_slash by (auto simp: tokens_def)

lemma tokens_path_of: "\<forall>p \<in> set ps. is_name p \<Longrightarrow> tokens [0x2F] (path_of ps) = ps"
proof (induction ps)
  case Nil
  then show ?case by (simp add: tokens_def cut_def)
next
  case (Cons p ps)
  have c: "cut [0x2F] p = p" using Cons.prems by (auto simp: cut_def is_name_def intro: map_idI)
  have "cut [0x2F] (path_of ps) = [] \<or> hd (cut [0x2F] (path_of ps)) = 0" by (cases ps) (auto simp: cut_def)
  from pieces_word [OF _ _ this, of p] Cons.prems
  have "pieces [] (p @ cut [0x2F] (path_of ps)) = p # pieces [] (cut [0x2F] (path_of ps))" by (simp add: is_name_def)
  then show ?case using Cons c by (simp add: tokens_def) (simp add: cut_def)
qed

lemma path_of_append [simp]: "path_of (ps @ qs) = path_of ps @ path_of qs"
  by (induction ps) auto

lemma path_of_pieces: "length (path_of (pieces acc xs)) \<le> length acc + length xs + 1"
  by (induction acc xs rule: pieces.induct) auto

lemma path_of_tokens: "length (path_of (tokens ds xs)) \<le> length xs + 1"
  using path_of_pieces [of "[]" "cut ds xs"] by (simp add: tokens_def cut_def)

section \<open>Looking up paths\<close>

lemma next_token_eq: "toks k = p # ps \<Longrightarrow> next_token k = (first_token ps, k\<lparr>toks := ps\<rparr>)"
  by (simp add: next_token_def first_token_def)

lemma spec_toks [simp]:
  "child (k\<lparr>toks := t\<rparr>) d nm = child k d nm" "is_dir (k\<lparr>toks := t\<rparr>) n = is_dir k n"
  "static_node (k\<lparr>toks := t\<rparr>) n = static_node k n" "children (k\<lparr>toks := t\<rparr>) d = children k d"
  by (simp_all add: child_def children_def is_dir_def static_node_def)

lemma resolve_toks [simp]: "resolve (k\<lparr>toks := t\<rparr>) n ps = resolve k n ps"
  by (induction ps arbitrary: n) (simp_all cong: bind_ok_cong)

lemma static_path_toks [simp]: "static_path (k\<lparr>toks := t\<rparr>) n ps = static_path k n ps"
  by (induction ps arbitrary: n) simp_all

lemma walk_static:
  assumes "tokens [0x2F] path = done @ ps" and "toks k = ps" and "static_path k n ps" and "length path < 4093"
  shows "walk drv path (path_of done) n (first_token ps) k =
    bind_ok (resolve k n ps) (\<lambda>n'. if path = path_of (tokens [0x2F] path) then Ok (n', k\<lparr>toks := []\<rparr>)
      else Halt (KPanic ''Critical error in open()''))"
  using assms(1-3)
proof (induction ps arbitrary: "done" n k)
  case Nil
  have "length (path_of (tokens [0x2F] path)) \<le> length path + 1" by (rule path_of_tokens)
  then show ?case using Nil assms(4) by (subst walk.simps) (auto simp: first_token_def)
next
  case (Cons p ps)
  have names: "\<forall>q \<in> set (done @ p # ps). is_name q" using tokens_names Cons.prems(1) by metis
  then have ne: "path_of done \<noteq> path" using tokens_path_of [of "done"] Cons.prems(1) by auto
  have "length (path_of (done @ p # ps)) \<le> length path + 1" using path_of_tokens Cons.prems(1) by metis
  then have len: "length (path_of done) + 1 + length p \<le> length path + 1" by simp
  have nav: "navigate drv p n 0 k = (if is_dir k n then bind_ok (child k (dirents (ntab k n)) p) (\<lambda>e. Ok (e, k))
     else Halt (KPanic ''Part of path is not a directory''))"
    using names Cons.prems(3) by (intro navigate_child) (auto simp: is_name_def)
  have IH: "walk drv path (path_of (done @ [p])) e (first_token ps) (k\<lparr>toks := ps\<rparr>) =
    bind_ok (resolve k e ps) (\<lambda>n'. if path = path_of (tokens [0x2F] path) then Ok (n', k\<lparr>toks := []\<rparr>)
      else Halt (KPanic ''Critical error in open()''))"
    if "is_dir k n" "child k (dirents (ntab k n)) p = Ok e" for e
    using Cons.IH [of "done @ [p]" "k\<lparr>toks := ps\<rparr>" e] Cons.prems that by (simp cong: if_cong)
  have "walk drv path (path_of done) n (first_token (p # ps)) k =
      bind_ok (navigate drv p n 0 k) (\<lambda>r. let (q, k) = next_token (snd r) in walk drv path (path_of (done @ [p])) (fst r) q k)"
    using ne len assms(4) by (subst walk.simps) (auto simp: first_token_def Let_def cong: bind_ok_cong)
  also have "\<dots> = bind_ok (resolve k n (p # ps)) (\<lambda>n'. if path = path_of (tokens [0x2F] path) then Ok (n', k\<lparr>toks := []\<rparr>)
      else Halt (KPanic ''Critical error in open()''))"
    using IH next_token_eq [OF Cons.prems(2)]
    by (cases "is_dir k n"; cases "child k (dirents (ntab k n)) p") (simp_all add: nav)
  finally show ?case .
qed

text \<open>A whole lookup: two pages of the heap are used for its time.\<close>

lemma spec_set_vm [simp]:
  "child (set_vm m k) d nm = child k d nm" "is_dir (set_vm m k) n = is_dir k n"
  "static_node (set_vm m k) n = static_node k n" "children (set_vm m k) d = children k d"
  by (simp_all add: child_def children_def is_dir_def static_node_def)

lemma resolve_set_vm [simp]: "resolve (set_vm m k) n ps = resolve k n ps"
  by (induction ps arbitrary: n) (simp_all cong: bind_ok_cong)

lemma static_path_set_vm [simp]: "static_path (set_vm m k) n ps = static_path k n ps"
  by (induction ps arbitrary: n) simp_all

lemma page_of_base: "page_aligned v \<Longrightarrow> same_page x v \<longleftrightarrow> x AND 0xFFFFF000 = v"
  unfolding same_page_iff by (subst frame_of_eq_base [OF page_aligned_mask, symmetric]) (simp_all only: frame_of_mask)

lemma borrow_two:
  assumes live: "klive k" and pool: "2 \<le> card (kpool k)"
  obtains v m1 w m2 where "from_vm kmalloc k = Ok (v, set_vm m1 k)" "from_vm kmalloc (set_vm m1 k) = Ok (w, set_vm m2 k)"
    and "\<And>k' :: kern. mm (ksched k') = m2 \<Longrightarrow> \<exists>m3 m4. on_vm (kfree v) k' = Ok (set_vm m3 k') \<and> on_vm (kfree w) (set_vm m3 k') = Ok (set_vm m4 k')
      \<and> same_heap (mm (ksched k)) m4"
proof -
  obtain x y where "x \<in> kpool k" "y \<in> kpool k" "x \<noteq> y"
  proof -
    obtain T where "T \<subseteq> kpool k" "card T = 2" using pool by (rule obtain_subset_with_card_n)
    then show thesis using that by (auto simp: card_2_iff)
  qed
  from kheap.two_pages [OF live this] obtain v k1 w k2 where a: "from_vm kmalloc k = Ok (v, k1)" "from_vm kmalloc k1 = Ok (w, k2)"
    and l: "klive k2" and p: "v \<in> kpool k" "w \<in> kpool k" "v \<noteq> w" "kpool k2 = kpool k - {v, w}" and d: "kbyte k2 v \<noteq> None" "kbyte k2 w \<noteq> None"
    and b: "\<forall>a. kbyte k a \<noteq> None \<longrightarrow> \<not> same_page a v \<longrightarrow> \<not> same_page a w \<longrightarrow> kbyte k2 a = kbyte k a" by (elim exE conjE)
  obtain m1 m2 where m: "k1 = set_vm m1 k" "k2 = set_vm m2 k" using a by (auto simp: from_vm_Ok)
  have hp: "heap_page v" "heap_page w" using kheap.pool_pages p by auto
  show thesis
  proof (rule that [OF a(1) [unfolded m] a(2) [unfolded m]])
    fix k' :: kern assume k': "mm (ksched k') = m2"
    have l': "klive k'" using l k' by (simp add: m klive_def)
    have d': "kbyte k' v \<noteq> None" "kbyte k' w \<noteq> None" using d k' unfolding m kbyte_def set_vm_simps by simp_all
    obtain k3 k4 where r: "on_vm (kfree v) k' = Ok k3" "on_vm (kfree w) k3 = Ok k4" "klive k4"
      "kpool k4 = insert v (insert w (kpool k'))" "\<forall>x. kbyte k4 x = kbyte k' x"
      using kheap.release_two [OF l' hp d'] by blast
    obtain m3 m4 where m34: "k3 = set_vm m3 k'" "k4 = set_vm m4 k'" using r(1,2) by (auto simp: on_vm_Ok)
    have "heap_byte m4 x = heap_byte (mm (ksched k)) x"
      if "heap_byte (mm (ksched k)) x \<noteq> None" "x AND 0xFFFFF000 \<notin> free_pages (mm (ksched k))" for x
    proof -
      have "x AND 0xFFFFF000 \<noteq> v" "x AND 0xFFFFF000 \<noteq> w" using that(2) p(1,2) by (auto simp: kpool_def)
      then have "\<not> same_page x v" "\<not> same_page x w" using hp by (simp_all add: page_of_base heap_page_def)
      with b that(1) have "kbyte k2 x = kbyte k x" unfolding kbyte_def by blast
      moreover have "kbyte k4 x = kbyte k' x" using r(5) by blast
      ultimately show ?thesis using k' unfolding m m34 kbyte_def set_vm_simps by (simp only:)
    qed
    moreover have "heap_live m4" "free_pages m4 = free_pages (mm (ksched k))"
    proof -
      show "heap_live m4" using r(3) unfolding klive_def m34 set_vm_simps .
      have "free_pages m4 = insert v (insert w (free_pages m2))" using r(4) unfolding kpool_def m34 set_vm_simps k' .
      moreover have "free_pages m2 = free_pages (mm (ksched k)) - {v, w}" "v \<in> free_pages (mm (ksched k))" "w \<in> free_pages (mm (ksched k))"
        using p(4,1,2) unfolding kpool_def m set_vm_simps .
      ultimately show "free_pages m4 = free_pages (mm (ksched k))" by (simp only: insert_Diff_if insert_Diff insert_absorb) auto
    qed
    ultimately show "\<exists>m3 m4. on_vm (kfree v) k' = Ok (set_vm m3 k') \<and> on_vm (kfree w) (set_vm m3 k') = Ok (set_vm m4 k')
      \<and> same_heap (mm (ksched k)) m4"
      using r(1,2) unfolding m34 by (intro exI [of _ m3] exI [of _ m4]) (simp add: same_heap_def)
  qed
qed

lemma getnode_static:
  assumes st: "static_path k Root (tokens [0x2F] path)" and len: "length path < 4093" and heap: "klive k" "2 \<le> card (kpool k)"
  shows "\<exists>m. same_heap (mm (ksched k)) m \<and> getnode drv path k =
    bind_ok (resolve k Root (tokens [0x2F] path)) (\<lambda>n.
      if path = path_of (tokens [0x2F] path) then Ok (n, set_vm m (k\<lparr>toks := []\<rparr>))
      else Halt (KPanic ''Critical error in open()''))"
proof -
  define ts where "ts = tokens [0x2F] path"
  obtain v m1 w m2 where a: "from_vm kmalloc k = Ok (v, set_vm m1 k)" "from_vm kmalloc (set_vm m1 k) = Ok (w, set_vm m2 k)"
    and r: "\<And>k' :: kern. mm (ksched k') = m2 \<Longrightarrow> \<exists>m3 m4. on_vm (kfree v) k' = Ok (set_vm m3 k') \<and> on_vm (kfree w) (set_vm m3 k') = Ok (set_vm m4 k')
      \<and> same_heap (mm (ksched k)) m4" using borrow_two [OF heap] by blast
  obtain m3 m4 where m: "on_vm (kfree v) (set_vm m2 (k\<lparr>toks := []\<rparr>)) = Ok (set_vm m3 (k\<lparr>toks := []\<rparr>))"
    "on_vm (kfree w) (set_vm m3 (k\<lparr>toks := []\<rparr>)) = Ok (set_vm m4 (k\<lparr>toks := []\<rparr>))" "same_heap (mm (ksched k)) m4"
    using r [of "set_vm m2 (k\<lparr>toks := []\<rparr>)"] by auto
  have w: "walk drv path [] Root (first_token ts) ((set_vm m2 k)\<lparr>toks := ts\<rparr>) =
      bind_ok (resolve k Root ts) (\<lambda>n. if path = path_of ts then Ok (n, set_vm m2 (k\<lparr>toks := []\<rparr>))
        else Halt (KPanic ''Critical error in open()''))"
    using walk_static [of path "[]" ts "(set_vm m2 k)\<lparr>toks := ts\<rparr>" Root drv] st len by (simp add: ts_def cong: if_cong)
  have "getnode drv path k = bind_ok (walk drv path [] Root (first_token ts) ((set_vm m2 k)\<lparr>toks := ts\<rparr>)) (\<lambda>(node, k).
      bind_ok (on_vm (kfree v) k) (\<lambda>k. bind_ok (on_vm (kfree w) k) (\<lambda>k. Ok (node, k))))"
    using len by (simp add: getnode_def a Let_def first_token_def ts_def)
  also have "\<dots> = bind_ok (resolve k Root ts) (\<lambda>n.
      if path = path_of ts then Ok (n, set_vm m4 (k\<lparr>toks := []\<rparr>)) else Halt (KPanic ''Critical error in open()''))"
    unfolding w by (cases "resolve k Root ts") (simp_all add: m(1,2))
  finally have "getnode drv path k = bind_ok (resolve k Root ts) (\<lambda>n.
      if path = path_of ts then Ok (n, set_vm m4 (k\<lparr>toks := []\<rparr>)) else Halt (KPanic ''Critical error in open()''))" .
  then show ?thesis using m(3) unfolding ts_def by blast
qed

section \<open>Creating nodes\<close>

lemma free_entry_scan:
  assumes "nm \<noteq> []" and "i \<le> 69"
  shows "free_entry k p nm i =
    (let xs = takeWhile (\<lambda>x. x \<noteq> []) (map (\<lambda>j. name (ntab k (Entry p j))) [i..<69]) in
     if nm \<in> set xs then Halt (KPanic ''file/direcory with that name already exists'')
     else if i + length xs < 69 then Ok (i + length xs) else Halt (Undefined ''dirents page''))"
  using assms(2)
proof (induction "69 - i" arbitrary: i)
  case 0
  then have "i = 69" by simp
  then show ?case by (subst free_entry.simps) simp
next
  case (Suc m)
  then have i: "i < 69" by simp
  define x where "x = name (ntab k (Entry p i))"
  define ys where "ys = takeWhile (\<lambda>x. x \<noteq> []) (map (\<lambda>j. name (ntab k (Entry p j))) [Suc i..<69])"
  have up: "takeWhile (\<lambda>x. x \<noteq> []) (map (\<lambda>j. name (ntab k (Entry p j))) [i..<69]) = (if x = [] then [] else x # ys)"
    using i by (simp add: upt_conv_Cons x_def ys_def)
  have IH: "free_entry k p nm (Suc i) =
    (if nm \<in> set ys then Halt (KPanic ''file/direcory with that name already exists'')
     else if Suc i + length ys < 69 then Ok (Suc i + length ys) else Halt (Undefined ''dirents page''))"
    using Suc(1) [of "Suc i"] Suc(2) i by (simp add: ys_def Let_def)
  have st: "free_entry k p nm i = (if x = [] then Ok i
      else if x = nm then Halt (KPanic ''file/direcory with that name already exists'') else free_entry k p nm (Suc i))"
    using i by (subst free_entry.simps) (simp add: x_def)
  show ?case unfolding st up IH Let_def using assms(1) i by auto
qed

lemma free_entry_children:
  "nm \<noteq> [] \<Longrightarrow> free_entry k p nm 0 =
    (if nm \<in> set (children k p) then Halt (KPanic ''file/direcory with that name already exists'')
     else if length (children k p) < 69 then Ok (length (children k p)) else Halt (Undefined ''dirents page''))"
  using free_entry_scan [of nm 0 k p] by (simp add: children_def Let_def)

text \<open>The names of a page after one more was entered.\<close>

lemma takeWhile_update:
  assumes "length (takeWhile P xs) + 1 < length xs" and "P x" and "\<not> P y"
  shows "takeWhile P (xs[length (takeWhile P xs) := x, length (takeWhile P xs) + 1 := y]) = takeWhile P xs @ [x]"
  using assms
proof (induction xs)
  case (Cons a xs)
  show ?case
  proof (cases "P a")
    case False
    then obtain b ys where "xs = b # ys" using Cons.prems by (cases xs) auto
    then show ?thesis using False Cons.prems by simp
  qed (use Cons in simp)
qed simp

lemma children_add:
  assumes "i = length (children k p)" and "i < 68" and "nm \<noteq> []"
    and "\<And>j. name (ntab k' (Entry p j)) = (if j = i then nm else if j = i + 1 then [] else name (ntab k (Entry p j)))"
  shows "children k' p = children k p @ [nm]"
proof -
  let ?xs = "map (\<lambda>j. name (ntab k (Entry p j))) [0..<69]"
  have "map (\<lambda>j. name (ntab k' (Entry p j))) [0..<69] = ?xs[i := nm, i + 1 := []]"
    by (rule nth_equalityI) (auto simp: assms(4) nth_list_update)
  then show ?thesis
    using takeWhile_update [of "\<lambda>x. x \<noteq> []" ?xs nm "[]"] assms(1-3) by (simp add: children_def)
qed

lemma children_same: "(\<And>j. name (ntab k' (Entry p j)) = name (ntab k (Entry p j))) \<Longrightarrow> children k' p = children k p"
  by (simp add: children_def)

lemma children_empty: "name (ntab k (Entry p 0)) = [] \<Longrightarrow> children k p = []"
  by (simp add: children_def upt_conv_Cons)

lemma tree_okD:
  assumes "tree_ok k" "reach k n"
  shows "heap_page (dirents (ntab k n))" "dirents (ntab k n) \<notin> kpool k" "length (children k (dirents (ntab k n))) \<le> 68"
    "distinct (children k (dirents (ntab k n)))" "nfs (ntab k n) \<noteq> None" "\<And>x. x \<in> set (children k (dirents (ntab k n))) \<Longrightarrow> is_name x"
    "\<And>n'. reach k n' \<Longrightarrow> dirents (ntab k n) = dirents (ntab k n') \<Longrightarrow> n = n'"
  using assms unfolding tree_ok_def node_ok_def by blast+

text \<open>An entry of a reached node's page is reached only below the number of its names.\<close>

lemma reach_entry:
  assumes "tree_ok k" "reach k n"
  shows "reach k (Entry (dirents (ntab k n)) i) \<longleftrightarrow> i < length (children k (dirents (ntab k n)))"
proof
  assume "reach k (Entry (dirents (ntab k n)) i)"
  then show "i < length (children k (dirents (ntab k n)))"
  proof cases
    case (entry n')
    then have "n' = n" using tree_okD(7) [OF assms(1) _ assms(2)] by simp
    then show ?thesis using entry by simp
  qed
qed (use assms(2) reach.entry in blast)

lemma reach_page: "reach k (Entry p i) \<Longrightarrow> \<exists>n. reach k n \<and> p = dirents (ntab k n) \<and> i < length (children k p)"
  by (erule reach.cases) auto

lemma adds_node_facts:
  assumes ok: "tree_ok k" and par: "reach k par" and nm: "is_name nm" and room: "length (children k (dirents (ntab k par))) < 68"
    and add: "adds_node par nm d k n k'"
  shows "\<And>m. reach k m \<Longrightarrow> ntab k' m = ntab k m"
    and "children k' (dirents (ntab k par)) = children k (dirents (ntab k par)) @ [nm]"
    and "children k' d = []"
    and "\<And>m. reach k m \<Longrightarrow> m \<noteq> par \<Longrightarrow> children k' (dirents (ntab k m)) = children k (dirents (ntab k m))"
    and "reach k' m \<longleftrightarrow> reach k m \<or> m = n"
proof -
  define page where "page = dirents (ntab k par)"
  define i where "i = length (children k page)"
  have n: "n = Entry page i" and d: "d \<in> kpool k" and other: "\<And>r. r \<noteq> Entry page i \<Longrightarrow> r \<noteq> Entry page (i + 1) \<Longrightarrow> r \<noteq> Entry d 0 \<Longrightarrow> ntab k' r = ntab k r"
    and new: "name (ntab k' (Entry page i)) = nm" "dirents (ntab k' (Entry page i)) = d" "name (ntab k' (Entry page (i + 1))) = []" "name (ntab k' (Entry d 0)) = []"
    using add by (auto simp: adds_node_def Let_def page_def i_def)
  have pd: "page \<noteq> d" using tree_okD(2) [OF ok par] d by (auto simp: page_def)
  have dm: "dirents (ntab k m) \<noteq> d" if "reach k m" for m using tree_okD(2) [OF ok that] d by auto
  have nr: "\<not> reach k (Entry page i)" "\<not> reach k (Entry page (i + 1))"
    using reach_entry [OF ok par] by (simp_all add: page_def i_def)
  have dr: "\<not> reach k (Entry d 0)" using reach_page [of k d 0] dm by blast
  show keep: "ntab k' m = ntab k m" if "reach k m" for m
    using that nr dr by (intro other) auto
  have "children k' page = children k page @ [nm]"
  proof (rule children_add [OF i_def])
    show "i < 68" using room by (simp add: i_def page_def)
    show "nm \<noteq> []" using nm by (simp add: is_name_def)
    show "name (ntab k' (Entry page j)) = (if j = i then nm else if j = i + 1 then [] else name (ntab k (Entry page j)))" for j
      using new other [of "Entry page j"] pd by auto
  qed
  then show ch: "children k' (dirents (ntab k par)) = children k (dirents (ntab k par)) @ [nm]" by (simp add: page_def)
  show cd: "children k' d = []" using new(4) by (rule children_empty)
  show cm: "children k' (dirents (ntab k m)) = children k (dirents (ntab k m))" if m: "reach k m" "m \<noteq> par" for m
  proof (rule children_same)
    have "dirents (ntab k m) \<noteq> page" using tree_okD(7) [OF ok m(1) par] m(2) by (auto simp: page_def)
    then show "name (ntab k' (Entry (dirents (ntab k m)) j)) = name (ntab k (Entry (dirents (ntab k m)) j))" for j
      using dm [OF m(1)] by (subst other) auto
  qed
  have up: "reach k' m" if "reach k m" for m using that
  proof induction
    case (entry m j)
    have "j < length (children k' (dirents (ntab k m)))" using entry ch cm [OF entry.hyps(1)] by (cases "m = par") auto
    then show ?case using reach.entry [OF entry.IH, of j] keep [OF entry.hyps(1)] by simp
  qed (rule reach.root)
  have "reach k' n" using reach.entry [OF up [OF par], of i] keep [OF par] ch by (simp add: n page_def i_def)
  moreover have "reach k m \<or> m = n" if "reach k' m" for m using that
  proof induction
    case (entry m j)
    show ?case
    proof (cases "reach k m")
      case True
      then show ?thesis using entry.hyps(2) keep [OF True] ch cm [OF True] reach.entry [OF True, of j]
        by (cases "m = par") (auto simp: n page_def i_def less_Suc_eq)
    next
      case False
      then show ?thesis using entry.IH entry.hyps(2) new(2) cd by (simp add: n)
    qed
  qed (simp add: reach.root)
  ultimately show "reach k' m \<longleftrightarrow> reach k m \<or> m = n" using up by blast
qed

lemma adds_node_tree:
  assumes ok: "tree_ok k" and par: "reach k par" and nm: "is_name nm" "nm \<notin> set (children k (dirents (ntab k par)))"
    and room: "length (children k (dirents (ntab k par))) < 68" and add: "adds_node par nm d k n k'"
  shows "tree_ok k'"
proof -
  note f = adds_node_facts [OF ok par nm(1) room add]
  have n: "dirents (ntab k' n) = d" "nfs (ntab k' n) \<noteq> None" "d \<in> kpool k" "kpool k' = kpool k - {d}"
    using add by (auto simp: adds_node_def Let_def)
  have "node_ok k' m" if m: "reach k m" for m
  proof -
    note t = tree_okD [OF ok m]
    have "children k' (dirents (ntab k m)) = children k (dirents (ntab k m)) \<or> m = par \<and> children k' (dirents (ntab k m)) = children k (dirents (ntab k m)) @ [nm]"
      using f(2) f(4) [OF m] by blast
    then show ?thesis using t nm room n(4) f(1) [OF m] by (auto simp: node_ok_def)
  qed
  moreover have "node_ok k' n" using n f(3) kheap.pool_pages by (simp add: node_ok_def)
  moreover have "m = m'" if m: "reach k' m" "reach k' m'" and e: "dirents (ntab k' m) = dirents (ntab k' m')" for m m'
  proof -
    have "dirents (ntab k x) \<noteq> d" if "reach k x" for x using tree_okD(2) [OF ok that] n(3) by auto
    then show ?thesis using m e n(1) f(1) f(5) [of m] f(5) [of m'] tree_okD(7) [OF ok, of m m'] by metis
  qed
  ultimately show ?thesis unfolding tree_ok_def using f(5) by blast
qed

lemma reach_child:
  assumes "reach k n" and "child k (dirents (ntab k n)) p = Ok n'"
  shows "reach k n'"
proof -
  have "length (takeWhile (\<lambda>x. x \<noteq> p) xs) < length xs" if "p \<in> set xs" for xs :: "u8 list list"
    using that by (induction xs) auto
  then show ?thesis using assms reach.entry [OF assms(1)] by (auto simp: child_def split: if_splits)
qed

lemma adds_node_child:
  assumes "tree_ok k" "reach k par" "is_name nm" "length (children k (dirents (ntab k par))) < 68" "adds_node par nm d k n k'"
    and m: "reach k m" "child k (dirents (ntab k m)) p = Ok m'"
  shows "child k' (dirents (ntab k m)) p = Ok m'"
proof -
  note f = adds_node_facts(2,4) [OF assms(1-5)]
  have p: "p \<in> set (children k (dirents (ntab k m)))" using m(2) by (auto simp: child_def split: if_splits)
  have "takeWhile (\<lambda>x. x \<noteq> p) (children k (dirents (ntab k m)) @ [nm]) = takeWhile (\<lambda>x. x \<noteq> p) (children k (dirents (ntab k m)))"
    using p by (simp add: takeWhile_append1)
  then show ?thesis using m(2) p f(1) f(2) [OF m(1)] by (cases "m = par") (auto simp: child_def split: if_splits)
qed

text \<open>Paths that named a node before still do, and the new one is found under its name.\<close>

lemma adds_node_resolve:
  assumes ok: "tree_ok k" "reach k par" "is_name nm" "length (children k (dirents (ntab k par))) < 68" "adds_node par nm d k n k'"
    and m: "reach k m" "resolve k m ps = Ok r"
  shows "resolve k' m ps = Ok r"
  using m
proof (induction ps arbitrary: m)
  case (Cons p ps)
  then have d: "is_dir k m" by (auto split: if_splits)
  with Cons.prems obtain m' where c: "child k (dirents (ntab k m)) p = Ok m'" "resolve k m' ps = Ok r" by auto
  have e: "ntab k' m = ntab k m" by (rule adds_node_facts(1) [OF ok Cons.prems(1)])
  have "is_dir k' m" using d e by (simp add: is_dir_def)
  then show ?case using Cons.IH [OF reach_child [OF Cons.prems(1) c(1)] c(2)] adds_node_child [OF ok Cons.prems(1) c(1)] e by simp
qed simp

lemma adds_node_found:
  assumes ok: "tree_ok k" "reach k par" "is_name nm" "length (children k (dirents (ntab k par))) < 68" "adds_node par nm d k n k'"
    and new: "nm \<notin> set (children k (dirents (ntab k par)))" and par: "is_dir k par" "resolve k Root ps = Ok par"
  shows "resolve k' Root (ps @ [nm]) = Ok n"
proof -
  have e: "ntab k' par = ntab k par" by (rule adds_node_facts(1) [OF ok ok(2)])
  have "n = Entry (dirents (ntab k par)) (length (children k (dirents (ntab k par))))" using ok(5) by (simp add: adds_node_def Let_def)
  moreover have "takeWhile (\<lambda>x. x \<noteq> nm) xs = xs" if "nm \<notin> set xs" for xs
    using that by (auto simp: takeWhile_eq_all_conv)
  ultimately have c: "child k' (dirents (ntab k par)) nm = Ok n"
    using new adds_node_facts(2) [OF ok] by (simp add: child_def takeWhile_tail)
  have "resolve k' m (ps @ [nm]) = Ok n" if "resolve k' m ps = Ok par" for m
    using that
  proof (induction ps arbitrary: m)
    case Nil
    then show ?case using c e par(1) by (simp add: is_dir_def)
  qed (auto split: if_splits)
  with adds_node_resolve [OF ok reach.root par(2)] show ?thesis by blast
qed

lemma spec_upd_vm [simp]: "kpool (upd_node r f k) = kpool k" "klive (upd_node r f k) = klive k" "kbyte (upd_node r f k) = kbyte k"
  by (simp_all add: upd_node_def kpool_def klive_def kbyte_def)

lemma upd_node_simps [simp]: "ntab (upd_node r f k) x = (if x = r then f (ntab k r) else ntab k x)"
  "ksched (upd_node r f k) = ksched k" "fdt (upd_node r f k) = fdt k" "toks (upd_node r f k) = toks k"
  "tmpfile (upd_node r f k) = tmpfile k"
  by (simp_all add: upd_node_def)

lemma upd_set_vm: "set_vm m (upd_node r f k) = upd_node r f (set_vm m k)"
  by (simp add: set_vm_def upd_node_def)

text \<open>What \<^verbatim>\<open>new_vnode\<close> and the assignments after it do on every branch.\<close>

lemma make_node_cases:
  assumes ok: "tree_ok k" "reach k par" and nm: "is_name nm" "length nm < 32" and heap: "klive k" "kpool k \<noteq> {}"
    and room: "length (children k (dirents (ntab k par))) < 68"
  shows "nm \<in> set (children k (dirents (ntab k par))) \<Longrightarrow>
      make_node par nm fl fs k = Halt (KPanic ''file/direcory with that name already exists'')"
    and "nm \<notin> set (children k (dirents (ntab k par))) \<Longrightarrow>
      \<exists>n k' d. make_node par nm fl fs k = Ok (n, k') \<and> adds_node par nm d k n k' \<and> klive k'
        \<and> nflags (ntab k' n) = fl \<and> nfs (ntab k' n) = Some fs \<and> nsize (ntab k' n) = 0"
proof -
  define page where "page = dirents (ntab k par)"
  define i where "i = length (children k page)"
  have fe: "free_entry k page nm 0 = (if nm \<in> set (children k page) then Halt (KPanic ''file/direcory with that name already exists'') else Ok i)"
    using nm(1) room by (simp add: free_entry_children is_name_def page_def i_def)
  show "nm \<in> set (children k (dirents (ntab k par))) \<Longrightarrow>
      make_node par nm fl fs k = Halt (KPanic ''file/direcory with that name already exists'')"
    using fe by (simp add: make_node_def new_vnode_def Let_def page_def)
  assume new: "nm \<notin> set (children k (dirents (ntab k par)))"
  define k1 where "k1 = upd_node (Entry page (i + 1)) (\<lambda>n. n\<lparr>name := []\<rparr>) (upd_node (Entry page i) (\<lambda>n. n\<lparr>name := nm\<rparr>) k)"
  have "klive k1" "kpool k1 \<noteq> {}" using heap by (simp_all add: k1_def)
  from kheap.alloc_pool [OF this] obtain d k2 where a: "from_vm kmalloc k1 = Ok (d, k2)" "klive k2" "d \<in> kpool k1" "kpool k2 = kpool k1 - {d}" by blast
  obtain m where k2: "k2 = set_vm m k1" using a(1) by (auto simp: from_vm_Ok)
  define k' where "k' = upd_node (Entry page i) (\<lambda>v. v\<lparr>nflags := fl, nsize := 0, nfs := Some fs\<rparr>)
    (upd_node (Entry d 0) (\<lambda>n. n\<lparr>name := []\<rparr>) (upd_node (Entry page i) (\<lambda>n. n\<lparr>dirents := d\<rparr>) k2))"
  have i: "i < 68" using room by (simp add: i_def page_def)
  have run: "make_node par nm fl fs k = Ok (Entry page i, k')"
    using new fe i nm(2) a(1) [unfolded k1_def] by (simp add: make_node_def new_vnode_def Let_def page_def [symmetric] k'_def)
  have "page \<noteq> d" using a(3) tree_okD(2) [OF ok] by (auto simp: page_def k1_def)
  then have "adds_node par nm d k (Entry page i) k'"
    using a(3,4) by (simp add: adds_node_def Let_def page_def [symmetric] i_def [symmetric] k'_def k2) (simp add: k1_def)
  moreover have "klive k'" "nflags (ntab k' (Entry page i)) = fl" "nfs (ntab k' (Entry page i)) = Some fs" "nsize (ntab k' (Entry page i)) = 0"
    using a(2) by (simp_all add: k'_def)
  ultimately show "\<exists>n k' d. make_node par nm fl fs k = Ok (n, k') \<and> adds_node par nm d k n k' \<and> klive k'
        \<and> nflags (ntab k' n) = fl \<and> nfs (ntab k' n) = Some fs \<and> nsize (ntab k' n) = 0" using run by blast
qed

lemma make_node_grows:
  assumes ok: "tree_ok k" "reach k par" and nm: "is_name nm" "length nm < 32" and heap: "klive k" "kpool k \<noteq> {}"
    and room: "length (children k (dirents (ntab k par))) < 68" and new: "nm \<notin> set (children k (dirents (ntab k par)))"
  obtains n k' where "make_node par nm fl fs k = Ok (n, k')" "grown par nm n k k'"
    and "nflags (ntab k' n) = fl" "nfs (ntab k' n) = Some fs" "nsize (ntab k' n) = 0"
proof -
  obtain n k' d where m: "make_node par nm fl fs k = Ok (n, k')" and a: "adds_node par nm d k n k'" and l: "klive k'"
    and v: "nflags (ntab k' n) = fl" "nfs (ntab k' n) = Some fs" "nsize (ntab k' n) = 0"
    using make_node_cases(2) [OF ok nm heap room new] by metis
  note f = adds_node_facts [OF ok nm(1) room a]
  have "d \<in> kpool k" "kpool k' = kpool k - {d}" using a by (auto simp: adds_node_def Let_def)
  then have "card (kpool k') = card (kpool k) - 1" by simp
  moreover have "children k' (dirents (ntab k' n)) = []" using a f(3) unfolding adds_node_def Let_def by metis
  ultimately have "grown par nm n k k'"
    unfolding grown_def using adds_node_tree [OF ok nm(1) new room a] l f(1,2,5) adds_node_resolve [OF ok nm(1) room a reach.root]
      adds_node_found [OF ok nm(1) room a new] adds_node_child [OF ok nm(1) room a] by blast
  then show thesis using that m v by blast
qed

lemma grownD:
  assumes "grown par nm n k k'"
  shows "tree_ok k'" "klive k'" "card (kpool k') = card (kpool k) - 1" "reach k' n"
    and "children k' (dirents (ntab k par)) = children k (dirents (ntab k par)) @ [nm]"
    and "\<And>m. reach k m \<Longrightarrow> reach k' m" "\<And>m. reach k m \<Longrightarrow> ntab k' m = ntab k m"
    and "\<And>ps r. resolve k Root ps = Ok r \<Longrightarrow> resolve k' Root ps = Ok r"
    and "\<And>ps. is_dir k par \<Longrightarrow> resolve k Root ps = Ok par \<Longrightarrow> resolve k' Root (ps @ [nm]) = Ok n"
    and "\<And>m p m'. reach k m \<Longrightarrow> child k (dirents (ntab k m)) p = Ok m' \<Longrightarrow> child k' (dirents (ntab k m)) p = Ok m'"
    and "children k' (dirents (ntab k' n)) = []"
  using assms unfolding grown_def by blast+

lemma resolve_reach: "resolve k m ps = Ok n \<Longrightarrow> reach k m \<Longrightarrow> reach k n"
proof (induction ps arbitrary: m)
  case (Cons p ps)
  then obtain m' where "child k (dirents (ntab k m)) p = Ok m'" "resolve k m' ps = Ok n" by (auto split: if_splits)
  then show ?case using Cons reach_child by blast
qed simp

lemma resolve_names:
  assumes "tree_ok k"
  shows "resolve k m ps = Ok n \<Longrightarrow> reach k m \<Longrightarrow> \<forall>p \<in> set ps. is_name p"
proof (induction ps arbitrary: m)
  case (Cons p ps)
  then obtain m' where c: "child k (dirents (ntab k m)) p = Ok m'" "resolve k m' ps = Ok n" by (auto split: if_splits)
  then have "p \<in> set (children k (dirents (ntab k m)))" by (auto simp: child_def split: if_splits)
  then show ?case using Cons reach_child [OF Cons.prems(2) c(1)] c tree_okD(6) [OF assms Cons.prems(2)] by auto
qed simp

lemma grown_static:
  assumes g: "grown par nm n k k'" and "static_path k m ps" "resolve k m ps = Ok par" "reach k m" "static_node k par"
  shows "static_path k' m (ps @ [nm])"
  using assms(2-4)
proof (induction ps arbitrary: m)
  case Nil
  then show ?case using grownD(7) [OF g Nil(3)] assms(5) by (simp add: static_node_def)
next
  case (Cons p ps)
  then obtain m' where c: "is_dir k m" "child k (dirents (ntab k m)) p = Ok m'" "resolve k m' ps = Ok par" by (auto split: if_splits)
  note e = grownD(7) [OF g Cons.prems(3)] grownD(10) [OF g Cons.prems(3) c(2)]
  have "static_path k' m' (ps @ [nm])" using Cons c reach_child [OF Cons.prems(3) c(2)] by simp
  then show ?case using Cons.prems(1) c e by (simp add: static_node_def is_dir_def)
qed

text \<open>The root directory alone is a tree.\<close>

lemma init_root_tree:
  assumes heap: "klive k" "kpool k \<noteq> {}"
  shows "\<exists>k' d. init_root k = Ok k' \<and> tree_ok k' \<and> klive k' \<and> kpool k' = kpool k - {d} \<and> d \<in> kpool k
    \<and> children k' (dirents (ntab k' Root)) = [] \<and> is_dir k' Root \<and> nfs (ntab k' Root) = Some tmpfs"
proof -
  define k1 where "k1 = upd_node Root (\<lambda>n. n\<lparr>name := ascii ''root'', nflags := DIRECTORY, nsize := 0\<rparr>)
    (k\<lparr>ksched := (ksched k)\<lparr>fd_tables := (\<lambda>i. if i < 255 then 0 else fd_tables (ksched k) i)\<rparr>\<rparr>)"
  have k1: "klive k1" "kpool k1 = kpool k" using heap by (simp_all add: k1_def klive_def kpool_def)
  from kheap.alloc_pool [OF k1(1)] heap(2) k1(2) obtain d k2 where a: "from_vm kmalloc k1 = Ok (d, k2)" "klive k2" "d \<in> kpool k1" "kpool k2 = kpool k1 - {d}" by metis
  obtain m where k2: "k2 = set_vm m k1" using a(1) by (auto simp: from_vm_Ok)
  define k' where "k' = upd_node Root (\<lambda>n. n\<lparr>nfs := Some tmpfs\<rparr>)
    (upd_node (Entry d 0) (\<lambda>n. n\<lparr>name := []\<rparr>) (upd_node Root (\<lambda>n. n\<lparr>dirents := d\<rparr>) k2))"
  have run: "init_root k = Ok k'" using a(1) by (simp add: init_root_def Let_def k1_def k'_def)
  have d: "dirents (ntab k' Root) = d" "nfs (ntab k' Root) = Some tmpfs" by (simp_all add: k'_def)
  have c: "children k' d = []" by (rule children_empty) (simp add: k'_def)
  have p: "kpool k' = kpool k - {d}" "klive k'" "d \<in> kpool k" using a k1 by (simp_all add: k'_def)
  have only: "n = Root" if "reach k' n" for n using that by induction (simp_all add: d c)
  have "node_ok k' Root" using p kheap.pool_pages [of d k] by (simp add: node_ok_def d c)
  then have "tree_ok k'" unfolding tree_ok_def using only by blast
  moreover have "is_dir k' Root" by (simp add: is_dir_def k'_def k2) (simp add: k1_def)
  ultimately show ?thesis using run p d c by blast
qed

lemma tree_ok_cong:
  assumes "ntab k' = ntab k" and "kpool k' \<subseteq> kpool k" and "tree_ok k"
  shows "tree_ok k'"
proof -
  have c: "children k' = children k" using assms(1) by (auto simp: children_def fun_eq_iff)
  have "reach k' n \<Longrightarrow> reach k n" for n
    by (induction rule: reach.induct) (simp_all add: assms(1) c reach.intros)
  then show ?thesis using assms by (auto simp: tree_ok_def node_ok_def c)
qed

text \<open>The tree the temporary file system starts with.\<close>

lemma init_tmpfs_tree:
  assumes ok: "tree_ok k" "klive k" "3 \<le> card (kpool k)"
    and root: "children k (dirents (ntab k Root)) = []" "is_dir k Root"
  shows "\<exists>k'. init_tmpfs k = Ok k' \<and> tree_ok k' \<and> klive k' \<and> children k' (dirents (ntab k' Root)) = [ascii ''mnt'', ascii ''file'']
    \<and> (\<exists>mnt file. resolve k' Root [ascii ''mnt''] = Ok mnt \<and> is_dir k' mnt \<and> resolve k' Root [ascii ''file''] = Ok file \<and> \<not> is_dir k' file)"
proof -
  have names: "is_name (ascii ''mnt'')" "length (ascii ''mnt'') < 32" "is_name (ascii ''file'')" "length (ascii ''file'') < 32" "ascii ''file'' \<noteq> ascii ''mnt''"
    by (simp_all add: is_name_def ascii_def)
  obtain p k1 where a: "from_vm kmalloc k = Ok (p, k1)" "klive k1" "p \<in> kpool k" "kpool k1 = kpool k - {p}"
    using kheap.alloc_pool [OF ok(2)] ok(3) by (metis card.empty not_numeral_le_zero)
  obtain m where k1: "k1 = set_vm m k" using a(1) by (auto simp: from_vm_Ok)
  define k2 where "k2 = k1\<lparr>tmpfile := p\<rparr>"
  have k2: "ntab k2 = ntab k" "kpool k2 = kpool k - {p}" "klive k2" "children k2 = children k"
    using a by (auto simp: k2_def k1 kpool_def klive_def children_def fun_eq_iff)
  have t2: "tree_ok k2" using tree_ok_cong [OF k2(1)] ok(1) k2(2) by blast
  have c2: "2 \<le> card (kpool k2)" using a(3) ok(3) by (simp add: k2)
  have e2: "children k2 (dirents (ntab k2 Root)) = []" using root(1) by (simp add: k2)
  have p2: "kpool k2 \<noteq> {}" using c2 by auto
  obtain n3 k3 where m3: "make_node Root (ascii ''mnt'') DIRECTORY tmpfs k2 = Ok (n3, k3)" and g3: "grown Root (ascii ''mnt'') n3 k2 k3"
    and fl3: "nflags (ntab k3 n3) = DIRECTORY" by (rule make_node_grows [OF t2 reach.root names(1,2) k2(3) p2]) (use e2 in auto)
  note f3 = grownD [OF g3]
  have R3: "ntab k3 Root = ntab k Root" using f3(7) [OF reach.root] by (simp add: k2)
  have ch3: "children k3 (dirents (ntab k3 Root)) = [ascii ''mnt'']" using f3(5) e2 R3 by (simp add: k2)
  have p3: "kpool k3 \<noteq> {}" using c2 f3(3) by auto
  obtain n4 k4 where m4: "make_node Root (ascii ''file'') 0 tmpfs k3 = Ok (n4, k4)" and g4: "grown Root (ascii ''file'') n4 k3 k4"
    and fl4: "nflags (ntab k4 n4) = 0" by (rule make_node_grows [OF f3(1) reach.root names(3,4) f3(2) p3]) (use ch3 names in auto)
  note f4 = grownD [OF g4]
  have dirs: "is_dir k2 Root" "is_dir k3 Root" "is_dir k4 n3" "\<not> is_dir k4 n4"
    using root(2) R3 fl3 fl4 f4(7) [OF f3(4)] by (simp_all add: is_dir_def k2)
  have "init_tmpfs k = Ok k4" using a(1) m3 m4 by (simp add: init_tmpfs_def k2_def)
  moreover have "resolve k3 Root ([] @ [ascii ''mnt'']) = Ok n3" "resolve k4 Root ([] @ [ascii ''file'']) = Ok n4"
    by (rule f3(9) [OF dirs(1)] f4(9) [OF dirs(2)]; rule resolve.simps(1))+
  then have "resolve k4 Root [ascii ''mnt''] = Ok n3" "resolve k4 Root [ascii ''file''] = Ok n4" unfolding append_Nil using f4(8) by blast+
  moreover have "children k4 (dirents (ntab k4 Root)) = [ascii ''mnt'', ascii ''file'']" using f4(5) f4(7) [OF reach.root] ch3 by simp
  ultimately show ?thesis using f4(1,2) dirs(3,4) by blast
qed

section \<open>A sample kernel\<close>

lemma sample_kern_heap: "klive sample_kern" "card (kpool sample_kern) = 1024"
  using sample_live sample_pool heap_pages_card by (simp_all add: klive_def kpool_def sample_kern_def sample_sched_def)

lemma sample_root:
  "\<exists>k. init_root sample_kern = Ok k \<and> tree_ok k \<and> klive k \<and> card (kpool k) = 1023
    \<and> children k (dirents (ntab k Root)) = [] \<and> is_dir k Root \<and> nfs (ntab k Root) = Some tmpfs"
proof -
  have "kpool sample_kern \<noteq> {}" using sample_kern_heap(2) by auto
  from init_root_tree [OF sample_kern_heap(1) this] sample_kern_heap(2) show ?thesis by fastforce
qed


section \<open>Properties\<close>



text \<open>
  C24. Creating nodes: under the invariant of the tree, a new node gets the next entry of its directory and a
  page of its own, the invariant is kept, every path that named a node before names the same node,
  and \<^verbatim>\<open>getnode\<close> finds the new node under the path of its directory and its name. A name
  that is already there panics.
\<close>

theorem new_node_found:
  assumes "tree_ok k" "klive k" "3 \<le> card (kpool k)" and "resolve k Root ps = Ok par" "is_dir k par"
    and "static_path k Root ps" "static_node k par" and "is_name nm" "length nm < 32"
    and "length (children k (dirents (ntab k par))) < 68" and "length (path_of ps) < 4000"
  shows "if nm \<in> set (children k (dirents (ntab k par)))
    then make_node par nm fl fs k = Halt (KPanic ''file/direcory with that name already exists'')
    else \<exists>n k' m. make_node par nm fl fs k = Ok (n, k') \<and> tree_ok k'
      \<and> nflags (ntab k' n) = fl \<and> nfs (ntab k' n) = Some fs \<and> children k' (dirents (ntab k' n)) = []
      \<and> (\<forall>qs r. resolve k Root qs = Ok r \<longrightarrow> resolve k' Root qs = Ok r)
      \<and> getnode drv (path_of (ps @ [nm])) k' = Ok (n, set_vm m (k'\<lparr>toks := []\<rparr>))"
proof -
  have r: "reach k par" using resolve_reach [OF assms(4) reach.root] .
  have p: "kpool k \<noteq> {}" using assms(3) by auto
  show ?thesis
  proof (cases "nm \<in> set (children k (dirents (ntab k par)))")
    case True
    then show ?thesis using make_node_cases(1) [OF assms(1) r assms(8,9,2) p assms(10)] by simp
  next
    case False
    obtain n k' where m: "make_node par nm fl fs k = Ok (n, k')" and g: "grown par nm n k k'"
      and v: "nflags (ntab k' n) = fl" "nfs (ntab k' n) = Some fs"
      using make_node_grows [OF assms(1) r assms(8,9,2) p assms(10) False] by metis
    note f = grownD [OF g]
    have names: "\<forall>p \<in> set (ps @ [nm]). is_name p" using resolve_names [OF assms(1,4) reach.root] assms(8) by simp
    have ts: "tokens [0x2F] (path_of (ps @ [nm])) = ps @ [nm]" by (rule tokens_path_of [OF names])
    have "static_path k' Root (ps @ [nm])" by (rule grown_static [OF g assms(6,4) reach.root assms(7)])
    moreover have "length (path_of (ps @ [nm])) < 4093" using assms(9,11) by simp
    moreover have "2 \<le> card (kpool k')" using f(3) assms(3) by simp
    ultimately obtain m' where "getnode drv (path_of (ps @ [nm])) k' = Ok (n, set_vm m' (k'\<lparr>toks := []\<rparr>))"
      using getnode_static [of k' "path_of (ps @ [nm])" drv] f(2) f(9) [OF assms(5,4)] by (auto simp: ts simp del: path_of_append)
    then show ?thesis using m f(1,8,11) v False by auto
  qed
qed

theorem new_node_found_witness:
  "\<exists>k n k' m. init_root sample_kern = Ok k \<and> make_node Root (ascii ''dev'') 0x80000000 devfs k = Ok (n, k') \<and> tree_ok k'
    \<and> getnode no_drivers (ascii ''/dev'') k' = Ok (n, set_vm m (k'\<lparr>toks := []\<rparr>))"
proof -
  obtain k where k: "init_root sample_kern = Ok k" "tree_ok k" "klive k" "card (kpool k) = 1023"
    "children k (dirents (ntab k Root)) = []" "is_dir k Root" "nfs (ntab k Root) = Some tmpfs" using sample_root by blast
  have st: "static_node k Root" by (simp add: static_node_def k tmpfs_def)
  have nm: "is_name (ascii ''dev'')" "length (ascii ''dev'') < 32" by (simp_all add: is_name_def ascii_def)
  have path: "path_of ([] @ [ascii ''dev'']) = ascii ''/dev''" by (simp add: ascii_def)
  have c: "3 \<le> card (kpool k)" by (simp add: k)
  from new_node_found [OF k(2,3) c _ k(6) _ st nm, where ps = "[]" and fl = "0x80000000" and fs = devfs and drv = no_drivers] k(1,5)
  show ?thesis unfolding path by auto
qed

end
