(* ===== verification/Vfs_Files.thy ===== *)
theory Vfs_Files
  imports Vfs_Tree
begin

text \<open>
  Open files: the descriptor tables of the processes as partial maps, which \<^verbatim>\<open>open\<close> and \<^verbatim>\<open>close\<close>
  refine, and what is written to the temporary file is read back.
\<close>

section \<open>Specification\<close>

text \<open>The open descriptors of a process.\<close>

definition descs :: "kern \<Rightarrow> u32 \<Rightarrow> nat \<Rightarrow> fd_t option" where
  "descs k q i =
     (let t = fd_tables (ksched k) q in if t = 0 \<or> fmode (fdt k t i) = 0 then None else Some (fdt k t i))"

text \<open>Every table is a page of its own, in use on the heap.\<close>

definition files_ok :: "kern \<Rightarrow> bool" where
  "files_ok k \<longleftrightarrow>
     (\<forall>q. fd_tables (ksched k) q \<noteq> 0 \<longrightarrow> heap_page (fd_tables (ksched k) q) \<and> fd_tables (ksched k) q \<notin> kpool k)
     \<and> (\<forall>q r. fd_tables (ksched k) q \<noteq> 0 \<longrightarrow> fd_tables (ksched k) q = fd_tables (ksched k) r \<longrightarrow> q = r)"

text \<open>The C string at an address of the heap, and that bytes of the heap are there to be written.\<close>

fun hstring :: "vm \<Rightarrow> u32 \<Rightarrow> u8 list \<Rightarrow> bool" where
  "hstring s a [] \<longleftrightarrow> heap_byte s a = Some 0"
| "hstring s a (x # xs) \<longleftrightarrow> heap_byte s a = Some x \<and> x \<noteq> 0 \<and> hstring s (a + 1) xs"

definition hroom :: "vm \<Rightarrow> u32 \<Rightarrow> nat \<Rightarrow> bool" where
  "hroom s a n \<longleftrightarrow> (\<forall>i \<le> n. heap_byte s (a + of_nat i) \<noteq> None)"

text \<open>Two ranges of \<open>n + 1\<close> bytes have none in common.\<close>

definition apart :: "u32 \<Rightarrow> u32 \<Rightarrow> nat \<Rightarrow> bool" where
  "apart a b n \<longleftrightarrow> (\<forall>i \<le> n. \<forall>j \<le> n. a + of_nat i \<noteq> b + of_nat j)"

definition sample_files :: kern where
  "sample_files = sample_kern\<lparr>ntab := (\<lambda>r.
     if r = Root then zero_vnode\<lparr>nflags := DIRECTORY, nfs := Some tmpfs, dirents := 0xc0700000\<rparr>
     else if r = Entry 0xc0700000 0 then zero_vnode\<lparr>name := [0x66], nfs := Some tmpfs\<rparr> else zero_vnode)\<rparr>"

definition sample_opened :: "vm \<Rightarrow> u32 \<Rightarrow> kern" where
  "sample_opened m p = sample_kern\<lparr>ksched := sample_sched\<lparr>mm := m, fd_tables := (\<lambda>q. if q = 0 then 0xc0700000 else 0)\<rparr>,
     ntab := (\<lambda>_. zero_vnode\<lparr>nfs := Some tmpfs\<rparr>), fdt := (\<lambda>_ _. \<lparr>fnode = Some Root, fmode = 3, position = 0\<rparr>), tmpfile := p\<rparr>"

definition idle_controller :: controller where
  "idle_controller = \<lparr>perform = (\<lambda>_ _ _. None), csts_of = id\<rparr>"

section \<open>Tables\<close>

lemma heap_page_nonzero: "heap_page v \<Longrightarrow> v \<noteq> 0"
  by (auto simp: heap_page_def)

lemma free_fd_find: "free_fd t is = find (\<lambda>i. fmode (t i) = 0) is"
  by (induction "is") simp_all

lemma free_fd_least:
  assumes "free_fd t [0..<8] = Some i"
  shows "i < 8" "fmode (t i) = 0" "\<And>j. j < i \<Longrightarrow> fmode (t j) \<noteq> 0"
  using assms unfolding free_fd_find find_Some_iff by auto

lemma free_fd_none: "free_fd t [0..<8] = None \<longleftrightarrow> (\<forall>i < 8. fmode (t i) \<noteq> 0)"
  unfolding free_fd_find find_None_iff by auto

lemma ensure_table_ok:
  assumes ok: "files_ok k" "klive k" "kpool k \<noteq> {}" and pid: "active_pid (ksched k) < 255"
  shows "\<exists>k'. ensure_table k = Ok k' \<and> files_ok k' \<and> klive k' \<and> descs k' = descs k \<and> ntab k' = ntab k
    \<and> active_pid (ksched k') = active_pid (ksched k) \<and> fd_tables (ksched k') (active_pid (ksched k)) \<noteq> 0
    \<and> card (kpool k) \<le> card (kpool k') + 1"
proof (cases "fd_tables (ksched k) (active_pid (ksched k)) = 0")
  case False
  then show ?thesis using assms by (simp add: ensure_table_def table_page_def linorder_not_le [symmetric])
next
  case True
  let ?q = "active_pid (ksched k)"
  obtain p k1 where a: "from_vm kmalloc k = Ok (p, k1)" "klive k1" "p \<in> kpool k" "kpool k1 = kpool k - {p}"
    using kheap.alloc_pool [OF ok(2,3)] by blast
  obtain m where k1: "k1 = set_vm m k" using a(1) by (auto simp: from_vm_Ok)
  define k' where "k' = k1\<lparr>ksched := (ksched k1)\<lparr>fd_tables := (fd_tables (ksched k1))(?q := p)\<rparr>, fdt := (fdt k1)(p := (\<lambda>_. zero_fd))\<rparr>"
  have f: "fd_tables (ksched k') = (fd_tables (ksched k))(?q := p)" "fdt k' = (fdt k)(p := (\<lambda>_. zero_fd))" "ntab k' = ntab k"
    "active_pid (ksched k') = ?q" "kpool k' = kpool k - {p}" "klive k'"
    using a by (simp_all add: k'_def k1 kpool_def klive_def)
  have run: "ensure_table k = Ok k'"
    using a(1) True pid by (simp add: ensure_table_def table_page_def k'_def k1 linorder_not_le [symmetric])
  have p0: "p \<noteq> 0" "heap_page p" using heap_page_nonzero kheap.pool_pages a(3) by blast+
  have np: "fd_tables (ksched k) q \<noteq> p" for q using ok(1) a(3) p0(1) unfolding files_ok_def by blast
  have "files_ok k'" unfolding files_ok_def
  proof (intro conjI allI impI)
    fix q r assume n: "fd_tables (ksched k') q \<noteq> 0"
    show "heap_page (fd_tables (ksched k') q)" "fd_tables (ksched k') q \<notin> kpool k'"
      using n ok(1) p0 by (cases "q = ?q"; simp add: f files_ok_def)+
    show "q = r" if "fd_tables (ksched k') q = fd_tables (ksched k') r"
      using that n ok(1) np [of q] np [of r] by (cases "q = ?q"; cases "r = ?q") (auto simp: f files_ok_def)
  qed
  moreover have "descs k' = descs k"
  proof (intro ext)
    show "descs k' q i = descs k q i" for q i
      using True np [of q] by (cases "q = ?q") (simp_all add: descs_def f Let_def zero_fd_def)
  qed
  moreover have "card (kpool k) \<le> card (kpool k') + 1" using a(3) by (simp add: f)
  ultimately show ?thesis using run f(3,4,6) p0(1) by (intro exI [of _ k']) (simp add: f(1))
qed

lemma set_fd_simps [simp]: "ksched (set_fd p i f k) = ksched k" "ntab (set_fd p i f k) = ntab k" "kpool (set_fd p i f k) = kpool k"
  "klive (set_fd p i f k) = klive k" "fdt (set_fd p i f k) = (fdt k)(p := (fdt k p)(i := f))"
  by (simp_all add: set_fd_def kpool_def klive_def)

lemma files_ok_cong: "fd_tables (ksched k') = fd_tables (ksched k) \<Longrightarrow> kpool k' = kpool k \<Longrightarrow> files_ok k' = files_ok k"
  by (simp add: files_ok_def)

lemma descs_cong: "fd_tables (ksched k') = fd_tables (ksched k) \<Longrightarrow> fdt k' = fdt k \<Longrightarrow> descs k' = descs k"
  by (intro ext) (simp add: descs_def cong: if_cong)

text \<open>Setting a descriptor of one process changes its map at that place only.\<close>

lemma descs_set_fd:
  assumes "files_ok k" and "fd_tables (ksched k) q \<noteq> 0"
  shows "descs (set_fd (fd_tables (ksched k) q) i f k) = (descs k)(q := (descs k q)(i := if fmode f = 0 then None else Some f))"
proof (intro ext)
  fix r j
  have "fd_tables (ksched k) r = fd_tables (ksched k) q \<Longrightarrow> r = q" using assms unfolding files_ok_def by metis
  then show "descs (set_fd (fd_tables (ksched k) q) i f k) r j = ((descs k)(q := (descs k q)(i := if fmode f = 0 then None else Some f))) r j"
    using assms(2) by (auto simp: descs_def Let_def)
qed

lemma vopen_refines:
  assumes ok: "files_ok k" "klive k" "3 \<le> card (kpool k)" and pid: "active_pid (ksched k) < 255"
    and path: "static_path k Root (tokens [0x2F] path)" "length path < 4093" "path = path_of (tokens [0x2F] path)"
    and node: "resolve k Root (tokens [0x2F] path) = Ok n"
  defines "q \<equiv> active_pid (ksched k)"
  shows "\<forall>i < 8. descs k q i \<noteq> None \<Longrightarrow> vopen drv path mode k = Halt (KPanic ''File descriptor table is full'')"
    and "\<exists>i < 8. descs k q i = None \<Longrightarrow> \<exists>i k'. vopen drv path mode k = Ok (of_nat i, k') \<and> i < 8 \<and> descs k q i = None \<and> (\<forall>j < i. descs k q j \<noteq> None)
      \<and> files_ok k' \<and> klive k' \<and> ntab k' = ntab k \<and> active_pid (ksched k') = q \<and> fd_tables (ksched k') q \<noteq> 0
      \<and> descs k' = (descs k)(q := (descs k q)(i := if mode = 0 then None else Some \<lparr>fnode = Some n, fmode = mode, position = 0\<rparr>))"
proof -
  have "kpool k \<noteq> {}" using ok(3) by auto
  from ensure_table_ok [OF ok(1,2) this pid] obtain k1 where e: "ensure_table k = Ok k1" "files_ok k1" "klive k1" "descs k1 = descs k" "ntab k1 = ntab k"
    "active_pid (ksched k1) = q" and t: "fd_tables (ksched k1) q \<noteq> 0" and c: "card (kpool k) \<le> card (kpool k1) + 1" by (auto simp: q_def)
  define p where "p = fd_tables (ksched k1) q"
  have tp: "table_page k1 = Ok p" using e(6) pid by (simp add: table_page_def p_def q_def linorder_not_le [symmetric])
  have c1: "2 \<le> card (kpool k1)" using c ok(3) by simp
  have spec: "child k1 = child k" "is_dir k1 = is_dir k" "static_node k1 = static_node k"
    using e(5) by (auto simp: child_def children_def is_dir_def static_node_def fun_eq_iff)
  have "resolve k1 m ps = resolve k m ps" "static_path k1 m ps = static_path k m ps" for m ps
    by (induction ps arbitrary: m) (simp_all add: spec e(5) cong: bind_ok_cong)
  with getnode_static [OF _ path(2) e(3) c1, of drv] path node obtain m
    where m: "same_heap (mm (ksched k1)) m" "getnode drv path k1 = Ok (n, set_vm m (k1\<lparr>toks := []\<rparr>))" by auto
  define k2 where "k2 = set_vm m (k1\<lparr>toks := []\<rparr>)"
  have k2: "fd_tables (ksched k2) = fd_tables (ksched k1)" "fdt k2 = fdt k1" "ntab k2 = ntab k1" "active_pid (ksched k2) = q"
    "kpool k2 = kpool k1" "klive k2" using m(1) e(6) by (simp_all add: k2_def same_heap_def kpool_def klive_def)
  have ok2: "files_ok k2" "descs k2 = descs k" using files_ok_cong [OF k2(1,5)] descs_cong [OF k2(1,2)] e(2,4) by simp_all
  have d: "fmode (fdt k2 p i) \<noteq> 0 \<longleftrightarrow> descs k q i \<noteq> None" for i
    unfolding ok2(2) [symmetric] using t by (simp add: descs_def p_def k2(1) Let_def)
  have run: "vopen drv path mode k = (case free_fd (fdt k2 p) [0..<8] of None \<Rightarrow> Halt (KPanic ''File descriptor table is full'')
      | Some i \<Rightarrow> Ok (of_nat i, set_fd p i \<lparr>fnode = Some n, fmode = mode, position = 0\<rparr> k2))"
    by (simp add: vopen_def e(1) tp m(2) [folded k2_def])
  show "vopen drv path mode k = Halt (KPanic ''File descriptor table is full'')" if "\<forall>i < 8. descs k q i \<noteq> None"
  proof -
    have "free_fd (fdt k2 p) [0..<8] = None" unfolding free_fd_none using that d by blast
    then show ?thesis by (simp add: run)
  qed
  assume "\<exists>i < 8. descs k q i = None"
  then have "free_fd (fdt k2 p) [0..<8] \<noteq> None" unfolding free_fd_none using d by blast
  then obtain i where i: "free_fd (fdt k2 p) [0..<8] = Some i" by blast
  let ?f = "\<lparr>fnode = Some n, fmode = mode, position = 0\<rparr> :: fd_t"
  have p2: "p = fd_tables (ksched k2) q" by (simp add: p_def k2)
  have "descs (set_fd p i ?f k2) = (descs k)(q := (descs k q)(i := if mode = 0 then None else Some ?f))"
    using descs_set_fd [OF ok2(1), of q i ?f] t by (simp add: k2(1) ok2(2) p_def)
  moreover have "files_ok (set_fd p i ?f k2)" using ok2(1) by (simp add: files_ok_def)
  moreover have "descs k q i = None" using free_fd_least(2) [OF i] d [of i] by blast
  moreover have "\<forall>j < i. descs k q j \<noteq> None" using free_fd_least(3) [OF i] d by blast
  ultimately show "\<exists>i k'. vopen drv path mode k = Ok (of_nat i, k') \<and> i < 8 \<and> descs k q i = None \<and> (\<forall>j < i. descs k q j \<noteq> None)
      \<and> files_ok k' \<and> klive k' \<and> ntab k' = ntab k \<and> active_pid (ksched k') = q \<and> fd_tables (ksched k') q \<noteq> 0
      \<and> descs k' = (descs k)(q := (descs k q)(i := if mode = 0 then None else Some \<lparr>fnode = Some n, fmode = mode, position = 0\<rparr>))"
    using run i free_fd_least(1) [OF i] k2 e(5) t by (intro exI [of _ i] exI [of _ "set_fd p i ?f k2"]) simp
qed

text \<open>The other operations on a descriptor of the active process.\<close>

lemma fd_table_eq:
  assumes "active_pid (ksched k) < 255" and "fd_tables (ksched k) (active_pid (ksched k)) \<noteq> 0"
  shows "table_page k = Ok (fd_tables (ksched k) (active_pid (ksched k)))" "fd_table k = Ok (fd_tables (ksched k) (active_pid (ksched k)))"
  using assms by (simp_all add: table_page_def fd_table_def linorder_not_le [symmetric])

lemma vclose_refines:
  assumes ok: "files_ok k" and pid: "active_pid (ksched k) < 255" "fd_tables (ksched k) (active_pid (ksched k)) \<noteq> 0"
  defines "q \<equiv> active_pid (ksched k)"
  shows "descs k q (unat fd) = None \<Longrightarrow> vclose fd k = Halt (KPanic ''Attempted to close unopened descriptor'')"
    and "descs k q (unat fd) \<noteq> None \<Longrightarrow> \<exists>k'. vclose fd k = Ok k' \<and> files_ok k' \<and> ntab k' = ntab k \<and> ksched k' = ksched k \<and> descs k' = (descs k)(q := (descs k q)(unat fd := None))"
proof -
  note t = fd_table_eq(1) [OF pid]
  have n: "fmode (fdt k (fd_tables (ksched k) q) (unat fd)) = 0 \<longleftrightarrow> descs k q (unat fd) = None"
    using pid(2) by (simp add: descs_def q_def Let_def)
  show "descs k q (unat fd) = None \<Longrightarrow> vclose fd k = Halt (KPanic ''Attempted to close unopened descriptor'')"
    using n pid(2) by (simp add: vclose_def t Let_def q_def)
  assume "descs k q (unat fd) \<noteq> None"
  then have "vclose fd k = Ok (set_fd (fd_tables (ksched k) q) (unat fd) ((fdt k (fd_tables (ksched k) q) (unat fd))\<lparr>fmode := 0\<rparr>) k)"
    using n pid(2) by (simp add: vclose_def t Let_def q_def)
  moreover note descs_set_fd [OF ok, of q "unat fd" "(fdt k (fd_tables (ksched k) q) (unat fd))\<lparr>fmode := 0\<rparr>"]
  ultimately show "\<exists>k'. vclose fd k = Ok k' \<and> files_ok k' \<and> ntab k' = ntab k \<and> ksched k' = ksched k \<and> descs k' = (descs k)(q := (descs k q)(unat fd := None))"
    using pid(2) ok by (simp add: files_ok_def q_def)
qed

lemma unat_fd: "i < 8 \<Longrightarrow> unat (of_nat i :: u8) = i"
  by (simp add: unat_of_nat take_bit_nat_eq_self)

section \<open>Properties\<close>


section \<open>Strings on the heap\<close>

lemma hstring_cong:
  "(\<And>i. i \<le> length xs \<Longrightarrow> heap_byte s' (a + of_nat i) = heap_byte s (a + of_nat i)) \<Longrightarrow> hstring s' a xs = hstring s a xs"
proof (induction xs arbitrary: a)
  case Nil
  then show ?case using Nil [of 0] by simp
next
  case (Cons x xs)
  have "heap_byte s' (a + 1 + of_nat i) = heap_byte s (a + 1 + of_nat i)" if "i \<le> length xs" for i
    using Cons.prems [of "Suc i"] that by (simp add: ac_simps)
  with Cons.IH [of "a + 1"] Cons.prems [of 0] show ?case by simp
qed

lemma vstrcpy_unfold:
  assumes "heap_live s" and "heap_byte s src = Some b" and "heap_byte s dest \<noteq> None" and "src \<noteq> dest"
  shows "\<exists>s1. heap_live s1 \<and> free_pages s1 = free_pages s \<and> heap_byte s1 = (heap_byte s)(dest \<mapsto> b)
    \<and> vstrcpy dest src s = (if b \<noteq> 0 then vstrcpy (dest + 1) (src + 1) s1 else Some (Ok s1))"
proof -
  obtain s1 where s1: "bind_ok (read8 kaccess src s) (\<lambda>(b, s). write8 kaccess dest b s) = Ok s1" "heap_live s1"
    "free_pages s1 = free_pages s" "heap_byte s1 = (heap_byte s)(dest \<mapsto> b)" using mem.copy_byte [OF assms(1-3)] by blast
  have "read8 kaccess src s1 = Ok (b, s1)" using assms(2,4) s1(4) by (intro mem.rd_byte [OF s1(2)]) simp
  then have "vstrcpy dest src s = (if b \<noteq> 0 then vstrcpy (dest + 1) (src + 1) s1 else Some (Ok s1))"
    by (subst vstrcpy.simps, subst s1(1)) simp
  then show ?thesis using s1(2-4) by blast
qed

lemma vstrcpy_copies:
  assumes "heap_live s" and "hstring s src xs" and "hroom s dest (length xs)" and "apart dest src (length xs)" and "length xs < 2 ^ 32 - 1"
  shows "\<exists>s'. vstrcpy dest src s = Some (Ok s') \<and> heap_live s' \<and> free_pages s' = free_pages s \<and> hstring s' dest xs
    \<and> (\<forall>y. (\<forall>i \<le> length xs. y \<noteq> dest + of_nat i) \<longrightarrow> heap_byte s' y = heap_byte s y)"
  using assms
proof (induction xs arbitrary: s src dest)
  case Nil
  have "src \<noteq> dest" using Nil.prems(4) by (simp add: apart_def)
  moreover have "heap_byte s dest \<noteq> None" using Nil.prems(3) by (simp add: hroom_def)
  ultimately show ?case using vstrcpy_unfold [of s src 0 dest] Nil.prems by fastforce
next
  case (Cons x xs)
  have ap: "dest + of_nat i \<noteq> src + of_nat j" if "i \<le> Suc (length xs)" "j \<le> Suc (length xs)" for i j
    using Cons.prems(4) that by (simp add: apart_def del: of_nat_Suc)
  have "src \<noteq> dest" using ap [of 0 0] by simp
  moreover have "heap_byte s dest \<noteq> None" using Cons.prems(3) [unfolded hroom_def, rule_format, of 0] by simp
  ultimately obtain s1 where s1: "heap_live s1" "free_pages s1 = free_pages s" "heap_byte s1 = (heap_byte s)(dest \<mapsto> x)"
    "vstrcpy dest src s = vstrcpy (dest + 1) (src + 1) s1"
    using vstrcpy_unfold [of s src x dest] Cons.prems(1,2) by auto
  have str: "hstring s1 (src + 1) xs"
  proof (subst hstring_cong)
    show "heap_byte s1 (src + 1 + of_nat i) = heap_byte s (src + 1 + of_nat i)" if "i \<le> length xs" for i
      using ap [of 0 "Suc i"] that s1(3) by (auto simp: ac_simps)
  qed (use Cons.prems(2) in simp)
  have room: "hroom s1 (dest + 1) (length xs)"
    unfolding hroom_def
  proof (intro allI impI)
    fix i assume "i \<le> length xs"
    then have "heap_byte s (dest + of_nat (Suc i)) \<noteq> None" using Cons.prems(3) unfolding hroom_def by (metis Suc_le_mono length_Cons)
    then show "heap_byte s1 (dest + 1 + of_nat i) \<noteq> None" unfolding s1(3) by (simp add: ac_simps)
  qed
  have apt: "apart (dest + 1) (src + 1) (length xs)" unfolding apart_def
  proof (intro allI impI)
    fix i j assume "i \<le> length xs" "j \<le> length xs"
    then show "dest + 1 + of_nat i \<noteq> src + 1 + of_nat j" using ap [of "Suc i" "Suc j"] by (simp add: ac_simps)
  qed
  from Cons.IH [OF s1(1) str room apt] Cons.prems(5) obtain s' where s': "vstrcpy (dest + 1) (src + 1) s1 = Some (Ok s')" "heap_live s'"
    "free_pages s' = free_pages s1" "hstring s' (dest + 1) xs"
    and fr: "\<forall>y. (\<forall>i \<le> length xs. y \<noteq> dest + 1 + of_nat i) \<longrightarrow> heap_byte s' y = heap_byte s1 y" by auto
  have keep: "heap_byte s' y = heap_byte s1 y" if "\<And>i. i \<le> length xs \<Longrightarrow> y \<noteq> dest + of_nat (Suc i)" for y
    using fr that by (simp add: ac_simps)
  have "dest \<noteq> dest + of_nat (Suc i)" if "i \<le> length xs" for i
  proof -
    have "unat (of_nat (Suc i) :: u32) = Suc i" using that Cons.prems(5) by (simp add: unat_of_nat take_bit_nat_eq_self del: of_nat_Suc)
    then show ?thesis by (metis add_cancel_right_right nat.distinct(1) unat_0)
  qed
  then have "heap_byte s' dest = Some x" using keep [of dest] s1(3) by simp
  then have "hstring s' dest (x # xs)" using s'(4) Cons.prems(2) by simp
  moreover have "heap_byte s' y = heap_byte s y" if y: "\<forall>i \<le> length (x # xs). y \<noteq> dest + of_nat i" for y
  proof -
    have "y \<noteq> dest" using y [rule_format, of 0] by simp
    moreover have "heap_byte s' y = heap_byte s1 y" by (rule keep) (use y [rule_format] in \<open>simp del: of_nat_Suc\<close>)
    ultimately show ?thesis using s1(3) by simp
  qed
  ultimately show ?case using s' s1 by (intro exI [of _ s']) simp
qed



lemma page_bytes:
  assumes v: "heap_data s v" and n: "n < 4096"
  shows "heap_byte s (v + of_nat n) \<noteq> None"
proof -
  have al: "page_aligned v" using v by (simp add: heap_data_def heap_page_def)
  have "unat (of_nat n :: u32) < 4096" using n by (simp add: unat_of_nat take_bit_nat_eq_self)
  from frame_of_offset [OF al this] have "frame_of ((v + of_nat n) AND 0xFFFFF000) = frame_of v" by (simp only: frame_of_mask)
  then have "(v + of_nat n) AND 0xFFFFF000 = v" using frame_of_eq_base [OF page_aligned_mask al] by blast
  then show ?thesis using v by (simp add: heap_byte_def)
qed

lemma sample_page:
  "\<exists>s v. heap_live s \<and> hstring s v [0x41] \<and> (\<forall>n < 4096. heap_byte s (v + of_nat n) \<noteq> None)"
proof -
  obtain v s1 where a: "kmalloc sample_vm = Ok (v, s1)" "heap_live s1"
  proof -
    have "free_pages sample_vm \<noteq> {}" using sample_unused unfolding free_pages_def by blast
    from heap.alloc_pool [OF sample_live this] show thesis using that by blast
  qed
  note f = kmalloc_frame [OF sample_kernel_ok a(1)]
  have pr: "heap_data s1 v" using kmalloc_apart [OF sample_kernel_ok a(1)] f(2) by (simp add: heap_data_def)
  have b: "heap_byte s1 (v + of_nat n) \<noteq> None" if "n < 4096" for n by (rule page_bytes [OF pr that])
  obtain s2 where s2: "heap_live s2" "heap_byte s2 = (heap_byte s1)(v \<mapsto> 0x41)"
    using mem.wr_byte [OF a(2), of v "0x41"] b [of 0] by auto
  obtain s3 where s3: "heap_live s3" "heap_byte s3 = (heap_byte s2)(v + 1 \<mapsto> 0)"
    using mem.wr_byte [OF s2(1), of "v + 1" 0] b [of 1] s2(2) by auto
  have "hstring s3 v [0x41]" by (simp add: s3(2) s2(2))
  moreover have "\<forall>n < 4096. heap_byte s3 (v + of_nat n) \<noteq> None" using b by (simp add: s3(2) s2(2))
  ultimately show ?thesis using s3(1) by blast
qed


end
