(* ===== verification/Ext2.thy ===== *)
theory Ext2
  imports Vfs_Files
begin

text \<open>
  The ext2 driver of BarrelOS (\<^verbatim>\<open>drivers/filesystems/ext2.c\<close>, \<^verbatim>\<open>ext2.h\<close>), \<^verbatim>\<open>mount\<close> of \<^verbatim>\<open>kernel/vfs.c\<close> and
  \<^verbatim>\<open>exec\<close> of \<^verbatim>\<open>kernel/scheduler.c\<close>. On-disk structures are read from the pages they were loaded to, at the
  offsets of the packed structures. The driver reads its drive through the file system that called it, so its
  functions take the registered drivers of the level below; \<open>drivers_at n\<close> allows \<open>n\<close> nested calls
  (looking up \<^verbatim>\<open>/dev/nvme5\<close> lists no ext2 directory, so one level is enough). A division by zero raises an
  exception that ends in the endless loop of \<^verbatim>\<open>panic\<close>.
\<close>

section \<open>Inodes\<close>

definition volume_path :: "u8 list" where
  "volume_path = ascii ''/dev/nvme5''"

text \<open>A read of a drive; a terminal would put the process to sleep in the middle of the caller.\<close>

definition read_now :: "controller \<Rightarrow> drivers \<Rightarrow> u8 \<Rightarrow> u32 \<Rightarrow> u32 \<Rightarrow> kern \<Rightarrow> kern outcome" where
  "read_now hw drv fd buf count k =
     bind_ok (vread hw drv fd buf count k) (\<lambda>(p, k).
       if p = Done then Ok k else Halt (Undefined ''blocking read''))"

definition udiv :: "u32 \<Rightarrow> u32 \<Rightarrow> u32 outcome" where
  "udiv a b = (if b = 0 then Halt (Spin ''Unhandled Exception'') else Ok (a div b))"

text \<open>The fields read of \<^verbatim>\<open>bgd_t\<close> and \<^verbatim>\<open>inode_t\<close>.\<close>

definition bgd_inode_table :: "u32 \<Rightarrow> u32 \<Rightarrow> vm \<Rightarrow> (u32 \<times> vm) outcome" where
  "bgd_inode_table tab i = read32 kaccess (tab + 32 * i + 8)"

definition inode_size_lo :: "u32 \<Rightarrow> vm \<Rightarrow> (u32 \<times> vm) outcome" where
  "inode_size_lo a = read32 kaccess (a + 4)"

definition inode_block0 :: "u32 \<Rightarrow> vm \<Rightarrow> (u32 \<times> vm) outcome" where
  "inode_block0 a = read32 kaccess (a + 40)"

definition get_inode :: "controller \<Rightarrow> drivers \<Rightarrow> nref \<Rightarrow> kern \<Rightarrow> (u32 \<times> kern) outcome" where
  "get_inode hw drv vnode k =
     (let inode_no = inode (ntab k vnode); sb = superblock k in
      bind_ok (udiv (inode_no - 1) (group_inode_count sb)) (\<lambda>block_group.
        let index = (inode_no - 1) mod group_inode_count sb in
        bind_ok (from_vm (bgd_inode_table (bgd_table k) block_group) k) (\<lambda>(inode_table_block, k).
        bind_ok (udiv (block_size sb) (inode_size sb)) (\<lambda>inodes_per_block.
        bind_ok (udiv index inodes_per_block) (\<lambda>blocks.
          let inode_table_block = inode_table_block + blocks; index_in_block = index mod inodes_per_block in
          bind_ok (from_vm kmalloc k) (\<lambda>(inode_table, k).
          bind_ok (vopen drv volume_path 0x1 k) (\<lambda>(volume, k).
          bind_ok (vseek volume (inode_table_block * 8) 0 k) (\<lambda>(_, k).
          bind_ok (read_now hw drv volume inode_table 8 k) (\<lambda>k.
          bind_ok (from_vm kmalloc k) (\<lambda>(inode, k).
          bind_ok (on_vm (Vmm.mem_copy (inode_table + index_in_block * inode_size sb) inode (ucast (inode_size sb))) k) (\<lambda>k.
          bind_ok (on_vm (kfree inode_table) k) (\<lambda>k.
          bind_ok (vclose volume k) (\<lambda>k. Ok (inode, k))))))))))))))"

section \<open>Reading files\<close>

text \<open>The value \<^verbatim>\<open>ext2_read\<close> should return is missing in the source; nobody uses it.\<close>

definition ext2_read :: "controller \<Rightarrow> drivers \<Rightarrow> u32 \<Rightarrow> u32 \<Rightarrow> u32 \<Rightarrow> nref \<Rightarrow> kern \<Rightarrow> kern outcome" where
  "ext2_read hw drv buf count pos vnode k =
     bind_ok (get_inode hw drv vnode k) (\<lambda>(inode, k).
       let blocks = (if count mod 4096 = 0 then count div 4096 else count div 4096 + 1) in
       bind_ok (vopen drv volume_path 0x1 k) (\<lambda>(volume, k).
       bind_ok (from_vm (inode_block0 inode) k) (\<lambda>(b, k).
       bind_ok (vseek volume (b * 8) 0 k) (\<lambda>(_, k).
       bind_ok (read_now hw drv volume buf (blocks * 8) k) (\<lambda>k.
       bind_ok (vclose volume k) (\<lambda>k. on_vm (kfree inode) k))))))"

definition ext2_write :: "u32 \<Rightarrow> u32 \<Rightarrow> u32 \<Rightarrow> nref \<Rightarrow> kern \<Rightarrow> kern outcome" where
  "ext2_write buf count pos vnode k = Halt (KPanic ''Attempted to read ext2'')"

section \<open>Listing directories\<close>

text \<open>The offset of the entry behind one with a name of \<open>n\<close> characters; the name is padded to four bytes.\<close>

definition next_dirent :: "nat \<Rightarrow> nat \<Rightarrow> nat" where
  "next_dirent off n = (if n mod 4 = 0 then off + 8 + n else off + 8 + n + (4 - n mod 4))"

text \<open>One entry that is not the directory itself: a node with the name, inode, size and kind of the entry.\<close>

definition add_dirent :: "controller \<Rightarrow> drivers \<Rightarrow> nref \<Rightarrow> u32 \<Rightarrow> u32 \<Rightarrow> u32 \<Rightarrow> u8 \<Rightarrow> kern \<Rightarrow> kern outcome" where
  "add_dirent hw drv vnode entry nm ino name_length k =
     bind_ok (on_vm (Vmm.mem_copy (entry + 8) nm (ucast name_length)) k) (\<lambda>k.
     bind_ok (on_vm (write8 kaccess (nm + ucast name_length) 0) k) (\<lambda>k.
     bind_ok (from_vm (\<lambda>m. total ''strcpy'' (vstring nm m)) k) (\<lambda>(str, k).
     bind_ok (new_vnode vnode str k) (\<lambda>(node, k).
     bind_ok (get_inode hw drv node (upd_node node (\<lambda>v. v\<lparr>inode := ino\<rparr>) k)) (\<lambda>(i, k).
     bind_ok (from_vm (inode_size_lo i) k) (\<lambda>(sz, k).
     bind_ok (from_vm (read8 kaccess (entry + 7)) k) (\<lambda>(ty, k).
       Ok (upd_node node (\<lambda>v. v\<lparr>nsize := sz, nfs := Some ext2fs,
             nflags := (if ty = 1 then 0 else if ty = 2 then DIRECTORY else nflags v)\<rparr>) k))))))))"

function enum_loop :: "controller \<Rightarrow> drivers \<Rightarrow> nref \<Rightarrow> u32 \<Rightarrow> u32 \<Rightarrow> nat \<Rightarrow> kern \<Rightarrow> kern outcome" where
  "enum_loop hw drv vnode page nm off k =
     (if off + 8 > 4096 then Halt (Undefined ''directory block'')
      else
        let entry = page + of_nat off in
        bind_ok (from_vm (read32 kaccess entry) k) (\<lambda>(ino, k).
          if ino = 0 then Ok k
          else
            bind_ok (from_vm (read8 kaccess (entry + 6)) k) (\<lambda>(name_length, k).
              if ino = inode (ntab k vnode)
              then enum_loop hw drv vnode page nm (next_dirent off (unat name_length)) k
              else bind_ok (add_dirent hw drv vnode entry nm ino name_length k)
                     (enum_loop hw drv vnode page nm (next_dirent off (unat name_length))))))"
  by pat_completeness auto
termination
  by (relation "measure (\<lambda>(hw, drv, vnode, page, nm, off, k). 4096 - off)") (auto simp: next_dirent_def)

declare enum_loop.simps [simp del]

text \<open>The pages of the block and of the inodes of the entries are not freed.\<close>

definition ext2_enum :: "controller \<Rightarrow> drivers \<Rightarrow> nref \<Rightarrow> kern \<Rightarrow> kern outcome" where
  "ext2_enum hw drv vnode k =
     (if nflags (ntab k vnode) AND (if DIRECTORY = 0 then 1 else 0) \<noteq> 0 then Ok k
      else
        bind_ok (get_inode hw drv vnode k) (\<lambda>(inode, k).
        bind_ok (from_vm kmalloc k) (\<lambda>(entry, k).
        bind_ok (vopen drv volume_path 0x01 k) (\<lambda>(volume, k).
        bind_ok (from_vm (inode_block0 inode) k) (\<lambda>(b, k).
        bind_ok (vseek volume (b * 8) 0 k) (\<lambda>(_, k).
        bind_ok (read_now hw drv volume entry 8 k) (\<lambda>k.
        bind_ok (from_vm kmalloc k) (\<lambda>(nm, k).
        bind_ok (enum_loop hw drv vnode entry nm 0 k) (\<lambda>k.
          let k = upd_node vnode (\<lambda>v. v\<lparr>nflags := nflags v OR 0x40000000\<rparr>) k in
          bind_ok (on_vm (kfree nm) k) (\<lambda>k.
          bind_ok (on_vm (kfree inode) k) (\<lambda>k. vclose volume k)))))))))))"

fun drivers_at :: "controller \<Rightarrow> nat \<Rightarrow> drivers" where
  "drivers_at hw 0 = \<lparr>enum_fn = (\<lambda>_ _. Halt (Undefined ''nested listing'')), read_fn = (\<lambda>_ _ _ _ _. Halt (Undefined ''nested read''))\<rparr>"
| "drivers_at hw (Suc n) = \<lparr>enum_fn = ext2_enum hw (drivers_at hw n), read_fn = ext2_read hw (drivers_at hw n)\<rparr>"

section \<open>Mounting\<close>

text \<open>The superblock from the page at \<open>sb\<close>; \<^verbatim>\<open>1024 << n\<close> is a shift of an \<^verbatim>\<open>int\<close>.\<close>

definition load_superblock :: "u32 \<Rightarrow> kern \<Rightarrow> kern outcome" where
  "load_superblock sb k =
     bind_ok (from_vm (read32 kaccess (sb + 56)) k) (\<lambda>(sig, k).
       if sig AND 0xFFFF \<noteq> 0xef53 then Halt (KPanic ''NO SUPERBLOCK FOUND'')
       else
         bind_ok (from_vm (read32 kaccess (sb + 88)) k) (\<lambda>(isz, k).
         bind_ok (from_vm (read32 kaccess (sb + 0)) k) (\<lambda>(ni, k).
         bind_ok (from_vm (read32 kaccess (sb + 4)) k) (\<lambda>(nb, k).
         bind_ok (from_vm (read32 kaccess (sb + 24)) k) (\<lambda>(bs, k).
         bind_ok (if bs \<ge> 21 then Halt (Undefined ''shift'') else Ok (push_bit (unat bs) 1024)) (\<lambda>bs.
         bind_ok (from_vm (read32 kaccess (sb + 32)) k) (\<lambda>(gb, k).
         bind_ok (from_vm (read32 kaccess (sb + 40)) k) (\<lambda>(gi, k).
         bind_ok (udiv nb gb) (\<lambda>no_block_groups.
           Ok (k\<lparr>superblock := \<lparr>no_inodes = ni, no_blocks = nb, block_size = bs, group_block_count = gb,
                   group_inode_count = gi, inode_size = isz, ext2_sig = sig\<rparr>\<rparr>))))))))))"

definition ext2_mount :: "controller \<Rightarrow> drivers \<Rightarrow> u8 list \<Rightarrow> u8 list \<Rightarrow> kern \<Rightarrow> kern outcome" where
  "ext2_mount hw drv mountee mountpoint k =
     bind_ok (vopen drv mountee 0x1 k) (\<lambda>(mountee_fd, k).
     bind_ok (from_vm kmalloc k) (\<lambda>(sb, k).
     bind_ok (vseek mountee_fd 2 0 k) (\<lambda>(_, k).
     bind_ok (read_now hw drv mountee_fd sb 2 k) (\<lambda>k.
     bind_ok (load_superblock sb k) (\<lambda>k.
     bind_ok (from_vm kmalloc k) (\<lambda>(tab, k).
     bind_ok (vseek mountee_fd 8 0 (k\<lparr>bgd_table := tab\<rparr>)) (\<lambda>(_, k).
     bind_ok (read_now hw drv mountee_fd tab 8 k) (\<lambda>k.
     bind_ok (getnode drv mountpoint k) (\<lambda>(node, k).
       vclose mountee_fd (upd_node node (\<lambda>v. v\<lparr>inode := 2, fs_instance := 0, nflags := DIRECTORY\<rparr>) k))))))))))"

definition mount :: "controller \<Rightarrow> drivers \<Rightarrow> u8 list \<Rightarrow> u8 list \<Rightarrow> fs_t \<Rightarrow> kern \<Rightarrow> kern outcome" where
  "mount hw drv mountee mountpoint fs k =
     bind_ok (getnode drv mountee k) (\<lambda>(mountee_node, k).
     bind_ok (getnode drv mountpoint k) (\<lambda>(node, k).
       if nflags (ntab k node) AND DIRECTORY = 0 then Halt (KPanic ''can only mount on directory'')
       else if name (ntab k (Entry (dirents (ntab k node)) 0)) \<noteq> [] then Halt (KPanic ''cannot mount unless directory is empty'')
       else
         let k = upd_node node (\<lambda>v. v\<lparr>nfs := Some fs\<rparr>) k;
             c = println (ascii ''Mounting '') (kcon k);
             c = print [0x0A] (print mountpoint (print (ascii '' to '') (print mountee c)));
             k = k\<lparr>kcon := c\<rparr>
         in if fs_mount fs = Some Ext2_mount then ext2_mount hw drv mountee mountpoint k
            else Halt (Undefined ''mount'')))"

section \<open>Starting programs\<close>

fun clear_user_dir :: "u32 \<Rightarrow> nat list \<Rightarrow> vm \<Rightarrow> vm outcome" where
  "clear_user_dir dir [] m = Ok m"
| "clear_user_dir dir (i # is) m = bind_ok (write32 kaccess (dir + 4 * of_nat i) 0 m) (clear_user_dir dir is)"

definition exec :: "controller \<Rightarrow> drivers \<Rightarrow> u8 list \<Rightarrow> kern \<Rightarrow> kern outcome" where
  "exec hw drv binary k =
     bind_ok (vopen drv binary 0x1 k) (\<lambda>(fd, k).
     bind_ok (vstat fd k) (\<lambda>sz.
     bind_ok (on_vm (clear_user_dir (page_directory (procs (ksched k) (active_proc (ksched k)))) [0..<0x300]) k) (\<lambda>k.
     bind_ok (from_vm (Vmm.mmap 0x0000 sz 1) k) (\<lambda>(_, k).
     bind_ok (from_vm (Vmm.mmap 0xbffff000 4096 1) k) (\<lambda>(_, k).
     bind_ok (read_now hw drv fd 0x0000 sz k) (\<lambda>k.
     bind_ok (vclose fd k) (\<lambda>k.
       Ok (k\<lparr>ksched := (ksched k)\<lparr>frame := (frame (ksched k))\<lparr>eip := 0, user_esp := 0xbffffffc\<rparr>\<rparr>\<rparr>))))))))"

section \<open>Specification\<close>

text \<open>
  The statics of \<^verbatim>\<open>strtok\<close> after a listing: every listing looks up \<^verbatim>\<open>/dev/nvme5\<close>, which uses them up.
\<close>

definition uses_up :: "drivers \<Rightarrow> bool" where
  "uses_up drv \<longleftrightarrow> (\<forall>node k k'. enum_fn drv node k = Ok k' \<longrightarrow> toks k' = [])
     \<and> (\<forall>buf count pos node k k'. read_fn drv buf count pos node k = Ok k' \<longrightarrow> toks k = [] \<longrightarrow> toks k' = [])"

definition sample_mounted :: kern where
  "sample_mounted = sample_kern\<lparr>ntab := (\<lambda>r.
     if r = Root then zero_vnode\<lparr>nflags := DIRECTORY, nfs := Some tmpfs, dirents := 0xc0700000\<rparr>
     else if r = Entry 0xc0700000 0 then zero_vnode\<lparr>name := ascii ''mnt'', nflags := DIRECTORY, nfs := Some ext2fs, inode := 2, dirents := 0xc0701000\<rparr>
     else zero_vnode)\<rparr>"

section \<open>The statics of \<open>strtok\<close>\<close>

lemma from_vm_toks: "from_vm f k = Ok (a, k') \<Longrightarrow> toks k' = toks k"
  by (auto simp: from_vm_Ok)

lemma on_vm_toks: "on_vm f k = Ok k' \<Longrightarrow> toks k' = toks k"
  by (auto simp: on_vm_Ok)

lemma refresh_toks: "uses_up drv \<Longrightarrow> refresh drv node k = Ok k' \<Longrightarrow> toks k' = toks k \<or> toks k' = []"
  by (auto simp: refresh_def call_enum_def uses_up_def split: option.splits if_splits)

lemma navigate_toks:
  "uses_up drv \<Longrightarrow> navigate drv p node i k = Ok (e, k') \<Longrightarrow> toks k' = toks k \<or> toks k' = []"
proof (induction drv p node i k rule: navigate.induct)
  case (1 drv p node i k)
  from "1.prems"(2) obtain k1 where d: "\<not> nflags (ntab k node) AND DIRECTORY = 0" and r: "refresh drv node k = Ok k1" and i: "\<not> i > MAX_DIRENTS"
    and n: "(if name (ntab k1 (Entry (dirents (ntab k1 node)) i)) = p then Ok (Entry (dirents (ntab k1 node)) i, k1)
      else if name (ntab k1 (Entry (dirents (ntab k1 node)) i)) = [] then Halt (Spin ''could not find'')
      else navigate drv p node (i + 1) k1) = Ok (e, k')"
    by (subst (asm) navigate.simps) (auto simp: Let_def split: if_splits)
  have t: "toks k1 = toks k \<or> toks k1 = []" by (rule refresh_toks [OF "1.prems"(1) r])
  show ?case
  proof (cases "navigate drv p node (i + 1) k1 = Ok (e, k') \<and> name (ntab k1 (Entry (dirents (ntab k1 node)) i)) \<noteq> p
      \<and> name (ntab k1 (Entry (dirents (ntab k1 node)) i)) \<noteq> []")
    case True
    then have "toks k' = toks k1 \<or> toks k' = []" using "1.IH" [OF d r i refl] "1.prems"(1) by blast
    then show ?thesis using t by auto
  next
    case False
    then have "k' = k1" using n by (auto split: if_splits)
    then show ?thesis using t by simp
  qed
qed

lemma walk_toks:
  "uses_up drv \<Longrightarrow> walk drv path (path_of done) node part k = Ok (e, k') \<Longrightarrow>
    (\<exists>ps. tokens [0x2F] path = done @ ps \<and> toks k = ps \<and> part = first_token ps) \<or> (toks k = [] \<and> part = None \<and> (\<forall>p \<in> set done. is_name p)) \<Longrightarrow> toks k' = []"
proof (induction drv path "path_of done" node part k arbitrary: "done" rule: walk.induct)
  case (1 drv path node part k)
  note inv = "1.prems"(3)
  have names: "\<forall>p \<in> set done. is_name p"
  proof -
    from inv show ?thesis
    proof
      assume "\<exists>ps. tokens [0x2F] path = done @ ps \<and> toks k = ps \<and> part = first_token ps"
      then obtain ps where "tokens [0x2F] path = done @ ps" by blast
      then show ?thesis using tokens_names [of _ path] by (metis Un_iff set_append)
    qed blast
  qed
  show ?case
  proof (cases "path_of done = path")
    case True
    then have "tokens [0x2F] path = done" using tokens_path_of [OF names] by simp
    moreover have "k' = k" using "1.prems"(2) True by (subst (asm) walk.simps) simp
    ultimately show ?thesis using inv by auto
  next
    case False
    from "1.prems"(2) False obtain p e1 k1 where len: "\<not> length (path_of done) + 1 \<ge> 4096" and p: "part = Some p"
      and nav: "navigate drv p node 0 k = Ok (e1, k1)" and len2: "\<not> length (path_of done @ [0x2F]) + length p \<ge> 4096"
      and w: "walk drv path ((path_of done @ [0x2F]) @ p) e1 (fst (next_token k1)) (snd (next_token k1)) = Ok (e, k')"
      by (subst (asm) walk.simps) (auto simp: Let_def split_beta split: if_splits option.splits)
    from inv p obtain ps where ps: "tokens [0x2F] path = done @ ps" "toks k = ps" "first_token ps = Some p" by auto
    then obtain qs where qs: "ps = p # qs" by (cases ps) (auto simp: first_token_def)
    have t1: "toks k1 = p # qs \<or> toks k1 = []" using navigate_toks [OF "1.prems"(1) nav] ps qs by simp
    have pd: "is_name p" using ps(1) qs tokens_names [of p path] by simp
    have inv': "(\<exists>ps. tokens [0x2F] path = (done @ [p]) @ ps \<and> toks (snd (next_token k1)) = ps \<and> fst (next_token k1) = first_token ps)
        \<or> (toks (snd (next_token k1)) = [] \<and> fst (next_token k1) = None \<and> (\<forall>q \<in> set (done @ [p]). is_name q))"
      using t1 ps(1) qs names pd by (auto simp: next_token_def first_token_def Let_def)
    have IH: "walk drv path (path_of (done @ [p])) e1 (fst (next_token k1)) (snd (next_token k1)) = Ok (e, k')" using w by simp
    show ?thesis
      using "1.hyps" [OF False len refl p nav len2 _ refl, of "fst (next_token k1)" "snd (next_token k1)" "done @ [p]"] "1.prems"(1) IH inv' by simp
  qed
qed

lemma getnode_toks:
  assumes "uses_up drv" and "getnode drv path k = Ok (n, k')"
  shows "toks k' = []"
proof -
  from assms(2) obtain c k1 p k2 k3 k4 where "from_vm kmalloc k = Ok (c, k1)" "from_vm kmalloc k1 = Ok (p, k2)"
    and w: "walk drv path [] Root (first_token (tokens [0x2F] path)) (k2\<lparr>toks := tokens [0x2F] path\<rparr>) = Ok (n, k3)"
    and f: "on_vm (kfree c) k3 = Ok k4" "on_vm (kfree p) k4 = Ok k'"
    by (auto simp: getnode_def first_token_def Let_def split: if_splits prod.splits)
  have "walk drv path (path_of []) Root (first_token (tokens [0x2F] path)) (k2\<lparr>toks := tokens [0x2F] path\<rparr>) = Ok (n, k3)" using w by simp
  from walk_toks [OF assms(1) this] have "toks k3 = []" by simp
  then show ?thesis using on_vm_toks [OF f(1)] on_vm_toks [OF f(2)] by simp
qed

lemma vopen_toks:
  assumes "uses_up drv" and "vopen drv path mode k = Ok (fd, k')"
  shows "toks k' = []"
proof -
  from assms(2) obtain k1 n k2 where g: "getnode drv path k1 = Ok (n, k2)" and "toks k' = toks k2"
    by (auto simp: vopen_def set_fd_def split: option.splits)
  then show ?thesis using getnode_toks [OF assms(1) g] by simp
qed

lemma vseek_toks: "vseek fd c w k = Ok (a, k') \<Longrightarrow> toks k' = toks k"
  by (auto simp: vseek_def set_fd_def Let_def)

lemma vclose_toks: "vclose fd k = Ok k' \<Longrightarrow> toks k' = toks k"
  by (auto simp: vclose_def set_fd_def Let_def split: if_splits)

lemma new_vnode_toks: "new_vnode par nm k = Ok (n, k') \<Longrightarrow> toks k' = toks k"
  by (auto simp: new_vnode_def Let_def upd_node_def dest!: from_vm_toks split: if_splits)

lemma read_now_toks:
  assumes "uses_up drv" and "read_now hw drv fd buf count k = Ok k'" and "toks k = []"
  shows "toks k' = []"
proof -
  from assms(2) obtain p f n where "call_read hw drv p buf count f n k = Ok (Done, k')"
    by (auto simp: read_now_def vread_def Let_def split: if_splits option.splits)
  then show ?thesis using assms(1,3)
    by (auto simp: call_read_def dev_read_def read_drive_def read_tty_def uses_up_def tmpread_def Let_def dest!: on_vm_toks split: if_splits)
qed

lemma get_inode_toks:
  assumes u: "uses_up drv" and g: "get_inode hw drv vnode k = Ok (a, k')"
  shows "toks k' = []"
proof -
  from g obtain v k1 k2 c k3 t k4 i k5 k6 k7 k8 b where o: "vopen drv volume_path 1 k1 = Ok (v, k2)" and s: "vseek v c 0 k2 = Ok (t, k3)"
    and r: "read_now hw drv v b 8 k3 = Ok k4" and rest: "from_vm kmalloc k4 = Ok (i, k5)" "toks k6 = toks k5" "on_vm (kfree b) k6 = Ok k7" "vclose v k7 = Ok k8" "k' = k8"
    unfolding get_inode_def Let_def by (auto dest: on_vm_toks)
  have "toks k4 = []" using read_now_toks [OF u r] vseek_toks [OF s] vopen_toks [OF u o] by simp
  then show ?thesis using rest from_vm_toks [OF rest(1)] on_vm_toks [OF rest(3)] vclose_toks [OF rest(4)] by simp
qed

lemma ext2_read_toks:
  assumes u: "uses_up drv" and g: "ext2_read hw drv buf count pos vnode k = Ok k'"
  shows "toks k' = []"
proof -
  from g obtain i k1 v k2 b k3 c t k4 n k5 k6 where o: "vopen drv volume_path 1 k1 = Ok (v, k2)" and f: "from_vm (inode_block0 i) k2 = Ok (b, k3)"
    and s: "vseek v c 0 k3 = Ok (t, k4)" and r: "read_now hw drv v buf n k4 = Ok k5" and c: "vclose v k5 = Ok k6" "on_vm (kfree i) k6 = Ok k'"
    unfolding ext2_read_def Let_def by auto
  have "toks k5 = []" using read_now_toks [OF u r] vseek_toks [OF s] from_vm_toks [OF f] vopen_toks [OF u o] by simp
  then show ?thesis using vclose_toks [OF c(1)] on_vm_toks [OF c(2)] by simp
qed

lemma add_dirent_toks:
  assumes u: "uses_up drv" and g: "add_dirent hw drv vnode entry nm ino nl k = Ok k'"
  shows "toks k' = []"
proof -
  from g obtain n k1 i k2 sz k3 ty k4 where "get_inode hw drv n k1 = Ok (i, k2)" "from_vm (inode_size_lo i) k2 = Ok (sz, k3)"
    "from_vm (read8 kaccess (entry + 7)) k3 = Ok (ty, k4)" "toks k' = toks k4"
    unfolding add_dirent_def by (auto simp: upd_node_def)
  then show ?thesis using get_inode_toks [OF u] from_vm_toks by metis
qed

lemma enum_loop_toks:
  "uses_up drv \<Longrightarrow> enum_loop hw drv vnode page nm off k = Ok k' \<Longrightarrow> toks k = [] \<Longrightarrow> toks k' = []"
proof (induction hw drv vnode page nm off k rule: enum_loop.induct)
  case (1 hw drv vnode page nm off k)
  from "1.prems"(2) obtain ino k1 where off: "\<not> off + 8 > 4096" and r: "from_vm (read32 kaccess (page + of_nat off)) k = Ok (ino, k1)"
    and rest: "(if ino = 0 then Ok k1 else bind_ok (from_vm (read8 kaccess (page + of_nat off + 6)) k1) (\<lambda>(name_length, k).
              if ino = inode (ntab k vnode)
              then enum_loop hw drv vnode page nm (next_dirent off (unat name_length)) k
              else bind_ok (add_dirent hw drv vnode (page + of_nat off) nm ino name_length k)
                     (enum_loop hw drv vnode page nm (next_dirent off (unat name_length))))) = Ok k'"
    by (subst (asm) enum_loop.simps) (auto simp: Let_def split: if_splits)
  have t1: "toks k1 = []" using from_vm_toks [OF r] "1.prems"(3) by simp
  show ?case
  proof (cases "ino = 0")
    case True
    then show ?thesis using rest t1 by simp
  next
    case False
    with rest obtain nl k2 where n: "from_vm (read8 kaccess (page + of_nat off + 6)) k1 = Ok (nl, k2)"
      and l: "(if ino = inode (ntab k2 vnode) then enum_loop hw drv vnode page nm (next_dirent off (unat nl)) k2
        else bind_ok (add_dirent hw drv vnode (page + of_nat off) nm ino nl k2) (enum_loop hw drv vnode page nm (next_dirent off (unat nl)))) = Ok k'"
      by auto
    have t2: "toks k2 = []" using from_vm_toks [OF n] t1 by simp
    show ?thesis
    proof (cases "ino = inode (ntab k2 vnode)")
      case True
      then show ?thesis using "1.IH"(1) [OF off refl r refl False n refl True "1.prems"(1)] l t2 by simp
    next
      case ne: False
      with l obtain k3 where a: "add_dirent hw drv vnode (page + of_nat off) nm ino nl k2 = Ok k3"
        and e: "enum_loop hw drv vnode page nm (next_dirent off (unat nl)) k3 = Ok k'" by auto
      show ?thesis using "1.IH"(2) [OF off refl r refl False n refl ne a "1.prems"(1) e] add_dirent_toks [OF "1.prems"(1) a] by simp
    qed
  qed
qed

lemma ext2_enum_toks:
  assumes u: "uses_up drv" and g: "ext2_enum hw drv vnode k = Ok k'"
  shows "toks k' = []"
proof -
  from g obtain i k1 v k2 b k3 c t k4 e k5 n k6 k7 k9 k10 where o: "vopen drv volume_path 1 k1 = Ok (v, k2)" and f: "from_vm (inode_block0 i) k2 = Ok (b, k3)"
    and s: "vseek v c 0 k3 = Ok (t, k4)" and r: "read_now hw drv v e 8 k4 = Ok k5" and m: "from_vm kmalloc k5 = Ok (n, k6)"
    and l: "enum_loop hw drv vnode e n 0 k6 = Ok k7" and c: "on_vm (kfree n) (upd_node vnode (\<lambda>v. v\<lparr>nflags := nflags v OR 0x40000000\<rparr>) k7) = Ok k9" "on_vm (kfree i) k9 = Ok k10" "vclose v k10 = Ok k'"
    unfolding ext2_enum_def Let_def by (auto split: if_splits)
  have "toks k5 = []" using read_now_toks [OF u r] vseek_toks [OF s] from_vm_toks [OF f] vopen_toks [OF u o] by simp
  then have "toks k7 = []" using enum_loop_toks [OF u l] from_vm_toks [OF m] by simp
  then show ?thesis using on_vm_toks [OF c(1)] on_vm_toks [OF c(2)] vclose_toks [OF c(3)] by simp
qed

lemma drivers_use_up: "uses_up (drivers_at hw n)"
proof (induction n)
  case 0
  then show ?case by (simp add: uses_up_def)
next
  case (Suc n)
  show ?case unfolding uses_up_def drivers_at.simps drivers.select_convs using ext2_enum_toks [OF Suc] ext2_read_toks [OF Suc] by blast
qed

section \<open>Lookups below a mounted file system\<close>

lemma walk_prefix:
  assumes "tokens [0x2F] path = done @ ps @ qs" and "qs \<noteq> []" and "toks k = ps @ qs" and "static_path k n ps" and "resolve k n ps = Ok m" and "length path < 4093"
  shows "walk drv path (path_of done) n (first_token (ps @ qs)) k = walk drv path (path_of (done @ ps)) m (first_token qs) (k\<lparr>toks := qs\<rparr>)"
  using assms(1,3-5)
proof (induction ps arbitrary: "done" n k)
  case Nil
  have q: "qs = toks k" using Nil(2) by simp
  show ?case unfolding q using Nil(4) by simp
next
  case (Cons p ps)
  have names: "\<forall>q \<in> set (done @ p # ps @ qs). is_name q" using tokens_names Cons.prems(1) by (metis append_Cons)
  then have ne: "path_of done \<noteq> path" using tokens_path_of [of "done"] Cons.prems(1) by auto
  have "length (path_of (done @ p # ps @ qs)) \<le> length path + 1" using path_of_tokens Cons.prems(1) by (metis append_Cons)
  then have len: "length (path_of done) + 1 + length p \<le> length path + 1" by simp
  from Cons.prems(4) obtain e where e: "is_dir k n" "child k (dirents (ntab k n)) p = Ok e" "resolve k e ps = Ok m" by (auto split: if_splits)
  have st: "static_node k n" "static_path k e ps" using Cons.prems(3) e by simp_all
  have nav: "navigate drv p n 0 k = Ok (e, k)" using navigate_child [of p k n drv] names e st by (simp add: is_name_def)
  have "walk drv path (path_of done) n (first_token ((p # ps) @ qs)) k = walk drv path (path_of (done @ [p])) e (first_token (ps @ qs)) (k\<lparr>toks := ps @ qs\<rparr>)"
    using ne len assms(6) nav next_token_eq [of k p "ps @ qs"] Cons.prems(2) by (subst walk.simps) (simp add: first_token_def Let_def)
  also have "\<dots> = walk drv path (path_of ((done @ [p]) @ ps)) m (first_token qs) (k\<lparr>toks := ps @ qs, toks := qs\<rparr>)"
    by (rule Cons.IH) (use Cons.prems st e in simp_all)
  finally show ?case by simp
qed

lemma navigate_listed:
  assumes "uses_up drv" and "nfs (ntab k n) = Some ext2fs" and "navigate drv p n 0 k = Ok (e, k')"
  shows "toks k' = []"
proof -
  from assms(3) obtain k1 where r: "refresh drv n k = Ok k1" and rest: "toks k' = toks k1 \<or> navigate drv p n 1 k1 = Ok (e, k')"
    by (subst (asm) navigate.simps) (auto simp: Let_def split: if_splits)
  have "toks k1 = []" using r assms(1,2) by (simp add: refresh_def ext2fs_def call_enum_def uses_up_def)
  then show ?thesis using rest navigate_toks [OF assms(1)] by metis
qed

lemma getnode_below_mount:
  assumes ts: "tokens [0x2F] path = ps @ p # q # rest" and st: "static_path k Root ps" and m: "resolve k Root ps = Ok m" "nfs (ntab k m) = Some ext2fs"
    and len: "length path < 4093" and u: "uses_up drv"
  shows "getnode drv path k \<noteq> Ok r"
proof
  assume run: "getnode drv path k = Ok r"
  then obtain c k1 d k2 n k3 where a: "from_vm kmalloc k = Ok (c, k1)" "from_vm kmalloc k1 = Ok (d, k2)"
    and w: "walk drv path [] Root (first_token (tokens [0x2F] path)) (k2\<lparr>toks := tokens [0x2F] path\<rparr>) = Ok (n, k3)"
    by (cases r) (auto simp: getnode_def first_token_def Let_def split: if_splits prod.splits)
  obtain v where k2: "k2 = set_vm v k" using a by (auto simp: from_vm_Ok)
  let ?k = "set_vm v (k\<lparr>toks := p # q # rest\<rparr>)"
  have pre: "walk drv path (path_of []) Root (first_token (ps @ p # q # rest)) ((set_vm v k)\<lparr>toks := ps @ p # q # rest\<rparr>)
      = walk drv path (path_of ([] @ ps)) m (first_token (p # q # rest)) ((set_vm v k)\<lparr>toks := ps @ p # q # rest, toks := p # q # rest\<rparr>)"
    by (rule walk_prefix) (use ts st m len in simp_all)
  have w': "walk drv path (path_of ps) m (Some p) ?k = Ok (n, k3)" using w pre by (simp add: k2 ts first_token_def)
  have names: "\<forall>x \<in> set (ps @ p # q # rest). is_name x" using tokens_names ts by metis
  have ne: "path_of ps \<noteq> path" "path_of (ps @ [p]) \<noteq> path"
    using tokens_path_of [of ps] tokens_path_of [of "ps @ [p]"] names ts by auto
  from w' ne(1) obtain e k4 where nav: "navigate drv p m 0 ?k = Ok (e, k4)"
    and w2: "walk drv path (path_of (ps @ [p])) e (fst (next_token k4)) (snd (next_token k4)) = Ok (n, k3)"
    by (subst (asm) walk.simps) (auto simp: Let_def split_beta split: if_splits)
  have "toks k4 = []" by (rule navigate_listed [OF u _ nav]) (simp add: m)
  then have "fst (next_token k4) = None" by (simp add: next_token_def)
  then show False using w2 ne(2) by (subst (asm) walk.simps) (simp split: if_splits)
qed


section \<open>Properties\<close>

text \<open>
  C27. A mounted ext2 file system is one level deep: listing a directory looks up \<^verbatim>\<open>/dev/nvme5\<close>, which uses up
  the tokens \<^verbatim>\<open>strtok\<close> keeps for the lookup that is under way. So no lookup of a path that goes on below
  an entry of an ext2 directory succeeds, whatever is on the disk.
\<close>

theorem ext2_one_level:
  assumes "tokens [0x2F] path = ps @ p # q # rest" and "static_path k Root ps" and "resolve k Root ps = Ok m"
    and "nfs (ntab k m) = Some ext2fs" and "length path < 4093"
  shows "getnode (drivers_at hw d) path k \<noteq> Ok r"
  using assms drivers_use_up by (rule getnode_below_mount)

theorem ext2_one_level_witness: "getnode (drivers_at idle_controller 2) (ascii ''/mnt/a/b'') sample_mounted \<noteq> Ok (Root, sample_mounted)"
proof -
  have t: "tokens [0x2F] (ascii ''/mnt/a/b'') = [ascii ''mnt''] @ ascii ''a'' # ascii ''b'' # []" by (simp add: tokens_def cut_def ascii_def)
  have ch: "children sample_mounted 0xc0700000 = [ascii ''mnt'']" by (simp add: children_def sample_mounted_def zero_vnode_def upt_conv_Cons ascii_def)
  have root: "dirents (ntab sample_mounted Root) = 0xc0700000" "is_dir sample_mounted Root" "static_node sample_mounted Root"
    by (simp_all add: sample_mounted_def is_dir_def static_node_def tmpfs_def)
  have c: "child sample_mounted 0xc0700000 (ascii ''mnt'') = Ok (Entry 0xc0700000 0)" by (simp add: child_def ch)
  have "static_path sample_mounted Root [ascii ''mnt'']" "resolve sample_mounted Root [ascii ''mnt''] = Ok (Entry 0xc0700000 0)"
    "nfs (ntab sample_mounted (Entry 0xc0700000 0)) = Some ext2fs" "length (ascii ''/mnt/a/b'') < 4093"
    using root c by (simp_all add: ascii_def) (simp add: sample_mounted_def)
  from ext2_one_level [OF t this] show ?thesis .
qed

end
