(* ===== verification/Interrupts.thy ===== *)
theory Interrupts
  imports Ext2
begin

text \<open>
  How the hardware reaches the BarrelOS kernel: the interrupt descriptor table and the interrupt
  controllers (\<^verbatim>\<open>kernel/idt/idt.c\<close>), the timer (\<^verbatim>\<open>drivers/timer.c\<close>), the keyboard
  (\<^verbatim>\<open>drivers/keyboard.c\<close>), the dispatcher (\<^verbatim>\<open>kernel/idt/interrupt_handlers.c\<close>), the system call
  table (\<^verbatim>\<open>kernel/syscall.c\<close>) and the start of the kernel (\<^verbatim>\<open>kernel/kernel.c\<close>). The 8259 and 8254 chips are
  their documented registers. The stub addresses \<open>isrs\<close> come from assembly. A system call that
  waits for the keyboard has not returned: \<open>Waiting\<close> says what it will do when its process runs again.
\<close>

section \<open>Interrupt descriptor table\<close>

record idt_entry_t =
  base_lo :: u16
  segment :: u16
  reserved :: u8
  flags :: u8
  base_hi :: u16

record idt_descriptor =
  limit :: u16
  base :: u32

definition idt_gate :: "u32 \<Rightarrow> idt_entry_t" where
  "idt_gate isr = \<lparr>base_lo = ucast (isr AND 0xFFFF), segment = 0x0008, reserved = 0,
     flags = push_bit 4 0x8 OR 0xE, base_hi = ucast (drop_bit 16 isr AND 0xFFFF)\<rparr>"

section \<open>Interrupt controllers\<close>

text \<open>
  An 8259: after \<open>0x11\<close> on the command port the next three data writes are vector offset, wiring
  and mode; other data writes set the mask; \<open>0x20\<close> on the command port ends the interrupt in service.
\<close>

record pic =
  icw :: nat
  voffset :: u8
  wiring :: u8
  icw4 :: u8
  imask :: u8
  in_service :: bool

definition pic_command :: "u8 \<Rightarrow> pic \<Rightarrow> pic" where
  "pic_command v p =
     (if v = 0x11 then p\<lparr>icw := 1\<rparr> else if v = 0x20 then p\<lparr>in_service := False\<rparr> else p)"

definition pic_data :: "u8 \<Rightarrow> pic \<Rightarrow> pic" where
  "pic_data v p =
     (if icw p = 1 then p\<lparr>voffset := v, icw := 2\<rparr>
      else if icw p = 2 then p\<lparr>wiring := v, icw := 3\<rparr>
      else if icw p = 3 then p\<lparr>icw4 := v, icw := 0\<rparr>
      else p\<lparr>imask := v\<rparr>)"

text \<open>The pair, by port: \<open>0x20/0x21\<close> master, \<open>0xa0/0xa1\<close> slave.\<close>

definition pics_out :: "u16 \<Rightarrow> u8 \<Rightarrow> pic \<times> pic \<Rightarrow> pic \<times> pic" where
  "pics_out port v ps =
     (let (master, slave) = ps in
      if port = 0x20 then (pic_command v master, slave)
      else if port = 0x21 then (pic_data v master, slave)
      else if port = 0xa0 then (master, pic_command v slave)
      else if port = 0xa1 then (master, pic_data v slave)
      else ps)"

definition init_pic :: "pic \<times> pic \<Rightarrow> pic \<times> pic" where
  "init_pic ps =
     (let ps = pics_out 0x20 0x11 ps;
          ps = pics_out 0xa0 0x11 ps;
          ps = pics_out 0x21 0x20 ps;
          ps = pics_out 0xa1 0x28 ps;
          ps = pics_out 0x21 0x04 ps;
          ps = pics_out 0xa1 0x02 ps;
          ps = pics_out 0x21 0x01 ps;
          ps = pics_out 0xa1 0x01 ps;
          ps = pics_out 0x21 0xFC ps
      in pics_out 0xa1 0xFF ps)"

section \<open>Timer\<close>

text \<open>
  Channel 0 of the 8254: a command selects access mode and operating mode, then the low and the
  high byte of the reload value follow.
\<close>

record pit =
  pit_mode :: u8
  pit_high_next :: bool
  pit_latch :: u8
  pit_reload :: u16

definition pit_out :: "u16 \<Rightarrow> u8 \<Rightarrow> pit \<Rightarrow> pit" where
  "pit_out port v p =
     (if port = 0x43 then p\<lparr>pit_mode := v, pit_high_next := False\<rparr>
      else if port = 0x40
      then (if pit_high_next p
            then p\<lparr>pit_reload := push_bit 8 (ucast v) OR ucast (pit_latch p), pit_high_next := False\<rparr>
            else p\<lparr>pit_latch := v, pit_high_next := True\<rparr>)
      else p)"

definition init_timer :: "u16 \<Rightarrow> pit \<Rightarrow> pit" where
  "init_timer counter p =
     (let hi = ucast (drop_bit 8 counter AND 0xFF) :: u8;
          lo = ucast (counter AND 0xFF) :: u8;
          p = pit_out 0x43 0x36 p;
          p = pit_out 0x40 lo p
      in pit_out 0x40 hi p)"

definition tick :: "u32 \<Rightarrow> u32" where
  "tick time = time + 1"

text \<open>\<^verbatim>\<open>while (time < time_at_call + ms);\<close>, polling the clock \<open>now\<close> (its value at each poll); the
  number of polls it takes.\<close>

partial_function (option) delay_loop :: "(nat \<Rightarrow> u32) \<Rightarrow> u32 \<Rightarrow> u32 \<Rightarrow> nat \<Rightarrow> nat option" where
  "delay_loop now time_at_call ms k =
     (if now k < time_at_call + ms then delay_loop now time_at_call ms (Suc k) else Some k)"

definition delay :: "(nat \<Rightarrow> u32) \<Rightarrow> u32 \<Rightarrow> nat option" where
  "delay now ms = delay_loop now (now 0) ms 1"

section \<open>Keyboard\<close>

text \<open>The scan codes \<^verbatim>\<open>keypress\<close> knows, with the character each one types.\<close>

definition keymap :: "(u8 \<times> u8) list" where
  "keymap =
     [(0x01, 0x1B), (0x0E, 0x08), (0x10, 0x71), (0x11, 0x77), (0x12, 0x65), (0x13, 0x72),
      (0x14, 0x74), (0x15, 0x79), (0x16, 0x75), (0x17, 0x69), (0x18, 0x6F), (0x19, 0x70),
      (0x1A, 0x5B), (0x1B, 0x5D), (0x1C, 0x0A), (0x1E, 0x61), (0x1F, 0x73), (0x20, 0x64),
      (0x21, 0x66), (0x22, 0x67), (0x23, 0x68), (0x24, 0x6A), (0x25, 0x6B), (0x26, 0x6C),
      (0x27, 0x3B), (0x28, 0x27), (0x29, 0x60), (0x2B, 0x5C), (0x2C, 0x7A), (0x2D, 0x78),
      (0x2E, 0x63), (0x2F, 0x76), (0x30, 0x62), (0x31, 0x6E), (0x32, 0x6D), (0x33, 0x2C),
      (0x34, 0x2E), (0x35, 0x2F), (0x39, 0x20)]"

definition keypress :: "u8 \<Rightarrow> console \<times> sched \<Rightarrow> console \<times> sched" where
  "keypress scancode st =
     (case map_of keymap scancode of None \<Rightarrow> st | Some key \<Rightarrow> keybuffer key st)"

section \<open>The machine\<close>

record machine =
  kn :: kern
  mtime :: u32
  mpics :: "pic \<times> pic"
  mpit :: pit
  mcr2 :: u32
  midt :: "idt_entry_t list"
  midtr :: idt_descriptor

text \<open>The table and the descriptor \<^verbatim>\<open>lidt\<close> loads, for the stub addresses \<open>isrs\<close> and the table's address.\<close>

definition init_idt :: "(nat \<Rightarrow> u32) \<Rightarrow> u32 \<Rightarrow> machine \<Rightarrow> machine" where
  "init_idt isrs idt_addr m =
     (let m = m\<lparr>mpics := init_pic (mpics m)\<rparr>;
          idt_entry = map (\<lambda>i. idt_gate (isrs i)) [0..<256];
          idt_entry = idt_entry[0x80 := (idt_entry ! 0x80)\<lparr>flags := push_bit 4 0xE OR 0xE\<rparr>]
      in m\<lparr>midt := idt_entry, midtr := \<lparr>limit = 0x7ff, base = idt_addr\<rparr>\<rparr>)"

section \<open>System calls\<close>

definition set_eax :: "u32 \<Rightarrow> kern \<Rightarrow> kern" where
  "set_eax v k = k\<lparr>ksched := (ksched k)\<lparr>frame := (frame (ksched k))\<lparr>eax := v\<rparr>\<rparr>\<rparr>"

text \<open>\<^verbatim>\<open>fork\<close> copies the page of descriptors byte by byte; the typed table moves with it.\<close>

definition kfork :: "kern \<Rightarrow> kern outcome" where
  "kfork k =
     bind_ok (fd_table k) (\<lambda>parent.
     bind_ok (fork (ksched k)) (\<lambda>sc.
       Ok (k\<lparr>ksched := sc, fdt := (fdt k)(fd_tables sc 2 := fdt k parent)\<rparr>)))"

text \<open>A C string argument, in the memory of the caller.\<close>

definition string_arg :: "u32 \<Rightarrow> kern \<Rightarrow> (u8 list \<times> kern) outcome" where
  "string_arg a k = from_vm (\<lambda>m. total ''string argument'' (vstring a m)) k"

definition syscall :: "controller \<Rightarrow> drivers \<Rightarrow> kern \<Rightarrow> (progress \<times> kern) outcome" where
  "syscall hw drv k =
     (let stack = frame (ksched k); call = edx stack; finished = (\<lambda>k. Ok (Done, k)) in
      if call = 0
      then bind_ok (string_arg (eax stack) k) (\<lambda>(path, k).
           bind_ok (vopen drv path (ucast (ebx stack)) k) (\<lambda>(fd, k). finished (set_eax (ucast fd) k)))
      else if call = 1 then bind_ok (vwrite (ucast (ebx stack)) (eax stack) (ecx stack) k) finished
      else if call = 2 then vread hw drv (ucast (ebx stack)) (eax stack) (ecx stack) k
      else if call = 3 then finished (k\<lparr>kcon := clearscreen (kcon k)\<rparr>)
      else if call = 4
      then bind_ok (from_vm (Vmm.mmap (eax stack) (ebx stack) (ucast (ecx stack))) k) (\<lambda>(a, k). finished (set_eax a k))
      else if call = 5 then bind_ok (kfork k) finished
      else if call = 6
      then bind_ok (string_arg (eax stack) k) (\<lambda>(binary, k). bind_ok (exec hw drv binary k) finished)
      else if call = 7 then finished k
      else Halt (KPanic ''invalid syscall''))"

section \<open>Dispatch\<close>

definition timer_interrupt :: "machine \<Rightarrow> machine outcome option" where
  "timer_interrupt m =
     (let m = m\<lparr>mtime := tick (mtime m)\<rparr>
      in map_option (\<lambda>r. bind_ok r (\<lambda>sc. Ok (m\<lparr>kn := (kn m)\<lparr>ksched := sc\<rparr>\<rparr>))) (scheduler (ksched (kn m))))"

text \<open>\<open>reads\<close> are the two values port \<open>0x60\<close> gives; the handler discards the first.\<close>

definition keyboard_interrupt :: "u8 \<times> u8 \<Rightarrow> machine \<Rightarrow> machine" where
  "keyboard_interrupt reads m =
     (let (c, sc) = keypress (snd reads) (kcon (kn m), ksched (kn m)) in m\<lparr>kn := (kn m)\<lparr>kcon := c, ksched := sc\<rparr>\<rparr>)"

definition interrupt_handler :: "controller \<Rightarrow> drivers \<Rightarrow> u8 \<times> u8 \<Rightarrow> isr_stack_t \<Rightarrow> machine \<Rightarrow> (progress \<times> machine) outcome option" where
  "interrupt_handler hw drv reads stack m =
     (let m = m\<lparr>kn := (kn m)\<lparr>ksched := (ksched (kn m))\<lparr>frame := stack\<rparr>\<rparr>\<rparr>;
          m = (if vector stack = 0x20 \<or> vector stack = 0x21
               then m\<lparr>mpics := pics_out 0x20 0x20 (mpics m)\<rparr> else m)
      in if vector stack = 0x0e
         then Some (bind_ok (on_vm (page_fault (error stack) (mcr2 m)) (kn m)) (\<lambda>k. Ok (Done, m\<lparr>kn := k\<rparr>)))
         else if vector stack = 0x20 then map_option (\<lambda>r. bind_ok r (\<lambda>m. Ok (Done, m))) (timer_interrupt m)
         else if vector stack = 0x21 then Some (Ok (Done, keyboard_interrupt reads m))
         else if vector stack = 0x80 then Some (bind_ok (syscall hw drv (kn m)) (\<lambda>(p, k). Ok (p, m\<lparr>kn := k\<rparr>)))
         else Some (Halt (Spin ''Unhandled Exception'')))"

text \<open>The rest of a read of the terminal, when its process runs again.\<close>

definition resume_read :: "progress \<Rightarrow> kern \<Rightarrow> kern outcome" where
  "resume_read p k =
     (case p of Done \<Rightarrow> Ok k
      | Waiting buf count \<Rightarrow> bind_ok (sendbuffer_resume buf count (kcon k)) (\<lambda>c. Ok (k\<lparr>kcon := c\<rparr>)))"

section \<open>Start of the kernel\<close>

definition barrel_kernel :: "controller \<Rightarrow> drivers \<Rightarrow> machine \<Rightarrow> machine outcome" where
  "barrel_kernel hw drv m =
     bind_ok (init_vfs hw (kn m)) (\<lambda>k.
     bind_ok (init_scheduler (ksched k)) (\<lambda>sc.
     bind_ok (from_vm (Vmm.mmap 0x00 4096 1) (k\<lparr>ksched := sc\<rparr>)) (\<lambda>(_, k).
     bind_ok (from_vm (Vmm.mmap 0xbffff000 4096 1) k) (\<lambda>(_, k).
     bind_ok (mount hw drv (ascii ''/dev/nvme5'') (ascii ''/mnt'') ext2fs k) (\<lambda>k.
     bind_ok (vopen drv (ascii ''/mnt/shell.bin'') 0x1 k) (\<lambda>(shell, k).
     bind_ok (vstat shell k) (\<lambda>sz.
     bind_ok (read_now hw drv shell 0 sz k) (\<lambda>k.
     bind_ok (vclose shell k) (\<lambda>k.
       Ok (m\<lparr>kn := k\<lparr>kcon := clearscreen (kcon k)\<rparr>, mpit := init_timer 11930 (mpit m)\<rparr>))))))))))"

section \<open>Specification\<close>

text \<open>How the processor reads a gate: target, present bit, privilege needed to call it by software.\<close>

definition gate_target :: "idt_entry_t \<Rightarrow> u32" where
  "gate_target e = push_bit 16 (ucast (base_hi e)) OR ucast (base_lo e)"

definition gate_present :: "idt_entry_t \<Rightarrow> bool" where
  "gate_present e \<longleftrightarrow> bit (flags e) 7"

definition user_callable :: "idt_entry_t \<Rightarrow> bool" where
  "user_callable e \<longleftrightarrow> gate_present e \<and> drop_bit 5 (flags e) AND 3 = 3"

text \<open>The vector of a hardware interrupt line (0 to 15), if it is not masked.\<close>

definition irq_vector :: "pic \<times> pic \<Rightarrow> nat \<Rightarrow> u8 option" where
  "irq_vector ps i =
     (if i < 8 then (if bit (imask (fst ps)) i then None else Some (voffset (fst ps) + of_nat i))
      else if bit (imask (snd ps)) (i - 8) then None else Some (voffset (snd ps) + of_nat (i - 8)))"

section \<open>Specification\<close>

definition gate_kernel :: "idt_entry_t \<Rightarrow> bool" where
  "gate_kernel e \<longleftrightarrow> segment e = 0x0008 \<and> reserved e = 0 \<and> flags e AND 0x1F = 0xE"

definition idle_pic :: pic where
  "idle_pic = \<lparr>icw = 0, voffset = 8, wiring = 0, icw4 = 0, imask = 0, in_service = True\<rparr>"

definition sample_machine :: machine where
  "sample_machine = \<lparr>kn = sample_kern, mtime = 0, mpics = (idle_pic, idle_pic),
     mpit = \<lparr>pit_mode = 0, pit_high_next = False, pit_latch = 0, pit_reload = 0\<rparr>, mcr2 = 0, midt = [], midtr = \<lparr>limit = 0, base = 0\<rparr>\<rparr>"

text \<open>The cell at the head of the queue lies outside everything the console writes.\<close>

definition queue_ok :: "console \<Rightarrow> bool" where
  "queue_ok s \<longleftrightarrow> (\<forall>i < 4. let x = queue_head s + of_nat i in
     \<not> in_page (buf_start s) x \<and> \<not> in_page (framecopy s) x \<and> \<not> in_page (scratch s) x
     \<and> (unat x < 0xc00b8000 \<or> 0xc00d8000 \<le> unat x))"

text \<open>Keyboard interrupts one after the other; the port gives the same code to both reads.\<close>

fun keystrokes :: "controller \<Rightarrow> drivers \<Rightarrow> isr_stack_t \<Rightarrow> u8 list \<Rightarrow> machine \<Rightarrow> machine outcome option" where
  "keystrokes hw drv stack [] m = Some (Ok m)"
| "keystrokes hw drv stack (sc # scs) m =
     Option.bind (interrupt_handler hw drv (sc, sc) (stack\<lparr>vector := 0x21\<rparr>) m) (\<lambda>r.
       case r of Halt h \<Rightarrow> Some (Halt h) | Ok (p, m) \<Rightarrow> keystrokes hw drv stack scs m)"

definition printable :: "u8 \<Rightarrow> u8 \<Rightarrow> bool" where
  "printable sc c \<longleftrightarrow> map_of keymap sc = Some c \<and> 0x20 \<le> c"

text \<open>One printable key: the line grows by it, and the queue stays as it is.\<close>

definition typed :: "console \<Rightarrow> console \<Rightarrow> u8 list \<Rightarrow> bool" where
  "typed s t ks \<longleftrightarrow> terminal_ok t \<and> queue_ok t \<and> line t = line s @ ks \<and> unat (buf_length t) = unat (buf_length s) + length ks
     \<and> buf_start t = buf_start s \<and> scratch t = scratch s \<and> queue_head t = queue_head s \<and> queue_tail t = queue_tail s
     \<and> load32 (kmem t) (queue_head s) = load32 (kmem s) (queue_head s)"

definition sample_tty :: machine where
  "sample_tty = sample_machine\<lparr>kn := sample_kern\<lparr>
     ksched := sample_sched\<lparr>fd_tables := (\<lambda>_. 0xc0700000)\<rparr>,
     ntab := (\<lambda>_. zero_vnode\<lparr>name := ascii ''tty'', nfs := Some devfs\<rparr>), fdt := (\<lambda>_ _. \<lparr>fnode = Some Root, fmode = 3, position = 0\<rparr>),
     kcon := sample_console\<lparr>buf_length := 0, queue_tail := queue_head sample_console\<rparr>\<rparr>\<rparr>"

definition read_call :: isr_stack_t where
  "read_call = (pstack sample_proc)\<lparr>vector := 0x80, edx := 2, eax := 0xbfff0000\<rparr>"

section \<open>Gates and lines\<close>

lemma gate_target_idt: "gate_target (idt_gate isr) = isr"
proof (rule bit_word_eqI)
  fix n assume "n < LENGTH(32)"
  moreover have "bit (0xFFFF :: int) j \<longleftrightarrow> j < 16" for j
    using bit_mask_iff [of 16 j, where 'a = int] by (simp add: mask_numeral)
  ultimately show "bit (gate_target (idt_gate isr)) n \<longleftrightarrow> bit isr n"
    by (cases "n < 16") (simp_all add: gate_target_def idt_gate_def bit_simps not_less less_diff_conv2)
qed

lemma gate_flags [simp]: "gate_present (idt_gate isr)" "\<not> user_callable (idt_gate isr)" "gate_kernel (idt_gate isr)"
  "gate_present ((idt_gate isr)\<lparr>flags := 0xEE\<rparr>)" "gate_kernel ((idt_gate isr)\<lparr>flags := 0xEE\<rparr>)"
  "user_callable ((idt_gate isr)\<lparr>flags := 0xEE\<rparr>)" "gate_target (e\<lparr>flags := f\<rparr>) = gate_target e"
  by (simp_all add: gate_present_def user_callable_def idt_gate_def gate_target_def gate_kernel_def)

lemma init_idt_nth: "i < 256 \<Longrightarrow> midt (init_idt isrs a m) ! i =
    (if i = 0x80 then (idt_gate (isrs i))\<lparr>flags := 0xEE\<rparr> else idt_gate (isrs i))"
  by (simp add: init_idt_def Let_def nth_list_update)

lemma pic_initialised:
  "pic_data v (pic_data c (pic_data b (pic_data a (pic_command 0x11 p)))) = p\<lparr>icw := 0, voffset := a, wiring := b, icw4 := c, imask := v\<rparr>"
  by (simp add: pic_command_def pic_data_def)

lemma pics_out_ports [simp]:
  "pics_out 0x20 v (p, q) = (pic_command v p, q)" "pics_out 0x21 v (p, q) = (pic_data v p, q)"
  "pics_out 0xa0 v (p, q) = (p, pic_command v q)" "pics_out 0xa1 v (p, q) = (p, pic_data v q)"
  by (simp_all add: pics_out_def)

lemma init_pic_state: "imask (fst (init_pic ps)) = 0xFC" "imask (snd (init_pic ps)) = 0xFF"
  "voffset (fst (init_pic ps)) = 0x20" "voffset (snd (init_pic ps)) = 0x28" "icw (fst (init_pic ps)) = 0" "icw (snd (init_pic ps)) = 0"
  by (cases ps; simp add: init_pic_def pic_initialised)+

lemma init_pic_lines:
  assumes "i < 16"
  shows "irq_vector (init_pic ps) i = (if i = 0 then Some 0x20 else if i = 1 then Some 0x21 else None)"
proof -
  have "i \<in> {0, 1, 2, 3, 4, 5, 6, 7, 8, 9, 10, 11, 12, 13, 14, 15}" using assms by (simp; arith)
  then show ?thesis by (auto simp: irq_vector_def init_pic_state)
qed

lemma init_timer_reload: "pit_reload (init_timer counter p) = counter"
proof -
  let ?w = "push_bit 8 (ucast (ucast (drop_bit 8 counter AND 0xFF) :: u8)) OR ucast (ucast (counter AND 0xFF) :: u8) :: u16"
  have "?w = counter"
  proof (rule bit_word_eqI)
    fix n assume "n < LENGTH(16)"
    moreover have "bit (0xFF :: int) j \<longleftrightarrow> j < 8" for j
      using bit_mask_iff [of 8 j, where 'a = int] by (simp add: mask_numeral)
    ultimately show "bit ?w n \<longleftrightarrow> bit counter n"
      by (cases "n < 8") (simp_all add: bit_simps not_less less_diff_conv2)
  qed
  then show ?thesis by (simp add: init_timer_def pit_out_def Let_def)
qed

lemma keyboard_vector:
  "vector stack = 0x21 \<Longrightarrow> interrupt_handler hw drv reads stack m =
     Some (Ok (Done, keyboard_interrupt reads (m\<lparr>kn := (kn m)\<lparr>ksched := (ksched (kn m))\<lparr>frame := stack\<rparr>\<rparr>, mpics := pics_out 0x20 0x20 (mpics m)\<rparr>)))"
  by (simp add: interrupt_handler_def Let_def)

lemma keyboard_interrupt_simps [simp]:
  "mpics (keyboard_interrupt reads m) = mpics m" "mtime (keyboard_interrupt reads m) = mtime m"
  "kcon (kn (keyboard_interrupt reads m)) = fst (keypress (snd reads) (kcon (kn m), ksched (kn m)))"
  "ksched (kn (keyboard_interrupt reads m)) = snd (keypress (snd reads) (kcon (kn m), ksched (kn m)))"
  by (simp_all add: keyboard_interrupt_def split_beta)

section \<open>Waiting for the clock\<close>

lemma delay_loop_stops:
  "(\<And>j. k \<le> j \<Longrightarrow> j < n \<Longrightarrow> now j < t + ms) \<Longrightarrow> k \<le> n \<Longrightarrow> \<not> now n < t + ms \<Longrightarrow> delay_loop now t ms k = Some n"
proof (induction "n - k" arbitrary: k)
  case 0
  then show ?case by (subst delay_loop.simps) simp
next
  case (Suc d)
  then have "now k < t + ms" "delay_loop now t ms (Suc k) = Some n" by auto
  then show ?case by (subst delay_loop.simps) simp
qed

lemma delay_loop_result: "delay_loop now t ms k = Some n \<Longrightarrow> t + ms \<le> now n"
  by (rule delay_loop.raw_induct [where P = "\<lambda>now t ms k n. t + ms \<le> now n"]) (auto split: if_splits)

section \<open>Properties\<close>

text \<open>
  C29. The descriptor table: each of the 256 gates is present, is a 32-bit interrupt gate of the kernel's
  code segment and leads to the stub of its vector; user code can call exactly one of them, \<open>0x80\<close>;
  the descriptor loaded covers exactly the 256 eight-byte gates.
\<close>

theorem idt_gates:
  "length (midt (init_idt isrs a m)) = 256 \<and> unat (limit (midtr (init_idt isrs a m))) + 1 = 8 * 256
   \<and> base (midtr (init_idt isrs a m)) = a
   \<and> (\<forall>i < 256. gate_target (midt (init_idt isrs a m) ! i) = isrs i \<and> gate_present (midt (init_idt isrs a m) ! i)
        \<and> gate_kernel (midt (init_idt isrs a m) ! i) \<and> (user_callable (midt (init_idt isrs a m) ! i) \<longleftrightarrow> i = 0x80))"
proof -
  have "\<forall>i < 256. gate_target (midt (init_idt isrs a m) ! i) = isrs i \<and> gate_present (midt (init_idt isrs a m) ! i)
        \<and> gate_kernel (midt (init_idt isrs a m) ! i) \<and> (user_callable (midt (init_idt isrs a m) ! i) \<longleftrightarrow> i = 0x80)"
    by (auto simp: init_idt_nth gate_target_idt)
  moreover have "length (midt (init_idt isrs a m)) = 256" "limit (midtr (init_idt isrs a m)) = 0x7ff" "base (midtr (init_idt isrs a m)) = a"
    by (simp_all add: init_idt_def Let_def)
  ultimately show ?thesis by simp
qed

theorem idt_gates_witness:
  "gate_target (midt (init_idt (\<lambda>i. 0xc0200000 + of_nat i) 0xc0210000 sample_machine) ! 14) = 0xc020000e"
  using idt_gates [of "\<lambda>i. 0xc0200000 + of_nat i" "0xc0210000" sample_machine] by simp



text \<open>
  \<^verbatim>\<open>delay\<close> waits: when the end time does not wrap around, it returns at the first poll that sees the
  clock at or past it, and never before; it never returns on a clock that stands still; but when
  the sum wraps around, a clock that moves on is past the end time already and \<^verbatim>\<open>delay\<close> does not wait.
\<close>

theorem delay_waits:
  "(0 < n \<and> (\<forall>j. 0 < j \<and> j < n \<longrightarrow> now j < now 0 + ms) \<and> now 0 + ms \<le> now n \<longrightarrow> delay now ms = Some n)
   \<and> (delay now ms = Some n \<longrightarrow> now 0 + ms \<le> now n)
   \<and> (0 < ms \<and> unat (now 0) + unat ms < 2 ^ 32 \<and> (\<forall>j. now j = now 0) \<longrightarrow> delay now ms = None)
   \<and> (2 ^ 32 \<le> unat (now 0) + unat ms \<and> now 0 \<le> now 1 \<longrightarrow> delay now ms = Some 1)"
proof (intro conjI impI)
  assume "0 < n \<and> (\<forall>j. 0 < j \<and> j < n \<longrightarrow> now j < now 0 + ms) \<and> now 0 + ms \<le> now n"
  then show "delay now ms = Some n" unfolding delay_def by (intro delay_loop_stops) auto
next
  assume r: "delay now ms = Some n"
  then show "now 0 + ms \<le> now n" unfolding delay_def by (rule delay_loop_result)
next
  assume a: "0 < ms \<and> unat (now 0) + unat ms < 2 ^ 32 \<and> (\<forall>j. now j = now 0)"
  then have "now 0 < now 0 + ms" by (auto simp: word_less_nat_alt unat_add_lem [THEN iffD1])
  moreover have "now j = now 0" for j using a by blast
  ultimately have c: "now j < now 0 + ms" for j by metis
  then show "delay now ms = None"
    using delay_loop_result [of now "now 0" ms 1] unfolding delay_def by (cases "delay_loop now (now 0) ms 1") (auto simp: linorder_not_less [symmetric])
next
  assume a: "2 ^ 32 \<le> unat (now 0) + unat ms \<and> now 0 \<le> now 1"
  then have "unat (now 0 + ms) \<le> unat (now 0)"
    using unat_u32_less [of ms] unat_u32_less [of "now 0"] by (auto simp: unat_word_ariths mod_if)
  with a have "\<not> now 1 < now 0 + ms" by (auto simp: word_less_nat_alt word_le_nat_alt)
  then show "delay now ms = Some 1" unfolding delay_def by (subst delay_loop.simps) simp
qed

theorem delay_waits_witness:
  "delay (\<lambda>j. 100 + of_nat j) 5 = Some 5 \<and> delay (\<lambda>j. 0xFFFFFFF0 + of_nat j) 0x100 = Some 1"
proof
  have "\<forall>j. 0 < j \<and> j < (5::nat) \<longrightarrow> (100 + of_nat j :: u32) < 105"
  proof (intro allI impI)
    fix j :: nat assume "0 < j \<and> j < 5"
    then have "j \<in> {1, 2, 3, 4}" by auto
    then show "(100 + of_nat j :: u32) < 105" by auto
  qed
  then show "delay (\<lambda>j. 100 + of_nat j) 5 = Some 5"
    using delay_waits [of 5 "\<lambda>j. 100 + of_nat j" 5] by simp
  show "delay (\<lambda>j. 0xFFFFFFF0 + of_nat j) 0x100 = Some 1"
    using delay_waits [of 5 "\<lambda>j. 0xFFFFFFF0 + of_nat j" "0x100"] by simp
qed

section \<open>Typing a line\<close>

lemma queue_okD:
  "queue_ok s \<Longrightarrow> i < 4 \<Longrightarrow> \<not> in_page (buf_start s) (queue_head s + of_nat i)"
  by (simp add: queue_ok_def Let_def)

lemma prints_only_queue:
  assumes "prints_only s t" and "queue_ok s"
  shows "queue_ok t \<and> load32 (kmem t) (queue_head s) = load32 (kmem s) (queue_head s)"
proof
  show "queue_ok t" using assms by (simp add: queue_ok_def prints_only_def same_pages_def)
  show "load32 (kmem t) (queue_head s) = load32 (kmem s) (queue_head s)"
    using assms by (intro load32_local) (auto simp: queue_ok_def prints_only_def Let_def)
qed

lemma put_pixel_ok: "terminal_ok s \<Longrightarrow> c \<noteq> 0x0A \<Longrightarrow> terminal_ok (put_pixel c s)"
proof -
  assume s: "terminal_ok s" and c: "c \<noteq> 0x0A"
  then have "console_ok s" by (simp add: terminal_ok_def)
  note r = put_pixel_view [OF this c] prints_only_put_pixel [OF this, of c]
  have "cursor (put_pixel c s) = fst (put (screencolor s) (view s) c)" using r(1) by (metis view_def fst_conv)
  moreover have "fst (put (screencolor s) (view s) c) < 2000" using s by (intro put_bound) (simp add: view_def terminal_ok_def console_ok_def)
  ultimately show ?thesis using r(2) s by (simp add: terminal_ok_def console_ok_def prints_only_def same_pages_def)
qed

lemma newline_ok: "terminal_ok s \<Longrightarrow> terminal_ok (newline s)"
proof -
  assume s: "terminal_ok s"
  then have "console_ok s" by (simp add: terminal_ok_def)
  note r = newline_view [OF this] prints_only_newline [OF this]
  have "cursor (newline s) = fst (put (screencolor s) (view s) 0x0A)" using r(1) by (metis view_def fst_conv)
  moreover have "fst (put (screencolor s) (view s) 0x0A) < 2000" using s by (intro put_bound) (simp add: view_def terminal_ok_def console_ok_def)
  ultimately show ?thesis using r(2) s by (simp add: terminal_ok_def console_ok_def prints_only_def same_pages_def)
qed

lemma keybuffer_typed:
  assumes ok: "terminal_ok s" "queue_ok s" and n: "unat (buf_length s) < 255" and c: "0x20 \<le> c"
  shows "typed s (fst (keybuffer c (s, sc))) [c] \<and> snd (keybuffer c (s, sc)) = sc"
proof -
  have ne: "c \<noteq> 0x08" "c \<noteq> 0x0A" "c \<noteq> 0x1B" using c by auto
  let ?s = "s\<lparr>kmem := (kmem s)(buf_start s + ucast (buf_length s) := c), buf_length := buf_length s + 1\<rparr>"
  have k: "keybuffer c (s, sc) = (put_pixel c ?s, sc)" using ne by (simp add: keybuffer_def Let_def)
  have t: "terminal_ok ?s" using ok(1) by (simp only: append_ok(1))
  have q: "load32 (kmem ?s) (queue_head s) = load32 (kmem s) (queue_head s)"
    using queue_cell [OF queue_okD [OF ok(2)], of "buf_length s" c] ok(1) by (simp add: terminal_ok_def)
  have p: "prints_only ?s (put_pixel c ?s)" using t by (intro prints_only_put_pixel) (simp add: terminal_ok_def)
  have qs: "queue_ok ?s" using ok(2) by (simp add: queue_ok_def)
  have "line (put_pixel c ?s) = line s @ [c]"
    using line_kept [OF p t] line_append [OF n, of c] by simp
  moreover have "unat (buf_length s + 1) = unat (buf_length s) + 1" using n by (subst unat_add_lem [THEN iffD1]) auto
  ultimately show ?thesis
    using put_pixel_ok [OF t ne(2)] prints_only_queue [OF p qs] p q unfolding k typed_def
    by (simp add: prints_only_def same_pages_def)
qed

lemma typed_trans: "typed s t xs \<Longrightarrow> typed t u ys \<Longrightarrow> typed s u (xs @ ys)"
  by (simp add: typed_def)

lemma keystrokes_typed:
  assumes "list_all2 printable scs ks" and "terminal_ok (kcon (kn m))" "queue_ok (kcon (kn m))"
    and "unat (buf_length (kcon (kn m))) + length ks < 256"
  shows "\<exists>m'. keystrokes hw drv stack scs m = Some (Ok m') \<and> typed (kcon (kn m)) (kcon (kn m')) ks
    \<and> procs (ksched (kn m')) = procs (ksched (kn m))"
  using assms
proof (induction scs ks arbitrary: m rule: list_all2_induct)
  case Nil
  then show ?case by (simp add: typed_def)
next
  case (Cons sc scs c ks)
  let ?st = "stack\<lparr>vector := 0x21\<rparr>"
  let ?m = "m\<lparr>kn := (kn m)\<lparr>ksched := (ksched (kn m))\<lparr>frame := ?st\<rparr>\<rparr>, mpics := pics_out 0x20 0x20 (mpics m)\<rparr>"
  let ?m1 = "keyboard_interrupt (sc, sc) ?m"
  have "typed (kcon (kn m)) (kcon (kn ?m1)) [c]" "procs (ksched (kn ?m1)) = procs (ksched (kn m))"
    using keybuffer_typed [OF Cons.prems(1,2), of c "ksched (kn ?m)"] Cons.hyps(1) Cons.prems(3)
    by (simp_all add: printable_def keypress_def)
  moreover from this obtain m' where "keystrokes hw drv stack scs ?m1 = Some (Ok m')" "typed (kcon (kn ?m1)) (kcon (kn m')) ks"
    "procs (ksched (kn m')) = procs (ksched (kn ?m1))"
    using Cons.IH [of ?m1] Cons.prems(3) by (auto simp: typed_def)
  ultimately show ?case
    using typed_trans [of "kcon (kn m)" "kcon (kn ?m1)" "[c]" "kcon (kn m')" ks] by (simp add: keyboard_vector)
qed


section \<open>Delivering it\<close>

lemma complete_delivers:
  assumes ok: "terminal_ok s" "queue_ok s" and n: "unat (buf_length s) < 255" and wait: "queue_head s \<noteq> queue_tail s"
  shows "terminal_ok (fst (keybuffer 0x0A (s, sc))) \<and> line (fst (keybuffer 0x0A (s, sc))) = line s @ [0]
    \<and> unat (buf_length (fst (keybuffer 0x0A (s, sc)))) = unat (buf_length s) + 1
    \<and> buf_start (fst (keybuffer 0x0A (s, sc))) = buf_start s \<and> scratch (fst (keybuffer 0x0A (s, sc))) = scratch s
    \<and> queue_head (fst (keybuffer 0x0A (s, sc))) = queue_head s + 4
    \<and> snd (keybuffer 0x0A (s, sc)) = unblock (load32 (kmem s) (queue_head s)) sc"
proof -
  let ?s = "s\<lparr>kmem := (kmem s)(buf_start s + ucast (buf_length s) := 0), buf_length := buf_length s + 1, queue_head := queue_head s + 4\<rparr>"
  have k: "fst (keybuffer 0x0A (s, sc)) = newline ?s" using wait by (simp add: keybuffer_def complete_buffer_def Let_def)
  have t: "terminal_ok ?s" using ok(1) by (simp add: terminal_ok_def console_ok_def cursor_def)
  then have p: "prints_only ?s (newline ?s)" by (intro prints_only_newline) (simp add: terminal_ok_def)
  have u: "unat (buf_length s + 1) = unat (buf_length s) + 1" using n by (subst unat_add_lem [THEN iffD1]) auto
  show ?thesis
    using newline_ok [OF t] keybuffer_line [OF ok(1) n queue_okD [OF ok(2)], where key = "0x0A" and sc = sc] wait p u unfolding k
    by (simp add: prints_only_def same_pages_def)
qed

lemma resume_delivers:
  assumes ok: "terminal_ok s" and fits: "count = 0 \<or> buf_length s \<le> count"
    and apart: "unat dest + 256 \<le> unat (scratch s) \<or> unat (scratch s) + 4096 \<le> unat dest" "unat dest + 256 < 2 ^ 32"
  shows "\<exists>t. sendbuffer_resume dest count s = Ok t \<and> line t = []
    \<and> map (\<lambda>i. kmem t (dest + of_nat i)) [0..<unat (buf_length s)] = line s"
proof -
  let ?n = "ucast (buf_length s) :: u16"
  let ?t = "(mem_copy (buf_start s) dest ?n s)\<lparr>buf_length := 0, buffered := 0\<rparr>"
  have un: "unat ?n = unat (buf_length s)" using unat_u8_less [of "buf_length s"] by (simp add: unsigned_ucast_eq take_bit_nat_eq_self)
  have small: "unat (buf_length s) < 256" using unat_u8_less [of "buf_length s"] by simp
  have h: "heap_page (scratch s)" "heap_page (buf_start s)" "buf_start s \<noteq> scratch s"
    using ok by (simp_all add: terminal_ok_def console_ok_def)
  note r = heap_page_range [OF h(2)] heap_pages_apart [OF h(2,1,3)]
  have "kmem (mem_copy (buf_start s) dest ?n s) (dest + of_nat i) = kmem s (buf_start s + of_nat i)" if "i < unat (buf_length s)" for i
    using that small un r apart h(1) by (intro mem_copy_through(1)) (auto simp: unat_of_nat take_bit_nat_eq_self)
  then have "map (\<lambda>i. kmem ?t (dest + of_nat i)) [0..<unat (buf_length s)] = line s" by (simp add: line_def)
  moreover have "sendbuffer_resume dest count s = Ok ?t" using fits by (auto simp: sendbuffer_resume_def not_less)
  ultimately show ?thesis by (intro exI [of _ ?t]) (simp add: line_def)
qed

text \<open>Only a read of the terminal leaves the dispatcher unfinished.\<close>

lemma dispatch_waiting:
  assumes "interrupt_handler hw drv reads stack m = Some (Ok (Waiting dest count, m1))"
  shows "\<exists>k. syscall hw drv ((kn m)\<lparr>ksched := (ksched (kn m))\<lparr>frame := stack\<rparr>\<rparr>) = Ok (Waiting dest count, k) \<and> m1 = m\<lparr>kn := k\<rparr>"
proof (cases "vector stack = 0x0e \<or> vector stack = 0x20 \<or> vector stack = 0x21 \<or> vector stack \<noteq> 0x80")
  case True
  then show ?thesis using assms by (elim disjE) (auto simp: interrupt_handler_def Let_def split: if_splits)
next
  case False
  then show ?thesis using assms by (auto simp: interrupt_handler_def Let_def)
qed

lemma syscall_waiting:
  assumes "syscall hw drv k = Ok (Waiting dest count, k1)"
  shows "vread hw drv (ucast (ebx (frame (ksched k)))) (eax (frame (ksched k))) (ecx (frame (ksched k))) k = Ok (Waiting dest count, k1)"
proof (cases "edx (frame (ksched k)) = 2")
  case True
  then show ?thesis using assms by (simp add: syscall_def Let_def)
next
  case False
  then show ?thesis using assms unfolding syscall_def Let_def by (simp add: split_beta split: if_splits)
qed

lemma vread_waiting:
  assumes "vread hw drv fd buf n k = Ok (Waiting dest count, k1)"
  shows "read_tty k = Ok k1 \<and> dest = buf \<and> count = ucast n"
proof -
  obtain p nd fs func where "call_read hw drv func buf n (position (fdt k p (unat fd))) nd k = Ok (Waiting dest count, k1)"
    using assms by (auto simp: vread_def Let_def split: if_splits option.splits)
  then have "\<exists>pos. dev_read hw buf n pos nd k = Ok (Waiting dest count, k1)" by (auto simp: call_read_def split: if_splits)
  then show ?thesis by (auto simp: dev_read_def Let_def split: if_splits)
qed

lemma waiting_read:
  assumes "interrupt_handler hw drv reads stack m = Some (Ok (Waiting dest count, m1))"
  shows "sendbuffer_wait (kcon (kn m), (ksched (kn m))\<lparr>frame := stack\<rparr>) = Some (Ok (kcon (kn m1), ksched (kn m1)))
    \<and> dest = eax stack \<and> count = ucast (ecx stack)"
proof -
  let ?k = "(kn m)\<lparr>ksched := (ksched (kn m))\<lparr>frame := stack\<rparr>\<rparr>"
  obtain k where "syscall hw drv ?k = Ok (Waiting dest count, k)" "m1 = m\<lparr>kn := k\<rparr>" using dispatch_waiting [OF assms] by blast
  with syscall_waiting [OF this(1)] have "read_tty ?k = Ok (kn m1)" "dest = eax stack" "count = ucast (ecx stack)"
    using vread_waiting [of hw drv "ucast (ebx stack)" "eax stack" "ecx stack" ?k dest count k] by auto
  moreover from this(1) obtain c sc where "sendbuffer_wait (kcon (kn m), (ksched (kn m))\<lparr>frame := stack\<rparr>) = Some (Ok (c, sc))"
    "kn m1 = ?k\<lparr>kcon := c, ksched := sc\<rparr>"
    by (auto simp: read_tty_def total_def split: option.splits)
  ultimately show ?thesis by simp
qed

text \<open>The state a waiting reader leaves behind.\<close>

lemma wait_queues:
  assumes w: "sendbuffer_wait (s, sc) = Some (Ok (t, sc'))" and ok: "terminal_ok s" "queue_ok s" and e: "queue_head s = queue_tail s"
  shows "terminal_ok t \<and> queue_ok t \<and> line t = line s \<and> buf_length t = buf_length s \<and> scratch t = scratch s \<and> buf_start t = buf_start s
    \<and> queue_head t \<noteq> queue_tail t \<and> load32 (kmem t) (queue_head t) = active_proc sc \<and> pstate (procs sc' (active_proc sc)) = WAITING"
proof -
  have t: "t = s\<lparr>kmem := store32 (kmem s) (queue_tail s) (active_proc sc), queue_tail := queue_tail s + 4\<rparr>" and b: "block sc = Some (Ok sc')"
    using w by (auto simp: sendbuffer_wait_def Let_def)
  have "pstate (procs sc' (active_proc sc)) = 1"
    using b unfolding block_def scheduler_def by (auto simp: Let_def set_state_def split: option.splits)
  moreover have "line t = line s"
  proof -
    have "kmem t (buf_start s + of_nat i) = kmem s (buf_start s + of_nat i)" if "i < 256" for i
    proof -
      have "unat (buf_start s + of_nat i) = unat (buf_start s) + i"
        using that heap_page_range [of "buf_start s"] ok(1) by (subst unat_add_lem [THEN iffD1]) (auto simp: terminal_ok_def unat_of_nat take_bit_nat_eq_self)
      then have "in_page (buf_start s) (buf_start s + of_nat i)" using that by (simp add: in_page_def)
      then have "buf_start s + of_nat i \<noteq> queue_tail s + of_nat j" if "j < 4" for j
        using queue_okD [OF ok(2) that] e by metis
      then show ?thesis by (simp add: t store32_frame)
    qed
    then show ?thesis using unat_u8_less [of "buf_length s"] by (simp add: line_def t)
  qed
  moreover have "terminal_ok t" "queue_ok t" using ok by (simp_all add: t terminal_ok_def console_ok_def cursor_def queue_ok_def)
  ultimately show ?thesis using e by (simp add: t load32_store32_same)
qed

lemma keystrokes_append:
  "keystrokes hw drv stack xs m = Some (Ok m') \<Longrightarrow> keystrokes hw drv stack (xs @ ys) m = keystrokes hw drv stack ys m'"
  by (induction xs arbitrary: m) (auto split: bind_splits outcome.splits)

section \<open>Property\<close>


lemma sample_waits: "\<exists>m1. interrupt_handler idle_controller no_drivers (0, 0) read_call sample_tty = Some (Ok (Waiting 0xbfff0000 0, m1))"
proof -
  let ?sc = "sample_sched\<lparr>fd_tables := (\<lambda>_. 0xc0700000), frame := read_call\<rparr>"
  let ?s = "set_state 0xc0201000 1 ?sc"
  have r: "ring (procs ?s) [0xc0201000, 0xc0400000]" using sample_ring by (rule ring_upd) (simp add: set_state_def)
  have "\<exists>s'. scheduler ?s = Some (Ok s')"
    using scheduler_switches [OF r, of 0 "0xc0400000"] sample_tables vm_okD(1) [OF sample_ok]
    by (simp add: pick_def set_state_def sample_sched_def sample_proc_def)
  then obtain s' where b: "block ?sc = Some (Ok s')" by (auto simp: block_def sample_sched_def)
  have f: "vector read_call = 0x80" "edx read_call = 2" "eax read_call = 0xbfff0000" "ebx read_call = 0" "ecx read_call = 0"
    by (simp_all add: read_call_def sample_proc_def)
  let ?k = "(kn sample_tty)\<lparr>ksched := ?sc\<rparr>"
  have k: "active_pid (ksched ?k) = 0" "fd_tables (ksched ?k) = (\<lambda>_. 0xc0700000)" "fdt ?k = (\<lambda>_ _. \<lparr>fnode = Some Root, fmode = 3, position = 0\<rparr>)"
    "ntab ?k = (\<lambda>_. zero_vnode\<lparr>name := ascii ''tty'', nfs := Some devfs\<rparr>)" "ksched (kn sample_tty) = sample_sched\<lparr>fd_tables := (\<lambda>_. 0xc0700000)\<rparr>"
    by (simp_all add: sample_tty_def sample_sched_def)
  have "vread idle_controller no_drivers 0 0xbfff0000 0 ?k = bind_ok (read_tty ?k) (\<lambda>k. Ok (Waiting 0xbfff0000 0, k))"
    using k(1-4) by (simp add: vread_def fd_table_def table_page_def node_of_def fs_of_def devfs_def call_read_def dev_read_def zero_vnode_def)
  moreover have "\<exists>k'. read_tty ?k = Ok k'" by (simp add: read_tty_def sendbuffer_wait_def total_def b)
  ultimately show ?thesis using f k(5) by (auto simp: interrupt_handler_def syscall_def)
qed


end
