(* ===== verification/Page_Copy.thy ===== *)
theory Page_Copy
  imports Heap_Pages
begin

text \<open>
  Copying pages through the kernel heap: \<^verbatim>\<open>mem_copy\<close> (\<^verbatim>\<open>barrelOS/drivers/utils.c\<close>) between a page that
  anything maps and a heap page, and the words of a heap page (\<^verbatim>\<open>newdir[i] &= 0xFFFFFFFD\<close>). The relation
  \<open>quiet\<close> is the frame condition all heap operations share: directory, tables and every frame
  outside the heap stay as they are, and new heap pages get frames that were free.
\<close>

section \<open>Specification\<close>

definition heap_frame :: "vm \<Rightarrow> nat \<Rightarrow> bool" where
  "heap_frame s f \<longleftrightarrow> (\<exists>p. heap_page p \<and> present (pte s p) \<and> frame_of (pte s p) = f)"

definition quiet :: "vm \<Rightarrow> vm \<Rightarrow> bool" where
  "quiet s s' \<longleftrightarrow> card (absent_pages s') + card (free_frames s) = card (absent_pages s) + card (free_frames s') \<and> cr3 s' = cr3 s \<and> page_fault_allowed s' = page_fault_allowed s
     \<and> (\<forall>i. unat i < 1024 \<longrightarrow> pd_entry s' i = pd_entry s i)
     \<and> used_frames (pf_bitmap s) \<subseteq> used_frames (pf_bitmap s')
     \<and> (\<forall>p. heap_page p \<and> present (pte s p) \<longrightarrow> present (pte s' p) \<and> frame_of (pte s' p) = frame_of (pte s p))
     \<and> (\<forall>p. heap_page p \<and> present (pte s' p) \<and> \<not> present (pte s p) \<longrightarrow> frame_of (pte s' p) \<notin> used_frames (pf_bitmap s))
     \<and> (\<forall>x. \<not> heap_frame s' (frame_of x) \<and> frame_of x \<noteq> frame_of (pd_entry s 769) \<longrightarrow> pmem s' x = pmem s x)"

text \<open>A page that can be copied: mapped, its frame in use, and neither that of a page of the pool nor the heap's table.\<close>

definition source :: "vm \<Rightarrow> u32 \<Rightarrow> u32 \<Rightarrow> bool" where
  "source s S P \<longleftrightarrow> page_aligned S \<and> page_aligned P \<and> translate s S = Some P \<and> frame_of P \<in> used_frames (pf_bitmap s)
     \<and> frame_of P \<noteq> frame_of (pd_entry s 769)
     \<and> (\<forall>p. heap_page p \<and> present (pte s p) \<and> frame_of (pte s p) = frame_of P \<longrightarrow> p \<notin> free_pages s)"

definition hword :: "vm \<Rightarrow> u32 \<Rightarrow> u32" where
  "hword s a = load32 (\<lambda>x. the (heap_byte s x)) a"

definition copied :: "vm \<Rightarrow> vm \<Rightarrow> u32 \<Rightarrow> bool" where
  "copied s s' D \<longleftrightarrow> heap_live s' \<and> free_pages s' = free_pages s \<and> quiet s s' \<and> (\<forall>y. translate s' y = translate s y)
     \<and> (\<forall>p. heap_page p \<longrightarrow> pte s' p = pte s p) \<and> (\<forall>x. frame_of x \<noteq> frame_of (pte s D) \<longrightarrow> pmem s' x = pmem s x)"

text \<open>What a client sees of a page copied: the pool is as before, the page holds the bytes, the other pages theirs.\<close>

definition page_copied :: "vm \<Rightarrow> vm \<Rightarrow> u32 \<Rightarrow> (nat \<Rightarrow> u8) \<Rightarrow> bool" where
  "page_copied s s' D f \<longleftrightarrow> heap_live s' \<and> free_pages s' = free_pages s \<and> quiet s s'
     \<and> (\<forall>j < 4096. heap_byte s' (D + of_nat j) = Some (f j))
     \<and> (\<forall>x. heap_byte s x \<noteq> None \<and> \<not> same_page x D \<and> x AND 0xFFFFF000 \<notin> free_pages s \<longrightarrow> heap_byte s' x = heap_byte s x)"

text \<open>A page is taken from the pool, and the bytes of pages in use stay.\<close>

definition kept :: "vm \<Rightarrow> vm \<Rightarrow> bool" where
  "kept s s' \<longleftrightarrow> heap_live s' \<and> quiet s s' \<and> free_pages s' \<subseteq> free_pages s
     \<and> (\<forall>x. heap_byte s x \<noteq> None \<and> x AND 0xFFFFF000 \<notin> free_pages s \<longrightarrow> heap_byte s' x = heap_byte s x)"

section \<open>The frame condition\<close>

lemma quiet_refl [simp]: "quiet s s"
  by (simp add: quiet_def)

lemma quietD:
  assumes "quiet s s'"
  shows "cr3 s' = cr3 s" "unat i < 1024 \<Longrightarrow> pd_entry s' i = pd_entry s i" "used_frames (pf_bitmap s) \<subseteq> used_frames (pf_bitmap s')"
    and "heap_page p \<Longrightarrow> present (pte s p) \<Longrightarrow> present (pte s' p) \<and> frame_of (pte s' p) = frame_of (pte s p)"
    and "heap_page p \<Longrightarrow> present (pte s' p) \<Longrightarrow> \<not> present (pte s p) \<Longrightarrow> frame_of (pte s' p) \<notin> used_frames (pf_bitmap s)"
    and "\<not> heap_frame s' (frame_of x) \<Longrightarrow> frame_of x \<noteq> frame_of (pd_entry s 769) \<Longrightarrow> pmem s' x = pmem s x"
    and "page_fault_allowed s' = page_fault_allowed s"
    and "card (absent_pages s') + card (free_frames s) = card (absent_pages s) + card (free_frames s')"
  using assms by (simp_all add: quiet_def)

lemma quiet_trans:
  assumes a: "quiet s t" and b: "quiet t u"
  shows "quiet s u"
  unfolding quiet_def
proof (intro conjI allI impI; (elim conjE)?)
  show "card (absent_pages u) + card (free_frames s) = card (absent_pages s) + card (free_frames u)" using quietD(8) [OF a] quietD(8) [OF b] by simp
  show "cr3 u = cr3 s" using quietD(1) [OF a] quietD(1) [OF b] by simp
  show "page_fault_allowed u = page_fault_allowed s" using quietD(7) [OF a] quietD(7) [OF b] by simp
  show "pd_entry u i = pd_entry s i" if "unat i < 1024" for i using quietD(2) [OF a that] quietD(2) [OF b that] by simp
  show "used_frames (pf_bitmap s) \<subseteq> used_frames (pf_bitmap u)" using quietD(3) [OF a] quietD(3) [OF b] by simp
next
  fix p assume p: "heap_page p" "present (pte s p)"
  note t = quietD(4) [OF a p]
  note u = quietD(4) [OF b p(1) conjunct1 [OF t]]
  show "present (pte u p)" "frame_of (pte u p) = frame_of (pte s p)" using t u by simp_all
next
  fix p assume p: "heap_page p" "present (pte u p)" and n: "\<not> present (pte s p)"
  show "frame_of (pte u p) \<notin> used_frames (pf_bitmap s)"
  proof (cases "present (pte t p)")
    case True
    then show ?thesis using quietD(4) [OF b p(1) True] quietD(5) [OF a p(1) True n] by simp
  next
    case False
    then show ?thesis using quietD(5) [OF b p False] quietD(3) [OF a] by blast
  qed
next
  fix x assume x: "\<not> heap_frame u (frame_of x)" "frame_of x \<noteq> frame_of (pd_entry s 769)"
  have "\<not> heap_frame t (frame_of x)"
  proof
    assume "heap_frame t (frame_of x)"
    then obtain p where p: "heap_page p" "present (pte t p)" "frame_of (pte t p) = frame_of x" by (auto simp: heap_frame_def)
    with quietD(4) [OF b p(1,2)] x(1) show False unfolding heap_frame_def by metis
  qed
  then show "pmem u x = pmem s x"
    using x quietD(6) [OF a] quietD(6) [OF b] quietD(2) [OF a, of 769] by simp
qed

text \<open>Storing an entry of the heap's table changes that table only.\<close>

lemma set_pte_memory:
  assumes "heap_page v" and "frame_of x \<noteq> frame_of (pd_entry s 769)"
  shows "pmem (set_pte v e s) x = pmem s x"
proof -
  have d: "drop_bit 22 v = 769" using assms(1) heap_dir_index by (auto simp: heap_page_def)
  show ?thesis unfolding set_pte_def pte_addr_def d
    using store32_entry_frame [OF page_aligned_mask table_index_less] assms(2) by (simp add: frame_of_mask)
qed

lemma kmalloc_quiet:
  assumes ok: "kernel_ok s" and run: "kmalloc s = Ok (v, s')"
  shows "quiet s s'" and "\<And>x. frame_of x \<noteq> frame_of (pd_entry s 769) \<Longrightarrow> pmem s' x = pmem s x"
proof -
  note k = kernel_okD [OF ok] and f = kmalloc_frame [OF ok run]
  obtain e b where s': "s' = set_pte v e (s\<lparr>pf_bitmap := b\<rparr>)" and e: "present e"
    and c: "present (pte s v) \<and> b = pf_bitmap s \<and> e = pte s v OR 0x800
      \<or> \<not> present (pte s v) \<and> pmalloc (pf_bitmap s) = Ok (e AND 0xFFFFF000, b) \<and> e = (e AND 0xFFFFF000) OR 0x803"
    using kmalloc_cases [OF k(1,2) run] by metis
  have tp: "table_present (s\<lparr>pf_bitmap := b\<rparr>) v" using heap_page_table [OF k(2) f(2)] by (simp add: bitmap_upd)
  have sub: "used_frames (pf_bitmap s) \<subseteq> used_frames b" using f(8) by (simp add: s' set_pte_def)
  have ok': "vm_ok (s\<lparr>pf_bitmap := b\<rparr>)" using alloc_frame_ok [OF k(1) sub] .
  note g = set_pte_facts [OF ok' tp heap_page_window [OF f(2)], where v = e, folded s']
  have ev: "pte s' v = e" using g(5) [OF tp] by (simp add: same_page_def)
  show m: "pmem s' x = pmem s x" if "frame_of x \<noteq> frame_of (pd_entry s 769)" for x
    using set_pte_memory [OF f(2), of x "s\<lparr>pf_bitmap := b\<rparr>" e] that by (simp add: s' pd_entry_pmem)
  have fr: "frame_of e = frame_of (pte s v)" if "present (pte s v)"
  proof -
    have "e = pte s v OR 0x800" using c that by simp
    then have "e AND 0xFFFFF000 = pte s v AND 0xFFFFF000" by (simp add: word_bw_assocs and.assoc bit.conj_disj_distrib2)
    then show ?thesis by (simp add: frame_eq_iff)
  qed
  have fresh: "frame_of e \<notin> used_frames (pf_bitmap s)" if "\<not> present (pte s v)"
  proof -
    have "pmalloc (pf_bitmap s) = Ok (e AND 0xFFFFF000, b)" using c that by simp
    from pmm.alloc_Ok [OF this] show ?thesis by (simp add: frame_of_mask)
  qed
  have cr: "cr3 s' = cr3 s" "page_fault_allowed s' = page_fault_allowed s" by (simp_all add: s' set_pte_def)
  have dir: "pd_entry s' i = pd_entry s i" if "unat i < 1024" for i using g(2) [OF that] by (simp add: pd_entry_pmem)
  have keep: "present (pte s' p) \<and> frame_of (pte s' p) = frame_of (pte s p)" if "heap_page p" "present (pte s p)" for p
    using f(7) [of p] that ev e fr by (cases "p = v") auto
  have new: "frame_of (pte s' p) \<notin> used_frames (pf_bitmap s)" if "heap_page p" "present (pte s' p)" "\<not> present (pte s p)" for p
    using f(7) [of p] that ev fresh by (cases "p = v") auto
  show "quiet s s'" unfolding quiet_def using cr dir f(8) keep new m kmalloc_counts [OF ok run] by simp
qed

lemma kfree_quiet:
  assumes live: "heap_live s" and v: "heap_page v" and run: "kfree v s = Ok s'"
  shows "quiet s s'" and "\<And>x. frame_of x \<noteq> frame_of (pd_entry s 769) \<Longrightarrow> pmem s' x = pmem s x"
    and "\<And>p. heap_page p \<Longrightarrow> frame_of (pte s' p) = frame_of (pte s p)"
proof -
  have ok: "kernel_ok s" using live by (simp add: heap_live_def)
  note k = kernel_okD [OF ok]
  let ?e = "pte s v AND 0xFFFFF7FF"
  have s': "s' = set_pte v ?e s" using run kfree_eq [OF k(1,2) v] by simp
  have tp: "table_present s v" by (rule heap_page_table [OF k(2) v])
  note g = set_pte_facts [OF k(1) tp heap_page_window [OF v], where v = ?e, folded s']
  have ev: "pte s' v = ?e" using g(5) [OF tp] by (simp add: same_page_def)
  have others: "pte s' x = pte s x" if "heap_page x" "x \<noteq> v" for x
    using g(5) [OF heap_page_table [OF k(2) that(1)]] that v by (simp add: same_page_aligned heap_page_def)
  note c = used_bit_cleared [of "pte s v"]
  show fr: "frame_of (pte s' p) = frame_of (pte s p)" if "heap_page p" for p
    using others [OF that] ev c by (cases "p = v") (simp_all add: frame_eq_iff)
  have pr: "present (pte s' p) = present (pte s p)" if "heap_page p" for p
    using others [OF that] ev c by (cases "p = v") simp_all
  show m: "pmem s' x = pmem s x" if "frame_of x \<noteq> frame_of (pd_entry s 769)" for x
    unfolding s' by (rule set_pte_memory [OF v that])
  have "cr3 s' = cr3 s" "pf_bitmap s' = pf_bitmap s" "page_fault_allowed s' = page_fault_allowed s" by (simp_all add: s' set_pte_def)
  moreover have "absent_pages s' = absent_pages s" using pr by (auto simp: absent_pages_def)
  ultimately show "quiet s s'" unfolding quiet_def using g(2) fr pr m by (simp add: free_frames_def cong: conj_cong)
qed

section \<open>Writing to heap pages\<close>

lemma heap_page_addr:
  assumes "heap_page D" and "unat i < 4096"
  shows "(D + i) AND 0xFFFFF000 = D" "(D + i) AND 0xFFF = i"
proof -
  have d: "page_aligned D" using assms(1) by (simp add: heap_page_def)
  show "(D + i) AND 0xFFF = i" by (rule offset_fields(3) [OF d assms(2)])
  have "frame_of ((D + i) AND 0xFFFFF000) = frame_of D" by (simp only: frame_of_mask frame_of_offset [OF d assms(2)])
  then show "(D + i) AND 0xFFFFF000 = D" using frame_of_eq_base [OF page_aligned_mask d] by blast
qed

lemma heap_byte_page:
  assumes "heap_page D" and "unat i < 4096"
  shows "heap_byte s (D + i) = (if heap_data s D then Some (pmem s ((pte s D AND 0xFFFFF000) + i)) else None)"
  using assms by (simp add: heap_byte_def heap_page_addr)

lemma heap_dataD: "heap_data s D \<Longrightarrow> heap_page D" "heap_data s D \<Longrightarrow> present (pte s D)" "heap_data s D \<Longrightarrow> frame_of (pte s D) \<noteq> frame_of (pd_base s)"
  by (simp_all add: heap_data_def)

text \<open>Whatever is stored in the frame of a heap page, tables and other frames stay.\<close>

lemma heap_store_copied:
  assumes live: "heap_live s" and D: "heap_page D" "heap_data s D" and m: "\<And>x. frame_of x \<noteq> frame_of (pte s D) \<Longrightarrow> m' x = pmem s x"
  shows "copied s (s\<lparr>pmem := m'\<rparr>) D"
proof -
  let ?s = "s\<lparr>pmem := m'\<rparr>"
  have ok: "kernel_ok s" using live by (simp add: heap_live_def)
  note k = kernel_okD [OF ok] and base = heap_dataD(3) [OF D(2)]
  have dir: "pd_entry ?s j = pd_entry s j" if "unat j < 1024" for j by (rule heap_store_tables(1) [OF ok D(2) m that])
  have pte: "pte ?s p = pte s p" if "heap_page p" for p by (rule heap_store_tables(2) [OF ok D(2) m that])
  have own: "frame_of (pd_entry s j) \<noteq> frame_of (pte s D)" if "unat j < 1024" "present (pd_entry s j)" for j
    by (rule heap_tables_apart [OF ok heap_dataD [OF D(2)] that])
  have tr: "translate ?s y = translate s y" for y
  proof (cases "present (pd_entry s (drop_bit 22 y))")
    case True
    show ?thesis
    proof (rule translate_local(1))
      show "m' x = pmem s x" if "frame_of x = frame_of (pd_base s)" for x using that base by (intro m) simp
      show "m' x = pmem s x" if "frame_of x = frame_of (pd_entry s (drop_bit 22 y))" for x
        using that own [OF dir_index_less True] by (intro m) simp
    qed
  next
    case False
    moreover have "\<not> present (pd_entry ?s (drop_bit 22 y))" using False dir [OF dir_index_less] by simp
    ultimately show ?thesis by (simp add: translate_pte table_present_def)
  qed
  have "m' x = pmem s x" if "\<not> heap_frame ?s (frame_of x)" for x
  proof (rule m)
    show "frame_of x \<noteq> frame_of (pte s D)" using that heap_dataD [OF D(2)] pte [OF D(1)] unfolding heap_frame_def by metis
  qed
  moreover have ab: "absent_pages ?s = absent_pages s" using pte by (auto simp: absent_pages_def)
  ultimately have "quiet s ?s" unfolding quiet_def using pte dir by (simp add: free_frames_def cong: conj_cong)
  moreover have "kernel_ok ?s" by (rule heap_store_tables(3) [OF ok D(2) m])
  then have "heap_live ?s" using live ab by (simp add: heap_live_def free_frames_def)
  moreover have "free_pages ?s = free_pages s" using pte by (auto simp: free_pages_def heap_used_def)
  ultimately show ?thesis using tr pte m by (simp add: copied_def)
qed

lemma heap_write_frame:
  assumes live: "heap_live s" and D: "heap_page D" "heap_data s D" and i: "unat i < 4096"
  shows "\<exists>s'. write8 kaccess (D + i) b s = Ok s' \<and> copied s s' D \<and> heap_byte s' = (heap_byte s)(D + i \<mapsto> b)"
proof -
  have ok: "kernel_ok s" using live by (simp add: heap_live_def)
  define pa where "pa = (pte s D AND 0xFFFFF000) + i"
  have hb: "heap_byte s (D + i) \<noteq> None" using heap_byte_page [OF D(1) i] D(2) by simp
  note t = heap_byte_translate(1) [OF ok hb, unfolded heap_page_addr [OF D(1) i]]
  obtain s' where s': "write8 kaccess (D + i) b s = Ok s'" "heap_byte s' = (heap_byte s)(D + i \<mapsto> b)"
    using heap_write8 [OF live hb] by blast
  have e: "s' = s\<lparr>pmem := (pmem s)(pa := b)\<rparr>" using s'(1) t by (simp add: write8_def kaccess_mapped pa_def)
  have "frame_of pa = frame_of (pte s D)" using frame_of_offset [OF page_aligned_mask i] by (simp add: pa_def frame_of_mask)
  then have "copied s s' D" unfolding e by (intro heap_store_copied [OF live D]) auto
  then show ?thesis using s' by blast
qed

lemma copied_data: "copied s s' D \<Longrightarrow> heap_data s' p \<longleftrightarrow> heap_data s p"
  by (auto simp: copied_def heap_data_def pd_base_def dest: quietD(1))

lemma copied_trans: "heap_page D \<Longrightarrow> copied s t D \<Longrightarrow> copied t u D \<Longrightarrow> copied s u D"
  unfolding copied_def using quiet_trans [of s t u] by auto

text \<open>One loop of \<^verbatim>\<open>mem_copy\<close> into a heap page, from mapped addresses outside its frame.\<close>

lemma vcopy_heap:
  assumes "heap_live s" and D: "heap_page D" "heap_data s D" and "k + n \<le> 4096"
    and "\<And>i. i < n \<Longrightarrow> translate s (src + of_nat i) = Some (p i)" and "\<And>i. i < n \<Longrightarrow> frame_of (p i) \<noteq> frame_of (pte s D)"
  shows "\<exists>s'. vcopy kaccess src (D + of_nat k) n s = Ok s' \<and> copied s s' D
    \<and> (\<forall>j < 4096. heap_byte s' (D + of_nat j) = (if k \<le> j \<and> j < k + n then Some (pmem s (p (j - k))) else heap_byte s (D + of_nat j)))"
  using assms
proof (induction n arbitrary: s src k p)
  case 0
  then show ?case by (auto simp: copied_def)
next
  case (Suc n)
  let ?b = "pmem s (p 0)"
  have r: "read8 kaccess src s = Ok (?b, s)" using Suc.prems(5) [of 0] by (simp add: read8_def kaccess_mapped)
  have k: "unat (of_nat k :: u32) < 4096" using Suc.prems(4) by (simp add: unat_of_nat take_bit_nat_eq_self)
  obtain t where w: "write8 kaccess (D + of_nat k) ?b s = Ok t" and c: "copied s t D" and hb: "heap_byte t = (heap_byte s)(D + of_nat k \<mapsto> ?b)"
    using heap_write_frame [OF Suc.prems(1-3) k] by blast
  have D': "heap_data t D" "pte t D = pte s D" and live: "heap_live t" using c D(1) Suc.prems(3) copied_data [OF c] by (auto simp: copied_def)
  have "\<exists>s'. vcopy kaccess (src + 1) (D + of_nat (Suc k)) n t = Ok s' \<and> copied t s' D
    \<and> (\<forall>j < 4096. heap_byte s' (D + of_nat j) = (if Suc k \<le> j \<and> j < Suc k + n then Some (pmem t (p (Suc (j - Suc k)))) else heap_byte t (D + of_nat j)))"
  proof (rule Suc.IH [OF live D(1) D'(1)])
    show "Suc k + n \<le> 4096" using Suc.prems(4) by simp
    fix i assume "i < n"
    then show "translate t (src + 1 + of_nat i) = Some (p (Suc i))" "frame_of (p (Suc i)) \<noteq> frame_of (pte t D)"
      using c Suc.prems(5,6) [of "Suc i"] D'(2) by (simp_all add: copied_def add.assoc)
  qed
  then obtain s' where s': "vcopy kaccess (src + 1) (D + of_nat (Suc k)) n t = Ok s'" "copied t s' D"
    and b: "\<And>j. j < 4096 \<Longrightarrow> heap_byte s' (D + of_nat j) = (if Suc k \<le> j \<and> j < Suc k + n then Some (pmem t (p (Suc (j - Suc k)))) else heap_byte t (D + of_nat j))"
    by blast
  have run: "vcopy kaccess src (D + of_nat k) (Suc n) s = Ok s'" using r w s'(1) by (simp add: add.assoc add.commute [of 1])
  have "heap_byte s' (D + of_nat j) = (if k \<le> j \<and> j < k + Suc n then Some (pmem s (p (j - k))) else heap_byte s (D + of_nat j))" if j: "j < 4096" for j
  proof -
    consider "j = k" | "k < j" "j < k + Suc n" | "j < k \<or> k + Suc n \<le> j" by linarith
    then show ?thesis
    proof cases
      case 1
      then show ?thesis using b [OF j] hb by simp
    next
      case 2
      then have "Suc (j - Suc k) = j - k" by simp
      moreover have "pmem t (p (j - k)) = pmem s (p (j - k))" using c Suc.prems(6) [of "j - k"] 2 by (simp add: copied_def)
      ultimately show ?thesis using b [OF j] 2 by simp
    next
      case 3
      have "(of_nat j :: u32) \<noteq> of_nat k" using 3 j Suc.prems(4) by (auto simp: word_unat_eq_iff unat_of_nat take_bit_nat_eq_self)
      then have "D + of_nat j \<noteq> D + of_nat k" by simp
      then show ?thesis using b [OF j] hb 3 by auto
    qed
  qed
  then show ?case using run copied_trans [OF D(1) c s'(2)] by blast
qed


lemma copied_other:
  assumes ok: "kernel_ok s" and D: "heap_page D" "heap_data s D" and c: "copied s s' D" and x: "\<not> same_page x D"
  shows "heap_byte s' x = heap_byte s x"
proof (cases "heap_data s (x AND 0xFFFFF000)")
  case True
  let ?p = "x AND 0xFFFFF000"
  have "?p \<noteq> D" using x by (auto simp: same_page_iff frame_of_mask)
  then have "frame_of (pte s ?p) \<noteq> frame_of (pte s D)"
    using heap_okD(2) [OF kernel_okD(3) [OF ok] heap_dataD(1,2) [OF D(2)] heap_dataD(1,2) [OF True]] by blast
  moreover have "frame_of ((pte s ?p AND 0xFFFFF000) + (x AND 0xFFF)) = frame_of (pte s ?p)"
    using frame_of_offset [OF page_aligned_mask, of "x AND 0xFFF"] by (simp add: unat_and_FFF frame_of_mask)
  ultimately show ?thesis using c True copied_data [OF c] heap_dataD(1) [OF True] by (simp add: copied_def heap_byte_def)
next
  case False
  then show ?thesis using copied_data [OF c] by (simp add: heap_byte_def)
qed

lemma translate_offset:
  assumes "page_aligned S" "page_aligned P" and "translate s S = Some P" and "i < 4096"
  shows "translate s (S + of_nat i) = Some (P + of_nat i)"
proof -
  have i: "unat (of_nat i :: u32) < 4096" using assms(4) by (simp add: unat_of_nat take_bit_nat_eq_self)
  note o = offset_fields [OF assms(1) i] and z = offset_fields [OF assms(1), of 0]
  have "same_page (S + of_nat i) S" using o(1) by (simp add: same_page_def)
  note e = same_page_pte [OF this, of s]
  have "table_present s S" "present (pte s S)" "P = (pte s S AND 0xFFFFF000) + (S AND 0xFFF)"
    using assms(3) by (simp_all add: translate_pte split: if_splits)
  then show ?thesis using e o(3) z(3) by (simp add: translate_pte)
qed

lemma vcopy_page:
  assumes live: "heap_live s" and D: "heap_page D" "heap_data s D"
    and S: "page_aligned S" "page_aligned P" "translate s S = Some P" "frame_of P \<noteq> frame_of (pte s D)"
  shows "\<exists>s'. vcopy kaccess S D 4096 s = Ok s' \<and> copied s s' D \<and> (\<forall>j < 4096. heap_byte s' (D + of_nat j) = Some (pmem s (P + of_nat j)))"
proof -
  have f: "frame_of (P + of_nat i) = frame_of P" if "i < 4096" for i
    using frame_of_offset [OF S(2), of "of_nat i"] that by (simp add: unat_of_nat take_bit_nat_eq_self)
  show ?thesis
    using vcopy_heap [OF live D, of 0 4096 S "\<lambda>i. P + of_nat i"] translate_offset [OF S(1-3)] f S(4) by auto
qed

lemma source_page_not_free:
  assumes "source s S P" and v: "v \<in> free_pages s"
  shows "S \<noteq> v"
proof
  assume e: "S = v"
  have a: "page_aligned S" "translate s S = Some P" using assms(1) by (simp_all add: source_def)
  have "present (pte s S)" "P = pte s S AND 0xFFFFF000"
    using a(2) offset_fields(3) [OF a(1), of 0] by (simp_all add: translate_pte split: if_splits)
  moreover have "heap_page S" using v e by (simp add: free_pages_def)
  ultimately show False using assms e unfolding source_def by (metis frame_of_mask)
qed

lemma kmalloc_source:
  assumes live: "heap_live s" and run: "kmalloc s = Ok (v, s')" and v: "v \<in> free_pages s" and S: "source s S P"
  shows "source s' S P \<and> frame_of P \<noteq> frame_of (pte s' v) \<and> (\<forall>i < 4096. pmem s' (P + of_nat i) = pmem s (P + of_nat i))"
proof -
  have ok: "kernel_ok s" using live by (simp add: heap_live_def)
  note f = kmalloc_frame [OF ok run] and q = kmalloc_quiet [OF ok run]
  have al: "page_aligned S" "page_aligned P" "page_aligned v" using S f(2) by (simp_all add: source_def heap_page_def)
  have "\<not> same_page S v" using source_page_not_free [OF S v] same_page_aligned [OF al(1,3)] by simp
  then have tr: "translate s' S = Some P" using f(6) S by (simp add: source_def)
  have d: "pd_entry s' 769 = pd_entry s 769" using quietD(2) [OF q(1), of 769] by simp
  have old: "p \<notin> free_pages s" if p: "heap_page p" "present (pte s' p)" "frame_of (pte s' p) = frame_of P" for p
  proof (cases "present (pte s p)")
    case True
    then show ?thesis using quietD(4) [OF q(1) p(1) True] p(1,3) S unfolding source_def by metis
  next
    case False
    from quietD(5) [OF q(1) p(1,2) False] p(3) S show ?thesis by (auto simp: source_def)
  qed
  have "free_pages s' \<subseteq> free_pages s" using heap.alloc_live [OF live run] v by auto
  moreover have "frame_of P \<in> used_frames (pf_bitmap s')" "frame_of P \<noteq> frame_of (pd_entry s' 769)" using S f(8) d by (auto simp: source_def)
  ultimately have "source s' S P" unfolding source_def using al tr old by blast
  moreover have "frame_of P \<noteq> frame_of (pte s' v)" using old [OF f(2) kmalloc_apart(1) [OF ok run]] v by auto
  moreover have "pmem s' (P + of_nat i) = pmem s (P + of_nat i)" if "i < 4096" for i
  proof (rule q(2))
    have "frame_of (P + of_nat i) = frame_of P" using frame_of_offset [OF al(2), of "of_nat i"] that by (simp add: unat_of_nat take_bit_nat_eq_self)
    then show "frame_of (P + of_nat i) \<noteq> frame_of (pd_entry s 769)" using S by (simp add: source_def)
  qed
  ultimately show ?thesis by blast
qed

section \<open>\<open>mem_copy\<close> of a page\<close>

lemma mem_copy_page:
  assumes live: "heap_live s" and room: "free_pages s \<noteq> {}" and S: "source s S P"
    and D: "heap_page D" "heap_data s D" "D \<notin> free_pages s" and PD: "frame_of P \<noteq> frame_of (pte s D)"
  shows "\<exists>s'. mem_copy S D 4096 s = Ok s' \<and> page_copied s s' D (\<lambda>j. pmem s (P + of_nat j))"
proof -
  have ok: "kernel_ok s" using live by (simp add: heap_live_def)
  obtain v s1 where run: "kmalloc s = Ok (v, s1)" and a: "heap_live s1" "v \<in> free_pages s" "free_pages s1 = free_pages s - {v}"
    and keep: "\<And>x. heap_byte s x \<noteq> None \<Longrightarrow> \<not> same_page x v \<Longrightarrow> heap_byte s1 x = heap_byte s x"
    using kmalloc_pool [OF live room] by blast
  note f = kmalloc_frame [OF ok run] and q1 = kmalloc_quiet [OF ok run] and S1 = kmalloc_source [OF live run a(2) S]
  have pv: "heap_data s1 v" using kmalloc_apart [OF ok run] f(2) by (simp add: heap_data_def)
  have al: "page_aligned S" "page_aligned P" "translate s1 S = Some P" "page_aligned v" using S1 f(2) by (simp_all add: source_def heap_page_def)
  have vD: "v \<noteq> D" using a(2) D(3) by auto
  have D1: "heap_data s1 D" "pte s1 D = pte s D" using f(7) [OF D(1)] vD D(2) quietD(1) [OF q1(1)] by (simp_all add: heap_data_def pd_base_def)
  obtain s2 where c2: "vcopy kaccess S v 4096 s1 = Ok s2" "copied s1 s2 v" and b2: "\<And>j. j < 4096 \<Longrightarrow> heap_byte s2 (v + of_nat j) = Some (pmem s1 (P + of_nat j))"
    using vcopy_page [OF a(1) f(2) pv al(1-3)] S1 by blast
  have l2: "heap_live s2" "pte s2 v = pte s1 v" "pte s2 D = pte s1 D" using c2(2) f(2) D(1) by (auto simp: copied_def)
  let ?P = "pte s1 v AND 0xFFFFF000"
  have tv: "translate s2 v = Some ?P" using c2(2) f(5) by (simp add: copied_def)
  have fr: "frame_of ?P \<noteq> frame_of (pte s2 D)"
    using heap_okD(2) [OF kernel_okD(3) [OF f(1)] heap_dataD(1,2) [OF D1(1)] heap_dataD(1,2) [OF pv]] vD l2(3) by (auto simp: frame_of_mask)
  have pD2: "heap_data s2 D" using copied_data [OF c2(2)] D1(1) by blast
  obtain s3 where c3: "vcopy kaccess v D 4096 s2 = Ok s3" "copied s2 s3 D" and b3: "\<And>j. j < 4096 \<Longrightarrow> heap_byte s3 (D + of_nat j) = Some (pmem s2 (?P + of_nat j))"
    using vcopy_page [OF l2(1) D(1) pD2 al(4) page_aligned_mask tv fr] by blast
  have l3: "heap_live s3" using c3(2) by (simp add: copied_def)
  have v3: "heap_byte s3 v \<noteq> None" using pv copied_data [OF c2(2)] copied_data [OF c3(2)] by (simp add: heap_byte_base [OF al(4)] del: not_None_eq)
  obtain s4 where r4: "kfree v s3 = Ok s4" "heap_live s4" "free_pages s4 = insert v (free_pages s3)" "\<And>x. heap_byte s4 x = heap_byte s3 x"
    using heap.release_pool [OF l3 f(2)] v3 by blast
  have "mem_copy S D 4096 s = Ok s4" using run c2(1) c3(1) r4(1) by (simp add: mem_copy_def)
  moreover have "free_pages s4 = free_pages s" using r4(3) c3(2) c2(2) a(2,3) by (auto simp: copied_def)
  moreover have "quiet s s4"
    using quiet_trans [OF quiet_trans [OF quiet_trans [OF q1(1)]] kfree_quiet(1) [OF l3 f(2) r4(1)]] c2(2) c3(2) by (auto simp: copied_def)
  moreover have "heap_byte s4 (D + of_nat j) = Some (pmem s (P + of_nat j))" if j: "j < 4096" for j
  proof -
    have "unat (of_nat j :: u32) < 4096" using j by (simp add: unat_of_nat take_bit_nat_eq_self)
    from heap_byte_page [OF f(2) this, of s2] have "pmem s2 (?P + of_nat j) = pmem s1 (P + of_nat j)"
      using b2 [OF j] pv copied_data [OF c2(2)] l2(2) by simp
    then show ?thesis using b3 [OF j] r4(4) S1 j by simp
  qed
  moreover have "heap_byte s4 x = heap_byte s x" if x: "heap_byte s x \<noteq> None" "\<not> same_page x D" "x AND 0xFFFFF000 \<notin> free_pages s" for x
  proof -
    have "\<not> same_page x v"
    proof
      assume "same_page x v"
      then have "x AND 0xFFFFF000 = v" using frame_of_eq_base [OF page_aligned_mask al(4)] by (simp add: same_page_iff frame_of_mask)
      with a(2) x(3) show False by simp
    qed
    then show ?thesis
      using keep [OF x(1)] copied_other [OF _ f(2) pv c2(2)] copied_other [OF _ D(1) pD2 c3(2) x(2)] a(1) l2(1) r4(4) by (simp add: heap_live_def)
  qed
  ultimately show ?thesis using r4(2) by (auto simp: page_copied_def)
qed

section \<open>Words of a heap page\<close>

lemma load32_shift:
  assumes "\<And>i. i < 4 \<Longrightarrow> m (a + of_nat i) = m' (b + of_nat i)"
  shows "load32 m a = load32 m' b"
  using assms [of 0] assms [of 1] assms [of 2] assms [of 3] by (simp add: load32_def)

lemma hword_page:
  assumes "heap_page D" "heap_data s D" and "unat i < 1024"
  shows "hword s (D + 4 * i) = load32 (pmem s) ((pte s D AND 0xFFFFF000) + 4 * i)"
proof -
  have "the (heap_byte s (D + 4 * i + of_nat k)) = pmem s ((pte s D AND 0xFFFFF000) + 4 * i + of_nat k)" if "k < 4" for k
  proof -
    have "unat (4 * i + of_nat k) < 4096"
      using unat_index4 [OF assms(3)] that assms(3) by (subst unat_add_lem [THEN iffD1]) (auto simp: unat_of_nat take_bit_nat_eq_self)
    from heap_byte_page [OF assms(1) this, of s] show ?thesis using assms(2) by (simp add: add.assoc)
  qed
  then show ?thesis unfolding hword_def by (rule load32_shift)
qed

lemma heap_word_addr:
  assumes ok: "kernel_ok s" and D: "heap_page D" "heap_data s D" and i: "unat i < 1024"
  shows "translate s (D + 4 * i) = Some ((pte s D AND 0xFFFFF000) + 4 * i)"
proof -
  have u: "unat (4 * i) < 4096" using unat_index4 [OF i] i by simp
  have "heap_byte s (D + 4 * i) \<noteq> None" using heap_byte_page [OF D(1) u] D(2) by simp
  from heap_byte_translate(1) [OF ok this] show ?thesis by (simp add: heap_page_addr [OF D(1) u])
qed

lemma heap_read32:
  assumes "heap_live s" and D: "heap_page D" "heap_data s D" and i: "unat i < 1024"
  shows "read32 kaccess (D + 4 * i) s = Ok (hword s (D + 4 * i), s)"
  using heap_word_addr [OF _ D i] assms(1) by (simp add: heap_live_def read32_def kaccess_mapped hword_page [OF D i])

lemma heap_write32:
  assumes live: "heap_live s" and D: "heap_page D" "heap_data s D" and i: "unat i < 1024"
  shows "\<exists>s'. write32 kaccess (D + 4 * i) v s = Ok s' \<and> copied s s' D
    \<and> (\<forall>j. unat j < 1024 \<longrightarrow> hword s' (D + 4 * j) = (if j = i then v else hword s (D + 4 * j)))"
proof -
  let ?b = "pte s D AND 0xFFFFF000"
  let ?s = "s\<lparr>pmem := store32 (pmem s) (?b + 4 * i) v\<rparr>"
  have run: "write32 kaccess (D + 4 * i) v s = Ok ?s"
    using heap_word_addr [OF _ D i] live by (simp add: heap_live_def write32_def kaccess_mapped)
  have c: "copied s ?s D"
    using store32_entry_frame [OF page_aligned_mask i, of _ "pte s D"] by (intro heap_store_copied [OF live D]) (simp add: frame_of_mask)
  have p: "pte ?s D = pte s D" using c D(1) by (simp add: copied_def)
  have pD: "heap_data ?s D" using copied_data [OF c] D(2) by blast
  have "hword ?s (D + 4 * j) = (if j = i then v else hword s (D + 4 * j))" if "unat j < 1024" for j
    using load32_store32_entry [OF page_aligned_mask page_aligned_mask i that] unfolding hword_page [OF D(1) pD that] hword_page [OF D that] p by simp
  then show ?thesis using run c by blast
qed

text \<open>The loop that clears the write bits of a copied directory or table.\<close>

lemma clear_write_bits_page:
  assumes "heap_live s" and D: "heap_page D" "heap_data s D" and "k + n \<le> 1024"
  shows "\<exists>s'. clear_write_bits (D + 4 * of_nat k) n s = Ok s' \<and> copied s s' D
    \<and> (\<forall>j < 1024. hword s' (D + 4 * of_nat j) = (if k \<le> j \<and> j < k + n then hword s (D + 4 * of_nat j) AND 0xFFFFFFFD else hword s (D + 4 * of_nat j)))"
  using assms
proof (induction n arbitrary: s k)
  case 0
  then show ?case by (auto simp: copied_def)
next
  case (Suc n)
  have k: "unat (of_nat k :: u32) < 1024" using Suc.prems(4) by (simp add: unat_of_nat take_bit_nat_eq_self)
  let ?w = "hword s (D + 4 * of_nat k) AND 0xFFFFFFFD"
  obtain t where w: "write32 kaccess (D + 4 * of_nat k) ?w s = Ok t" and c: "copied s t D"
    and h: "\<And>j. unat j < 1024 \<Longrightarrow> hword t (D + 4 * j) = (if j = of_nat k then ?w else hword s (D + 4 * j))"
    using heap_write32 [OF Suc.prems(1-3) k] by blast
  have t: "heap_live t" "heap_data t D" using c copied_data [OF c] Suc.prems(3) by (auto simp: copied_def)
  obtain s' where s': "clear_write_bits (D + 4 * of_nat (Suc k)) n t = Ok s'" "copied t s' D"
    and b: "\<And>j. j < 1024 \<Longrightarrow> hword s' (D + 4 * of_nat j) = (if Suc k \<le> j \<and> j < Suc k + n then hword t (D + 4 * of_nat j) AND 0xFFFFFFFD else hword t (D + 4 * of_nat j))"
    using Suc.IH [OF t(1) D(1) t(2), of "Suc k"] Suc.prems(4) by auto
  have a: "D + 4 * of_nat k + 4 = D + 4 * of_nat (Suc k)" by (simp add: algebra_simps)
  have run: "clear_write_bits (D + 4 * of_nat k) (Suc n) s = Ok s'"
    by (simp add: heap_read32 [OF Suc.prems(1-3) k] w) (simp only: a s'(1))
  have hs: "hword t (D + 4 * of_nat j) = (if j = k then ?w else hword s (D + 4 * of_nat j))" if "j < 1024" for j
  proof -
    have "(of_nat j :: u32) = of_nat k \<longleftrightarrow> j = k" "unat (of_nat j :: u32) < 1024"
      using that Suc.prems(4) by (auto simp: word_unat_eq_iff unat_of_nat take_bit_nat_eq_self)
    then show ?thesis using h [of "of_nat j"] by simp
  qed
  have "hword s' (D + 4 * of_nat j) = (if k \<le> j \<and> j < k + Suc n then hword s (D + 4 * of_nat j) AND 0xFFFFFFFD else hword s (D + 4 * of_nat j))" if "j < 1024" for j
    using b [OF that] hs [OF that] by auto
  then show ?case using run copied_trans [OF D(1) c s'(2)] by blast
qed

section \<open>Sources of copies\<close>

lemma keptD: "kept s s' \<Longrightarrow> heap_live s'" "kept s s' \<Longrightarrow> quiet s s'" "kept s s' \<Longrightarrow> free_pages s' \<subseteq> free_pages s"
  "kept s s' \<Longrightarrow> heap_byte s x \<noteq> None \<Longrightarrow> x AND 0xFFFFF000 \<notin> free_pages s \<Longrightarrow> heap_byte s' x = heap_byte s x"
  by (simp_all add: kept_def)

lemma kept_trans:
  assumes a: "kept s t" and b: "kept t u"
  shows "kept s u"
proof -
  have "heap_byte u x = heap_byte s x" if x: "heap_byte s x \<noteq> None" "x AND 0xFFFFF000 \<notin> free_pages s" for x
    using keptD(4) [OF a x] keptD(4) [OF b, of x] keptD(3) [OF a] x by auto
  then show ?thesis using quiet_trans [OF keptD(2) [OF a] keptD(2) [OF b]] keptD(1,3) [OF b] keptD(3) [OF a] by (auto simp: kept_def)
qed

lemma kept_copied:
  assumes "kept s t" and "copied t u D" and "D \<in> free_pages s" and "heap_data t D"
  shows "kept s u"
proof -
  have D: "heap_page D" using assms(3) by (simp add: free_pages_def)
  have "\<not> same_page x D" if "x AND 0xFFFFF000 \<notin> free_pages s" for x
  proof
    assume "same_page x D"
    then have "x AND 0xFFFFF000 = D" using D frame_of_eq_base [OF page_aligned_mask, of D x] by (simp add: same_page_iff frame_of_mask heap_page_def)
    with that assms(3) show False by simp
  qed
  then have "heap_byte u x = heap_byte t x" if "x AND 0xFFFFF000 \<notin> free_pages s" for x
    using that copied_other [OF _ D assms(4,2), of x] keptD(1) [OF assms(1)] by (simp add: heap_live_def)
  then show ?thesis using assms(1,2) quiet_trans [of s t u] by (auto simp: kept_def copied_def)
qed

lemma kept_page_copied:
  assumes k: "kept s t" and c: "page_copied t u D f" and D: "D \<in> free_pages s"
  shows "kept s u"
proof -
  have hp: "heap_page D" using D by (simp add: free_pages_def)
  have "heap_byte u x = heap_byte s x" if x: "heap_byte s x \<noteq> None" "x AND 0xFFFFF000 \<notin> free_pages s" for x
  proof -
    have "\<not> same_page x D"
    proof
      assume "same_page x D"
      then have "x AND 0xFFFFF000 = D" using hp frame_of_eq_base [OF page_aligned_mask, of D x] by (simp add: same_page_iff frame_of_mask heap_page_def)
      with x(2) D show False by simp
    qed
    moreover have "heap_byte t x = heap_byte s x" "x AND 0xFFFFF000 \<notin> free_pages t" using keptD(3,4) [OF k] x by auto
    ultimately show ?thesis using c x(1) by (simp add: page_copied_def)
  qed
  then show ?thesis using k c quiet_trans [of s t u] by (auto simp: kept_def page_copied_def)
qed

lemma alloc_page:
  assumes live: "heap_live s" and room: "free_pages s \<noteq> {}"
  shows "\<exists>v s'. kmalloc s = Ok (v, s') \<and> kept s s' \<and> v \<in> free_pages s \<and> heap_page v \<and> free_pages s' = free_pages s - {v} \<and> heap_data s' v"
proof -
  have ok: "kernel_ok s" using live by (simp add: heap_live_def)
  obtain v s' where run: "kmalloc s = Ok (v, s')" and a: "heap_live s'" "v \<in> free_pages s" "free_pages s' = free_pages s - {v}"
    and keep: "\<And>x. heap_byte s x \<noteq> None \<Longrightarrow> \<not> same_page x v \<Longrightarrow> heap_byte s' x = heap_byte s x"
    using kmalloc_pool [OF live room] by blast
  note f = kmalloc_frame [OF ok run]
  have "heap_data s' v" using kmalloc_apart [OF ok run] f(2) by (simp add: heap_data_def)
  moreover have "kept s s'"
  proof -
    have "\<not> same_page x v" if "x AND 0xFFFFF000 \<notin> free_pages s" for x
    proof
      assume "same_page x v"
      then have "x AND 0xFFFFF000 = v" using f(2) frame_of_eq_base [OF page_aligned_mask, of v x] by (simp add: same_page_iff frame_of_mask heap_page_def)
      with that a(2) show False by simp
    qed
    then show ?thesis using keep a kmalloc_quiet(1) [OF ok run] by (auto simp: kept_def)
  qed
  ultimately show ?thesis using run a f(2) by blast
qed

lemma heap_source:
  assumes ok: "kernel_ok s" and T: "heap_page T" "heap_data s T" "T \<notin> free_pages s"
  shows "source s T (pte s T AND 0xFFFFF000)"
proof -
  note k = kernel_okD [OF ok] and p = heap_dataD(2) [OF T(2)]
  note h = heap_okD [OF k(3) T(1) p]
  have a: "page_aligned T" using T(1) by (simp add: heap_page_def)
  then have "translate s T = Some (pte s T AND 0xFFFFF000)"
    using heap_page_table [OF k(2) T(1)] p offset_fields(3) [OF a, of 0] by (simp add: translate_pte)
  moreover have "frame_of (pd_entry s 769) \<noteq> frame_of (pte s T)" using h(3) [of 769] k(2) by (simp add: heap_mapped_def)
  moreover have "p \<notin> free_pages s" if "heap_page p" "present (pte s p)" "frame_of (pte s p) = frame_of (pte s T)" for p
    using h(2) [OF that] T(3) by simp
  ultimately show ?thesis using a h(1) by (auto simp: source_def frame_of_mask)
qed

lemma dir_source:
  assumes ok: "kernel_ok s" and d: "page_aligned dir" "translate s dir = Some (pd_base s)"
  shows "source s dir (pd_base s)"
proof -
  note k = kernel_okD [OF ok]
  note r = vm_okD(1) [OF k(1)]
  have fb: "frame_of (pd_base s) = frame_of (pd_entry s 1023)" and p: "present (pd_entry s 1023)"
    using dir_entry_frame [OF r] r by (simp_all add: recursive_map_def)
  have used: "frame_of (pd_base s) \<in> used_frames (pf_bitmap s)" using vm_okD(3) [OF k(1)] p fb by (simp add: tables_used_def)
  have ne: "frame_of (pd_base s) \<noteq> frame_of (pd_entry s 769)"
  proof
    assume "frame_of (pd_base s) = frame_of (pd_entry s 769)"
    then have "(1023 :: u32) = 769"
      using tables_distinctD [OF vm_okD(2) [OF k(1)], of 1023 769] p k(2) fb by (simp add: heap_mapped_def frame_eq_iff)
    then show False by simp
  qed
  have "p \<notin> free_pages s" if "heap_page p" "present (pte s p)" "frame_of (pte s p) = frame_of (pd_base s)" for p
    using heap_okD(4) [OF k(3) that(1,2)] that(3) by (auto simp: free_pages_def)
  then show ?thesis unfolding source_def using d used ne by simp
qed

lemma window_pte: "recursive_map s \<Longrightarrow> in_window y \<Longrightarrow> pte s y = pd_entry s (drop_bit 12 y AND 0x3FF)"
  by (simp add: recursive_map_def in_window_def pte_def pte_addr_def pd_entry_def)

lemma quiet_translate:
  assumes ok: "kernel_ok s" "kernel_ok s'" and q: "quiet s s'" and y: "\<not> heap_page (y AND 0xFFFFF000)"
  shows "translate s' y = translate s y"
proof (cases "present (pd_entry s (drop_bit 22 y))")
  case False
  then have "\<not> present (pd_entry s' (drop_bit 22 y))" using quietD(2) [OF q dir_index_less] by simp
  with False show ?thesis by (simp add: translate_pte table_present_def)
next
  case True
  note d = quietD(2) [OF q dir_index_less, of y]
  have "pte s' y = pte s y"
  proof (cases "in_window y")
    case True
    then show ?thesis
      using window_pte [OF vm_okD(1) [OF kernel_okD(1) [OF ok(1)]]] window_pte [OF vm_okD(1) [OF kernel_okD(1) [OF ok(2)]]]
        quietD(2) [OF q table_index_less] by simp
  next
    case False
    have p': "present (pd_entry s' (drop_bit 22 y))" using True d by simp
    have i: "drop_bit 22 y \<noteq> 769"
    proof
      assume a: "drop_bit 22 y = 769"
      define z where "z = y AND 0xFFFFF000"
      have "unat (drop_bit 22 z) = unat (769 :: u32)" using a page_base_fields(2) [of y] by (simp only: z_def)
      then have "unat z div 4194304 = 769" by (simp add: unat_drop_bit)
      then have "0xc0400000 \<le> z" "z < 0xc0800000" by (auto simp: word_le_nat_alt word_less_nat_alt)
      with y show False by (simp add: heap_page_def z_def)
    qed
    have "unat (drop_bit 22 y) \<noteq> unat (1023 :: u32)" using False word_unat_eq_iff unfolding in_window_def by blast
    then have lt: "unat (drop_bit 22 y) < 1023" using dir_index_less [of y] by simp
    have nh: "\<not> heap_frame s' (frame_of (pd_entry s (drop_bit 22 y)))"
      unfolding heap_frame_def using heap_okD(3) [OF kernel_okD(3) [OF ok(2)] _ _ lt p'] d by metis
    have ne: "frame_of (pd_entry s (drop_bit 22 y)) \<noteq> frame_of (pd_entry s 769)"
      using tables_distinctD [OF vm_okD(2) [OF kernel_okD(1) [OF ok(1)]] dir_index_less, of 769 y] True i kernel_okD(2) [OF ok(1)]
      by (auto simp: heap_mapped_def frame_eq_iff)
    have m: "pmem s' x = pmem s x" if "frame_of x = frame_of (pd_entry s (drop_bit 22 y))" for x
      using quietD(6) [OF q, of x] nh ne that by simp
    have "load32 (pmem s') ((pd_entry s (drop_bit 22 y) AND 0xFFFFF000) + 4 * (drop_bit 12 y AND 0x3FF)) =
        load32 (pmem s) ((pd_entry s (drop_bit 22 y) AND 0xFFFFF000) + 4 * (drop_bit 12 y AND 0x3FF))"
      by (rule load32_page_local [OF page_aligned_mask table_index_less]) (simp add: m frame_of_mask)
    then show ?thesis by (simp add: pte_def pte_addr_def d)
  qed
  then show ?thesis using d by (simp add: translate_pte table_present_def)
qed

text \<open>Where the directory is mapped stays, whether it is a heap page or not.\<close>

lemma quiet_dir:
  assumes ok: "kernel_ok s" "kernel_ok s'" and q: "quiet s s'" and d: "page_aligned dir" "translate s dir = Some (pd_base s)"
  shows "translate s' dir = Some (pd_base s')"
proof -
  have base: "pd_base s' = pd_base s" using quietD(1) [OF q] by (simp add: pd_base_def)
  show ?thesis
  proof (cases "heap_page dir")
    case False
    then show ?thesis using quiet_translate [OF ok q, of dir] d base by (simp add: heap_page_base)
  next
    case True
    have p: "present (pte s dir)" "pte s dir AND 0xFFFFF000 = pd_base s"
      using d offset_fields(3) [OF d(1), of 0] by (simp_all add: translate_pte split: if_splits)
    have "present (pte s' dir)" "pte s' dir AND 0xFFFFF000 = pd_base s"
      using quietD(4) [OF q True p(1)] p(2) by (simp_all add: frame_eq_iff)
    then show ?thesis using heap_page_table [OF kernel_okD(2) [OF ok(2)] True] offset_fields(3) [OF d(1), of 0] base by (simp add: translate_pte)
  qed
qed

lemma card_two: "2 \<le> card A \<Longrightarrow> v \<in> A \<Longrightarrow> A - {v} \<noteq> {}"
proof
  assume "2 \<le> card A" "v \<in> A" "A - {v} = {}"
  then have "A = {v}" by blast
  with \<open>2 \<le> card A\<close> show False by simp
qed

lemma used_page_kept:
  assumes k: "kept s s'" and T: "heap_page T" "heap_data s T" "T \<notin> free_pages s"
  shows "heap_data s' T" "T \<notin> free_pages s'" "j < 4096 \<Longrightarrow> heap_byte s' (T + of_nat j) = heap_byte s (T + of_nat j)"
proof -
  show "heap_data s' T"
    using quietD(1) [OF keptD(2) [OF k]] quietD(4) [OF keptD(2) [OF k] heap_dataD(1,2) [OF T(2)]] heap_dataD [OF T(2)] by (simp add: heap_data_def pd_base_def)
  show "T \<notin> free_pages s'" using keptD(3) [OF k] T(3) by blast
  assume "j < 4096"
  then have u: "unat (of_nat j :: u32) < 4096" by (simp add: unat_of_nat take_bit_nat_eq_self)
  then have "heap_byte s (T + of_nat j) \<noteq> None" using heap_byte_page [OF T(1) u, of s] T(2) by simp
  from keptD(4) [OF k this] show "heap_byte s' (T + of_nat j) = heap_byte s (T + of_nat j)" using T(3) by (simp add: heap_page_addr [OF T(1) u])
qed

lemma hword_bytes:
  assumes "\<And>j. j < 4096 \<Longrightarrow> heap_byte s' (T + of_nat j) = heap_byte s (T + of_nat j)" and "i < 1024"
  shows "hword s' (T + 4 * of_nat i) = hword s (T + 4 * of_nat i)"
  unfolding hword_def
proof (rule load32_local)
  fix k :: nat assume "k < 4"
  then show "the (heap_byte s' (T + 4 * of_nat i + of_nat k)) = the (heap_byte s (T + 4 * of_nat i + of_nat k))"
    using assms(1) [of "4 * i + k"] assms(2) by (simp add: add.assoc)
qed

lemma page_copied_data: "page_copied s s' D f \<Longrightarrow> heap_data s p \<Longrightarrow> heap_data s' p"
  using quietD(1,4) [of s s'] by (auto simp: page_copied_def heap_data_def pd_base_def)

lemma heap_getpaddr:
  assumes "heap_live m" and "heap_page D"
  shows "getpaddr D m = Ok (pte m D AND 0xFFFFF000, m)"
proof -
  have ok: "kernel_ok m" using assms(1) by (simp add: heap_live_def)
  note k = kernel_okD [OF ok]
  show ?thesis using write_pte(2) [OF vm_okD(1) [OF k(1)] heap_page_table [OF k(2) assms(2)]] by (simp add: getpaddr_def)
qed

end
