(* ===== verification/Fork.thy ===== *)
theory Fork
  imports Page_Copy Scheduler
begin

text \<open>
  \<^verbatim>\<open>fork\<close> (\<^verbatim>\<open>barrelOS/kernel/scheduler.c\<close>) on the heap and the page tables: the copy of the descriptors,
  the child's page directory with its write bits off, the child's kernel stack and its place
  in the ring of processes. The pages come from the contract of \<open>Page_Copy\<close>.
\<close>

section \<open>Specification\<close>

text \<open>What \<^verbatim>\<open>fork\<close> needs: four free heap pages, and the parent's structures where they belong.\<close>

definition fork_ready :: "sched \<Rightarrow> bool" where
  "fork_ready s \<longleftrightarrow> heap_live (mm s) \<and> 4 \<le> card (free_pages (mm s)) \<and> active_pid s \<noteq> 2
     \<and> (let t = fd_tables s (active_pid s) in heap_data (mm s) t \<and> t \<notin> free_pages (mm s))
     \<and> (let d = page_directory (procs s (active_proc s)) in page_aligned d \<and> translate (mm s) d = Some (pd_base (mm s)))
     \<and> active_proc s \<notin> free_pages (mm s)"

definition child_proc :: "sched \<Rightarrow> u32 \<Rightarrow> u32 \<Rightarrow> u32 \<Rightarrow> process_t" where
  "child_proc s c nd ks = (procs s c)\<lparr>pstate := pstate (procs s (active_proc s)), pid := 2, page_directory := nd,
     pnext := pnext (procs s (active_proc s)), pstack := (frame s)\<lparr>eflags := 0x282, eax := 0\<rparr>, kstack := ks, stack_pointer := ks + 4 * 1001\<rparr>"

definition sample_forker :: "vm \<Rightarrow> u32 \<Rightarrow> sched" where
  "sample_forker m t = sample_sched\<lparr>mm := m, procs := (\<lambda>_. sample_proc\<lparr>pid := 0, page_directory := 0xFFFFF000, pnext := 0xc0201000\<rparr>), fd_tables := (\<lambda>_. t)\<rparr>"

section \<open>The steps of \<open>fork\<close>\<close>

lemma clone_fd_table_copies:
  assumes live: "heap_live m" and room: "2 \<le> card (free_pages m)" and pc: "parent \<noteq> child"
    and T: "heap_page (tables parent)" "heap_data m (tables parent)" "tables parent \<notin> free_pages m"
  shows "\<exists>q m'. clone_fd_table parent child tables m = Ok (tables(child := q), m') \<and> kept m m' \<and> q \<in> free_pages m \<and> heap_page q
    \<and> free_pages m' = free_pages m - {q} \<and> heap_data m' q
    \<and> (\<forall>j < 4096. heap_byte m' (q + of_nat j) = heap_byte m (tables parent + of_nat j))"
proof -
  let ?T = "tables parent"
  obtain q m1 where a: "kmalloc m = Ok (q, m1)" "kept m m1" "q \<in> free_pages m" "heap_page q" "free_pages m1 = free_pages m - {q}" "heap_data m1 q"
    using alloc_page [OF live] room by fastforce
  note T1 = used_page_kept [OF a(2) T]
  have l1: "heap_live m1" "kernel_ok m1" using keptD(1) [OF a(2)] by (simp_all add: heap_live_def)
  have n: "free_pages m1 \<noteq> {}" "q \<notin> free_pages m1" "q \<noteq> ?T" using card_two [OF room a(3)] a(3,5) T(3) by auto
  let ?P = "pte m1 ?T AND 0xFFFFF000"
  have ap: "frame_of ?P \<noteq> frame_of (pte m1 q)"
    using heap_okD(2) [OF kernel_okD(3) [OF l1(2)] heap_dataD(1,2) [OF a(6)] heap_dataD(1,2) [OF T1(1)]] n(3) by (auto simp: frame_of_mask)
  obtain m2 where c: "mem_copy ?T q 4096 m1 = Ok m2" "page_copied m1 m2 q (\<lambda>j. pmem m1 (?P + of_nat j))"
    using mem_copy_page [OF l1(1) n(1) heap_source [OF l1(2) T(1) T1(1,2)] a(4,6) n(2) ap] by blast
  have k: "kept m m2" by (rule kept_page_copied [OF a(2) c(2) a(3)])
  have "heap_byte m2 (q + of_nat j) = heap_byte m (?T + of_nat j)" if j: "j < 4096" for j
  proof -
    have "unat (of_nat j :: u32) < 4096" using j by (simp add: unat_of_nat take_bit_nat_eq_self)
    from heap_byte_page [OF T(1) this, of m1] show ?thesis using T1 j c(2) by (simp add: page_copied_def)
  qed
  moreover have "heap_data m2 q" using page_copied_data [OF c(2)] a(6) by blast
  moreover have "clone_fd_table parent child tables m = Ok (tables(child := q), m2)"
    using a(1) c(1) pc by (simp add: clone_fd_table_def Let_def)
  moreover have "free_pages m2 = free_pages m - {q}" using a(5) c(2) by (simp add: page_copied_def)
  ultimately show ?thesis using k a(3,4) by blast
qed

lemma clone_directory_copies:
  assumes live: "heap_live m" and room: "2 \<le> card (free_pages m)"
    and d: "page_aligned dir" "translate m dir = Some (pd_base m)"
  shows "\<exists>nd m'. clone_directory dir m = Ok (nd, m') \<and> kept m m' \<and> nd \<in> free_pages m \<and> heap_page nd
    \<and> free_pages m' = free_pages m - {nd} \<and> heap_data m' nd
    \<and> (\<forall>j < 1024. hword m' (nd + 4 * of_nat j) = (if j = 1023 then (pte m' nd AND 0xFFFFF000) OR 0x803 else pd_entry m (of_nat j) AND 0xFFFFFFFD))"
proof -
  have ok: "kernel_ok m" using live by (simp add: heap_live_def)
  obtain nd m1 where a: "kmalloc m = Ok (nd, m1)" "kept m m1" "nd \<in> free_pages m" "heap_page nd" "free_pages m1 = free_pages m - {nd}" "heap_data m1 nd"
    using alloc_page [OF live] room by fastforce
  have l1: "heap_live m1" "kernel_ok m1" using keptD(1) [OF a(2)] by (simp_all add: heap_live_def)
  have t1: "translate m1 dir = Some (pd_base m1)" by (rule quiet_dir [OF ok l1(2) keptD(2) [OF a(2)] d])
  have n: "free_pages m1 \<noteq> {}" "nd \<notin> free_pages m1" using card_two [OF room a(3)] a(5) by auto
  have ap: "frame_of (pd_base m1) \<noteq> frame_of (pte m1 nd)" using heap_dataD(3) [OF a(6)] by simp
  obtain m2 where c: "mem_copy dir nd 4096 m1 = Ok m2" "page_copied m1 m2 nd (\<lambda>j. pmem m1 (pd_base m1 + of_nat j))"
    using mem_copy_page [OF l1(1) n(1) dir_source [OF l1(2) d(1) t1] a(4,6) n(2) ap] by blast
  have k2: "kept m m2" by (rule kept_page_copied [OF a(2) c(2) a(3)])
  have p2: "heap_data m2 nd" "heap_live m2" using page_copied_data [OF c(2) a(6)] c(2) by (simp_all add: page_copied_def)
  have w2: "hword m2 (nd + 4 * of_nat j) = pd_entry m (of_nat j)" if j: "j < 1024" for j
  proof -
    have "hword m2 (nd + 4 * of_nat j) = load32 (pmem m1) (pd_base m1 + 4 * of_nat j)"
    proof -
      have "the (heap_byte m2 (nd + 4 * of_nat j + of_nat i)) = pmem m1 (pd_base m1 + 4 * of_nat j + of_nat i)" if "i < 4" for i
        using c(2) j that unfolding page_copied_def by (auto simp: add.assoc dest: spec [of _ "4 * j + i"])
      then show ?thesis unfolding hword_def by (rule load32_shift)
    qed
    also have "\<dots> = pd_entry m1 (of_nat j)" by (simp add: pd_entry_def)
    also have "\<dots> = pd_entry m (of_nat j)" using quietD(2) [OF keptD(2) [OF a(2)], of "of_nat j"] j by (simp add: unat_of_nat take_bit_nat_eq_self)
    finally show ?thesis .
  qed
  obtain m3 where c3: "clear_write_bits nd 1024 m2 = Ok m3" "copied m2 m3 nd"
    and w3: "\<And>j. j < 1024 \<Longrightarrow> hword m3 (nd + 4 * of_nat j) = hword m2 (nd + 4 * of_nat j) AND 0xFFFFFFFD"
    using clear_write_bits_page [OF p2(2) a(4) p2(1), of 0 1024] by auto
  have p3: "heap_data m3 nd" "heap_live m3" "pte m3 nd = pte m2 nd" using c3(2) a(4) p2 copied_data [OF c3(2)] by (auto simp: copied_def)
  obtain m4 where c4: "write32 kaccess (nd + 4 * 1023) ((pte m3 nd AND 0xFFFFF000) OR 0x803) m3 = Ok m4" "copied m3 m4 nd"
    and w4: "\<And>j. unat j < 1024 \<Longrightarrow> hword m4 (nd + 4 * j) = (if j = 1023 then (pte m3 nd AND 0xFFFFF000) OR 0x803 else hword m3 (nd + 4 * j))"
    using heap_write32 [OF p3(2) a(4) p3(1), of 1023] by auto
  have p4: "pte m4 nd = pte m3 nd" using c4(2) a(4) by (simp add: copied_def)
  have k4: "kept m m4" using kept_copied [OF kept_copied [OF k2 c3(2) a(3) p2(1)] c4(2) a(3) p3(1)] .
  have run: "clone_directory dir m = Ok (nd, m4)"
    using a(1) c(1) c3(1) heap_getpaddr [OF p3(2) a(4)] c4(1) by (simp add: clone_directory_def)
  have "hword m4 (nd + 4 * of_nat j) = (if j = 1023 then (pte m4 nd AND 0xFFFFF000) OR 0x803 else pd_entry m (of_nat j) AND 0xFFFFFFFD)" if j: "j < 1024" for j
  proof -
    have "(of_nat j :: u32) = 1023 \<longleftrightarrow> j = 1023" "unat (of_nat j :: u32) < 1024"
      using j by (auto simp: word_unat_eq_iff unat_of_nat take_bit_nat_eq_self)
    then show ?thesis using w4 [of "of_nat j"] w3 [OF j] w2 [OF j] p4 by simp
  qed
  moreover have "free_pages m4 = free_pages m - {nd}" using c c3 c4 a(5) by (simp add: copied_def page_copied_def)
  moreover have "heap_data m4 nd" using copied_data [OF c4(2)] p3(1) by blast
  ultimately show ?thesis using run k4 a(3,4) by auto
qed


lemma write_words_page:
  assumes "heap_live s" and D: "heap_page D" "heap_data s D" and "k + length ws \<le> 1024"
  shows "\<exists>s'. write_words (D + 4 * of_nat k) ws s = Ok s' \<and> copied s s' D
    \<and> (\<forall>j < 1024. hword s' (D + 4 * of_nat j) = (if k \<le> j \<and> j < k + length ws then ws ! (j - k) else hword s (D + 4 * of_nat j)))"
  using assms
proof (induction ws arbitrary: s k)
  case Nil
  then show ?case by (auto simp: copied_def)
next
  case (Cons w ws)
  have k: "unat (of_nat k :: u32) < 1024" using Cons.prems(4) by (simp add: unat_of_nat take_bit_nat_eq_self)
  obtain t where w: "write32 kaccess (D + 4 * of_nat k) w s = Ok t" and c: "copied s t D"
    and h: "\<And>j. unat j < 1024 \<Longrightarrow> hword t (D + 4 * j) = (if j = of_nat k then w else hword s (D + 4 * j))"
    using heap_write32 [OF Cons.prems(1-3) k] by blast
  have t: "heap_live t" "heap_data t D" using c copied_data [OF c] Cons.prems(3) by (auto simp: copied_def)
  obtain s' where s': "write_words (D + 4 * of_nat (Suc k)) ws t = Ok s'" "copied t s' D"
    and b: "\<And>j. j < 1024 \<Longrightarrow> hword s' (D + 4 * of_nat j) = (if Suc k \<le> j \<and> j < Suc k + length ws then ws ! (j - Suc k) else hword t (D + 4 * of_nat j))"
    using Cons.IH [OF t(1) D(1) t(2), of "Suc k"] Cons.prems(4) by auto
  have a: "D + 4 * of_nat k + 4 = D + 4 * of_nat (Suc k)" by (simp add: algebra_simps)
  have run: "write_words (D + 4 * of_nat k) (w # ws) s = Ok s'" by (simp add: w) (simp only: a s'(1))
  have hs: "hword t (D + 4 * of_nat j) = (if j = k then w else hword s (D + 4 * of_nat j))" if "j < 1024" for j
  proof -
    have "(of_nat j :: u32) = of_nat k \<longleftrightarrow> j = k" "unat (of_nat j :: u32) < 1024"
      using that Cons.prems(4) by (auto simp: word_unat_eq_iff unat_of_nat take_bit_nat_eq_self)
    then show ?thesis using h [of "of_nat j"] by simp
  qed
  have "hword s' (D + 4 * of_nat j) = (if k \<le> j \<and> j < k + length (w # ws) then (w # ws) ! (j - k) else hword s (D + 4 * of_nat j))" if "j < 1024" for j
    using b [OF that] hs [OF that] by (auto simp: nth_Cons')
  then show ?case using run copied_trans [OF D(1) c s'(2)] by blast
qed

text \<open>The new kernel stack: trap frame at word 1008, the words \<^verbatim>\<open>switch_kstack\<close> pops from word 1001 on.\<close>

lemma init_kstack_builds:
  assumes live: "heap_live (mm s)" and room: "free_pages (mm s) \<noteq> {}"
  shows "\<exists>ks m'. init_kstack proc s = Ok (s\<lparr>mm := m', procs := (procs s)(proc := (procs s proc)\<lparr>kstack := ks, stack_pointer := ks + 4 * 1001\<rparr>)\<rparr>)
    \<and> kept (mm s) m' \<and> ks \<in> free_pages (mm s) \<and> heap_page ks \<and> free_pages m' = free_pages (mm s) - {ks}
    \<and> (\<forall>j < 15. hword m' (ks + 4 * of_nat (1008 + j)) = isr_words (pstack (procs s proc)) ! j) \<and> hword m' (ks + 4 * 1007) = firstret s"
proof -
  obtain ks m1 where a: "kmalloc (mm s) = Ok (ks, m1)" "kept (mm s) m1" "ks \<in> free_pages (mm s)" "heap_page ks" "free_pages m1 = free_pages (mm s) - {ks}" "heap_data m1 ks"
    using alloc_page [OF live room] by blast
  let ?ws = "isr_words (pstack (procs s proc))"
  have len: "length ?ws = 15" by (simp add: isr_words_def)
  obtain m2 where w2: "write_words (ks + 4 * 1008) ?ws m1 = Ok m2" "copied m1 m2 ks"
    and h2: "\<And>j. j < 1024 \<Longrightarrow> hword m2 (ks + 4 * of_nat j) = (if 1008 \<le> j \<and> j < 1023 then ?ws ! (j - 1008) else hword m1 (ks + 4 * of_nat j))"
    using write_words_page [OF keptD(1) [OF a(2)] a(4,6), of 1008 ?ws] len by auto
  have step: "\<exists>t'. write32 kaccess (ks + 4 * i) v t = Ok t' \<and> copied m1 t' ks \<and> heap_live t' \<and> heap_data t' ks
      \<and> (\<forall>j. unat j < 1024 \<longrightarrow> hword t' (ks + 4 * j) = (if j = i then v else hword t (ks + 4 * j)))"
    if t: "heap_live t" "heap_data t ks" "copied m1 t ks" and i: "unat i < 1024" for i v t
  proof -
    obtain t' where t': "write32 kaccess (ks + 4 * i) v t = Ok t'" "copied t t' ks"
      "\<forall>j. unat j < 1024 \<longrightarrow> hword t' (ks + 4 * j) = (if j = i then v else hword t (ks + 4 * j))"
      using heap_write32 [OF t(1) a(4) t(2) i] by blast
    have "heap_live t'" "heap_data t' ks" using t'(2) t(2) copied_data [OF t'(2)] by (simp_all add: copied_def)
    with t'(1,3) copied_trans [OF a(4) t(3) t'(2)] show ?thesis by (intro exI [of _ t'] conjI)
  qed
  have u: "unat (1007 :: u32) < 1024" "unat (1006 :: u32) < 1024" "unat (1005 :: u32) < 1024" "unat (1001 :: u32) < 1024" by simp_all
  have l2: "heap_live m2" "heap_data m2 ks" using w2(2) a(6) copied_data [OF w2(2)] by (auto simp: copied_def)
  obtain m3 where 3: "write32 kaccess (ks + 4 * 1007) (firstret s) m2 = Ok m3" "copied m1 m3 ks" "heap_live m3" "heap_data m3 ks"
    and h3: "\<And>j. unat j < 1024 \<Longrightarrow> hword m3 (ks + 4 * j) = (if j = 1007 then firstret s else hword m2 (ks + 4 * j))"
    using step [OF l2 w2(2) u(1)] by blast
  obtain m4 where 4: "write32 kaccess (ks + 4 * 1006) 0xb m3 = Ok m4" "copied m1 m4 ks" "heap_live m4" "heap_data m4 ks"
    and h4: "\<And>j. unat j < 1024 \<Longrightarrow> hword m4 (ks + 4 * j) = (if j = 1006 then 0xb else hword m3 (ks + 4 * j))"
    using step [OF 3(3,4,2) u(2)] by blast
  obtain m5 where 5: "write32 kaccess (ks + 4 * 1005) 0xe m4 = Ok m5" "copied m1 m5 ks" "heap_live m5" "heap_data m5 ks"
    and h5: "\<And>j. unat j < 1024 \<Longrightarrow> hword m5 (ks + 4 * j) = (if j = 1005 then 0xe else hword m4 (ks + 4 * j))"
    using step [OF 4(3,4,2) u(3)] by blast
  obtain m6 where 6: "write32 kaccess (ks + 4 * 1001) 0xc m5 = Ok m6" "copied m1 m6 ks"
    and h6: "\<And>j. unat j < 1024 \<Longrightarrow> hword m6 (ks + 4 * j) = (if j = 1001 then 0xc else hword m5 (ks + 4 * j))"
    using step [OF 5(3,4,2) u(4)] by blast
  have ad: "ks + 0x1000 - 60 - 4 = ks + 4 * 1008" "ks + 4 * 1008 - 28 = ks + 4 * 1001" "ks + 4 * 1001 + 24 = ks + 4 * 1007"
    "ks + 4 * 1001 + 20 = ks + 4 * 1006" "ks + 4 * 1001 + 16 = ks + 4 * 1005" by simp_all
  have run: "init_kstack proc s = Ok (s\<lparr>mm := m6, procs := (procs s)(proc := (procs s proc)\<lparr>kstack := ks, stack_pointer := ks + 4 * 1001\<rparr>)\<rparr>)"
    unfolding init_kstack_def Let_def a(1) bind_ok.simps split ad w2(1) 3(1) 4(1) 5(1) 6(1) ..
  have "hword m6 (ks + 4 * of_nat (1008 + j)) = ?ws ! j" if "j < 15" for j
  proof -
    define w where "w = (of_nat (1008 + j) :: u32)"
    have "unat w = 1008 + j" unfolding w_def unat_of_nat using that by (simp add: take_bit_nat_eq_self)
    then have "unat w < 1024" "w \<noteq> 1001" "w \<noteq> 1005" "w \<noteq> 1006" "w \<noteq> 1007" using that by auto
    then have "hword m6 (ks + 4 * w) = hword m2 (ks + 4 * w)" using h6 [of w] h5 [of w] h4 [of w] h3 [of w] by simp
    moreover have "hword m2 (ks + 4 * w) = ?ws ! j" using h2 [of "1008 + j"] that unfolding w_def by (simp only:) simp
    ultimately show ?thesis unfolding w_def by (rule trans)
  qed
  moreover have "hword m6 (ks + 4 * 1007) = firstret s" using h6 [of 1007] h5 [of 1007] h4 [of 1007] h3 [of 1007] by simp
  moreover have "kept (mm s) m6" by (rule kept_copied [OF a(2) 6(2) a(3,6)])
  moreover have "free_pages m6 = free_pages (mm s) - {ks}" using 6(2) a(5) by (simp add: copied_def)
  ultimately show ?thesis using run a(3,4) by blast
qed

section \<open>The whole of \<open>fork\<close>\<close>

lemma fork_effect:
  assumes ready: "fork_ready s"
  shows "\<exists>s' c q nd ks. fork s = Ok s' \<and> c \<in> free_pages (mm s)
    \<and> procs s' = (procs s)(active_proc s := (procs s (active_proc s))\<lparr>pnext := c\<rparr>, c := child_proc s c nd ks)
    \<and> active_proc s' = active_proc s \<and> frame s' = (frame s)\<lparr>eax := 2\<rparr> \<and> fd_tables s' = (fd_tables s)(2 := q)
    \<and> kept (mm s) (mm s') \<and> heap_data (mm s') nd \<and> nd \<notin> free_pages (mm s')
    \<and> (\<forall>j < 4096. heap_byte (mm s') (q + of_nat j) = heap_byte (mm s) (fd_tables s (active_pid s) + of_nat j))
    \<and> (\<forall>j < 1024. hword (mm s') (nd + 4 * of_nat j) = (if j = 1023 then (pte (mm s') nd AND 0xFFFFF000) OR 0x803 else pd_entry (mm s) (of_nat j) AND 0xFFFFFFFD))
    \<and> (\<forall>j < 15. hword (mm s') (ks + 4 * of_nat (1008 + j)) = isr_words ((frame s)\<lparr>eflags := 0x282, eax := 0\<rparr>) ! j)
    \<and> hword (mm s') (ks + 4 * 1007) = firstret s"
proof -
  let ?a = "active_proc s" and ?T = "fd_tables s (active_pid s)" and ?d = "page_directory (procs s (active_proc s))"
  have live: "heap_live (mm s)" and room: "4 \<le> card (free_pages (mm s))" and pc: "active_pid s \<noteq> 2"
    and T: "heap_page ?T" "heap_data (mm s) ?T" "?T \<notin> free_pages (mm s)"
    and d: "page_aligned ?d" "translate (mm s) ?d = Some (pd_base (mm s))" and an: "?a \<notin> free_pages (mm s)"
    using ready by (simp_all add: fork_ready_def Let_def heap_data_def)
  have ok: "kernel_ok (mm s)" using live by (simp add: heap_live_def)
  have "free_pages (mm s) \<noteq> {}" using room by auto
  from alloc_page [OF live this] obtain c m1 where c: "kmalloc (mm s) = Ok (c, m1)" "kept (mm s) m1" "c \<in> free_pages (mm s)"
    "free_pages m1 = free_pages (mm s) - {c}" by blast
  have fin: "finite (free_pages (mm s))" using room card.infinite by fastforce
  have c1: "card (free_pages m1) = card (free_pages (mm s)) - 1" using c(3,4) fin by simp
  note T1 = used_page_kept [OF c(2) T]
  have r1: "2 \<le> card (free_pages m1)" using c1 room by simp
  from clone_fd_table_copies [where tables = "fd_tables s" and parent = "active_pid s" and child = 2, OF keptD(1) [OF c(2)] r1 pc T(1) T1(1,2)]
  obtain q m2 where q: "clone_fd_table (active_pid s) 2 (fd_tables s) m1 = Ok ((fd_tables s)(2 := q), m2)" "kept m1 m2" "q \<in> free_pages m1" "heap_page q"
    "free_pages m2 = free_pages m1 - {q}" "heap_data m2 q" and bq: "\<And>j. j < 4096 \<Longrightarrow> heap_byte m2 (q + of_nat j) = heap_byte m1 (?T + of_nat j)"
    by blast
  have k2: "kept (mm s) m2" by (rule kept_trans [OF c(2) q(2)])
  have c2: "card (free_pages m2) = card (free_pages (mm s)) - 2" using q(3,5) c(4) c1 fin by simp
  have ok2: "kernel_ok m2" using keptD(1) [OF k2] by (simp add: heap_live_def)
  have t2: "translate m2 ?d = Some (pd_base m2)" by (rule quiet_dir [OF ok ok2 keptD(2) [OF k2] d])
  have r2: "2 \<le> card (free_pages m2)" using c2 room by simp
  from clone_directory_copies [OF keptD(1) [OF k2] r2 d(1) t2]
  obtain nd m3 where nd: "clone_directory ?d m2 = Ok (nd, m3)" "kept m2 m3" "nd \<in> free_pages m2" "heap_page nd"
    "free_pages m3 = free_pages m2 - {nd}" "heap_data m3 nd"
    and w: "\<And>j. j < 1024 \<Longrightarrow> hword m3 (nd + 4 * of_nat j) = (if j = 1023 then (pte m3 nd AND 0xFFFFF000) OR 0x803 else pd_entry m2 (of_nat j) AND 0xFFFFFFFD)"
    by blast
  have k3: "kept (mm s) m3" by (rule kept_trans [OF k2 nd(2)])
  have "card (free_pages m3) = card (free_pages (mm s)) - 3" using nd(3,5) q(5) c(4) c2 fin by simp
  then have n3: "free_pages m3 \<noteq> {}" using room by auto
  have ca: "c \<noteq> ?a" using c(3) an by auto
  let ?p = "(procs s c)\<lparr>pstate := pstate (procs s ?a), pstack := (frame s)\<lparr>eflags := 0x282\<rparr>, pid := 2, page_directory := nd\<rparr>"
  let ?s3 = "s\<lparr>mm := m3, fd_tables := (fd_tables s)(2 := q), procs := (procs s)(c := ?p)\<rparr>"
  have f: "fork s = start_child c ?s3" using c(1) q(1) nd(1) ca by (simp add: fork_def Let_def)
  let ?q = "?p\<lparr>pnext := pnext (procs s ?a), pstack := (frame s)\<lparr>eflags := 0x282, eax := 0\<rparr>\<rparr>"
  let ?s4 = "?s3\<lparr>frame := (frame s)\<lparr>eax := 2\<rparr>, procs := (procs s)(?a := (procs s ?a)\<lparr>pnext := c\<rparr>, c := ?q)\<rparr>"
  have st: "start_child c ?s3 = init_kstack c ?s4" using ca by (simp add: start_child_def link_child_def Let_def fun_upd_twist)
  have s4: "mm ?s4 = m3" "pstack (procs ?s4 c) = (frame s)\<lparr>eflags := 0x282, eax := 0\<rparr>" "firstret ?s4 = firstret s" by simp_all
  have l4: "heap_live (mm ?s4)" "free_pages (mm ?s4) \<noteq> {}" using keptD(1) [OF k3] n3 by simp_all
  obtain ks m4 where ks: "init_kstack c ?s4 = Ok (?s4\<lparr>mm := m4, procs := (procs ?s4)(c := (procs ?s4 c)\<lparr>kstack := ks, stack_pointer := ks + 4 * 1001\<rparr>)\<rparr>)"
    "kept m3 m4" "\<forall>j < 15. hword m4 (ks + 4 * of_nat (1008 + j)) = isr_words ((frame s)\<lparr>eflags := 0x282, eax := 0\<rparr>) ! j" "hword m4 (ks + 4 * 1007) = firstret s"
    using init_kstack_builds [OF l4, of c] unfolding s4 by (elim exE conjE)
  let ?s' = "?s4\<lparr>mm := m4, procs := (procs ?s4)(c := (procs ?s4 c)\<lparr>kstack := ks, stack_pointer := ks + 4 * 1001\<rparr>)\<rparr>"
  have bytes: "heap_byte m4 (q + of_nat j) = heap_byte (mm s) (?T + of_nat j)" if "j < 4096" for j
    using used_page_kept(3) [OF kept_trans [OF nd(2) ks(2)] q(4,6) _ that] q(5) bq [OF that] T1(3) [OF that] by simp
  have nd3: "nd \<notin> free_pages m3" using nd(5) by simp
  have pnd: "heap_data m4 nd" "nd \<notin> free_pages m4" "pte m4 nd AND 0xFFFFF000 = pte m3 nd AND 0xFFFFF000"
    using used_page_kept(1,2) [OF ks(2) nd(4,6) nd3] quietD(4) [OF keptD(2) [OF ks(2)] heap_dataD(1,2) [OF nd(6)]] by (simp_all add: frame_eq_iff)
  have words: "hword m4 (nd + 4 * of_nat j) = (if j = 1023 then (pte m4 nd AND 0xFFFFF000) OR 0x803 else pd_entry (mm s) (of_nat j) AND 0xFFFFFFFD)"
    if "j < 1024" for j
    using hword_bytes [OF used_page_kept(3) [OF ks(2) nd(4,6) nd3] that] w [OF that] pnd(3) quietD(2) [OF keptD(2) [OF k2], of "of_nat j"] that
    by (simp add: unat_of_nat take_bit_nat_eq_self)
  have pr: "procs ?s' = (procs s)(?a := (procs s ?a)\<lparr>pnext := c\<rparr>, c := child_proc s c nd ks)"
    using ca by (simp add: child_proc_def)
  have s': "mm ?s' = m4" "active_proc ?s' = ?a" "frame ?s' = (frame s)\<lparr>eax := 2\<rparr>" "fd_tables ?s' = (fd_tables s)(2 := q)" by simp_all
  have "fork s = Ok ?s'" by (simp only: f st ks(1))
  moreover have "kept (mm s) (mm ?s')" unfolding s' by (rule kept_trans [OF k3 ks(2)])
  moreover note pr s'(2-4) c(3)
  moreover have "heap_data (mm ?s') nd" "nd \<notin> free_pages (mm ?s')" unfolding s' by (rule pnd(1), rule pnd(2))
  moreover have "\<forall>j < 4096. heap_byte (mm ?s') (q + of_nat j) = heap_byte (mm s) (?T + of_nat j)" unfolding s' using bytes by blast
  moreover have "\<forall>j < 1024. hword (mm ?s') (nd + 4 * of_nat j) = (if j = 1023 then (pte (mm ?s') nd AND 0xFFFFF000) OR 0x803 else pd_entry (mm s) (of_nat j) AND 0xFFFFFFFD)"
    unfolding s' using words by blast
  moreover have "\<forall>j < 15. hword (mm ?s') (ks + 4 * of_nat (1008 + j)) = isr_words ((frame s)\<lparr>eflags := 0x282, eax := 0\<rparr>) ! j"
    "hword (mm ?s') (ks + 4 * 1007) = firstret s" unfolding s' by (rule ks(3), rule ks(4))
  ultimately show ?thesis by (intro exI [of _ ?s'] exI [of _ c] exI [of _ q] exI [of _ nd] exI [of _ ks] conjI)
qed

section \<open>The child's directory\<close>

lemma clear_write_bit:
  fixes e :: u32
  shows "present (e AND 0xFFFFFFFD) = present e" "(e AND 0xFFFFFFFD) AND 0xFFFFF000 = e AND 0xFFFFF000" "\<not> bit (e AND 0xFFFFFFFD) 1"
    "frame_of (e AND 0xFFFFFFFD) = frame_of e"
proof -
  show m: "(e AND 0xFFFFFFFD) AND 0xFFFFF000 = e AND 0xFFFFF000" by (simp add: and.assoc)
  show "present (e AND 0xFFFFFFFD) = present e" "\<not> bit (e AND 0xFFFFFFFD) 1"
    by (simp_all add: present_iff_bit bit_and_iff)
  show "frame_of (e AND 0xFFFFFFFD) = frame_of e" using m by (simp add: frame_eq_iff)
qed

lemma dir_word_index:
  assumes "unat (i :: u32) < 1024"
  obtains j where "j < 1024" "i = of_nat j" "i = 1023 \<longleftrightarrow> j = 1023"
proof
  show "unat i < 1024" "i = of_nat (unat i)" using assms by simp_all
  show "i = 1023 \<longleftrightarrow> unat i = 1023" by (auto simp: word_unat_eq_iff)
qed

lemma child_directory:
  assumes ok: "kernel_ok m" and nd: "heap_data m nd" "nd \<notin> free_pages m"
    and w: "\<And>j. j < 1024 \<Longrightarrow> hword m (nd + 4 * of_nat j) = (if j = 1023 then (pte m nd AND 0xFFFFF000) OR 0x803 else pd_entry m (of_nat j) AND 0xFFFFFFFD)"
  defines "d \<equiv> pte m nd AND 0xFFFFF000"
  shows "\<And>i. unat i < 1024 \<Longrightarrow> pd_entry (m\<lparr>cr3 := d\<rparr>) i = (if i = 1023 then d OR 0x803 else pd_entry m i AND 0xFFFFFFFD)"
    and "kernel_ok (m\<lparr>cr3 := d\<rparr>)" and "\<And>y. \<not> in_window y \<Longrightarrow> translate (m\<lparr>cr3 := d\<rparr>) y = translate m y"
proof -
  let ?m = "m\<lparr>cr3 := d\<rparr>"
  note k = kernel_okD [OF ok] and n = heap_dataD [OF nd(1)]
  note h = heap_okD [OF k(3) n(1,2)]
  have base: "pd_base ?m = d" by (simp add: pd_base_def d_def and.assoc)
  show e: "pd_entry ?m i = (if i = 1023 then d OR 0x803 else pd_entry m i AND 0xFFFFFFFD)" if i: "unat i < 1024" for i
  proof -
    obtain j where j: "j < 1024" "i = of_nat j" "i = 1023 \<longleftrightarrow> j = 1023" using dir_word_index [OF i] by blast
    have "pd_entry ?m i = hword m (nd + 4 * i)" using hword_page [OF n(1) nd(1) i] base by (simp add: pd_entry_def d_def)
    then show ?thesis using w [OF j(1)] j(2,3) by (simp add: d_def)
  qed
  have al: "page_aligned d" by (simp add: d_def)
  have last: "present (d OR 0x803)" "(d OR 0x803) AND 0xFFFFF000 = d" "frame_of (d OR 0x803) = frame_of (pte m nd)"
    using page_or_flags [OF al, of "0x803"] by (simp_all add: present_iff_bit d_def frame_of_mask)
  have pr: "present (pd_entry ?m i) \<longleftrightarrow> (i = 1023 \<or> present (pd_entry m i))" if "unat i < 1024" for i
    using e [OF that] last(1) clear_write_bit(1) by simp
  have fr: "frame_of (pd_entry ?m i) = (if i = 1023 then frame_of (pte m nd) else frame_of (pd_entry m i))" if "unat i < 1024" for i
    using e [OF that] last(3) clear_write_bit(4) by simp
  have apart: "frame_of (pd_entry m i) \<noteq> frame_of (pte m nd)" if "unat i < 1024" "present (pd_entry m i)" for i
    by (rule heap_tables_apart [OF ok n that])
  have "recursive_map ?m" using e [of 1023] last base by (simp add: recursive_map_def)
  moreover have "tables_distinct ?m" unfolding tables_distinct_def frame_eq_iff [symmetric]
  proof (intro allI impI, elim conjE)
    fix i j assume a: "unat i < 1024" "unat j < 1024" "present (pd_entry ?m i)" "present (pd_entry ?m j)" "frame_of (pd_entry ?m i) = frame_of (pd_entry ?m j)"
    show "i = j"
    proof (cases "i = 1023 \<or> j = 1023")
      case True
      then show ?thesis using a pr fr apart [of i] apart [of j] by (auto split: if_splits)
    next
      case False
      then show ?thesis using a pr fr tables_distinctD [OF vm_okD(2) [OF k(1)] a(1,2)] by (simp add: frame_eq_iff)
    qed
  qed
  moreover have "tables_used ?m" unfolding tables_used_def using pr fr h(1) vm_okD(3) [OF k(1)] by (auto simp: tables_used_def)
  ultimately have vm: "vm_ok ?m" by (simp add: vm_ok_def)
  have same: "pte ?m y = pte m y" "table_present ?m y = table_present m y" if "\<not> in_window y" for y
  proof -
    have "pd_entry ?m (drop_bit 22 y) = pd_entry m (drop_bit 22 y) AND 0xFFFFFFFD" using e [OF dir_index_less, of y] that by (simp add: in_window_def)
    then show "pte ?m y = pte m y" "table_present ?m y = table_present m y"
      using clear_write_bit by (simp_all add: pte_def pte_addr_def table_present_def)
  qed
  then show "translate ?m y = translate m y" if "\<not> in_window y" for y using that by (simp add: translate_pte)
  have pte: "pte ?m x = pte m x" if "heap_page x" for x using same(1) [OF heap_page_window [OF that]] .
  have "heap_ok ?m" unfolding heap_ok_def
  proof (intro allI impI, elim conjE)
    fix x assume x: "heap_page x" "present (pte ?m x)"
    then have px: "present (pte m x)" using pte by simp
    note hx = heap_okD [OF k(3) x(1) px]
    have "heap_used ?m x" if "frame_of (pte ?m x) = frame_of (pd_base ?m)"
    proof -
      have "x = nd" using h(2) [OF x(1) px] that pte [OF x(1)] base by (simp add: d_def frame_of_mask)
      then show ?thesis using nd n(1) pte [OF n(1)] by (simp add: free_pages_def heap_used_def)
    qed
    moreover have "frame_of (pd_entry ?m i) \<noteq> frame_of (pte ?m x)" if "unat i < 1023" "present (pd_entry ?m i)" for i
    proof -
      have i: "i \<noteq> 1023" "unat i < 1024" using that by auto
      then show ?thesis using hx(3) [OF that(1)] that(2) pr [OF i(2)] fr [OF i(2)] pte [OF x(1)] by simp
    qed
    ultimately show "frame_of (pte ?m x) \<in> used_frames (pf_bitmap ?m)
     \<and> (\<forall>y. heap_page y \<and> present (pte ?m y) \<and> frame_of (pte ?m y) = frame_of (pte ?m x) \<longrightarrow> y = x)
     \<and> (\<forall>i. unat i < 1023 \<and> present (pd_entry ?m i) \<longrightarrow> frame_of (pd_entry ?m i) \<noteq> frame_of (pte ?m x))
     \<and> (frame_of (pte ?m x) = frame_of (pd_base ?m) \<longrightarrow> heap_used ?m x)"
      using hx(1,2) pte x(1) by auto
  qed
  moreover have "heap_mapped ?m" using pr [of 769] k(2) by (simp add: heap_mapped_def)
  ultimately show "kernel_ok ?m" using vm by (simp add: kernel_ok_def)
qed

lemma sample_fork_ready: "\<exists>m t. fork_ready (sample_forker m t)"
proof -
  have "free_pages sample_vm \<noteq> {}" using sample_pool heap_pages_card by auto
  from alloc_page [OF sample_live this] obtain t m where a: "kept sample_vm m" "t \<in> free_pages sample_vm" "heap_page t"
    "free_pages m = free_pages sample_vm - {t}" "heap_data m t" by blast
  have ok: "kernel_ok m" using keptD(1) [OF a(1)] by (simp add: heap_live_def)
  have "card (free_pages m) = 1023" using a(2,4) sample_pool heap_pages_card by simp
  moreover have "translate m 0xFFFFF000 = Some (pd_base m)"
    using vm_okD(1) [OF kernel_okD(1) [OF ok]] by (simp add: recursive_map_def translate_def pt_entry_addr_def present_def pd_entry_def)
  moreover have "\<not> heap_page 0xc0201000" by (simp add: heap_page_def)
  ultimately have "fork_ready (sample_forker m t)"
    using keptD(1) [OF a(1)] a by (simp add: fork_ready_def sample_forker_def sample_sched_def page_aligned_def) (simp add: free_pages_def)
  then show ?thesis by blast
qed

lemma sample_fork_ring: "ring (procs (sample_forker m t)) [active_proc (sample_forker m t)]"
  by (simp add: ring_def sample_forker_def sample_sched_def)

section \<open>Properties\<close>





end
