(* ===== verification/Copy_On_Write.thy ===== *)
theory Copy_On_Write
  imports Page_Copy
begin

text \<open>
  The copy-on-write branch of \<^verbatim>\<open>page_fault\<close> (\<^verbatim>\<open>barrelOS/kernel/vmm.c\<close>): a process that writes to a page it
  shares after \<^verbatim>\<open>fork\<close> gets a frame of its own for it, and before that a page table of its own if the
  table was shared too. Both copies are made in a heap page (\<open>Page_Copy\<close>) whose frame is then taken out of
  the heap. The relation \<open>own_copy\<close> is what all steps keep: every frame outside of the heap, which are
  the pages and tables of the other processes.
\<close>

section \<open>Specification\<close>

text \<open>Memory that heap operations do not touch: frames in use by neither the heap, its table nor the directory.\<close>

definition elsewhere :: "vm \<Rightarrow> nat \<Rightarrow> bool" where
  "elsewhere s f \<longleftrightarrow> f \<in> used_frames (pf_bitmap s) \<and> \<not> heap_frame s f \<and> f \<noteq> frame_of (pd_entry s 769) \<and> f \<noteq> frame_of (pd_base s)"

definition set_pde :: "u32 \<Rightarrow> u32 \<Rightarrow> vm \<Rightarrow> vm" where
  "set_pde i e s = s\<lparr>pmem := store32 (pmem s) (pd_base s + 4 * i) e\<rparr>"

text \<open>
  The frame of a heap page is taken for something else: the page leaves the heap, the frame was free or
  belonged to a page of the pool, and nobody else maps it.
\<close>

definition took :: "vm \<Rightarrow> vm \<Rightarrow> u32 \<Rightarrow> bool" where
  "took s t f \<longleftrightarrow> kernel_ok t \<and> cr3 t = cr3 s \<and> page_fault_allowed t = page_fault_allowed s
     \<and> (\<forall>i. unat i < 1024 \<longrightarrow> pd_entry t i = pd_entry s i) \<and> free_pages t = free_pages s
     \<and> card (absent_pages t) + card (free_frames s) = Suc (card (absent_pages s)) + card (free_frames t)
     \<and> page_aligned f \<and> frame_of f \<in> used_frames (pf_bitmap t) \<and> \<not> heap_frame t (frame_of f) \<and> \<not> elsewhere s (frame_of f)
     \<and> (\<forall>i. unat i < 1024 \<and> present (pd_entry s i) \<longrightarrow> frame_of (pd_entry s i) \<noteq> frame_of f)
     \<and> (\<forall>y. \<not> heap_page (y AND 0xFFFFF000) \<longrightarrow> translate t y = translate s y)
     \<and> (\<forall>x. elsewhere s (frame_of x) \<longrightarrow> pmem t x = pmem s x \<and> elsewhere t (frame_of x))
     \<and> (\<forall>x. heap_byte s x \<noteq> None \<and> x AND 0xFFFFF000 \<notin> free_pages s \<longrightarrow> heap_byte t x = heap_byte s x)"

text \<open>What the kernel keeps while it gives a process its own copy: the rest of its memory and of its mappings.\<close>

definition own_copy :: "vm \<Rightarrow> vm \<Rightarrow> nat set \<Rightarrow> bool" where
  "own_copy s t F \<longleftrightarrow> kernel_ok t \<and> cr3 t = cr3 s \<and> page_fault_allowed t = page_fault_allowed s \<and> free_pages t = free_pages s
     \<and> (\<forall>x. elsewhere s (frame_of x) \<and> frame_of x \<notin> F \<longrightarrow> pmem t x = pmem s x \<and> elsewhere t (frame_of x))
     \<and> (\<forall>x. heap_byte s x \<noteq> None \<and> x AND 0xFFFFF000 \<notin> free_pages s \<longrightarrow> heap_byte t x = heap_byte s x)"

text \<open>The second half of the handler: the page gets a frame of its own.\<close>

definition copies_page :: "vm \<Rightarrow> vm \<Rightarrow> u32 \<Rightarrow> u32 \<Rightarrow> bool" where
  "copies_page s u va P \<longleftrightarrow> own_copy s u {frame_of (pd_entry s (drop_bit 22 va))}
     \<and> (\<forall>j. unat j < 1024 \<longrightarrow> pd_entry u j = pd_entry s j) \<and> bit (pte u va) 1
     \<and> (\<exists>g. translate u va = Some g \<and> \<not> elsewhere s (frame_of g) \<and> (\<forall>j < 4096. pmem u (g + of_nat j) = pmem s (P + of_nat j)))
     \<and> (\<forall>y. drop_bit 22 y = drop_bit 22 va \<and> \<not> same_page y va \<longrightarrow> pte u y = pte s y)
     \<and> (\<forall>y. \<not> heap_page (y AND 0xFFFFF000) \<and> \<not> same_page y va \<longrightarrow> translate u y = translate s y)"

text \<open>What the handler does, whether the page table was shared or not.\<close>

definition copy_effect :: "vm \<Rightarrow> vm \<Rightarrow> u32 \<Rightarrow> u32 \<Rightarrow> bool" where
  "copy_effect s u va P \<longleftrightarrow>
     own_copy s u (if bit (pd_entry s (drop_bit 22 va)) 1 then {frame_of (pd_entry s (drop_bit 22 va))} else {})
     \<and> bit (pte u va) 1 \<and> bit (pd_entry u (drop_bit 22 va)) 1
     \<and> (\<exists>g. translate u va = Some g \<and> \<not> elsewhere s (frame_of g) \<and> (\<forall>j < 4096. pmem u (g + of_nat j) = pmem s (P + of_nat j)))
     \<and> (\<forall>y. drop_bit 22 y = drop_bit 22 va \<and> \<not> same_page y va \<and> bit (pte u y) 1 \<longrightarrow> bit (pd_entry s (drop_bit 22 va)) 1 \<and> bit (pte s y) 1)
     \<and> (\<forall>y. \<not> heap_page (y AND 0xFFFFF000) \<and> \<not> in_window y \<and> \<not> same_page y va \<longrightarrow> translate u y = translate s y)"

text \<open>A process with a shared page at \<open>0x10000000\<close>: the table in frame \<open>0x200\<close> and the page in \<open>0x201\<close>, both read-only.\<close>

definition sample_shared :: vm where
  "sample_shared = set_pte 0x10000000 0x201005 (set_pde 64 0x200005 sample_vm)"

section \<open>A page copied into a new page\<close>

lemma quiet_elsewhere:
  assumes q: "quiet s s'" and x: "elsewhere s (frame_of x)"
  shows "pmem s' x = pmem s x" "elsewhere s' (frame_of x)"
proof -
  have n: "\<not> heap_frame s' (frame_of x)"
  proof
    assume "heap_frame s' (frame_of x)"
    then obtain p where p: "heap_page p" "present (pte s' p)" "frame_of (pte s' p) = frame_of x" by (auto simp: heap_frame_def)
    show False
    proof (cases "present (pte s p)")
      case True
      then show False using quietD(4) [OF q p(1) True] p x unfolding elsewhere_def heap_frame_def by metis
    next
      case False
      then show False using quietD(5) [OF q p(1,2) False] p(3) x by (simp add: elsewhere_def)
    qed
  qed
  then show "pmem s' x = pmem s x" using quietD(6) [OF q n] x by (simp add: elsewhere_def)
  show "elsewhere s' (frame_of x)" using n x quietD(3) [OF q] quietD(2) [OF q, of 769] quietD(1) [OF q] by (auto simp: elsewhere_def pd_base_def)
qed

lemma elsewhere_source:
  assumes "page_aligned S" "page_aligned P" "translate s S = Some P" and "elsewhere s (frame_of P)"
  shows "source s S P"
  using assms unfolding source_def elsewhere_def heap_frame_def by metis

lemma alloc_copy:
  assumes live: "heap_live s" and room: "2 \<le> card (free_pages s)" and S: "source s S P"
  shows "\<exists>v s0 s1. kmalloc s = Ok (v, s0) \<and> mem_copy S v 4096 s0 = Ok s1 \<and> kept s s1 \<and> v \<in> free_pages s \<and> heap_page v \<and> heap_data s1 v
    \<and> free_pages s1 = free_pages s - {v} \<and> (\<forall>j < 4096. heap_byte s1 (v + of_nat j) = Some (pmem s (P + of_nat j)))"
proof -
  obtain v s0 where a: "kmalloc s = Ok (v, s0)" "kept s s0" "v \<in> free_pages s" "heap_page v" "free_pages s0 = free_pages s - {v}" "heap_data s0 v"
    using alloc_page [OF live] room by fastforce
  note S0 = kmalloc_source [OF live a(1,3) S]
  have n: "free_pages s0 \<noteq> {}" "v \<notin> free_pages s0" using card_two [OF room a(3)] a(5) by auto
  obtain s1 where c: "mem_copy S v 4096 s0 = Ok s1" "page_copied s0 s1 v (\<lambda>j. pmem s0 (P + of_nat j))"
    using mem_copy_page [OF keptD(1) [OF a(2)] n(1) _ a(4,6) n(2)] S0 by blast
  have "heap_byte s1 (v + of_nat j) = Some (pmem s (P + of_nat j))" if "j < 4096" for j using c(2) S0 that by (simp add: page_copied_def)
  moreover have "heap_data s1 v" by (rule page_copied_data [OF c(2) a(6)])
  moreover have "free_pages s1 = free_pages s - {v}" using c(2) a(5) by (simp add: page_copied_def)
  ultimately show ?thesis using a(1,3,4) c(1) kept_page_copied [OF a(2) c(2) a(3)] by blast
qed

section \<open>Taking a page out of the heap\<close>

lemma drop_page:
  assumes ok: "kernel_ok s" and D: "heap_data s D"
  defines "s' \<equiv> set_pte D 0 s"
  shows "write32 kaccess (page_entry D) 0 s = Ok s'" and "kernel_ok s'"
    and "\<And>i. unat i < 1024 \<Longrightarrow> pd_entry s' i = pd_entry s i" and "\<And>x. heap_page x \<Longrightarrow> x \<noteq> D \<Longrightarrow> pte s' x = pte s x" and "pte s' D = 0"
    and "\<And>y. \<not> same_page y D \<Longrightarrow> translate s' y = translate s y"
    and "\<And>x. frame_of x \<noteq> frame_of (pd_entry s 769) \<Longrightarrow> pmem s' x = pmem s x"
    and "absent_pages s' = insert D (absent_pages s)" "pf_bitmap s' = pf_bitmap s" "cr3 s' = cr3 s" "page_fault_allowed s' = page_fault_allowed s"
proof -
  note k = kernel_okD [OF ok] and d = heap_dataD [OF D]
  have tp: "table_present s D" by (rule heap_page_table [OF k(2) d(1)])
  note g = set_pte_facts [OF k(1) tp heap_page_window [OF d(1)], where v = 0, folded s'_def]
  show "write32 kaccess (page_entry D) 0 s = Ok s'" unfolding s'_def by (rule write_pte(1) [OF vm_okD(1) [OF k(1)] tp])
  show dir: "pd_entry s' i = pd_entry s i" if "unat i < 1024" for i by (rule g(2) [OF that])
  show z: "pte s' D = 0" using g(5) [OF tp] by (simp add: same_page_def)
  show others: "pte s' x = pte s x" if "heap_page x" "x \<noteq> D" for x
    using g(5) [OF heap_page_table [OF k(2) that(1)]] that d(1) by (simp add: same_page_aligned heap_page_def)
  show "translate s' y = translate s y" if "\<not> same_page y D" for y using g(6) [of y] that by simp
  show "pmem s' x = pmem s x" if "frame_of x \<noteq> frame_of (pd_entry s 769)" for x unfolding s'_def by (rule set_pte_memory [OF d(1) that])
  have np: "\<not> present (0 :: u32)" by (simp add: present_def)
  have "(x \<in> absent_pages s') = (x \<in> insert D (absent_pages s))" for x
    using others [of x] z d(1) np by (cases "x = D") (auto simp: absent_pages_def)
  then show "absent_pages s' = insert D (absent_pages s)" by blast
  show b: "pf_bitmap s' = pf_bitmap s" "cr3 s' = cr3 s" "page_fault_allowed s' = page_fault_allowed s" by (simp_all add: s'_def set_pte_def)
  have base: "pd_base s' = pd_base s" using b by (simp add: pd_base_def)
  have "heap_ok s'" unfolding heap_ok_def
  proof (intro allI impI, elim conjE)
    fix x assume x: "heap_page x" "present (pte s' x)"
    then have xD: "x \<noteq> D" using z np by auto
    have px: "present (pte s x)" using x others [OF x(1) xD] by simp
    note h = heap_okD [OF k(3) x(1) px]
    have "y = x" if "heap_page y" "present (pte s' y)" "frame_of (pte s' y) = frame_of (pte s' x)" for y
      using that h(2) [of y] others [OF x(1) xD] others [of y] z np by (cases "y = D") auto
    moreover have "frame_of (pd_entry s' i) \<noteq> frame_of (pte s' x)" if "unat i < 1023" "present (pd_entry s' i)" for i
      using h(3) [of i] dir [of i] that others [OF x(1) xD] by simp
    moreover have "heap_used s' x" if "frame_of (pte s' x) = frame_of (pd_base s')"
      using h(4) that others [OF x(1) xD] base by (auto simp: heap_used_def)
    ultimately show "frame_of (pte s' x) \<in> used_frames (pf_bitmap s')
     \<and> (\<forall>y. heap_page y \<and> present (pte s' y) \<and> frame_of (pte s' y) = frame_of (pte s' x) \<longrightarrow> y = x)
     \<and> (\<forall>i. unat i < 1023 \<and> present (pd_entry s' i) \<longrightarrow> frame_of (pd_entry s' i) \<noteq> frame_of (pte s' x))
     \<and> (frame_of (pte s' x) = frame_of (pd_base s') \<longrightarrow> heap_used s' x)"
      using h(1) others [OF x(1) xD] b(1) by simp
  qed
  moreover have "heap_mapped s'" using dir [of 769] k(2) by (simp add: heap_mapped_def)
  ultimately show "kernel_ok s'" using g(1) by (simp add: kernel_ok_def)
qed

section \<open>Changing an entry of the directory\<close>

lemma set_pde_base [simp]: "pd_base (set_pde i e s) = pd_base s" "pf_bitmap (set_pde i e s) = pf_bitmap s" "cr3 (set_pde i e s) = cr3 s"
  "page_fault_allowed (set_pde i e s) = page_fault_allowed s"
  by (simp_all add: set_pde_def pd_base_def)

lemma set_pde_entry: "unat i < 1024 \<Longrightarrow> unat j < 1024 \<Longrightarrow> pd_entry (set_pde i e s) j = (if j = i then e else pd_entry s j)"
  using load32_store32_entry [OF pd_base_aligned pd_base_aligned, of i j] by (simp add: pd_entry_def set_pde_def pd_base_def)

lemma set_pde_memory: "unat i < 1024 \<Longrightarrow> frame_of x \<noteq> frame_of (pd_base s) \<Longrightarrow> pmem (set_pde i e s) x = pmem s x"
  using store32_entry_frame [OF pd_base_aligned, of i x] by (simp add: set_pde_def)

lemma table_frame_apart:
  assumes ok: "vm_ok s" and j: "unat j < 1023" "present (pd_entry s j)"
  shows "frame_of (pd_entry s j) \<noteq> frame_of (pd_base s)"
proof
  assume "frame_of (pd_entry s j) = frame_of (pd_base s)"
  then have "j = 1023"
    using tables_distinctD [OF vm_okD(2) [OF ok], of j 1023] j dir_entry_frame [OF vm_okD(1) [OF ok]] vm_okD(1) [OF ok]
    by (simp add: frame_eq_iff recursive_map_def)
  with j(1) show False by simp
qed

lemma set_pde_pte:
  assumes ok: "vm_ok s" and i: "unat i < 1023" and y: "drop_bit 22 y \<noteq> i" "\<not> in_window y" and p: "table_present s y"
  shows "pte (set_pde i e s) y = pte s y"
proof -
  have "unat (drop_bit 22 y) \<noteq> unat (1023 :: u32)" using y(2) word_unat_eq_iff unfolding in_window_def by blast
  then have lt: "unat (drop_bit 22 y) < 1023" using dir_index_less [of y] by simp
  have e: "pd_entry (set_pde i e s) (drop_bit 22 y) = pd_entry s (drop_bit 22 y)" using set_pde_entry [OF _ dir_index_less, of i e s y] i y(1) by simp
  have ne: "frame_of (pd_entry s (drop_bit 22 y)) \<noteq> frame_of (pd_base s)" using table_frame_apart [OF ok lt] p by (simp add: table_present_def)
  have "load32 (pmem (set_pde i e s)) ((pd_entry s (drop_bit 22 y) AND 0xFFFFF000) + 4 * (drop_bit 12 y AND 0x3FF)) =
      load32 (pmem s) ((pd_entry s (drop_bit 22 y) AND 0xFFFFF000) + 4 * (drop_bit 12 y AND 0x3FF))"
    using set_pde_memory [of i] i ne by (intro load32_page_local [OF page_aligned_mask table_index_less]) (simp add: frame_of_mask)
  then show ?thesis by (simp add: pte_def pte_addr_def e)
qed

lemma set_pde_translate:
  assumes ok: "vm_ok s" and i: "unat i < 1023" and y: "drop_bit 22 y \<noteq> i" "\<not> in_window y"
  shows "translate (set_pde i e s) y = translate s y"
proof -
  have "table_present (set_pde i e s) y = table_present s y"
    using set_pde_entry [OF _ dir_index_less, of i e s y] i y(1) by (simp add: table_present_def)
  then show ?thesis using set_pde_pte [OF ok i y, of e] by (cases "table_present s y") (simp_all add: translate_pte)
qed

lemma set_pde_ok:
  assumes ok: "kernel_ok s" and i: "unat i < 1023" "i \<noteq> 769" and e: "present e" "frame_of e \<in> used_frames (pf_bitmap s)"
    and tb: "\<And>j. unat j < 1024 \<Longrightarrow> j \<noteq> i \<Longrightarrow> present (pd_entry s j) \<Longrightarrow> frame_of (pd_entry s j) \<noteq> frame_of e"
    and hp: "\<And>x. heap_page x \<Longrightarrow> present (pte s x) \<Longrightarrow> frame_of (pte s x) \<noteq> frame_of e"
  shows "kernel_ok (set_pde i e s)" and "\<And>x. heap_page x \<Longrightarrow> pte (set_pde i e s) x = pte s x"
proof -
  let ?s = "set_pde i e s"
  note k = kernel_okD [OF ok]
  have i': "unat i < 1024" "i \<noteq> 1023" using i(1) by auto
  have d: "pd_entry ?s j = (if j = i then e else pd_entry s j)" if "unat j < 1024" for j by (rule set_pde_entry [OF i'(1) that])
  have "recursive_map ?s" using vm_okD(1) [OF k(1)] d [of 1023] i'(2) by (auto simp: recursive_map_def)
  moreover have "tables_distinct ?s" unfolding tables_distinct_def frame_eq_iff [symmetric]
  proof (intro allI impI, elim conjE)
    fix a b assume u: "unat a < 1024" "unat b < 1024" and p: "present (pd_entry ?s a)" "present (pd_entry ?s b)" and f: "frame_of (pd_entry ?s a) = frame_of (pd_entry ?s b)"
    show "a = b"
      using d [OF u(1)] d [OF u(2)] p f tb [OF u(1)] tb [OF u(2)] tables_distinctD [OF vm_okD(2) [OF k(1)] u]
      by (cases "a = i"; cases "b = i") (simp_all add: frame_eq_iff)
  qed
  moreover have "tables_used ?s" unfolding tables_used_def
  proof (intro allI impI, elim conjE)
    fix j assume j: "unat j < 1024" "present (pd_entry ?s j)"
    show "frame_of (pd_entry ?s j) \<in> used_frames (pf_bitmap ?s)"
      using j d [OF j(1)] e(2) vm_okD(3) [OF k(1)] by (cases "j = i") (simp_all add: tables_used_def)
  qed
  ultimately have vm: "vm_ok ?s" by (simp add: vm_ok_def)
  show pte: "pte ?s x = pte s x" if "heap_page x" for x
    using set_pde_pte [OF k(1) i(1) _ heap_page_window [OF that] heap_page_table [OF k(2) that]] heap_dir_index [of x] that i(2) by (simp add: heap_page_def)
  have "heap_ok ?s" unfolding heap_ok_def
  proof (intro allI impI, elim conjE)
    fix x assume x: "heap_page x" "present (pte ?s x)"
    then have px: "present (pte s x)" using pte by simp
    note h = heap_okD [OF k(3) x(1) px]
    have "frame_of (pd_entry ?s j) \<noteq> frame_of (pte ?s x)" if "unat j < 1023" "present (pd_entry ?s j)" for j
      using that d [of j] h(3) [of j] hp [OF x(1) px] pte [OF x(1)] by (cases "j = i") auto
    then show "frame_of (pte ?s x) \<in> used_frames (pf_bitmap ?s)
     \<and> (\<forall>y. heap_page y \<and> present (pte ?s y) \<and> frame_of (pte ?s y) = frame_of (pte ?s x) \<longrightarrow> y = x)
     \<and> (\<forall>i. unat i < 1023 \<and> present (pd_entry ?s i) \<longrightarrow> frame_of (pd_entry ?s i) \<noteq> frame_of (pte ?s x))
     \<and> (frame_of (pte ?s x) = frame_of (pd_base ?s) \<longrightarrow> heap_used ?s x)"
      using h(1,2,4) pte x(1) by (auto simp: heap_used_def)
  qed
  moreover have "heap_mapped ?s" using d [of 769] i(2) k(2) by (simp add: heap_mapped_def)
  ultimately show "kernel_ok ?s" using vm by (simp add: kernel_ok_def)
qed

section \<open>Entries through the table window\<close>

text \<open>The address of the page's table in the window, and the address of its directory entry.\<close>

lemma table_window:
  assumes r: "recursive_map s" and p: "present (pd_entry s (drop_bit 22 va))"
  shows "translate s (page_entry va AND 0xFFFFF000) = Some (pd_entry s (drop_bit 22 va) AND 0xFFFFF000)"
    and "translate s (page_entry (page_entry va AND 0xFFFFF000)) = Some (pd_base s + 4 * drop_bit 22 va)"
proof -
  let ?T = "page_entry va AND 0xFFFFF000"
  have f: "drop_bit 22 ?T = 1023" "drop_bit 12 ?T AND 0x3FF = drop_bit 22 va" "?T AND 0xFFF = 0"
    using entry_page_fields [of 0 va] by simp_all
  have w: "in_window ?T" using f(1) by (simp add: in_window_def)
  have pt: "pte s ?T = pd_entry s (drop_bit 22 va)" using f(2) r f(1) by (simp add: recursive_map_def pte_def pte_addr_def pd_entry_def)
  have t: "table_present s ?T" using r f(1) by (simp add: table_present_def recursive_map_def)
  show "translate s ?T = Some (pd_entry s (drop_bit 22 va) AND 0xFFFFF000)" using t pt p f(3) by (simp add: translate_pte)
  have "translate s (page_entry ?T) = pt_entry_addr s ?T" by (rule page_entry_recursive [OF r])
  also have "\<dots> = Some (pd_base s + 4 * drop_bit 22 va)" using t f(1,2) r by (simp add: pt_entry_addr_pte pte_addr_def recursive_map_def)
  finally show "translate s (page_entry ?T) = Some (pd_base s + 4 * drop_bit 22 va)" .
qed

lemma pde_access:
  assumes r: "recursive_map s" and p: "present (pd_entry s (drop_bit 22 va))"
  shows "read32 kaccess (page_entry (page_entry va AND 0xFFFFF000)) s = Ok (pd_entry s (drop_bit 22 va), s)"
    and "write32 kaccess (page_entry (page_entry va AND 0xFFFFF000)) v s = Ok (set_pde (drop_bit 22 va) v s)"
  using table_window(2) [OF assms] by (simp_all add: read32_def write32_def kaccess_mapped pd_entry_def set_pde_def)

lemma tookD:
  assumes "took s t f"
  shows "kernel_ok t" "cr3 t = cr3 s" "page_fault_allowed t = page_fault_allowed s" "free_pages t = free_pages s"
    and "unat i < 1024 \<Longrightarrow> pd_entry t i = pd_entry s i"
    and "card (absent_pages t) + card (free_frames s) = Suc (card (absent_pages s)) + card (free_frames t)"
    and "page_aligned f" "frame_of f \<in> used_frames (pf_bitmap t)" "\<not> heap_frame t (frame_of f)" "\<not> elsewhere s (frame_of f)"
    and "unat i < 1024 \<Longrightarrow> present (pd_entry s i) \<Longrightarrow> frame_of (pd_entry s i) \<noteq> frame_of f"
    and "\<not> heap_page (y AND 0xFFFFF000) \<Longrightarrow> translate t y = translate s y"
    and "elsewhere s (frame_of x) \<Longrightarrow> pmem t x = pmem s x" "elsewhere s (frame_of x) \<Longrightarrow> elsewhere t (frame_of x)"
    and "heap_byte s x \<noteq> None \<Longrightarrow> x AND 0xFFFFF000 \<notin> free_pages s \<Longrightarrow> heap_byte t x = heap_byte s x"
  using assms unfolding took_def by blast+

lemma heap_byte_same:
  assumes "pd_base t = pd_base s" and "pte t (x AND 0xFFFFF000) = pte s (x AND 0xFFFFF000)"
    and "\<And>z. heap_data s (x AND 0xFFFFF000) \<Longrightarrow> frame_of z = frame_of (pte s (x AND 0xFFFFF000)) \<Longrightarrow> pmem t z = pmem s z"
  shows "heap_byte t x = heap_byte s x"
proof -
  have u: "unat (x AND 0xFFF) < 4096" by (simp add: unat_and_FFF)
  have "frame_of ((pte s (x AND 0xFFFFF000) AND 0xFFFFF000) + (x AND 0xFFF)) = frame_of (pte s (x AND 0xFFFFF000))"
    using frame_of_offset [OF page_aligned_mask u] by (simp add: frame_of_mask)
  then show ?thesis using assms by (simp add: heap_byte_def heap_data_def)
qed

lemma take_page:
  assumes ok0: "kernel_ok s" and k: "kept s s1" and D: "heap_data s1 D" "D \<in> free_pages s" and fp: "free_pages s1 = free_pages s - {D}"
  defines "f \<equiv> pte s1 D AND 0xFFFFF000"
  shows "\<exists>t. getpaddr D s1 = Ok (f, s1) \<and> write32 kaccess (page_entry D) 0 s1 = Ok t \<and> took s t f
    \<and> (\<forall>z. frame_of z = frame_of f \<longrightarrow> pmem t z = pmem s1 z)"
proof -
  note q = keptD(2) [OF k] and live = keptD(1) [OF k]
  have ok: "kernel_ok s1" using live by (simp add: heap_live_def)
  note d = heap_dataD [OF D(1)] and g = drop_page [OF ok D(1)]
  let ?t = "set_pte D 0 s1"
  note h = heap_okD [OF kernel_okD(3) [OF ok] d(1,2)]
  have np: "\<not> present (0 :: u32)" by (simp add: present_def)
  have ff: "frame_of f = frame_of (pte s1 D)" by (simp add: f_def frame_of_mask)
  have pb: "pd_base s1 = pd_base s" "pd_base ?t = pd_base s1" using quietD(1) [OF q] g(10) by (simp_all add: pd_base_def)
  have tab: "frame_of (pte s1 p) \<noteq> frame_of (pd_entry s1 769)" if "heap_page p" "present (pte s1 p)" for p
    using heap_okD(3) [OF kernel_okD(3) [OF ok] that, of 769] kernel_okD(2) [OF ok] by (simp add: heap_mapped_def)
  have dir: "pd_entry ?t i = pd_entry s i" if "unat i < 1024" for i using g(3) [OF that] quietD(2) [OF q that] by simp
  have heap: "heap_frame ?t e \<longleftrightarrow> heap_frame s1 e \<and> e \<noteq> frame_of f" for e
  proof -
    have "heap_page p \<and> present (pte ?t p) \<and> frame_of (pte ?t p) = e \<longleftrightarrow>
        heap_page p \<and> present (pte s1 p) \<and> frame_of (pte s1 p) = e \<and> e \<noteq> frame_of f" for p
      using g(4) [of p] g(5) np ff h(2) [of p] d(1) by (cases "p = D") auto
    then show ?thesis unfolding heap_frame_def by blast
  qed
  have "\<not> elsewhere s (frame_of f)"
    using quiet_elsewhere(2) [OF q, of f] ff d unfolding elsewhere_def heap_frame_def by metis
  moreover have "frame_of (pd_entry s i) \<noteq> frame_of f" if "unat i < 1024" "present (pd_entry s i)" for i
    using heap_tables_apart [OF ok d that(1)] quietD(2) [OF q that(1)] that(2) ff by simp
  moreover have "translate ?t y = translate s y" if "\<not> heap_page (y AND 0xFFFFF000)" for y
  proof -
    have "\<not> same_page y D"
      using that d(1) frame_of_eq_base [OF page_aligned_mask, of D y] by (auto simp: same_page_iff frame_of_mask heap_page_def)
    then show ?thesis using g(6) quiet_translate [OF ok0 ok q that] by simp
  qed
  moreover have "pmem ?t x = pmem s x" "elsewhere ?t (frame_of x)" if "elsewhere s (frame_of x)" for x
    using quiet_elsewhere [OF q that] g(7) [of x] g(9) pb dir [of 769] quietD(2) [OF q, of 769] by (simp_all add: elsewhere_def heap)
  moreover have "heap_byte ?t x = heap_byte s x" if "heap_byte s x \<noteq> None" "x AND 0xFFFFF000 \<notin> free_pages s" for x
  proof -
    let ?p = "x AND 0xFFFFF000"
    have e: "heap_byte s1 x = heap_byte s x" by (rule keptD(4) [OF k that])
    with that have p: "heap_data s1 ?p" by (simp add: heap_byte_def split: if_splits)
    have "?p \<noteq> D" using that(2) D(2) by auto
    then have "heap_byte ?t x = heap_byte s1 x"
      using g(4) [OF heap_dataD(1) [OF p]] g(7) tab [OF heap_dataD(1,2) [OF p]] by (intro heap_byte_same) (simp_all add: pb)
    then show ?thesis using e by simp
  qed
  moreover have "free_pages ?t = free_pages s"
  proof (intro set_eqI)
    fix x
    have "x \<in> free_pages ?t \<longleftrightarrow> x \<in> free_pages s1" if "x \<noteq> D"
      using g(4) [of x] that by (simp add: free_pages_def heap_used_def cong: conj_cong)
    moreover have "D \<in> free_pages ?t" using d(1) g(5) by (simp add: free_pages_def heap_used_def)
    ultimately show "x \<in> free_pages ?t \<longleftrightarrow> x \<in> free_pages s" using D(2) fp by blast
  qed
  moreover have "card (absent_pages ?t) + card (free_frames s) = Suc (card (absent_pages s)) + card (free_frames ?t)"
  proof -
    have fin: "finite (absent_pages s1)" "D \<notin> absent_pages s1" using d by (simp_all add: absent_pages_def)
    have "free_frames ?t = free_frames s1" by (simp add: free_frames_def g(9))
    then show ?thesis using card_insert_disjoint [OF fin] quietD(8) [OF q] g(8) by simp
  qed
  moreover have "frame_of f \<in> used_frames (pf_bitmap ?t)" using h(1) ff g(9) by simp
  ultimately have "took s ?t f"
    unfolding took_def using g(2,10,11) quietD(1,7) [OF q] dir heap ff by (simp add: f_def)
  moreover have "pmem ?t z = pmem s1 z" if "frame_of z = frame_of f" for z using g(7) tab [OF d(1,2)] ff that by simp
  moreover have "getpaddr D s1 = Ok (f, s1)" using heap_getpaddr [OF live d(1)] by (simp add: f_def)
  ultimately show ?thesis using g(1) by blast
qed

section \<open>Copies of pages and tables in frames of their own\<close>

lemma copy_taken:
  assumes live: "heap_live s" and room: "2 \<le> card (free_pages s)" and S: "source s S P"
  shows "\<exists>v s0 s1 f t. kmalloc s = Ok (v, s0) \<and> mem_copy S v 4096 s0 = Ok s1 \<and> getpaddr v s1 = Ok (f, s1)
    \<and> write32 kaccess (page_entry v) 0 s1 = Ok t \<and> took s t f \<and> (\<forall>j < 4096. pmem t (f + of_nat j) = pmem s (P + of_nat j))"
proof -
  obtain v s0 s1 where a: "kmalloc s = Ok (v, s0)" "mem_copy S v 4096 s0 = Ok s1" "kept s s1" "v \<in> free_pages s" "heap_page v"
    "heap_data s1 v" "free_pages s1 = free_pages s - {v}" and b: "\<And>j. j < 4096 \<Longrightarrow> heap_byte s1 (v + of_nat j) = Some (pmem s (P + of_nat j))"
    using alloc_copy [OF assms] by blast
  have ok: "kernel_ok s" using live by (simp add: heap_live_def)
  let ?f = "pte s1 v AND 0xFFFFF000"
  obtain t where t: "getpaddr v s1 = Ok (?f, s1)" "write32 kaccess (page_entry v) 0 s1 = Ok t" "took s t ?f"
    and m: "\<And>z. frame_of z = frame_of ?f \<Longrightarrow> pmem t z = pmem s1 z"
    using take_page [OF ok a(3,6,4,7)] by blast
  have "pmem t (?f + of_nat j) = pmem s (P + of_nat j)" if "j < 4096" for j
  proof -
    have u: "unat (of_nat j :: u32) < 4096" using that by (simp add: unat_of_nat take_bit_nat_eq_self)
    have "pmem t (?f + of_nat j) = pmem s1 (?f + of_nat j)" by (rule m) (rule frame_of_offset [OF page_aligned_mask u])
    also have "\<dots> = pmem s (P + of_nat j)" using b [OF that] heap_byte_page [OF a(5) u, of s1] a(6) by simp
    finally show ?thesis .
  qed
  then show ?thesis using a(1,2) t by blast
qed

lemma table_taken:
  assumes live: "heap_live s" and room: "2 \<le> card (free_pages s)" and S: "source s S P"
  shows "\<exists>v s0 s1 s2 f t. kmalloc s = Ok (v, s0) \<and> mem_copy S v 4096 s0 = Ok s1 \<and> clear_write_bits v 1024 s1 = Ok s2
    \<and> getpaddr v s2 = Ok (f, s2) \<and> write32 kaccess (page_entry v) 0 s2 = Ok t \<and> took s t f
    \<and> (\<forall>j. unat j < 1024 \<longrightarrow> load32 (pmem t) (f + 4 * j) = load32 (pmem s) (P + 4 * j) AND 0xFFFFFFFD)"
proof -
  obtain v s0 s1 where a: "kmalloc s = Ok (v, s0)" "mem_copy S v 4096 s0 = Ok s1" "kept s s1" "v \<in> free_pages s" "heap_page v"
    "heap_data s1 v" "free_pages s1 = free_pages s - {v}" and b: "\<And>j. j < 4096 \<Longrightarrow> heap_byte s1 (v + of_nat j) = Some (pmem s (P + of_nat j))"
    using alloc_copy [OF assms] by blast
  obtain s2 where c: "clear_write_bits v 1024 s1 = Ok s2" "copied s1 s2 v"
    and w: "\<And>j. j < 1024 \<Longrightarrow> hword s2 (v + 4 * of_nat j) = hword s1 (v + 4 * of_nat j) AND 0xFFFFFFFD"
    using clear_write_bits_page [OF keptD(1) [OF a(3)] a(5,6), of 0 1024] by auto
  have k: "kept s s2" by (rule kept_copied [OF a(3) c(2) a(4,6)])
  have D: "heap_data s2 v" using copied_data [OF c(2)] a(6) by simp
  have fp: "free_pages s2 = free_pages s - {v}" using c(2) a(7) by (simp add: copied_def)
  have ok: "kernel_ok s" using live by (simp add: heap_live_def)
  let ?f = "pte s2 v AND 0xFFFFF000"
  obtain t where t: "getpaddr v s2 = Ok (?f, s2)" "write32 kaccess (page_entry v) 0 s2 = Ok t" "took s t ?f"
    and m: "\<And>z. frame_of z = frame_of ?f \<Longrightarrow> pmem t z = pmem s2 z"
    using take_page [OF ok k D a(4) fp] by blast
  have "load32 (pmem t) (?f + 4 * j) = load32 (pmem s) (P + 4 * j) AND 0xFFFFFFFD" if j: "unat j < 1024" for j
  proof -
    have "load32 (pmem t) (?f + 4 * j) = load32 (pmem s2) (?f + 4 * j)" using m by (intro load32_page_local [OF page_aligned_mask j]) simp
    also have "\<dots> = hword s2 (v + 4 * j)" using hword_page [OF a(5) D j] by simp
    also have "\<dots> = hword s1 (v + 4 * j) AND 0xFFFFFFFD" using w [OF j] by simp
    also have "hword s1 (v + 4 * j) = load32 (pmem s) (P + 4 * j)" unfolding hword_def
    proof (rule load32_shift)
      fix k :: nat assume "k < 4"
      then show "the (heap_byte s1 (v + 4 * j + of_nat k)) = pmem s (P + 4 * j + of_nat k)"
        using b [of "4 * unat j + k"] j by (simp add: add.assoc)
    qed
    finally show ?thesis .
  qed
  then show ?thesis using a(1,2) c(1) t by blast
qed

lemma redirected:
  fixes e f :: u32
  assumes f: "page_aligned f"
  defines "e' \<equiv> (e AND 0xFFF) OR (f OR 2)"
  shows "e' AND 0xFFFFF000 = f" "frame_of e' = frame_of f" "bit e' 1" "n < 12 \<Longrightarrow> n \<noteq> 1 \<Longrightarrow> bit e' n = bit e n" "present e \<Longrightarrow> present e'"
proof -
  let ?c = "(e AND 0xFFF) OR 2"
  have e': "e' = f OR ?c" by (simp add: e'_def or.left_commute or.assoc)
  have m: "(0xFFF :: u32) = mask 12" by (simp add: mask_numeral)
  have two: "bit (2 :: u32) n \<longleftrightarrow> n = 1" for n using bit_exp_iff [where ?'a = "32 word", of 1 n] by auto
  have "?c = take_bit 12 ?c" by (rule bit_word_eqI) (auto simp only: bit_take_bit_iff bit_or_iff two m bit_and_iff bit_mask_iff)
  then have "unat ?c = unat (take_bit 12 ?c)" by (rule arg_cong)
  also have "\<dots> = take_bit 12 (unat ?c)" by (rule unsigned_take_bit_eq)
  also have "\<dots> < 2 ^ 12" by (rule take_bit_nat_less_exp)
  finally have "unat ?c < 4096" by simp
  note g = page_or_flags [OF f this, folded e']
  show "e' AND 0xFFFFF000 = f" "frame_of e' = frame_of f" by (rule g)+
  show "bit e' 1" using g(3) [of 1] by (simp only: bit_or_iff two) simp
  show n: "bit e' n = bit e n" if "n < 12" "n \<noteq> 1" for n
  proof -
    have "bit (e AND 0xFFF) n = bit e n" unfolding m using that(1) by (auto simp: bit_simps)
    then show ?thesis using g(3) [OF that(1)] that(2) by (simp only: bit_or_iff two simp_thms)
  qed
  show "present e \<Longrightarrow> present e'" using n [of 0] by (simp add: present_iff_bit)
qed

section \<open>A page table of its own\<close>

lemma update_pde:
  assumes r: "recursive_map s" "recursive_map (set_pde (drop_bit 22 va) (pd_entry s (drop_bit 22 va) AND 0xFFF) s)"
    and p: "present (pd_entry s (drop_bit 22 va))"
  shows "bind_ok (read32 kaccess (page_entry (page_entry va AND 0xFFFFF000)) s) (\<lambda>(d, s).
     bind_ok (write32 kaccess (page_entry (page_entry va AND 0xFFFFF000)) (d AND 0xFFF) s) (\<lambda>s.
     bind_ok (read32 kaccess (page_entry (page_entry va AND 0xFFFFF000)) s) (\<lambda>(d, s).
       write32 kaccess (page_entry (page_entry va AND 0xFFFFF000)) (d OR x) s))) =
    Ok (set_pde (drop_bit 22 va) ((pd_entry s (drop_bit 22 va) AND 0xFFF) OR x) s)"
proof -
  let ?i = "drop_bit 22 va"
  let ?s = "set_pde ?i (pd_entry s ?i AND 0xFFF) s"
  have e: "pd_entry ?s ?i = pd_entry s ?i AND 0xFFF" using set_pde_entry [OF dir_index_less dir_index_less, of va _ s va] by simp
  have "(0xFFF :: u32) AND 1 = 1" by simp
  then have "present (pd_entry ?s ?i)" using p by (simp add: e present_def and.assoc)
  note a = pde_access [OF r(2) this]
  show ?thesis
    by (simp add: pde_access [OF r(1) p] a e) (simp add: set_pde_def store32_store32 pd_base_def)
qed

lemma table_elsewhere:
  assumes ok: "kernel_ok s" and i: "unat i < 1023" "i \<noteq> 769" and p: "present (pd_entry s i)"
  shows "elsewhere s (frame_of (pd_entry s i))"
proof -
  note k = kernel_okD [OF ok]
  have "\<not> heap_frame s (frame_of (pd_entry s i))" unfolding heap_frame_def using heap_okD(3) [OF k(3) _ _ i(1) p] by metis
  moreover have "frame_of (pd_entry s i) \<noteq> frame_of (pd_entry s 769)"
    using tables_distinctD [OF vm_okD(2) [OF k(1)], of i 769] i p k(2) by (auto simp: heap_mapped_def frame_eq_iff)
  ultimately show ?thesis
    using vm_okD(3) [OF k(1)] table_frame_apart [OF k(1) i(1) p] i(1) p by (simp add: elsewhere_def tables_used_def)
qed

lemma unshare_table_copies:
  assumes ok: "kernel_ok s" and spare: "Suc (card (absent_pages s)) \<le> card (free_frames s)" and room: "2 \<le> card (free_pages s)"
    and va: "va < 0xc0000000" and p: "present (pd_entry s (drop_bit 22 va))"
  defines "i \<equiv> drop_bit 22 va"
  shows "\<exists>t f u. took s t f \<and> unshare_table (page_entry va AND 0xFFFFF000) (page_entry (page_entry va AND 0xFFFFF000)) s = Ok u
    \<and> u = set_pde i ((pd_entry s i AND 0xFFF) OR (f OR 2)) t
    \<and> (\<forall>j. unat j < 1024 \<longrightarrow> load32 (pmem t) (f + 4 * j) = load32 (pmem s) ((pd_entry s i AND 0xFFFFF000) + 4 * j) AND 0xFFFFFFFD)"
proof -
  note k = kernel_okD [OF ok]
  have live: "heap_live s" using ok spare by (simp add: heap_live_def)
  have i: "unat i < 768" using va by (simp add: i_def unat_drop_bit word_less_nat_alt div_less_iff_less_mult)
  have ne: "i \<noteq> 1023" "i \<noteq> 769" using i by auto
  let ?T = "page_entry va AND 0xFFFFF000" and ?P = "pd_entry s i AND 0xFFFFF000"
  have pi: "present (pd_entry s i)" using p by (simp add: i_def)
  have "source s ?T ?P"
  proof (rule elsewhere_source)
    show "translate s ?T = Some ?P" using table_window(1) [OF vm_okD(1) [OF k(1)] p] by (simp add: i_def)
    show "elsewhere s (frame_of ?P)" using table_elsewhere [OF ok _ ne(2) pi] i by (simp add: frame_of_mask)
  qed simp_all
  from table_taken [OF live room this] obtain v s0 s1 s2 f t where
    r: "kmalloc s = Ok (v, s0)" "mem_copy ?T v 4096 s0 = Ok s1" "clear_write_bits v 1024 s1 = Ok s2"
      "getpaddr v s2 = Ok (f, s2)" "write32 kaccess (page_entry v) 0 s2 = Ok t" and t: "took s t f"
    and c: "\<forall>j. unat j < 1024 \<longrightarrow> load32 (pmem t) (f + 4 * j) = load32 (pmem s) (?P + 4 * j) AND 0xFFFFFFFD" by blast
  note rt = vm_okD(1) [OF kernel_okD(1) [OF tookD(1) [OF t]]]
  have e: "pd_entry t i = pd_entry s i" using tookD(5) [OF t] i by simp
  have "recursive_map (set_pde i x t)" for x
    using rt set_pde_entry [of i 1023 x t] i ne(1) by (auto simp: recursive_map_def)
  note up = update_pde [where va = va, OF rt, folded i_def, OF this, of "f OR 2"]
  have "unshare_table ?T (page_entry ?T) s = Ok (set_pde i ((pd_entry t i AND 0xFFF) OR (f OR 2)) t)"
    unfolding unshare_table_def r bind_ok.simps prod.case using up pi e by simp
  then show ?thesis using t c unfolding e by blast
qed

lemma heap_ok_cong:
  assumes "heap_ok t" and hp: "\<And>x. heap_page x \<Longrightarrow> pte u x = pte t x" and dir: "\<And>j. unat j < 1024 \<Longrightarrow> pd_entry u j = pd_entry t j"
    and "pf_bitmap u = pf_bitmap t" "pd_base u = pd_base t"
  shows "heap_ok u"
  unfolding heap_ok_def
proof (intro allI impI, elim conjE)
  fix x assume x: "heap_page x" "present (pte u x)"
  then have "present (pte t x)" using hp by simp
  note h = heap_okD [OF assms(1) x(1) this]
  have "y = x" if "heap_page y" "present (pte u y)" "frame_of (pte u y) = frame_of (pte u x)" for y
    using h(2) [OF that(1)] that hp x(1) by simp
  moreover have "frame_of (pd_entry u i) \<noteq> frame_of (pte u x)" if "unat i < 1023" "present (pd_entry u i)" for i
    using h(3) [OF that(1)] that dir hp x(1) by simp
  ultimately show "frame_of (pte u x) \<in> used_frames (pf_bitmap u)
     \<and> (\<forall>y. heap_page y \<and> present (pte u y) \<and> frame_of (pte u y) = frame_of (pte u x) \<longrightarrow> y = x)
     \<and> (\<forall>i. unat i < 1023 \<and> present (pd_entry u i) \<longrightarrow> frame_of (pd_entry u i) \<noteq> frame_of (pte u x))
     \<and> (frame_of (pte u x) = frame_of (pd_base u) \<longrightarrow> heap_used u x)"
    using h(1,4) hp [OF x(1)] assms(4,5) by (auto simp: heap_used_def)
qed

text \<open>Two states with the same heap entries have the same pool.\<close>

lemma heap_entries_same:
  assumes "\<And>x. heap_page x \<Longrightarrow> pte u x = pte t x"
  shows "free_pages u = free_pages t" "absent_pages u = absent_pages t" "heap_frame u = heap_frame t"
proof -
  show "free_pages u = free_pages t" "absent_pages u = absent_pages t"
    unfolding free_pages_def heap_used_def absent_pages_def using assms by (auto cong: conj_cong)
  show "heap_frame u = heap_frame t" unfolding heap_frame_def fun_eq_iff using assms by metis
qed

text \<open>After a frame was taken, one table or the directory is changed: the frame \<open>c\<close> it lies in.\<close>

lemma own_copy_took:
  assumes t: "took s t f" and u: "kernel_ok u" "cr3 u = cr3 t" "page_fault_allowed u = page_fault_allowed t" "pf_bitmap u = pf_bitmap t"
    and d: "pd_entry u 769 = pd_entry t 769" and hp: "\<And>x. heap_page x \<Longrightarrow> pte u x = pte t x"
    and m: "\<And>z. frame_of z \<noteq> c \<Longrightarrow> pmem u z = pmem t z" and c: "\<And>p. heap_data t p \<Longrightarrow> frame_of (pte t p) \<noteq> c"
  shows "own_copy s u {c}"
proof -
  note T = tookD [OF t] and same = heap_entries_same [of u t, OF hp]
  have base: "pd_base u = pd_base t" using u(2) by (simp add: pd_base_def)
  have "pmem u x = pmem s x" "elsewhere u (frame_of x)" if "elsewhere s (frame_of x)" "frame_of x \<noteq> c" for x
    using m T(13,14) [OF that(1)] that(2) same(3) d u(4) base by (simp_all add: elsewhere_def)
  moreover have "heap_byte u x = heap_byte s x" if "heap_byte s x \<noteq> None" "x AND 0xFFFFF000 \<notin> free_pages s" for x
  proof -
    have ht: "heap_byte t x = heap_byte s x" by (rule T(15) [OF that])
    then have D: "heap_data t (x AND 0xFFFFF000)" using that(1) by (simp add: heap_byte_def split: if_splits)
    have "heap_byte u x = heap_byte t x"
      using hp [OF heap_dataD(1) [OF D]] c [OF D] m by (intro heap_byte_same [OF base]) simp_all
    then show ?thesis using ht by simp
  qed
  ultimately show ?thesis using u(1-3) T(2,3,4) same(1) by (simp add: own_copy_def)
qed

text \<open>Storing an entry of a table outside of the heap's keeps the kernel's invariant.\<close>

lemma set_pte_user_ok:
  assumes ok: "kernel_ok t" and tp: "table_present t va" and i: "drop_bit 22 va \<noteq> 769" "\<not> in_window va"
  shows "kernel_ok (set_pte va e t)" and "\<And>x. heap_page x \<Longrightarrow> pte (set_pte va e t) x = pte t x"
proof -
  note k = kernel_okD [OF ok]
  note f = set_pte_facts [OF k(1) tp i(2), where v = e]
  show hp: "pte (set_pte va e t) x = pte t x" if "heap_page x" for x
  proof -
    have "drop_bit 22 x = 769" using heap_dir_index [of x] that by (simp add: heap_page_def)
    then have "\<not> same_page x va" using i(1) page_bits_split [of x va] by (auto simp: same_page_def)
    then show ?thesis using f(5) [OF heap_page_table [OF k(2) that]] by simp
  qed
  have "heap_ok (set_pte va e t)"
    by (rule heap_ok_cong [OF k(3) hp f(2)]) (simp_all add: set_pte_def pd_base_def)
  then show "kernel_ok (set_pte va e t)" using f(1) k(2) f(2) [of 769] by (simp add: kernel_ok_def heap_mapped_def)
qed

lemma own_table:
  assumes ok: "kernel_ok s" and t: "took s t f" and i: "unat i < 768" and p: "present (pd_entry s i)"
    and c: "\<forall>j. unat j < 1024 \<longrightarrow> load32 (pmem t) (f + 4 * j) = load32 (pmem s) ((pd_entry s i AND 0xFFFFF000) + 4 * j) AND 0xFFFFFFFD"
  defines "u \<equiv> set_pde i ((pd_entry s i AND 0xFFF) OR (f OR 2)) t"
  shows "own_copy s u {}" and "present (pd_entry u i)" "bit (pd_entry u i) 1"
    and "\<And>y. drop_bit 22 y = i \<Longrightarrow> pte u y = pte s y AND 0xFFFFFFFD"
    and "\<And>y. \<not> heap_page (y AND 0xFFFFF000) \<Longrightarrow> \<not> in_window y \<Longrightarrow> translate u y = translate s y"
    and "card (absent_pages u) + card (free_frames s) = Suc (card (absent_pages s)) + card (free_frames u)"
    and "\<not> elsewhere s (frame_of (pd_entry u i))"
proof -
  note d = tookD [OF t]
  let ?e = "(pd_entry s i AND 0xFFF) OR (f OR 2)"
  note e = redirected [OF d(7), where e = "pd_entry s i"]
  have i': "unat i < 1023" "unat i < 1024" "i \<noteq> 769" using i by auto
  have base: "pd_base t = pd_base s" using d(2) by (simp add: pd_base_def)
  have U: "kernel_ok u" "\<And>x. heap_page x \<Longrightarrow> pte u x = pte t x"
  proof -
    have tb: "frame_of (pd_entry t j) \<noteq> frame_of ?e" if "unat j < 1024" "j \<noteq> i" "present (pd_entry t j)" for j
      using d(11) [OF that(1)] d(5) [OF that(1)] that(3) e(2) by simp
    have hp: "frame_of (pte t x) \<noteq> frame_of ?e" if "heap_page x" "present (pte t x)" for x
      using d(9) that e(2) unfolding heap_frame_def by metis
    have us: "frame_of ?e \<in> used_frames (pf_bitmap t)" using d(8) e(2) by simp
    show "kernel_ok u" unfolding u_def by (rule set_pde_ok(1) [OF d(1) i'(1,3) e(5) [OF p] us]) (use tb hp in blast)+
    show "pte u x = pte t x" if "heap_page x" for x unfolding u_def by (rule set_pde_ok(2) [OF d(1) i'(1,3) e(5) [OF p] us _ _ that]) (use tb hp in blast)+
  qed
  have ue: "pd_entry u i = ?e" unfolding u_def using set_pde_entry [OF i'(2,2)] by simp
  show "present (pd_entry u i)" "bit (pd_entry u i) 1" unfolding ue by (rule e(5) [OF p], rule e(3))
  show "\<not> elsewhere s (frame_of (pd_entry u i))" using d(10) e(2) by (simp add: ue)
  have nb: "frame_of f \<noteq> frame_of (pd_base t)"
    using d(11) [of 1023] vm_okD(1) [OF kernel_okD(1) [OF ok]] dir_entry_frame [of s] base by (simp add: recursive_map_def)
  show pu: "pte u y = pte s y AND 0xFFFFFFFD" if "drop_bit 22 y = i" for y
  proof -
    have "load32 (pmem u) (f + 4 * (drop_bit 12 y AND 0x3FF)) = load32 (pmem t) (f + 4 * (drop_bit 12 y AND 0x3FF))"
      unfolding u_def using set_pde_memory [OF i'(2), of _ t] nb by (intro load32_page_local [OF d(7) table_index_less]) simp
    then show ?thesis using c [rule_format, OF table_index_less, of y] by (simp add: pte_def pte_addr_def that ue e(1))
  qed
  show "translate u y = translate s y" if y: "\<not> heap_page (y AND 0xFFFFF000)" "\<not> in_window y" for y
  proof (cases "drop_bit 22 y = i")
    case True
    have "(0xFFFFFFFD :: u32) AND 1 = 1" "(0xFFFFFFFD :: u32) AND 0xFFFFF000 = 0xFFFFF000" by simp_all
    then have "present (pte s y AND 0xFFFFFFFD) = present (pte s y)" "(pte s y AND 0xFFFFFFFD) AND 0xFFFFF000 = pte s y AND 0xFFFFF000"
      by (simp_all add: present_def and.assoc)
    then show ?thesis using pu [OF True] True p e(5) [OF p] by (simp add: translate_pte table_present_def ue)
  next
    case False
    then show ?thesis using set_pde_translate [OF kernel_okD(1) [OF d(1)] i'(1) False y(2)] d(12) [OF y(1)] by (simp add: u_def)
  qed
  note same = heap_entries_same [of u t, OF U(2)]
  then show "card (absent_pages u) + card (free_frames s) = Suc (card (absent_pages s)) + card (free_frames u)"
    using d(6) by (simp add: free_frames_def u_def)
  have d769: "pd_entry u 769 = pd_entry t 769" unfolding u_def using set_pde_entry [OF i'(2), of 769 ?e t] i'(3) by simp
  have "own_copy s u {frame_of (pd_base t)}"
    by (rule own_copy_took [OF t U(1) _ _ _ d769 U(2)]) (simp_all add: u_def set_pde_memory [OF i'(2)] heap_dataD(3))
  then show "own_copy s u {}" by (simp add: own_copy_def elsewhere_def base)
qed

lemma update_pte:
  assumes ok: "vm_ok s" and t: "table_present s va" "\<not> in_window va"
  shows "bind_ok (read32 kaccess (page_entry va) s) (\<lambda>(e, s).
     bind_ok (write32 kaccess (page_entry va) (e AND 0xFFF) s) (\<lambda>s.
     bind_ok (read32 kaccess (page_entry va) s) (\<lambda>(e, s).
       write32 kaccess (page_entry va) (e OR x) s))) = Ok (set_pte va ((pte s va AND 0xFFF) OR x) s)"
proof -
  let ?s = "set_pte va (pte s va AND 0xFFF) s"
  note f = set_pte_facts [OF ok t, where v = "pte s va AND 0xFFF"]
  have e: "pte ?s va = pte s va AND 0xFFF" using f(5) [OF t(1)] by (simp add: same_page_def)
  have t': "table_present ?s va" using f(3) t(1) by simp
  show ?thesis
    by (simp add: write_pte [OF vm_okD(1) [OF ok] t(1)] write_pte [OF vm_okD(1) [OF f(1)] t'] e set_pte_twice [OF ok t])
qed

lemma own_page:
  assumes ok: "kernel_ok s" and t: "took s t g" and va: "page_aligned va" "va < 0xc0000000" and p: "table_present s va" "present (pte s va)"
  defines "u \<equiv> set_pte va ((pte s va AND 0xFFF) OR (g OR 2)) t"
  shows "pte t va = pte s va" and "own_copy s u {frame_of (pd_entry s (drop_bit 22 va))}" and "\<And>j. unat j < 1024 \<Longrightarrow> pd_entry u j = pd_entry s j"
    and "translate u va = Some g" "bit (pte u va) 1"
    and "\<And>y. drop_bit 22 y = drop_bit 22 va \<Longrightarrow> \<not> same_page y va \<Longrightarrow> pte u y = pte s y"
    and "\<And>y. \<not> heap_page (y AND 0xFFFFF000) \<Longrightarrow> \<not> same_page y va \<Longrightarrow> translate u y = translate s y"
    and "\<And>z. frame_of z = frame_of g \<Longrightarrow> pmem u z = pmem t z"
proof -
  note d = tookD [OF t]
  define i where "i = drop_bit 22 va"
  have i: "unat i < 768" using va by (simp add: i_def unat_drop_bit word_less_nat_alt div_less_iff_less_mult)
  then have i': "unat i < 1023" "unat i < 1024" "i \<noteq> 769" "i \<noteq> 1023" by auto
  let ?e = "(pte s va AND 0xFFF) OR (g OR 2)"
  note e = redirected [OF d(7), where e = "pte s va"]
  have pi: "present (pd_entry s i)" using p by (simp add: i_def table_present_def)
  have tp: "table_present t va" using d(5) [OF i'(2)] pi by (simp add: table_present_def i_def)
  have w: "\<not> in_window va" using i'(4) by (simp add: in_window_def i_def)
  note f = set_pte_facts [OF kernel_okD(1) [OF d(1)] tp w, where v = ?e, folded u_def]
  have base: "pd_base t = pd_base s" "pd_base u = pd_base t" using d(2) by (simp_all add: pd_base_def u_def set_pte_def)
  have el: "elsewhere s (frame_of (pd_entry s i))" by (rule table_elsewhere [OF ok i'(1,3) pi])
  have pt: "pte t y = pte s y" if "drop_bit 22 y = i" for y
  proof -
    have "load32 (pmem t) ((pd_entry s i AND 0xFFFFF000) + 4 * (drop_bit 12 y AND 0x3FF)) = load32 (pmem s) ((pd_entry s i AND 0xFFFFF000) + 4 * (drop_bit 12 y AND 0x3FF))"
      using d(13) el by (intro load32_page_local [OF page_aligned_mask table_index_less]) (simp add: frame_of_mask)
    then show ?thesis by (simp add: pte_def pte_addr_def that d(5) [OF i'(2)])
  qed
  show "pte t va = pte s va" using pt by (simp add: i_def)
  show dir: "pd_entry u j = pd_entry s j" if "unat j < 1024" for j using f(2) [OF that] d(5) [OF that] by simp
  have "va AND 0xFFF = 0" using offset_fields(3) [OF va(1), of 0] by simp
  then show "translate u va = Some g" using f(6) [of va] e(1,5) p(2) by (simp add: same_page_def)
  show "bit (pte u va) 1" using f(5) [OF tp] e(3) by (simp add: same_page_def)
  show "pte u y = pte s y" if "drop_bit 22 y = drop_bit 22 va" "\<not> same_page y va" for y
    using f(5) [of y] pt [of y] tp that by (simp add: table_present_def i_def)
  show "translate u y = translate s y" if "\<not> heap_page (y AND 0xFFFFF000)" "\<not> same_page y va" for y
    using f(6) [of y] d(12) [OF that(1)] that(2) by simp
  have m: "pmem u z = pmem t z" if "frame_of z \<noteq> frame_of (pd_entry s i)" for z
    unfolding u_def set_pte_def pte_addr_def using store32_entry_frame [OF page_aligned_mask table_index_less] that d(5) [OF i'(2)]
    by (simp add: frame_of_mask i_def)
  show "pmem u z = pmem t z" if "frame_of z = frame_of g" for z using m d(11) [OF i'(2) pi] that by simp
  have "drop_bit 22 va \<noteq> 769" using i'(3) by (simp add: i_def)
  note U = set_pte_user_ok [OF d(1) tp this w, where e = ?e, folded u_def]
  have "own_copy s u {frame_of (pd_entry s i)}"
  proof (rule own_copy_took [OF t U(1) _ _ _ f(2) U(2) m])
    show "frame_of (pte t p) \<noteq> frame_of (pd_entry s i)" if "heap_data t p" for p
      using heap_tables_apart [OF d(1) heap_dataD [OF that] i'(2)] d(5) [OF i'(2)] pi by simp
  qed (simp_all add: u_def set_pte_def)
  then show "own_copy s u {frame_of (pd_entry s (drop_bit 22 va))}" by (simp add: i_def)
qed

section \<open>The fault\<close>

lemma own_copyD:
  assumes "own_copy s t F"
  shows "kernel_ok t" "cr3 t = cr3 s" "page_fault_allowed t = page_fault_allowed s" "free_pages t = free_pages s"
    and "elsewhere s (frame_of x) \<Longrightarrow> frame_of x \<notin> F \<Longrightarrow> pmem t x = pmem s x"
    and "elsewhere s (frame_of x) \<Longrightarrow> frame_of x \<notin> F \<Longrightarrow> elsewhere t (frame_of x)"
    and "heap_byte s x \<noteq> None \<Longrightarrow> x AND 0xFFFFF000 \<notin> free_pages s \<Longrightarrow> heap_byte t x = heap_byte s x"
  using assms unfolding own_copy_def by blast+

lemma copy_page_runs:
  assumes live: "heap_live s" and room: "2 \<le> card (free_pages s)" and va: "page_aligned va" "va < 0xc0000000"
    and P: "translate s va = Some P" "elsewhere s (frame_of P)"
  shows "\<exists>u. copy_page va (page_entry va) s = Ok u \<and> copies_page s u va P"
proof -
  have ok: "kernel_ok s" using live by (simp add: heap_live_def)
  have p: "table_present s va" "present (pte s va)" and Pe: "P = pte s va AND 0xFFFFF000"
    using P(1) offset_fields(3) [OF va(1), of 0] by (simp_all add: translate_pte split: if_splits)
  have "source s va P" using va(1) P by (intro elsewhere_source) (simp_all add: Pe)
  from copy_taken [OF live room this] obtain v s0 s1 g t where r: "kmalloc s = Ok (v, s0)" "mem_copy va v 4096 s0 = Ok s1"
      "getpaddr v s1 = Ok (g, s1)" "write32 kaccess (page_entry v) 0 s1 = Ok t" and t: "took s t g"
    and c: "\<And>j. j < 4096 \<Longrightarrow> pmem t (g + of_nat j) = pmem s (P + of_nat j)" by blast
  note d = tookD [OF t] and w = own_page [OF ok t va p]
  let ?u = "set_pte va ((pte s va AND 0xFFF) OR (g OR 2)) t"
  have w': "\<not> in_window va" using va(2) by (intro below_window) (simp add: word_less_nat_alt)
  have tp: "table_present t va" using d(5) [OF dir_index_less] p(1) by (simp add: table_present_def)
  have up: "bind_ok (read32 kaccess (page_entry va) t) (\<lambda>(e, s).
         bind_ok (write32 kaccess (page_entry va) (e AND 0x00000FFF) s) (\<lambda>s.
         bind_ok (read32 kaccess (page_entry va) s) (\<lambda>(e, s).
           write32 kaccess (page_entry va) (e OR (g OR 2)) s))) = Ok ?u"
    using update_pte [OF kernel_okD(1) [OF d(1)] tp w', of "g OR 2"] by (simp only: w(1))
  have "pmem ?u (g + of_nat j) = pmem s (P + of_nat j)" if "j < 4096" for j
  proof -
    have "unat (of_nat j :: u32) < 4096" using that by (simp add: unat_of_nat take_bit_nat_eq_self)
    then show ?thesis using w(8) [OF frame_of_offset [OF d(7)]] c [OF that] by simp
  qed
  then have "copies_page s ?u va P" unfolding copies_page_def using w(2-7) d(10) by blast
  then show ?thesis unfolding copy_page_def r bind_ok.simps prod.case up by blast
qed

lemma own_copy_trans:
  assumes a: "own_copy s t {}" and b: "own_copy t u G" and G: "\<And>x. elsewhere s x \<Longrightarrow> x \<notin> G"
  shows "own_copy s u {}"
proof -
  have "heap_byte u x = heap_byte s x" if "heap_byte s x \<noteq> None" "x AND 0xFFFFF000 \<notin> free_pages s" for x
    using own_copyD(7) [OF a that] own_copyD(7) [OF b, of x] own_copyD(4) [OF a] that by simp
  then show ?thesis
    unfolding own_copy_def using own_copyD(1-4) [OF b] own_copyD(2-4) [OF a] own_copyD(5,6) [OF a] own_copyD(5,6) [OF b] G by simp
qed

lemma copy_effect_shared:
  assumes va: "page_aligned va" and P: "page_aligned P" "elsewhere s (frame_of P)" and shared: "\<not> bit (pd_entry s (drop_bit 22 va)) 1"
    and o: "own_copy s u {}" "bit (pd_entry u (drop_bit 22 va)) 1" "\<not> elsewhere s (frame_of (pd_entry u (drop_bit 22 va)))"
    and pt: "\<And>y. drop_bit 22 y = drop_bit 22 va \<Longrightarrow> pte u y = pte s y AND 0xFFFFFFFD"
    and tr: "\<And>y. \<not> heap_page (y AND 0xFFFFF000) \<Longrightarrow> \<not> in_window y \<Longrightarrow> translate u y = translate s y"
    and w: "copies_page u w va P"
  shows "copy_effect s w va P"
proof -
  note oc = own_copyD [OF o(1)]
  have "own_copy s w {}" using w o(3) by (intro own_copy_trans [OF o(1)]) (auto simp: copies_page_def)
  moreover have "bit (pd_entry w (drop_bit 22 va)) 1" using w o(2) dir_index_less [of va] by (simp add: copies_page_def)
  moreover obtain g where g: "translate w va = Some g" "\<not> elsewhere u (frame_of g)" and c: "\<And>j. j < 4096 \<Longrightarrow> pmem w (g + of_nat j) = pmem u (P + of_nat j)"
    using w by (auto simp: copies_page_def)
  moreover have "pmem w (g + of_nat j) = pmem s (P + of_nat j)" if "j < 4096" for j
  proof -
    have "unat (of_nat j :: u32) < 4096" using that by (simp add: unat_of_nat take_bit_nat_eq_self)
    then show ?thesis using c [OF that] oc(5) [of "P + of_nat j"] frame_of_offset [OF P(1)] P(2) by simp
  qed
  moreover have "\<not> elsewhere s (frame_of g)" using g(2) oc(6) by blast
  moreover have "\<not> bit (pte w y) 1" if "drop_bit 22 y = drop_bit 22 va" "\<not> same_page y va" for y
  proof -
    have "pte w y = pte s y AND 0xFFFFFFFD" using w pt that by (simp add: copies_page_def)
    moreover have "\<not> bit (0xFFFFFFFD :: u32) 1" by simp
    ultimately show ?thesis by (simp only: bit_and_iff simp_thms)
  qed
  moreover have "translate w y = translate s y" if "\<not> heap_page (y AND 0xFFFFF000)" "\<not> in_window y" "\<not> same_page y va" for y
    using w tr [OF that(1,2)] that by (simp add: copies_page_def)
  moreover have "bit (pte w va) 1" using w by (simp add: copies_page_def)
  ultimately show ?thesis unfolding copy_effect_def if_not_P [OF shared] by blast
qed

lemma copy_on_write_effect:
  assumes ok: "kernel_ok s" and spare: "Suc (card (absent_pages s)) \<le> card (free_frames s)" and room: "2 \<le> card (free_pages s)"
    and va: "page_aligned va" "va < 0xc0000000" and P: "translate s va = Some P" "elsewhere s (frame_of P)" and page: "x AND 0xFFFFF000 = va"
  shows "\<exists>u. copy_on_write x s = Ok u \<and> copy_effect s u va P"
proof -
  note k = kernel_okD [OF ok]
  define i where "i = drop_bit 22 va"
  have i: "unat i < 768" using va by (simp add: i_def unat_drop_bit word_less_nat_alt div_less_iff_less_mult)
  have p: "present (pd_entry s i)" using P(1) by (simp add: translate_pte table_present_def i_def split: if_splits)
  have rd: "read32 kaccess (page_entry (page_entry va AND 0xFFFFF000)) s = Ok (pd_entry s i, s)"
    using pde_access(1) [OF vm_okD(1) [OF k(1)]] p by (simp add: i_def)
  have and2: "pd_entry s i AND 2 = 0 \<longleftrightarrow> \<not> bit (pd_entry s i) 1"
    using and_exp_eq_0_iff_not_bit [of "pd_entry s i" 1] by simp
  have run: "copy_on_write x s = bind_ok (if bit (pd_entry s i) 1 then Ok s
      else unshare_table (page_entry va AND 0xFFFFF000) (page_entry (page_entry va AND 0xFFFFF000)) s) (copy_page va (page_entry va))"
    unfolding copy_on_write_def Let_def page rd bind_ok.simps prod.case and2 by simp
  show ?thesis
  proof (cases "bit (pd_entry s i) 1")
    case True
    have live: "heap_live s" using ok spare by (simp add: heap_live_def)
    obtain u where u: "copy_page va (page_entry va) s = Ok u" "copies_page s u va P" using copy_page_runs [OF live room va P] by blast
    have "pd_entry u i = pd_entry s i" using u(2) dir_index_less [of va] by (simp add: copies_page_def i_def)
    then have "copy_effect s u va P" using u(2) True unfolding copy_effect_def copies_page_def i_def by auto
    then show ?thesis using run True u(1) by auto
  next
    case False
    from unshare_table_copies [OF ok spare room va(2), folded i_def, OF p] obtain t f u where t: "took s t f"
      and r: "unshare_table (page_entry va AND 0xFFFFF000) (page_entry (page_entry va AND 0xFFFFF000)) s = Ok u"
      and ue: "u = set_pde i ((pd_entry s i AND 0xFFF) OR (f OR 2)) t"
      and c: "\<forall>j. unat j < 1024 \<longrightarrow> load32 (pmem t) (f + 4 * j) = load32 (pmem s) ((pd_entry s i AND 0xFFFFF000) + 4 * j) AND 0xFFFFFFFD" by blast
    note o = own_table [OF ok t i p c, folded ue]
    note oc = own_copyD [OF o(1)]
    have live: "heap_live u" using oc(1) o(6) spare by (simp add: heap_live_def)
    have nh: "\<not> heap_page (va AND 0xFFFFF000)" using va by (simp add: heap_page_base heap_page_def word_less_nat_alt word_le_nat_alt)
    have nw: "\<not> in_window va" using va(2) by (intro below_window) (simp add: word_less_nat_alt)
    have Pu: "translate u va = Some P" "elsewhere u (frame_of P)" using o(5) [OF nh nw] P oc(6) by simp_all
    have Pa: "page_aligned P" using P(1) offset_fields(3) [OF va(1), of 0] by (auto simp: translate_pte split: if_splits)
    have room_u: "2 \<le> card (free_pages u)" using room oc(4) by simp
    obtain w where w: "copy_page va (page_entry va) u = Ok w" "copies_page u w va P" using copy_page_runs [OF live room_u va Pu] by blast
    have "copy_effect s w va P" 
      by (rule copy_effect_shared [OF va(1) _ P(2) False [unfolded i_def] o(1) o(3,7) [unfolded i_def] _ _ w(2)])
        (use o(4,5) Pa in \<open>simp_all add: i_def\<close>)
    then show ?thesis using run False r w(1) by auto
  qed
qed

lemma and_flags:
  fixes e :: u32
  assumes "e AND 7 = 7"
  shows "e AND 1 = 1" "e AND 4 = 4" "e AND 6 = 6"
  using arg_cong [OF assms, of "\<lambda>x. x AND 1"] arg_cong [OF assms, of "\<lambda>x. x AND 4"] arg_cong [OF assms, of "\<lambda>x. x AND 6"]
  by (simp_all add: and.assoc)

lemma sample_shared_facts:
  shows "kernel_ok sample_shared" and "Suc (card (absent_pages sample_shared)) \<le> card (free_frames sample_shared)"
    and "2 \<le> card (free_pages sample_shared)" and "translate sample_shared 0x10000000 = Some 0x201000" and "elsewhere sample_shared (frame_of 0x201000)"
    and "pd_entry sample_shared 64 = 0x200005"
proof -
  let ?t = "set_pde 64 0x200005 sample_vm"
  have f: "frame_of 0x200005 = 0x200" "frame_of 0x201000 = 0x201" "frame_of 0x400003 = 0x400" "frame_of 0x300803 = 0x300" "frame_of 0x300000 = 0x300"
    by (simp_all add: frame_of_def)
  have np: "\<not> present (0 :: u32)" "present (0x200005 :: u32)" "present (0x201005 :: u32)" by (simp_all add: present_def)
  have T: "kernel_ok ?t" "\<And>x. heap_page x \<Longrightarrow> pte ?t x = pte sample_vm x"
  proof -
    have tb: "frame_of (pd_entry sample_vm j) \<noteq> frame_of 0x200005" if "unat j < 1024" "j \<noteq> 64" "present (pd_entry sample_vm j)" for j
      using that np(1) f by (auto simp: sample_dir split: if_splits)
    have hp: "frame_of (pte sample_vm x) \<noteq> frame_of 0x200005" if "heap_page x" "present (pte sample_vm x)" for x
      using that np(1) sample_heap_entry by simp
    have us: "frame_of 0x200005 \<in> used_frames (pf_bitmap sample_vm)" by (simp add: f sample_used)
    note g = set_pde_ok [OF sample_kernel_ok, of 64 "0x200005"]
    show "kernel_ok ?t" by (rule g(1)) (use tb hp us np in \<open>simp_all\<close>)
    show "pte ?t x = pte sample_vm x" if "heap_page x" for x by (rule g(2) [OF _ _ _ _ _ _ that]) (use tb hp us np in \<open>simp_all\<close>)
  qed
  have te: "pd_entry ?t 64 = 0x200005" using set_pde_entry [of 64 64 "0x200005" sample_vm] by simp
  have dd: "drop_bit 22 (0x10000000 :: u32) = 64" by simp
  have tp: "table_present ?t 0x10000000" unfolding table_present_def dd te by (rule np(2))
  have w: "drop_bit 22 (0x10000000 :: u32) \<noteq> 769" "\<not> in_window 0x10000000" by (simp_all add: in_window_def)
  note U = set_pte_user_ok [OF T(1) tp w, where e = "0x201005", folded sample_shared_def]
    and F = set_pte_facts [OF kernel_okD(1) [OF T(1)] tp w(2), where v = "0x201005", folded sample_shared_def]
  show "kernel_ok sample_shared" by (rule U(1))
  have hp: "pte sample_shared x = pte sample_vm x" if "heap_page x" for x using U(2) [OF that] T(2) [OF that] by simp
  note same = heap_entries_same [of sample_shared sample_vm, OF hp]
  have bm: "pf_bitmap sample_shared = pf_bitmap sample_vm" "pd_base sample_shared = 0x300000"
    by (simp_all add: sample_shared_def set_pte_def set_pde_def sample_vm_def pd_base_def)
  have "free_frames sample_shared = {0x800 ..< 0x100000}" unfolding free_frames_def bm sample_used by auto
  then have fr: "card (free_frames sample_shared) = 0x100000 - 0x800" by (simp only: card_atLeastLessThan)
  have "card (absent_pages sample_vm) \<le> card {x. heap_page x}" by (intro card_mono) (auto simp: absent_pages_def)
  then show "Suc (card (absent_pages sample_shared)) \<le> card (free_frames sample_shared)" using fr heap_pages_card same(2) by simp
  show "2 \<le> card (free_pages sample_shared)" using same(1) sample_pool heap_pages_card by simp
  show "translate sample_shared 0x10000000 = Some 0x201000" using F(6) [of "0x10000000"] np(3) by (simp add: same_page_def)
  show "pd_entry sample_shared 64 = 0x200005" using F(2) [of 64] te by simp
  have "pd_entry sample_shared 769 = 0x400003"
    using F(2) [of 769] set_pde_entry [of 64 769 "0x200005" sample_vm] sample_dir [of 769] by simp
  moreover have "\<not> heap_frame sample_shared 0x201" unfolding heap_frame_def using np(1) hp sample_heap_entry by metis
  ultimately show "elsewhere sample_shared (frame_of 0x201000)" by (simp add: elsewhere_def f bm sample_used)
qed

section \<open>Properties\<close>



end
