(* ===== verification/Old_Kernel.thy ===== *)
theory Old_Kernel
  imports Interrupts
begin

text \<open>
  The first kernel of BarrelOS, kept under \<^verbatim>\<open>barrelOS/.old/\<close>: the text screen (\<^verbatim>\<open>drivers/screen.c\<close>), the
  keyboard (\<^verbatim>\<open>drivers/keyboard.c\<close>), the clock (\<^verbatim>\<open>drivers/timer.c\<close>), the dispatcher (\<^verbatim>\<open>kernel/interrupt.c\<close>), the
  descriptor table (\<^verbatim>\<open>kernel/idt.c\<close>) and \<^verbatim>\<open>main\<close> (\<^verbatim>\<open>kernel/kernel.c\<close>). It runs without paging: addresses are
  physical, the screen is at \<open>0xb8000\<close>. The hardware is that of \<open>Text_Screen\<close> and \<open>Interrupts\<close>. The whole kernel is
  driven by interrupts after \<^verbatim>\<open>main\<close> returns; its runs are a step relation.
\<close>

section \<open>State\<close>

record oldk =
  omem :: "32 mem"
  ocrt :: crtc
  opics :: "pic \<times> pic"
  opit :: pit
  oidt :: "u8 \<Rightarrow> idt_entry_t"
  oidtr :: idt_descriptor

abbreviation (input) OLD_VID :: u32 where "OLD_VID \<equiv> 0xb8000"

text \<open>An interrupt handler comes back, or hangs with the machine as it is then (\<^verbatim>\<open>hang:goto hang;\<close>).\<close>

datatype handled = Returns oldk | Hangs oldk

section \<open>Screen\<close>

definition old_mem_copy :: "u32 \<Rightarrow> u32 \<Rightarrow> u16 \<Rightarrow> oldk \<Rightarrow> oldk" where
  "old_mem_copy source dest bytes s = s\<lparr>omem := cpy_loop (omem s) source dest 0 (ucast bytes)\<rparr>"

definition old_scroll :: "oldk \<Rightarrow> oldk" where
  "old_scroll s = fold (\<lambda>i. old_mem_copy (OLD_VID + 160 * (of_nat i + 1)) (OLD_VID + 160 * of_nat i) 160) [0..<25] s"

definition old_get_cursor :: "crtc \<Rightarrow> u16 \<times> crtc" where
  "old_get_cursor d =
     (let d = crtc_out 0x3d4 14 d;
          hbyte = crtc_in 0x3d5 d;
          d = crtc_out 0x3d4 15 d;
          lbyte = crtc_in 0x3d5 d
      in (push_bit 8 (ucast hbyte) + ucast lbyte, d))"

definition old_set_cursor :: "u16 \<Rightarrow> crtc \<Rightarrow> crtc" where
  "old_set_cursor cursorpos d =
     (let lbyte = ucast (0x00FF AND cursorpos) :: u8;
          hbyte = ucast (drop_bit 8 cursorpos) :: u8;
          d = crtc_out 0x3d4 14 d;
          d = crtc_out 0x3d5 hbyte d;
          d = crtc_out 0x3d4 15 d
      in crtc_out 0x3d5 lbyte d)"

text \<open>Positions are \<^verbatim>\<open>int8_t\<close>: a negative one means the cursor. A zero character or colour is kept.\<close>

definition old_putchar :: "u8 \<Rightarrow> u8 \<Rightarrow> u8 \<Rightarrow> u8 \<Rightarrow> oldk \<Rightarrow> oldk" where
  "old_putchar character xpos ypos colour s =
     (let (charpos, d) = (if 0 \<le> sint xpos \<and> 0 \<le> sint ypos
             then (scast ypos * 80 + scast xpos :: u16, ocrt s) else old_get_cursor (ocrt s));
          s = s\<lparr>ocrt := d\<rparr>;
          s = (if character \<noteq> 0 then s\<lparr>omem := (omem s)(OLD_VID + 2 * ucast charpos := character)\<rparr> else s)
      in if colour \<noteq> 0 then s\<lparr>omem := (omem s)(OLD_VID + 2 * ucast charpos + 1 := colour)\<rparr> else s)"

definition old_wipe_screen :: "u8 \<Rightarrow> u8 \<Rightarrow> oldk \<Rightarrow> oldk" where
  "old_wipe_screen character colour s =
     fold (\<lambda>i. fold (\<lambda>j. old_putchar character (of_nat j) (of_nat i) colour) [0..<81]) [0..<26] s"

text \<open>\<^verbatim>\<open>putchar(c,-1,-1,0x00); set_cursor(get_cursor()+1);\<close> for each character of a string.\<close>

definition old_type :: "u8 \<Rightarrow> oldk \<Rightarrow> oldk" where
  "old_type c s =
     (let s = old_putchar c (-1) (-1) 0 s;
          (p, d) = old_get_cursor (ocrt s)
      in s\<lparr>ocrt := old_set_cursor (p + 1) d\<rparr>)"

section \<open>Clock and keyboard\<close>

text \<open>\<^verbatim>\<open>uint8_t *time = 0x0;\<close>: the clock is the byte at address 0.\<close>

definition old_tick :: "oldk \<Rightarrow> oldk" where
  "old_tick s =
     (let s = old_putchar (omem s 0) 0 0 0x41 s
      in s\<lparr>omem := (omem s)(0 := omem s 0 + 1)\<rparr>)"

definition old_keymap :: "(u8 \<times> u8) list" where
  "old_keymap =
     [(0x2, 0x31), (0x3, 0x32), (0x4, 0x33), (0x5, 0x34), (0x6, 0x35), (0x7, 0x36), (0x8, 0x37), (0x9, 0x38),
      (0xa, 0x39), (0xb, 0x30), (0xe, 8),
      (0x10, 0x51), (0x11, 0x57), (0x12, 0x45), (0x13, 0x52), (0x14, 0x54), (0x15, 0x59), (0x16, 0x55), (0x17, 0x49),
      (0x18, 0x4F), (0x19, 0x50), (0x1c, 10),
      (0x1e, 0x41), (0x1f, 0x53), (0x20, 0x44), (0x21, 0x46), (0x22, 0x47), (0x23, 0x48), (0x24, 0x4A), (0x25, 0x4B),
      (0x26, 0x4C), (0x27, 0x3B),
      (0x2c, 0x5A), (0x2d, 0x58), (0x2e, 0x43), (0x2f, 0x56), (0x30, 0x42), (0x31, 0x4E), (0x32, 0x4D), (0x33, 0x2C),
      (0x34, 0x2E), (0x35, 0x2F), (0x39, 0x20)]"

definition convertscan :: "u8 \<Rightarrow> u8" where
  "convertscan scancode = (case map_of old_keymap scancode of Some c \<Rightarrow> c | None \<Rightarrow> 0)"

text \<open>\<^verbatim>\<open>if(pos==2000){ scroll(); pos-=80; set_cursor(pos); }\<close>\<close>

definition old_make_room :: "u16 \<Rightarrow> oldk \<Rightarrow> u16 \<times> oldk" where
  "old_make_room pos s =
     (if pos = 2000
      then let s = old_scroll s; pos = pos - 80 in (pos, s\<lparr>ocrt := old_set_cursor pos (ocrt s)\<rparr>)
      else (pos, s))"

text \<open>\<open>scancode\<close> is what port \<open>0x60\<close> gives. The indentation of the source notwithstanding, the cursor is set for every key.\<close>

definition old_keypress :: "u8 \<Rightarrow> oldk \<Rightarrow> oldk" where
  "old_keypress scancode s =
     (let key = convertscan scancode;
          (pos, d) = old_get_cursor (ocrt s);
          pos = (if key = 10 then pos + (80 - pos mod 80) else pos);
          s = s\<lparr>ocrt := old_set_cursor pos d\<rparr>;
          (pos, s) = old_make_room pos s
      in if key \<ge> 0x20
         then let s = old_putchar key (-1) (-1) 0 s in s\<lparr>ocrt := old_set_cursor (pos + 1) (ocrt s)\<rparr>
         else if key = 8
         then old_putchar 0x20 (-1) (-1) 0 (s\<lparr>ocrt := old_set_cursor (pos - 1) (ocrt s)\<rparr>)
         else s)"

section \<open>Interrupts\<close>

definition old_panic :: "u32 \<Rightarrow> oldk \<Rightarrow> handled" where
  "old_panic isrnum s =
     (let s = old_wipe_screen 0x20 0x17 s;
          s = s\<lparr>ocrt := old_set_cursor 0 (ocrt s)\<rparr>;
          s = fold old_type (ascii ''Unhandled cpu exception: 0x'') s
      in Hangs (old_putchar (ucast isrnum + 30) (-1) (-1) 0 s))"

definition old_exception_handler :: "u32 \<Rightarrow> oldk \<Rightarrow> handled" where
  "old_exception_handler isrnum s = old_panic isrnum s"

definition old_pic_handler :: "u8 \<Rightarrow> u32 \<Rightarrow> oldk \<Rightarrow> handled" where
  "old_pic_handler scancode isrnum s =
     (case (if isrnum = 32 then Returns (old_tick s)
            else if isrnum = 33 then Returns (old_keypress scancode s)
            else old_panic isrnum s) of
        Hangs s \<Rightarrow> Hangs s
      | Returns s \<Rightarrow>
          let s = (if isrnum \<ge> 40 then s\<lparr>opics := pics_out 0xa0 0x20 (opics s)\<rparr> else s)
          in Returns (s\<lparr>opics := pics_out 0x20 0x20 (opics s)\<rparr>))"

definition old_interrupt_handler :: "u8 \<Rightarrow> u32 \<Rightarrow> oldk \<Rightarrow> handled" where
  "old_interrupt_handler scancode isrnum s =
     (if isrnum \<le> 31 then old_exception_handler isrnum s
      else if isrnum \<le> 46 then old_pic_handler scancode isrnum s
      else old_panic isrnum s)"

section \<open>Start\<close>

definition idt_setup :: "u8 \<Rightarrow> u32 \<Rightarrow> u16 \<Rightarrow> u8 \<Rightarrow> oldk \<Rightarrow> oldk" where
  "idt_setup num handler sel fl s =
     s\<lparr>oidt := (oidt s)(num := \<lparr>base_lo = ucast (drop_bit 16 handler AND 0xFFFF), segment = sel, reserved = 0,
       flags = fl, base_hi = ucast (handler AND 0xFFFF)\<rparr>)\<rparr>"

text \<open>The stubs' addresses \<open>isrs\<close> come from assembly, as does the address of the table.\<close>

definition old_init_idt :: "(nat \<Rightarrow> u32) \<Rightarrow> u32 \<Rightarrow> oldk \<Rightarrow> oldk" where
  "old_init_idt isrs idt_addr s =
     (let ps = pics_out 0x20 0x11 (opics s);
          ps = pics_out 0xa0 0x11 ps;
          ps = pics_out 0x21 0x20 ps;
          ps = pics_out 0xa1 0x28 ps;
          ps = pics_out 0x21 0x04 ps;
          ps = pics_out 0xa1 0x02 ps;
          ps = pics_out 0x21 0x01 ps;
          ps = pics_out 0xa1 0x01 ps;
          ps = pics_out 0x21 0xFC ps;
          ps = pics_out 0xa1 0xFF ps;
          s = s\<lparr>opics := ps\<rparr>;
          s = fold (\<lambda>i. idt_setup (of_nat i) (isrs i) 0x08 0x8E) [0..<47] s
      in s\<lparr>oidtr := \<lparr>limit = 8 * 256 - 1, base = idt_addr\<rparr>\<rparr>)"

text \<open>\<^verbatim>\<open>1193180/freq\<close>: no result for a frequency of 0.\<close>

definition old_init_timer :: "u32 \<Rightarrow> oldk \<Rightarrow> oldk outcome" where
  "old_init_timer freq s =
     (if freq = 0 then Halt (Undefined ''division by zero'')
      else let divisor = 1193180 div freq;
               p = pit_out 0x43 0x36 (opit s);
               l = ucast (divisor AND 0xFF) :: u8;
               h = ucast (drop_bit 8 divisor AND 0xFF) :: u8;
               p = pit_out 0x40 l p
           in Ok (s\<lparr>opit := pit_out 0x40 h p\<rparr>))"

definition old_main :: "oldk \<Rightarrow> oldk outcome" where
  "old_main s =
     (let s = old_wipe_screen 0x20 0x70 s;
          s = s\<lparr>ocrt := old_set_cursor 0 (ocrt s)\<rparr>;
          s = fold old_type (ascii ''This is literally all the OS does right now'') s
      in old_init_timer 1 s)"

section \<open>Specification\<close>

definition ovid :: "nat \<Rightarrow> u32" where
  "ovid j = 0xb8000 + of_nat j"

definition ocursor :: "oldk \<Rightarrow> nat" where
  "ocursor s = unat (fst (old_get_cursor (ocrt s)))"

text \<open>
  The kernel as its user sees it: a clock, a cursor and 25 rows of 80 characters. The row below the
  screen is what scrolling brings up; it stays blank as long as the cursor stays on the screen.
\<close>

type_synonym desk = "u8 \<times> nat \<times> (nat \<Rightarrow> u8)"

definition desk_of :: "oldk \<Rightarrow> desk" where
  "desk_of s = (omem s 0, ocursor s, \<lambda>i. if i < 2000 then omem s (ovid (2 * i)) else 0x20)"

datatype event = Tick | Key u8

fun desk_step :: "event \<Rightarrow> desk \<Rightarrow> desk" where
  "desk_step Tick (t, p, ch) = (t + 1, p, if t \<noteq> 0 then ch(0 := t) else ch)"
| "desk_step (Key scancode) (t, p, ch) =
     (let key = convertscan scancode;
          p = (if key = 10 then 80 * (p div 80 + 1) else p);
          (p, ch) = (if p = 2000 then (1920, \<lambda>i. ch (i + 80)) else (p, ch))
      in if key \<ge> 0x20 then (t, p + 1, ch(p := key))
         else if key = 8 then (t, p - 1, ch(p - 1 := 0x20)) else (t, p, ch))"

text \<open>The two keys that lead off the screen: backspace in the first cell and enter behind the last one.\<close>

fun on_desk :: "event \<Rightarrow> oldk \<Rightarrow> bool" where
  "on_desk Tick s \<longleftrightarrow> True"
| "on_desk (Key scancode) s \<longleftrightarrow> \<not> (convertscan scancode = 8 \<and> ocursor s = 0) \<and> \<not> (convertscan scancode = 10 \<and> ocursor s = 2000)"

definition old_ok :: "oldk \<Rightarrow> bool" where
  "old_ok s \<longleftrightarrow> ocursor s \<le> 2000 \<and> (\<forall>i. 2000 \<le> i \<and> i < 2080 \<longrightarrow> omem s (ovid (2 * i)) = 0x20)"

text \<open>What the interrupts leave alone: everything but the screen and the clock.\<close>

definition off_screen :: "u32 \<Rightarrow> bool" where
  "off_screen x \<longleftrightarrow> unat x < 0xb8000 \<or> 0xb8000 + 4000 \<le> unat x"

definition screen_only :: "oldk \<Rightarrow> oldk \<Rightarrow> bool" where
  "screen_only s s' \<longleftrightarrow> (\<forall>x. off_screen x \<longrightarrow> omem s' x = omem s x) \<and> opics s' = opics s \<and> opit s' = opit s \<and> oidt s' = oidt s \<and> oidtr s' = oidtr s"

text \<open>The runs of the kernel: interrupts one after the other.\<close>

fun handle_event :: "event \<Rightarrow> oldk \<Rightarrow> handled" where
  "handle_event Tick s = old_interrupt_handler 0 32 s"
| "handle_event (Key scancode) s = old_interrupt_handler scancode 33 s"

inductive old_run :: "oldk \<Rightarrow> event list \<Rightarrow> oldk \<Rightarrow> bool" where
  old_start: "old_run s [] s"
| old_event: "old_run s es t \<Longrightarrow> on_desk e t \<Longrightarrow> handle_event e t = Returns u \<Longrightarrow> old_run s (es @ [e]) u"

definition put_cell :: "u8 \<Rightarrow> u8 \<Rightarrow> nat \<Rightarrow> oldk \<Rightarrow> oldk" where
  "put_cell c col k s = s\<lparr>omem := (omem s)(ovid (2 * k) := c, ovid (2 * k + 1) := col)\<rparr>"

definition rows_up :: "nat \<Rightarrow> oldk \<Rightarrow> oldk" where
  "rows_up n s = fold (\<lambda>i. old_mem_copy (OLD_VID + 160 * (of_nat i + 1)) (OLD_VID + 160 * of_nat i) 160) [0..<n] s"

definition ochar :: "oldk \<Rightarrow> nat \<Rightarrow> u8" where
  "ochar s i = omem s (ovid (2 * i))"

definition rows :: "oldk \<Rightarrow> nat \<Rightarrow> u8" where
  "rows s = (\<lambda>i. if i < 2000 then ochar s i else 0x20)"

text \<open>A blank screen with one line of text in its first row.\<close>

definition banner :: "u8 list \<Rightarrow> nat \<Rightarrow> u8" where
  "banner xs i = (if i < length xs then xs ! i else 0x20)"

definition old_message :: "u8 list" where
  "old_message = ascii ''This is literally all the OS does right now''"

definition sample_old :: oldk where
  "sample_old = \<lparr>omem = \<lambda>_. 0, ocrt = \<lparr>crtc_index = 0, crtc_reg = \<lambda>_. 0\<rparr>, opics = (idle_pic, idle_pic),
     opit = \<lparr>pit_mode = 0, pit_high_next = False, pit_latch = 0, pit_reload = 0\<rparr>, oidt = \<lambda>_. idt_gate 0, oidtr = \<lparr>limit = 0, base = 0\<rparr>\<rparr>"

definition panic_message :: "u8 list" where
  "panic_message = ascii ''Unhandled cpu exception: 0x''"

section \<open>Cells and cursor\<close>

lemma old_cursor_same: "old_get_cursor = titor_getcursor" "old_set_cursor = setcursor"
proof -
  show "old_get_cursor = titor_getcursor" by (simp add: fun_eq_iff old_get_cursor_def titor_getcursor_def)
  have "ucast (drop_bit 8 p) = (ucast (drop_bit 8 p AND 0xFF) :: u8)" "ucast (0xFF AND p) = (ucast (p AND 0xFF) :: u8)" for p :: u16
  proof -
    have m: "(0xFF :: u16) = mask 8" by (simp add: mask_numeral)
    show "ucast (drop_bit 8 p) = (ucast (drop_bit 8 p AND 0xFF) :: u8)" unfolding m by (rule bit_word_eqI) (auto simp: bit_simps)
    show "ucast (0xFF AND p) = (ucast (p AND 0xFF) :: u8)" by (simp add: and.commute)
  qed
  then show "old_set_cursor = setcursor" by (simp add: fun_eq_iff old_set_cursor_def setcursor_def)
qed

interpretation old_cursor: cursor_device old_set_cursor old_get_cursor
  unfolding old_cursor_same by (rule titor_cursor.cursor_device_axioms)

lemma ocursor_simps [simp]:
  "ocursor (s\<lparr>ocrt := old_set_cursor p d\<rparr>) = unat p" "ocursor (s\<lparr>omem := m\<rparr>) = ocursor s"
  "ocursor (s\<lparr>ocrt := snd (old_get_cursor (ocrt s))\<rparr>) = ocursor s" "ocursor (s\<lparr>opics := ps\<rparr>) = ocursor s" "ocursor (s\<lparr>opit := pt\<rparr>) = ocursor s"
  by (simp_all add: ocursor_def old_cursor.get_put old_cursor.get_get)

lemma ocursor_word: "fst (old_get_cursor (ocrt s)) = of_nat (ocursor s)" "ocursor s < 65536"
  using unat_u16_less by (simp_all add: ocursor_def)

lemma unat_ovid: "j < 0x40000 \<Longrightarrow> unat (ovid j) = 0xb8000 + j"
  by (simp add: ovid_def unat_word_ariths unat_of_nat take_bit_nat_eq_self)

lemma ovid_eq_iff: "i < 0x40000 \<Longrightarrow> j < 0x40000 \<Longrightarrow> ovid i = ovid j \<longleftrightarrow> i = j"
  using unat_ovid [of i] unat_ovid [of j] by (metis add_left_cancel)

lemma ovid_word: "OLD_VID + 2 * ucast (p :: u16) = ovid (2 * unat p)" "OLD_VID + 2 * ucast p + 1 = ovid (2 * unat p + 1)"
proof -
  have "(ucast p :: u32) = of_nat (unat p)" by (simp add: word_unat_eq_iff unsigned_ucast_eq unat_of_nat take_bit_nat_eq_self unat_u16_less order_less_trans [OF unat_u16_less])
  then show "OLD_VID + 2 * ucast (p :: u16) = ovid (2 * unat p)" "OLD_VID + 2 * ucast p + 1 = ovid (2 * unat p + 1)"
    by (simp_all add: ovid_def)
qed

section \<open>What the screen routines do\<close>

lemma old_putchar_cursor:
  "old_putchar c (-1) (-1) 0 s = (let s = s\<lparr>ocrt := snd (old_get_cursor (ocrt s))\<rparr>
     in if c \<noteq> 0 then s\<lparr>omem := (omem s)(ovid (2 * ocursor s) := c)\<rparr> else s)"
  by (simp add: old_putchar_def Let_def split_beta ovid_word ocursor_def old_cursor.get_get)

lemma sint_small:
  assumes j: "j < 128"
  shows "0 \<le> sint (of_nat j :: u8)" "(scast (of_nat j :: u8) :: u16) = of_nat j"
proof -
  have "sint (of_nat j :: u8) = signed_take_bit (LENGTH(8) - 1) (int j)" by (simp only: signed_of_nat of_int_eq_id id_apply One_nat_def)
  also have "\<dots> = int j" by (rule signed_take_bit_int_eq_self) (use j in simp_all)
  finally have s: "sint (of_nat j :: u8) = int j" .
  then show "0 \<le> sint (of_nat j :: u8)" by (simp only: of_nat_0_le_iff)
  show "(scast (of_nat j :: u8) :: u16) = of_nat j" unfolding scast_eq s by (rule of_int_of_nat_eq)
qed

lemma ovid_Suc: "ovid (Suc j) = ovid j + 1"
  by (simp add: ovid_def)

lemma old_putchar_at:
  assumes "i < 26" "j < 81" and "c \<noteq> 0" "col \<noteq> 0"
  shows "old_putchar c (of_nat j) (of_nat i) col s = put_cell c col (80 * i + j) s"
proof -
  have "(of_nat i * 80 + of_nat j :: u16) = of_nat (80 * i + j)" by simp
  moreover have "unat (of_nat (80 * i + j) :: u16) = 80 * i + j" using assms by (simp add: unat_of_nat take_bit_nat_eq_self del: of_nat_add of_nat_mult)
  moreover have "scast (of_nat j :: u8) = (of_nat j :: u16)" "scast (of_nat i :: u8) = (of_nat i :: u16)" "0 \<le> sint (of_nat j :: u8)" "0 \<le> sint (of_nat i :: u8)"
    using assms by (simp_all add: sint_small)
  ultimately show ?thesis
    using assms(3,4) by (simp only: old_putchar_def Let_def put_cell_def prod.case ovid_word simp_thms if_True) (simp add: ovid_Suc)
qed

lemma fold_concat: "fold f (concat xss) = fold (\<lambda>xs. fold f xs) xss"
  by (induction xss) auto

lemma old_wipe_cells:
  assumes "c \<noteq> 0" "col \<noteq> 0"
  shows "old_wipe_screen c col s = fold (put_cell c col) (concat (map (\<lambda>i. map (\<lambda>j. 80 * i + j) [0..<81]) [0..<26])) s"
proof -
  have inner: "fold (\<lambda>j. old_putchar c (of_nat j) (of_nat i) col) [0..<81] = fold (put_cell c col) (map (\<lambda>j. 80 * i + j) [0..<81])" if "i < 26" for i
    unfolding fold_map comp_def by (rule ext, rule fold_cong) (simp_all add: old_putchar_at assms that fun_eq_iff del: upt_conv_Cons)
  have "fold (\<lambda>i. fold (\<lambda>j. old_putchar c (of_nat j) (of_nat i) col) [0..<81]) [0..<26] s
      = fold (\<lambda>i. fold (put_cell c col) (map (\<lambda>j. 80 * i + j) [0..<81])) [0..<26] s"
    by (rule fold_cong) (simp_all add: inner del: upt_conv_Cons)
  also have "\<dots> = fold (put_cell c col) (concat (map (\<lambda>i. map (\<lambda>j. 80 * i + j) [0..<81]) [0..<26])) s"
    by (simp only: fold_concat fold_map comp_def)
  finally show ?thesis by (simp only: old_wipe_screen_def)
qed

lemma cell_char_col: "i < 0x10000 \<Longrightarrow> j < 0x10000 \<Longrightarrow> ovid (2 * i) \<noteq> ovid (2 * j + 1)"
  using ovid_eq_iff [of "2 * i" "2 * j + 1"] by simp presburger

lemma fold_put_cell:
  assumes "\<forall>k \<in> set ks. k < 0x10000"
  shows "fold (put_cell c col) ks s = s\<lparr>omem := \<lambda>x. if x \<in> (\<lambda>k. ovid (2 * k)) ` set ks then c
     else if x \<in> (\<lambda>k. ovid (2 * k + 1)) ` set ks then col else omem s x\<rparr>"
  using assms
proof (induction ks arbitrary: s)
  case (Cons a ks)
  have a: "a < 0x10000" "\<And>k. k \<in> set (a # ks) \<Longrightarrow> k < 0x10000" using Cons.prems by auto
  have ne: "ovid (2 * a) \<notin> (\<lambda>k. ovid (2 * k + 1)) ` set (a # ks)" "ovid (2 * a + 1) \<notin> (\<lambda>k. ovid (2 * k)) ` set (a # ks)"
    by (rule notI, elim imageE, use cell_char_col [OF a(1) a(2)] in blast, rule notI, elim imageE, use cell_char_col [OF a(2) a(1)] in force)
  have "fold (put_cell c col) (a # ks) s = put_cell c col a s\<lparr>omem := \<lambda>x. if x \<in> (\<lambda>k. ovid (2 * k)) ` set ks then c
     else if x \<in> (\<lambda>k. ovid (2 * k + 1)) ` set ks then col else omem (put_cell c col a s) x\<rparr>"
    unfolding fold_simps using Cons.prems by (intro Cons.IH) simp
  also have "\<dots> = s\<lparr>omem := \<lambda>x. if x \<in> (\<lambda>k. ovid (2 * k)) ` set (a # ks) then c
     else if x \<in> (\<lambda>k. ovid (2 * k + 1)) ` set (a # ks) then col else omem s x\<rparr>"
  proof -
    have "(if x \<in> (\<lambda>k. ovid (2 * k)) ` set ks then c else if x \<in> (\<lambda>k. ovid (2 * k + 1)) ` set ks then col
        else ((omem s)(ovid (2 * a) := c, ovid (2 * a + 1) := col)) x) = (if x \<in> (\<lambda>k. ovid (2 * k)) ` set (a # ks) then c
        else if x \<in> (\<lambda>k. ovid (2 * k + 1)) ` set (a # ks) then col else omem s x)" for x
      using ne by (cases "x = ovid (2 * a)"; cases "x = ovid (2 * a + 1)") simp_all
    moreover have "omem (put_cell c col a s) = (omem s)(ovid (2 * a) := c, ovid (2 * a + 1) := col)" "put_cell c col a s\<lparr>omem := m\<rparr> = s\<lparr>omem := m\<rparr>" for m
      by (simp_all add: put_cell_def)
    ultimately show ?thesis by presburger
  qed
  finally show ?case .
qed simp

lemma wipe_set: "set (concat (map (\<lambda>i. map (\<lambda>j. 80 * i + j) [0..<81]) [0..<26])) = {..< 2081}"
proof (intro set_eqI iffI)
  fix k :: nat assume "k \<in> {..< 2081}"
  then have "k \<in> (\<lambda>j. 80 * (k div 80) + j) ` {0..<81}" "k div 80 < 27" "k = 80 * 25 + 80 \<or> k div 80 < 26"
    by (auto simp: div_less_iff_less_mult image_iff intro!: bexI [of _ "k mod 80"])
  then show "k \<in> set (concat (map (\<lambda>i. map (\<lambda>j. 80 * i + j) [0..<81]) [0..<26]))"
    by (auto simp del: upt_conv_Cons simp: image_iff intro: bexI [of _ 25] bexI [of _ "k div 80"])
qed (auto simp del: upt_conv_Cons)

lemma wipe_screen_mem:
  assumes "c \<noteq> 0" "col \<noteq> 0"
  shows "old_wipe_screen c col s = s\<lparr>omem := \<lambda>x. if x \<in> (\<lambda>k. ovid (2 * k)) ` {..< 2081} then c
     else if x \<in> (\<lambda>k. ovid (2 * k + 1)) ` {..< 2081} then col else omem s x\<rparr>"
  unfolding old_wipe_cells [OF assms] by (subst fold_put_cell) (simp_all only: wipe_set, simp)

lemma rows_up_simps: "rows_up 0 s = s" "rows_up (Suc n) s = old_mem_copy (ovid (160 * Suc n)) (ovid (160 * n)) 160 (rows_up n s)"
  by (simp_all add: rows_up_def ovid_def)

lemma old_mem_copy_simps: "omem (old_mem_copy a b 160 s) = cpy_loop (omem s) a b 0 160" "old_mem_copy a b n s\<lparr>omem := m\<rparr> = s\<lparr>omem := m\<rparr>"
  by (simp_all add: old_mem_copy_def)

lemma old_mem_copy_row:
  assumes "n < 25"
  shows "k < 160 \<Longrightarrow> omem (old_mem_copy (ovid (160 * Suc n)) (ovid (160 * n)) 160 s) (ovid (160 * n + k)) = omem s (ovid (160 * Suc n + k))"
    and "unat x < 0xb8000 + 160 * n \<or> 0xb8000 + 160 * n + 160 \<le> unat x \<Longrightarrow>
      omem (old_mem_copy (ovid (160 * Suc n)) (ovid (160 * n)) 160 s) x = omem s x"
proof -
  have u: "unat (ovid (160 * Suc n)) = 0xb8000 + 160 * Suc n" "unat (ovid (160 * n)) = 0xb8000 + 160 * n" using assms by (simp_all add: unat_ovid)
  have n: "unat (160 :: u32) = 160" by simp
  note r = cpy_region [of "ovid (160 * Suc n)" 160 "ovid (160 * n)", unfolded u n]
  have a: "ovid (i + k) = ovid i + of_nat k" for i k by (simp add: ovid_def)
  show "omem (old_mem_copy (ovid (160 * Suc n)) (ovid (160 * n)) 160 s) (ovid (160 * n + k)) = omem s (ovid (160 * Suc n + k))" if "k < 160" for k
    unfolding old_mem_copy_simps a using assms that
    by (intro r(1)) (simp_all add: word_less_nat_alt unat_of_nat take_bit_nat_eq_self)
  show "omem (old_mem_copy (ovid (160 * Suc n)) (ovid (160 * n)) 160 s) x = omem s x" if "unat x < 0xb8000 + 160 * n \<or> 0xb8000 + 160 * n + 160 \<le> unat x"
    unfolding old_mem_copy_simps using assms that by (intro r(2)) simp_all
qed

lemma rows_up_mem:
  assumes "n \<le> 25"
  shows "j < 4160 \<Longrightarrow> omem (rows_up n s) (ovid j) = omem s (ovid (if j < 160 * n then j + 160 else j))"
    and "unat x < 0xb8000 \<or> 0xb8000 + 4000 \<le> unat x \<Longrightarrow> omem (rows_up n s) x = omem s x"
    and "rows_up n s = s\<lparr>omem := omem (rows_up n s)\<rparr>"
  using assms
proof (induction n arbitrary: j x)
  case (Suc n)
  note row = old_mem_copy_row [of n, where s = "rows_up n s", folded rows_up_simps(2)]
  { case (1 j)
    have n: "n < 25" using 1 by simp
    note j = 1(1)
    consider "j < 160 * n" | "160 * n \<le> j" "j < 160 * n + 160" | "160 * n + 160 \<le> j" by linarith
    then show ?case
    proof cases
      case 1
      then show ?thesis using row(2) [OF n, of "ovid j"] Suc.IH(1) [OF j] n by (simp add: unat_ovid)
    next
      case 2
      have "omem (rows_up (Suc n) s) (ovid (160 * n + (j - 160 * n))) = omem (rows_up n s) (ovid (160 * Suc n + (j - 160 * n)))"
        by (rule row(1) [OF n]) (use 2 in simp)
      then have "omem (rows_up (Suc n) s) (ovid j) = omem (rows_up n s) (ovid (j + 160))" using 2 by (simp add: algebra_simps)
      also have "\<dots> = omem s (ovid (j + 160))" using Suc.IH(1) [of "j + 160"] 2 n by simp
      finally show ?thesis using 2 by simp
    next
      case 3
      then show ?thesis using row(2) [OF n, of "ovid j"] Suc.IH(1) [OF j] n j by (simp add: unat_ovid)
    qed
  next
    case (2 x)
    then show ?case using row(2) [of x] Suc.IH(2) [of x] by auto
  next
    case 3
    then have t: "rows_up n s = s\<lparr>omem := omem (rows_up n s)\<rparr>" by (intro Suc.IH(3)) simp
    have "rows_up (Suc n) s = (rows_up n s)\<lparr>omem := omem (rows_up (Suc n) s)\<rparr>" by (simp add: rows_up_simps(2) old_mem_copy_def)
    also have "\<dots> = s\<lparr>omem := omem (rows_up (Suc n) s)\<rparr>" using arg_cong [OF t, of "\<lambda>t. t\<lparr>omem := omem (rows_up (Suc n) s)\<rparr>"] by simp
    finally show ?case .
  }
qed (simp_all add: rows_up_simps)

lemma old_scroll_mem:
  shows "j < 4000 \<Longrightarrow> omem (old_scroll s) (ovid j) = omem s (ovid (j + 160))"
    and "unat x < 0xb8000 \<or> 0xb8000 + 4000 \<le> unat x \<Longrightarrow> omem (old_scroll s) x = omem s x"
    and "old_scroll s = s\<lparr>omem := omem (old_scroll s)\<rparr>"
  using rows_up_mem(1) [of 25 j s] rows_up_mem(2) [of 25 x s] rows_up_mem(3) [of 25 s] by (simp_all add: rows_up_def old_scroll_def del: upt_conv_Cons)

lemma old_putchar_typed:
  assumes "c \<noteq> 0"
  shows "omem (old_putchar c (-1) (-1) 0 s) = (omem s)(ovid (2 * ocursor s) := c)" "ocursor (old_putchar c (-1) (-1) 0 s) = ocursor s"
    and "opics (old_putchar c (-1) (-1) 0 s) = opics s" "opit (old_putchar c (-1) (-1) 0 s) = opit s"
    and "oidt (old_putchar c (-1) (-1) 0 s) = oidt s" "oidtr (old_putchar c (-1) (-1) 0 s) = oidtr s"
  using assms by (simp_all add: old_putchar_cursor Let_def)

lemma off_screen_cells: "off_screen x \<Longrightarrow> i < 4000 \<Longrightarrow> x \<noteq> ovid i" "4000 \<le> i \<Longrightarrow> i < 0x40000 \<Longrightarrow> off_screen (ovid i)" "off_screen 0"
  using unat_ovid [of i] by (auto simp: off_screen_def)

lemma screen_only_refl [simp]: "screen_only s s"
  and screen_only_crt [simp]: "screen_only s (t\<lparr>ocrt := d\<rparr>) = screen_only s t"
  by (simp_all add: screen_only_def)

lemma screen_only_trans: "screen_only s t \<Longrightarrow> screen_only t u \<Longrightarrow> screen_only s u"
  by (simp add: screen_only_def)

lemma screen_only_scroll: "screen_only s (old_scroll s)"
  unfolding screen_only_def
proof (intro conjI allI impI)
  show "omem (old_scroll s) x = omem s x" if "off_screen x" for x using old_scroll_mem(2) that by (simp add: off_screen_def)
qed (subst old_scroll_mem(3), simp)+

lemma screen_only_putchar:
  assumes "c \<noteq> 0" "ocursor s < 2000"
  shows "screen_only s (old_putchar c (-1) (-1) 0 s)"
  using assms off_screen_cells(1) [of _ "2 * ocursor s"] by (auto simp: screen_only_def old_putchar_typed)

lemma ochar_crt [simp]: "ochar (s\<lparr>ocrt := d\<rparr>) = ochar s"
  by (simp add: ochar_def fun_eq_iff)

lemma ochar_putchar: "c \<noteq> 0 \<Longrightarrow> ocursor s < 0x10000 \<Longrightarrow> i < 0x10000 \<Longrightarrow> ochar (old_putchar c (-1) (-1) 0 s) i = (if i = ocursor s then c else ochar s i)"
  using ovid_eq_iff [of "2 * i" "2 * ocursor s"] by (simp add: ochar_def old_putchar_typed)

lemma screen_only_row: "screen_only s t \<Longrightarrow> 2000 \<le> i \<Longrightarrow> i < 2080 \<Longrightarrow> ochar t i = ochar s i"
  using off_screen_cells(2) [of "2 * i"] by (simp add: ochar_def screen_only_def)

lemma make_room:
  assumes "old_make_room pos s = (q, t)" and p: "unat pos = ocursor s" "ocursor s \<le> 2000"
  shows "screen_only s t" "ocursor t = unat q" "unat q = (if ocursor s = 2000 then 1920 else ocursor s)"
    and "i < 2000 \<Longrightarrow> ochar t i = ochar s (if ocursor s = 2000 then i + 80 else i)"
proof -
  have e: "pos = 2000 \<longleftrightarrow> ocursor s = 2000" using p(1) by (simp add: word_unat_eq_iff)
  show "screen_only s t" "ocursor t = unat q" "unat q = (if ocursor s = 2000 then 1920 else ocursor s)"
    and "i < 2000 \<Longrightarrow> ochar t i = ochar s (if ocursor s = 2000 then i + 80 else i)"
    using assms(1) e p(1) screen_only_scroll [of s] old_scroll_mem(1) [of "2 * i" s]
    by (auto simp: old_make_room_def Let_def ochar_def split: if_splits)
qed

lemma newline_word:
  fixes p :: u16
  assumes "unat p < 2000"
  shows "unat (p + (80 - p mod 80)) = 80 * (unat p div 80 + 1)"
proof -
  define a b where "a = unat p div 80" and "b = unat p mod 80"
  have e: "80 * a + b = unat p" "b < 80" unfolding a_def b_def by (rule mult_div_mod_eq, simp)
  have m: "unat (p mod 80) = b" by (simp add: unat_mod b_def)
  then have "unat (80 - p mod 80) = 80 - b" using e(2) by (subst unat_sub) (simp_all add: word_le_nat_alt)
  then have "unat p + unat (80 - p mod 80) = 80 * (a + 1)" unfolding e(1) [symmetric] using e(2) by simp
  moreover have "80 * (a + 1) < 65536" using assms e(1) by simp
  ultimately show ?thesis by (simp add: unat_word_ariths a_def [symmetric])
qed

lemma old_ok_row: "old_ok s \<Longrightarrow> 2000 \<le> i \<Longrightarrow> i < 2080 \<Longrightarrow> ochar s i = 0x20" "old_ok s \<Longrightarrow> ocursor s \<le> 2000"
  by (simp_all add: old_ok_def ochar_def)

lemma rows_crt [simp]: "rows (s\<lparr>ocrt := d\<rparr>) = rows s"
  by (simp only: rows_def ochar_crt)

lemma desk_of_rows: "desk_of s = (omem s 0, ocursor s, rows s)"
  unfolding desk_of_def ochar_def rows_def ..

lemma old_okI: "screen_only s t \<Longrightarrow> old_ok s \<Longrightarrow> ocursor t \<le> 2000 \<Longrightarrow> old_ok t"
  using screen_only_row [of s t] old_ok_row(1) [of s] by (simp add: old_ok_def ochar_def)

text \<open>The position the key starts from, after enter and after scrolling.\<close>

lemma keypress_start:
  assumes ok: "old_ok s" and d: "\<not> (key = 10 \<and> ocursor s = 2000)" and c: "old_get_cursor (ocrt s) = (p, cd)"
    and room: "old_make_room (if key = 10 then p + (80 - p mod 80) else p) (s\<lparr>ocrt := old_set_cursor (if key = 10 then p + (80 - p mod 80) else p) cd\<rparr>) = (q, t)"
  defines "p1 \<equiv> (if key = 10 then 80 * (ocursor s div 80 + 1) else ocursor s)"
  shows "screen_only s t" "ocursor t = unat q" "unat q = (if p1 = 2000 then 1920 else p1)" "unat q < 2000"
    and "\<And>i. i < 2000 \<Longrightarrow> ochar t i = (if p1 = 2000 then if i < 1920 then ochar s (i + 80) else 0x20 else ochar s i)"
proof -
  have p: "unat p = ocursor s" using c by (simp add: ocursor_def)
  let ?p = "if key = 10 then p + (80 - p mod 80) else p"
  have u: "unat ?p = p1"
  proof (cases "key = 10")
    case True
    then have "unat p < 2000" using d old_ok_row(2) [OF ok] p by simp
    from newline_word [OF this] show ?thesis using True p by (simp add: p1_def)
  qed (simp add: p1_def p)
  have le: "p1 \<le> 2000"
  proof (cases "key = 10")
    case True
    then have "ocursor s < 2000" using d old_ok_row(2) [OF ok] by simp
    then have "ocursor s div 80 < 25" by (simp add: div_less_iff_less_mult)
    then show ?thesis by (simp add: p1_def True)
  qed (simp add: p1_def old_ok_row(2) [OF ok])
  let ?s = "s\<lparr>ocrt := old_set_cursor ?p cd\<rparr>"
  have cur: "ocursor ?s = p1" using u by simp
  note m = make_room [OF room, unfolded cur, OF u le]
  show "screen_only s t" using m(1) by (simp add: screen_only_def)
  show q: "ocursor t = unat q" "unat q = (if p1 = 2000 then 1920 else p1)" using m(2,3) by simp_all
  show "unat q < 2000" using q(2) le by (simp split: if_splits)
  show "ochar t i = (if p1 = 2000 then if i < 1920 then ochar s (i + 80) else 0x20 else ochar s i)" if "i < 2000" for i
    using m(4) [OF that] old_ok_row(1) [OF ok, of "i + 80"] that by simp
qed

text \<open>Typing a character at the cursor and erasing the one before it.\<close>

lemma zero_not_cell: "i < 2000 \<Longrightarrow> ovid (2 * i) \<noteq> 0"
  using off_screen_cells(1) [OF off_screen_cells(3), of "2 * i"] by simp

lemma desk_putchar:
  assumes "ocursor t < 2000" "c \<noteq> 0"
  shows "desk_of (old_putchar c (-1) (-1) 0 t\<lparr>ocrt := cd\<rparr>) =
    (omem t 0, ocursor (old_putchar c (-1) (-1) 0 t\<lparr>ocrt := cd\<rparr>), (rows t)(ocursor t := c))"
proof -
  let ?v = "old_putchar c (-1) (-1) 0 t"
  have "rows ?v = (rows t)(ocursor t := c)"
    using ochar_putchar [OF assms(2), of t] assms(1) by (auto simp: rows_def fun_eq_iff)
  moreover have "omem ?v 0 = omem t 0" using old_putchar_typed(1) [OF assms(2), of t] zero_not_cell [OF assms(1)] by simp
  ultimately show ?thesis by (simp add: desk_of_rows)
qed

lemma type_desk:
  assumes "ocursor t = unat q" "unat q < 2000" "c \<noteq> 0"
  defines "u \<equiv> old_putchar c (-1) (-1) 0 t\<lparr>ocrt := old_set_cursor (q + 1) (ocrt (old_putchar c (-1) (-1) 0 t))\<rparr>"
  shows "desk_of u = (omem t 0, unat q + 1, (rows t)(unat q := c)) \<and> ocursor u \<le> 2000 \<and> screen_only t u"
proof -
  have "unat (q + 1) = unat q + 1" using assms(2) by (simp add: unat_word_ariths)
  then have c: "ocursor u = unat q + 1" by (simp add: u_def)
  moreover have "screen_only t u" using screen_only_putchar [OF assms(3), of t] assms(1,2) by (simp add: u_def)
  ultimately show ?thesis using desk_putchar [OF _ assms(3), of t "old_set_cursor (q + 1) (ocrt (old_putchar c (-1) (-1) 0 t))"] assms(1,2) by (simp add: u_def)
qed

lemma erase_desk:
  assumes "ocursor t = unat q" "unat q < 2000" "0 < unat q"
  defines "u \<equiv> old_putchar 0x20 (-1) (-1) 0 (t\<lparr>ocrt := old_set_cursor (q - 1) (ocrt t)\<rparr>)"
  shows "desk_of u = (omem t 0, unat q - 1, (rows t)(unat q - 1 := 0x20)) \<and> ocursor u \<le> 2000 \<and> screen_only t u"
proof -
  let ?w = "t\<lparr>ocrt := old_set_cursor (q - 1) (ocrt t)\<rparr>"
  have "unat (q - 1) = unat q - 1" using assms(3) by (subst unat_sub) (simp_all add: word_le_nat_alt)
  then have c: "ocursor ?w = unat q - 1" "ocursor ?w < 2000" using assms(2) by simp_all
  have cu: "ocursor u = unat q - 1" unfolding u_def by (subst old_putchar_typed(2)) (simp_all only: c, simp)
  have "screen_only t u" using screen_only_putchar [of "0x20" ?w] c(2) by (simp add: u_def screen_only_def)
  moreover have "desk_of u = (omem t 0, unat q - 1, (rows t)(unat q - 1 := 0x20))"
    using desk_putchar [OF c(2), of "0x20" "ocrt u"] cu c(1) by (simp add: u_def)
  ultimately show ?thesis using cu assms(2) by simp
qed

lemma keypress_refines:
  assumes ok: "old_ok s" and d: "on_desk (Key sc) s"
  shows "desk_of (old_keypress sc s) = desk_step (Key sc) (desk_of s)" "old_ok (old_keypress sc s)" "screen_only s (old_keypress sc s)"
proof -
  define key where "key = convertscan sc"
  obtain p cd where c: "old_get_cursor (ocrt s) = (p, cd)" by fastforce
  obtain q t where room: "old_make_room (if key = 10 then p + (80 - p mod 80) else p) (s\<lparr>ocrt := old_set_cursor (if key = 10 then p + (80 - p mod 80) else p) cd\<rparr>) = (q, t)"
    by fastforce
  define p1 where "p1 = (if key = 10 then 80 * (ocursor s div 80 + 1) else ocursor s)"
  have d': "\<not> (key = 10 \<and> ocursor s = 2000)" "\<not> (key = 8 \<and> ocursor s = 0)" using d by (simp_all add: key_def)
  note k = keypress_start [OF ok d'(1) c room, folded p1_def]
  let ?ch = "rows t" and ?q = "unat q"
  have eq: "old_keypress sc s = (if key \<ge> 0x20
         then old_putchar key (-1) (-1) 0 t\<lparr>ocrt := old_set_cursor (q + 1) (ocrt (old_putchar key (-1) (-1) 0 t))\<rparr>
         else if key = 8 then old_putchar 0x20 (-1) (-1) 0 (t\<lparr>ocrt := old_set_cursor (q - 1) (ocrt t)\<rparr>) else t)"
    unfolding old_keypress_def key_def [symmetric] c room Let_def prod.case ..
  have "omem t 0 = omem s 0" using k(1) off_screen_cells(3) by (simp add: screen_only_def)
  moreover have "?ch = (if p1 = 2000 then \<lambda>i. rows s (i + 80) else rows s)"
    using k(5) by (auto simp: rows_def fun_eq_iff)
  ultimately have step: "desk_step (Key sc) (desk_of s) = (if key \<ge> 0x20 then (omem t 0, ?q + 1, ?ch(?q := key))
      else if key = 8 then (omem t 0, ?q - 1, ?ch(?q - 1 := 0x20)) else (omem t 0, ?q, ?ch))"
    unfolding desk_of_rows desk_step.simps key_def [symmetric] Let_def p1_def [symmetric] k(3) by (cases "p1 = 2000") simp_all
  have pos: "0 < ?q" if "key = 8" using d'(2) that k(3) by (simp add: p1_def)
  consider "key \<ge> 0x20" "key \<noteq> 0" | "key = 8" "\<not> key \<ge> 0x20" | "\<not> key \<ge> 0x20" "key \<noteq> 8" by (cases "key = 0") auto
  then have "desk_of (old_keypress sc s) = desk_step (Key sc) (desk_of s) \<and> ocursor (old_keypress sc s) \<le> 2000 \<and> screen_only t (old_keypress sc s)"
  proof cases
    case 1
    then show ?thesis unfolding eq step using type_desk [OF k(2,4) 1(2)] by simp
  next
    case 2
    then show ?thesis unfolding eq step using erase_desk [OF k(2,4) pos] by simp
  next
    case 3
    then show ?thesis unfolding eq step using k(2,4) by (simp add: desk_of_rows)
  qed
  then show "desk_of (old_keypress sc s) = desk_step (Key sc) (desk_of s)" "old_ok (old_keypress sc s)" "screen_only s (old_keypress sc s)"
    using old_okI [OF _ ok] screen_only_trans [OF k(1)] by blast+
qed

section \<open>Clock, start and runs\<close>

lemma old_tick_mem:
  "old_tick s = s\<lparr>omem := ((if omem s 0 \<noteq> 0 then (omem s)(ovid 0 := omem s 0) else omem s)(ovid 1 := 0x41))(0 := omem s 0 + 1)\<rparr>"
proof -
  have z: "ovid 0 = 0xb8000" "ovid 1 = 0xb8001" by (simp_all add: ovid_def)
  show ?thesis unfolding z by (simp add: old_tick_def old_putchar_def Let_def)
qed

lemma tick_refines:
  assumes ok: "old_ok s"
  shows "desk_of (old_tick s) = desk_step Tick (desk_of s)" "old_ok (old_tick s)" "off_screen x \<Longrightarrow> x \<noteq> 0 \<Longrightarrow> omem (old_tick s) x = omem s x"
    and "oidt (old_tick s) = oidt s" "oidtr (old_tick s) = oidtr s" "opit (old_tick s) = opit s"
proof -
  have c: "ocursor (old_tick s) = ocursor s" by (simp add: old_tick_mem)
  have ne: "ovid (2 * i) \<noteq> 0" "ovid (2 * i) \<noteq> ovid 1" "ovid (2 * i) = ovid 0 \<longleftrightarrow> i = 0" if "i < 2080" for i
    using unat_ovid [of "2 * i"] unat_ovid [of 0] unat_ovid [of 1] that by (auto simp: word_unat_eq_iff)
  have ch: "ochar (old_tick s) i = (if i = 0 \<and> omem s 0 \<noteq> 0 then omem s 0 else ochar s i)" if "i < 2080" for i
    using ne [OF that] by (simp add: ochar_def old_tick_mem)
  have "rows (old_tick s) = (if omem s 0 \<noteq> 0 then (rows s)(0 := omem s 0) else rows s)"
    using ch by (auto simp: rows_def fun_eq_iff)
  moreover have "omem (old_tick s) 0 = omem s 0 + 1" by (simp add: old_tick_mem)
  ultimately show "desk_of (old_tick s) = desk_step Tick (desk_of s)" by (simp add: desk_of_rows c)
  show "old_ok (old_tick s)" using old_ok_row [OF ok] ch c by (simp add: old_ok_def ochar_def [symmetric])
  show "omem (old_tick s) x = omem s x" if "off_screen x" "x \<noteq> 0"
    using off_screen_cells(1) [OF that(1), of 0] off_screen_cells(1) [OF that(1), of 1] that(2) by (simp add: old_tick_mem)
  show "oidt (old_tick s) = oidt s" "oidtr (old_tick s) = oidtr s" "opit (old_tick s) = opit s" by (simp_all add: old_tick_mem)
qed

lemma desk_pics [simp]: "desk_of (s\<lparr>opics := ps\<rparr>) = desk_of s" "old_ok (s\<lparr>opics := ps\<rparr>) = old_ok s"
  unfolding desk_of_def old_ok_def by (simp_all cong: if_cong)

lemma handle_event_eq:
  "handle_event Tick s = Returns (old_tick s\<lparr>opics := pics_out 0x20 0x20 (opics (old_tick s))\<rparr>)"
  "handle_event (Key sc) s = Returns (old_keypress sc s\<lparr>opics := pics_out 0x20 0x20 (opics (old_keypress sc s))\<rparr>)"
  by (simp_all add: old_interrupt_handler_def old_pic_handler_def Let_def)

lemma event_refines:
  assumes "old_ok s" and "on_desk e s" and "handle_event e s = Returns u"
  shows "desk_of u = desk_step e (desk_of s)" "old_ok u" "off_screen x \<Longrightarrow> x \<noteq> 0 \<Longrightarrow> omem u x = omem s x"
proof -
  have "desk_of u = desk_step e (desk_of s) \<and> old_ok u \<and> (off_screen x \<and> x \<noteq> 0 \<longrightarrow> omem u x = omem s x)"
  proof (cases e)
    case Tick
    then have "u = old_tick s\<lparr>opics := pics_out 0x20 0x20 (opics (old_tick s))\<rparr>" using assms(3) by (simp only: handle_event_eq handled.inject)
    then show ?thesis using tick_refines(1,2) [OF assms(1)] tick_refines(3) [OF assms(1), of x] Tick by simp
  next
    case (Key sc)
    then have "u = old_keypress sc s\<lparr>opics := pics_out 0x20 0x20 (opics (old_keypress sc s))\<rparr>" using assms(3) by (simp only: handle_event_eq handled.inject)
    then show ?thesis using keypress_refines [OF assms(1), of sc] assms(2) Key by (simp del: desk_step.simps on_desk.simps add: screen_only_def)
  qed
  then show "desk_of u = desk_step e (desk_of s)" "old_ok u" "off_screen x \<Longrightarrow> x \<noteq> 0 \<Longrightarrow> omem u x = omem s x" by blast+
qed

lemma old_run_refines:
  assumes "old_run s es t" and "old_ok s"
  shows "desk_of t = fold desk_step es (desk_of s) \<and> old_ok t \<and> (\<forall>x. off_screen x \<and> x \<noteq> 0 \<longrightarrow> omem t x = omem s x)"
  using assms
proof (induction rule: old_run.induct)
  case (old_event s es t e u)
  then show ?case using event_refines [of t e u] by simp
qed simp

text \<open>A string typed at the cursor.\<close>

lemma old_type_eq:
  assumes "c \<noteq> 0" "ocursor s < 65535"
  shows "omem (old_type c s) = (omem s)(ovid (2 * ocursor s) := c)" "ocursor (old_type c s) = ocursor s + 1"
proof -
  let ?v = "old_putchar c (-1) (-1) 0 s"
  have e: "old_type c s = ?v\<lparr>ocrt := old_set_cursor (fst (old_get_cursor (ocrt ?v)) + 1) (snd (old_get_cursor (ocrt ?v)))\<rparr>"
    by (simp add: old_type_def Let_def split_beta)
  have "unat (fst (old_get_cursor (ocrt ?v)) + 1) = ocursor s + 1"
    using old_putchar_typed(2) [OF assms(1), of s] assms(2) ocursor_word(1) [of ?v] by (simp add: unat_word_ariths unat_of_nat take_bit_nat_eq_self)
  then show "ocursor (old_type c s) = ocursor s + 1" by (simp add: e)
  show "omem (old_type c s) = (omem s)(ovid (2 * ocursor s) := c)" using old_putchar_typed(1) [OF assms(1)] by (simp add: e)
qed

lemma type_string:
  assumes "\<forall>c \<in> set xs. c \<noteq> 0" and "ocursor s + length xs \<le> 2000"
  shows "ocursor (fold old_type xs s) = ocursor s + length xs"
    and "i < 2080 \<Longrightarrow> ochar (fold old_type xs s) i = (if ocursor s \<le> i \<and> i < ocursor s + length xs then xs ! (i - ocursor s) else ochar s i)"
    and "(\<And>j. j < 2000 \<Longrightarrow> x \<noteq> ovid (2 * j)) \<Longrightarrow> omem (fold old_type xs s) x = omem s x"
  using assms
proof (induction xs arbitrary: s)
  case (Cons c xs)
  { case 1
    then show ?case using Cons.IH(1) [of "old_type c s"] old_type_eq [of c s] by simp
  next
    case 2
    have t: "ocursor (old_type c s) = ocursor s + 1" "ochar (old_type c s) i = (if i = ocursor s then c else ochar s i)"
      using old_type_eq [of c s] 2 ovid_eq_iff [of "2 * i" "2 * ocursor s"] by (simp_all add: ochar_def)
    show ?case using Cons.IH(2) [of "old_type c s"] 2 t by (auto simp: nth_Cons' Suc_le_eq)
  next
    case 3
    then show ?case using Cons.IH(3) [of "old_type c s"] old_type_eq [of c s] by simp
  }
qed auto

section \<open>Start\<close>

lemma wipe_facts:
  assumes "c \<noteq> 0" "col \<noteq> 0"
  shows "k < 2081 \<Longrightarrow> ochar (old_wipe_screen c col s) k = c"
    and "k < 2081 \<Longrightarrow> omem (old_wipe_screen c col s) (ovid (2 * k + 1)) = col"
    and "(\<And>k. k < 4162 \<Longrightarrow> x \<noteq> ovid k) \<Longrightarrow> omem (old_wipe_screen c col s) x = omem s x"
    and "ocrt (old_wipe_screen c col s) = ocrt s" "opics (old_wipe_screen c col s) = opics s" "opit (old_wipe_screen c col s) = opit s"
proof -
  note w = wipe_screen_mem [OF assms, of s]
  show "ochar (old_wipe_screen c col s) k = c" if "k < 2081" using that by (simp add: ochar_def w)
  show "omem (old_wipe_screen c col s) (ovid (2 * k + 1)) = col" if "k < 2081"
  proof -
    have "ovid (2 * k + 1) \<notin> (\<lambda>k. ovid (2 * k)) ` {..< 2081}"
    proof
      assume "ovid (2 * k + 1) \<in> (\<lambda>k. ovid (2 * k)) ` {..< 2081}"
      then obtain j where "j < 2081" "ovid (2 * k + 1) = ovid (2 * j)" by blast
      then show False using cell_char_col [of j k] that by simp
    qed
    then show ?thesis using that by (simp add: w)
  qed
  show "omem (old_wipe_screen c col s) x = omem s x" if x: "\<And>k. k < 4162 \<Longrightarrow> x \<noteq> ovid k"
  proof -
    have "x \<noteq> ovid (2 * k)" "x \<noteq> ovid (2 * k + 1)" if "k < 2081" for k using x [of "2 * k"] x [of "2 * k + 1"] that by simp_all
    then have "x \<notin> (\<lambda>k. ovid (2 * k)) ` {..< 2081}" "x \<notin> (\<lambda>k. ovid (2 * k + 1)) ` {..< 2081}" by blast+
    then show ?thesis by (simp add: w)
  qed
  show "ocrt (old_wipe_screen c col s) = ocrt s" "opics (old_wipe_screen c col s) = opics s" "opit (old_wipe_screen c col s) = opit s" by (simp_all add: w)
qed

lemma wipe_and_type:
  fixes s :: oldk
  assumes xs: "\<forall>c \<in> set xs. c \<noteq> 0" "length xs \<le> 2000" and col: "col \<noteq> 0"
  defines "w \<equiv> old_wipe_screen 0x20 col s\<lparr>ocrt := old_set_cursor 0 (ocrt (old_wipe_screen 0x20 col s))\<rparr>"
  defines "t \<equiv> fold old_type xs w"
  shows "ocursor t = length xs" and "i < 2080 \<Longrightarrow> ochar t i = banner xs i" and "omem t 0 = omem s 0" and "i < 2000 \<Longrightarrow> omem t (ovid (2 * i + 1)) = col"
proof -
  have w0: "ocursor w = 0" by (simp add: w_def)
  have n: "(0x20 :: u8) \<noteq> 0" by simp
  note f = wipe_facts [OF n col, where s = s]
  note y = type_string [OF xs(1), of w, unfolded w0, folded t_def]
  show "ocursor t = length xs" using y(1) xs(2) by simp
  show "ochar t i = banner xs i" if "i < 2080" using y(2) [OF _ that] xs(2) f(1) [of i] that by (simp add: banner_def w_def)
  have "omem t 0 = omem w 0" using y(3) [of 0] xs(2) zero_not_cell by fastforce
  also have "\<dots> = omem s 0"
  proof -
    have "(0 :: u32) \<noteq> ovid k" if "k < 4162" for k using unat_ovid [of k] that by (auto simp: word_unat_eq_iff)
    then show ?thesis using f(3) [of 0] by (simp add: w_def)
  qed
  finally show "omem t 0 = omem s 0" .
  show "omem t (ovid (2 * i + 1)) = col" if i: "i < 2000"
  proof -
    have "ovid (2 * i + 1) \<noteq> ovid (2 * j)" if "j < 2000" for j using cell_char_col [of j i] i that by simp
    then show ?thesis using y(3) [of "ovid (2 * i + 1)"] xs(2) f(2) [of i] i by (simp add: w_def)
  qed
qed

lemma old_timer_reload:
  assumes "freq \<noteq> 0"
  shows "old_init_timer freq s = Ok (s\<lparr>opit := init_timer (ucast (1193180 div freq)) (opit s)\<rparr>)"
proof -
  define d where "d = 1193180 div freq"
  have m: "(0xFF :: u32) = mask 8" "(0xFF :: u16) = mask 8" by (simp_all add: mask_numeral)
  have "(ucast (d AND 0xFF) :: u8) = ucast ((ucast d :: u16) AND 0xFF)" "(ucast (drop_bit 8 d AND 0xFF) :: u8) = ucast (drop_bit 8 (ucast d :: u16) AND 0xFF)"
    unfolding m by (rule bit_word_eqI, auto simp: bit_simps)+
  then show ?thesis using assms by (simp add: old_init_timer_def init_timer_def Let_def d_def [symmetric])
qed

lemma desk_pit [simp]: "desk_of (s\<lparr>opit := p\<rparr>) = desk_of s" "old_ok (s\<lparr>opit := p\<rparr>) = old_ok s"
  unfolding desk_of_def old_ok_def by (simp_all cong: if_cong)

lemma main_result:
  "\<exists>m. old_main s = Ok m \<and> old_ok m \<and> desk_of m = (omem s 0, 43, banner old_message) \<and> pit_reload (opit m) = 13532"
proof -
  let ?w = "old_wipe_screen 0x20 0x70 s\<lparr>ocrt := old_set_cursor 0 (ocrt (old_wipe_screen 0x20 0x70 s))\<rparr>"
  define t where "t = fold old_type old_message ?w"
  let ?m = "t\<lparr>opit := init_timer (ucast (1193180 div 1 :: u32)) (opit t)\<rparr>"
  have xs: "\<forall>c \<in> set old_message. c \<noteq> 0" "length old_message = 43" by (simp_all add: old_message_def ascii_def)
  have col: "(0x70 :: u8) \<noteq> 0" and le: "length old_message \<le> 2000" using xs(2) by simp_all
  note f = wipe_and_type [OF xs(1) le col, where s = s, folded t_def]
  have "old_main s = Ok ?m"
    unfolding old_main_def Let_def old_message_def [symmetric] t_def [symmetric] by (rule old_timer_reload) simp
  moreover have "old_ok t" using f(1,2) xs(2) by (simp add: old_ok_def ochar_def banner_def)
  moreover have "rows t = banner old_message" using f(2) xs(2) by (auto simp: rows_def banner_def fun_eq_iff)
  then have "desk_of t = (omem s 0, 43, banner old_message)" using f(1,3) xs(2) by (simp add: desk_of_rows)
  moreover have "pit_reload (opit ?m) = 13532" by (simp add: init_timer_reload)
  ultimately show ?thesis by (intro exI [of _ ?m]) (simp del: div_by_1)
qed

section \<open>Descriptor table\<close>

lemma idt_fold:
  assumes "n \<le> 256"
  shows "oidt (fold (\<lambda>i. idt_setup (of_nat i) (isrs i) 0x08 0x8E) [0..<n] s) v =
    (if unat v < n then \<lparr>base_lo = ucast (drop_bit 16 (isrs (unat v)) AND 0xFFFF), segment = 8, reserved = 0, flags = 0x8E, base_hi = ucast (isrs (unat v) AND 0xFFFF)\<rparr>
     else oidt s v)"
  using assms
proof (induction n)
  case (Suc n)
  have "v = of_nat n \<longleftrightarrow> unat v = n" using Suc.prems by (auto simp: word_unat_eq_iff unat_of_nat take_bit_nat_eq_self)
  then show ?case using Suc by (auto simp: idt_setup_def)
qed simp

lemma idt_fold_rest:
  "opics (fold (\<lambda>i. idt_setup (of_nat i) (isrs i) 0x08 0x8E) xs s) = opics s"
  by (induction xs arbitrary: s) (simp_all add: idt_setup_def)

lemma swapped_target:
  fixes a :: u32
  shows "gate_target \<lparr>base_lo = ucast (drop_bit 16 a AND 0xFFFF), segment = 8, reserved = 0, flags = 0x8E, base_hi = ucast (a AND 0xFFFF)\<rparr> = push_bit 16 a OR drop_bit 16 a"
proof -
  have m: "(0xFFFF :: u32) = mask 16" by (simp add: mask_numeral)
  show ?thesis unfolding gate_target_def idt_entry_t.simps m by (rule bit_word_eqI) (auto simp: bit_simps dest: bit_imp_le_length)
qed

lemma swap_fixed:
  fixes a :: u32
  shows "push_bit 16 a OR drop_bit 16 a = a \<longleftrightarrow> a AND 0xFFFF = drop_bit 16 a"
proof -
  have m: "(0xFFFF :: u32) = mask 16" by (simp add: mask_numeral)
  show ?thesis
  proof
    assume e: "push_bit 16 a OR drop_bit 16 a = a"
    show "a AND 0xFFFF = drop_bit 16 a" unfolding m
    proof (rule bit_word_eqI)
      fix n assume "n < LENGTH(32)"
      have "bit (push_bit 16 a OR drop_bit 16 a) n = bit a n" using e by simp
      then show "bit (a AND mask 16) n = bit (drop_bit 16 a) n" by (auto simp: bit_simps dest: bit_imp_le_length)
    qed
  next
    assume e: "a AND 0xFFFF = drop_bit 16 a"
    have b: "bit (a AND mask 16) n = bit (drop_bit 16 a) n" for n using e unfolding m by simp
    have h: "n < 16 \<Longrightarrow> bit a n = bit a (n + 16)" for n using b [of n] by (auto simp: bit_simps add.commute dest: bit_imp_le_length)
    show "push_bit 16 a OR drop_bit 16 a = a"
    proof (rule bit_word_eqI)
      fix n assume n: "n < LENGTH(32)"
      show "bit (push_bit 16 a OR drop_bit 16 a) n = bit a n"
      proof (cases "n < 16")
        case True
        then show ?thesis using h [of n] n by (auto simp: bit_simps add.commute dest: bit_imp_le_length)
      next
        case False
        then show ?thesis using h [of "n - 16"] n by (auto simp: bit_simps add.commute dest: bit_imp_le_length)
      qed
    qed
  qed
qed

lemma init_idt_pics: "opics (old_init_idt isrs a s) = init_pic (opics s)"
  by (simp add: old_init_idt_def init_pic_def Let_def idt_fold_rest del: upt_conv_Cons)

section \<open>Panic\<close>

lemma panic_screen:
  "\<exists>u. old_panic n s = Hangs u \<and> (\<forall>i < 2000. ochar u i = (if i = 27 \<and> ucast n + 30 \<noteq> (0 :: u8) then ucast n + 30 else banner panic_message i)
     \<and> omem u (ovid (2 * i + 1)) = 0x17)"
proof -
  let ?w = "old_wipe_screen 0x20 0x17 s\<lparr>ocrt := old_set_cursor 0 (ocrt (old_wipe_screen 0x20 0x17 s))\<rparr>" and ?c = "ucast n + 30 :: u8"
  define t where "t = fold old_type panic_message ?w"
  have xs: "\<forall>c \<in> set panic_message. c \<noteq> 0" "length panic_message = 27" by (simp_all add: panic_message_def ascii_def)
  have col: "(0x17 :: u8) \<noteq> 0" and le: "length panic_message \<le> 2000" using xs(2) by simp_all
  note f = wipe_and_type [OF xs(1) le col, where s = s, folded t_def]
  have run: "old_panic n s = Hangs (old_putchar ?c (-1) (-1) 0 t)"
    unfolding old_panic_def Let_def panic_message_def [symmetric] t_def [symmetric] ..
  have cur: "ocursor t = 27" using f(1) xs(2) by simp
  have "ochar (old_putchar ?c (-1) (-1) 0 t) i = (if i = 27 \<and> ?c \<noteq> 0 then ?c else banner panic_message i)" if "i < 2000" for i
    using f(2) [of i] ochar_putchar [of ?c t i] cur that by (cases "?c = 0") (simp_all add: old_putchar_cursor Let_def)
  moreover have "omem (old_putchar ?c (-1) (-1) 0 t) (ovid (2 * i + 1)) = 0x17" if "i < 2000" for i
  proof -
    have "ovid (2 * i + 1) \<noteq> ovid (2 * 27)" using cell_char_col [of 27 i] that by simp
    then show ?thesis using f(4) [OF that] cur by (simp add: old_putchar_cursor Let_def)
  qed
  ultimately show ?thesis using run by blast
qed

lemma dispatch_panics:
  assumes "n \<noteq> 32" "n \<noteq> 33"
  shows "old_interrupt_handler sc n s = old_panic n s"
proof -
  have "\<exists>u. old_panic n s = Hangs u" using panic_screen [of n s] by blast
  then show ?thesis using assms by (auto simp: old_interrupt_handler_def old_exception_handler_def old_pic_handler_def)
qed

section \<open>Properties\<close>

text \<open>
  C34. The first kernel is the desk it shows: \<^verbatim>\<open>main\<close> puts its message on a blank screen, and after any sequence
  of clock and keyboard interrupts the clock, the cursor and the 25 rows are those of the
  abstract desk, enter and scrolling included. The cursor stays on the screen and memory
  outside of screen and clock keeps its contents, as long as nobody presses backspace in the first cell or
  enter behind the last one; every other interrupt can be taken in every state and returns.
\<close>

theorem old_kernel_refines_desk:
  assumes "old_main s = Ok m" and "old_run m es t"
  shows "desk_of t = fold desk_step es (omem s 0, 43, banner old_message) \<and> ocursor t \<le> 2000
    \<and> (\<forall>x. off_screen x \<and> x \<noteq> 0 \<longrightarrow> omem t x = omem m x)
    \<and> (\<forall>e. on_desk e t \<longrightarrow> (\<exists>u. handle_event e t = Returns u \<and> old_run m (es @ [e]) u))"
proof -
  have m: "old_ok m" "desk_of m = (omem s 0, 43, banner old_message)" using main_result [of s] assms(1) by auto
  have r: "desk_of t = fold desk_step es (desk_of m)" "old_ok t" "\<forall>x. off_screen x \<and> x \<noteq> 0 \<longrightarrow> omem t x = omem m x"
    using old_run_refines [OF assms(2) m(1)] by blast+
  have "\<exists>u. handle_event e t = Returns u \<and> old_run m (es @ [e]) u" if "on_desk e t" for e
  proof -
    obtain u where "handle_event e t = Returns u" using handle_event_eq(1) [of t] handle_event_eq(2) [of _ t] by (cases e) blast+
    then show ?thesis using old_event [OF assms(2) that] by blast
  qed
  then show ?thesis using r m(2) old_ok_row(2) [OF r(2)] by simp
qed

theorem old_kernel_refines_desk_witness:
  "\<exists>m t. old_main sample_old = Ok m \<and> old_run m [Key 0x1e] t \<and> desk_of t = (0, 44, (banner old_message)(43 := 0x41))"
proof -
  obtain m where m: "old_main sample_old = Ok m" using main_result [of sample_old] by blast
  from old_kernel_refines_desk [OF m old_start] have d: "desk_of m = (omem sample_old 0, 43, banner old_message)"
    and ev: "\<And>e. on_desk e m \<Longrightarrow> \<exists>u. handle_event e m = Returns u \<and> old_run m ([] @ [e]) u" by auto
  have k: "convertscan 0x1e = 0x41" by (simp add: convertscan_def old_keymap_def)
  have "on_desk (Key 0x1e) m" by (simp add: k)
  then obtain t where t: "old_run m [Key 0x1e] t" using ev by fastforce
  have "desk_of t = desk_step (Key 0x1e) (0, 43, banner old_message)"
    using old_kernel_refines_desk [OF m t] by (simp add: sample_old_def)
  then show ?thesis using m t by (auto simp: k)
qed

text \<open>
  C37. The two keys that lead off the screen: enter with the cursor behind the last cell, where typing the last cell
  leaves it, moves the cursor to a row below the screen instead of scrolling, and whatever
  is typed from then on changes no cell of the screen; backspace in the first cell moves the cursor to 65535
  and stores a blank at \<open>0xd7ffe\<close>, outside of video memory.
\<close>

theorem old_keys_off_screen:
  "(ocursor s = 2000 \<and> convertscan sc = 10 \<longrightarrow> ocursor (old_keypress sc s) = 2080)
   \<and> (2000 < ocursor s \<and> ocursor s < 65535 \<and> 0x20 \<le> convertscan sc \<longrightarrow>
        ocursor (old_keypress sc s) = ocursor s + 1 \<and> (\<forall>i < 2000. ochar (old_keypress sc s) i = ochar s i))
   \<and> (ocursor s = 0 \<and> convertscan sc = 8 \<longrightarrow> ocursor (old_keypress sc s) = 65535 \<and> omem (old_keypress sc s) 0xd7ffe = 0x20)"
proof (intro conjI impI; elim conjE)
  obtain p cd where c: "old_get_cursor (ocrt s) = (p, cd)" by fastforce
  have p: "unat p = ocursor s" using c by (simp add: ocursor_def)
  { assume a: "ocursor s = 2000" "convertscan sc = 10"
    then have "p = 2000" using p by (simp add: word_unat_eq_iff)
    then show "ocursor (old_keypress sc s) = 2080" using a(2) by (simp add: old_keypress_def c old_make_room_def) }
  { assume a: "2000 < ocursor s" "ocursor s < 65535" "0x20 \<le> convertscan sc"
    let ?w = "s\<lparr>ocrt := old_set_cursor p cd\<rparr>" and ?k = "convertscan sc"
    have k: "?k \<noteq> 10" "?k \<noteq> 0" "p \<noteq> 2000" using a p by auto
    have e: "old_keypress sc s = old_putchar ?k (-1) (-1) 0 ?w\<lparr>ocrt := old_set_cursor (p + 1) (ocrt (old_putchar ?k (-1) (-1) 0 ?w))\<rparr>"
      using a(3) k by (simp add: old_keypress_def c old_make_room_def Let_def)
    show "ocursor (old_keypress sc s) = ocursor s + 1" using a(2) p by (simp add: e unat_word_ariths)
    show "\<forall>i < 2000. ochar (old_keypress sc s) i = ochar s i"
      using ochar_putchar [OF k(2), of ?w] a(1,2) p by (simp add: e) }
  { assume a: "ocursor s = 0" "convertscan sc = 8"
    then have z: "p = 0" using p by (simp add: word_unat_eq_iff)
    let ?w = "s\<lparr>ocrt := old_set_cursor (- 1) (ocrt (s\<lparr>ocrt := old_set_cursor 0 cd\<rparr>))\<rparr>"
    have e: "old_keypress sc s = old_putchar 0x20 (-1) (-1) 0 ?w" using a(2) z by (simp add: old_keypress_def c old_make_room_def Let_def)
    have w: "ocursor ?w = 65535" by (simp add: unsigned_minus_1_eq_mask mask_eq_exp_minus_1)
    show "ocursor (old_keypress sc s) = 65535" using old_putchar_typed(2) [of "0x20" ?w] w by (simp only: e) simp
    have "ovid (2 * 65535) = 0xd7ffe" by (simp add: ovid_def)
    then show "omem (old_keypress sc s) 0xd7ffe = 0x20" using old_putchar_typed(1) [of "0x20" ?w] w by (simp only: e) simp }
qed

theorem old_keys_off_screen_witness: "ocursor (old_keypress 0x0e sample_old) = 65535"
proof -
  have "convertscan 0x0e = 8" "ocursor sample_old = 0"
    by (simp_all add: convertscan_def old_keymap_def ocursor_def sample_old_def old_get_cursor_def crtc_in_def crtc_out_def)
  then show ?thesis using old_keys_off_screen [of sample_old "0x0e"] by simp
qed

text \<open>
  C35. The dispatcher of the first kernel: the clock and the keyboard interrupt return and end the interrupt at the
  controller; every other vector hangs the machine with a blank blue screen that shows the message and, in its 28th cell, the
  character 30 above the vector.
\<close>

theorem old_dispatch:
  "(n = 32 \<or> n = 33 \<longrightarrow> (\<exists>u. old_interrupt_handler sc n s = Returns u \<and> \<not> in_service (fst (opics u))))
   \<and> (n \<noteq> 32 \<and> n \<noteq> 33 \<longrightarrow> (\<exists>u. old_interrupt_handler sc n s = Hangs u
        \<and> (\<forall>i < 2000. ochar u i = (if i = 27 \<and> ucast n + 30 \<noteq> (0 :: u8) then ucast n + 30 else banner panic_message i)
             \<and> omem u (ovid (2 * i + 1)) = 0x17)))"
proof (intro conjI impI)
  assume "n = 32 \<or> n = 33"
  then show "\<exists>u. old_interrupt_handler sc n s = Returns u \<and> \<not> in_service (fst (opics u))"
    by (auto simp: old_interrupt_handler_def old_pic_handler_def Let_def pics_out_def pic_command_def split_beta)
next
  assume "n \<noteq> 32 \<and> n \<noteq> 33"
  then show "\<exists>u. old_interrupt_handler sc n s = Hangs u
        \<and> (\<forall>i < 2000. ochar u i = (if i = 27 \<and> ucast n + 30 \<noteq> (0 :: u8) then ucast n + 30 else banner panic_message i)
             \<and> omem u (ovid (2 * i + 1)) = 0x17)"
    using dispatch_panics [of n sc s] panic_screen [of n s] by simp
qed

theorem old_dispatch_witness: "\<exists>u. old_interrupt_handler 0 13 sample_old = Hangs u \<and> ochar u 27 = 0x2B"
proof -
  have "\<exists>u. old_interrupt_handler 0 13 sample_old = Hangs u
        \<and> (\<forall>i < 2000. ochar u i = (if i = 27 \<and> ucast (13 :: u32) + 30 \<noteq> (0 :: u8) then ucast (13 :: u32) + 30 else banner panic_message i)
             \<and> omem u (ovid (2 * i + 1)) = 0x17)" using old_dispatch [of 13 0 sample_old] by simp
  then obtain u where "old_interrupt_handler 0 13 sample_old = Hangs u" "ochar u 27 = (if ucast (13 :: u32) + 30 \<noteq> (0 :: u8) then ucast (13 :: u32) + 30 else banner panic_message 27)" by auto
  then show ?thesis by simp
qed

text \<open>
  C36. The descriptor table of the first kernel swaps the halves of every handler's address: the processor
  enters the stub of a vector only if the two halves are equal. The controllers are set up like those
  of the later kernel, for clock and keyboard only, and the reload value of the timer is
  the divisor cut off to 16 bits, 13532 instead of 1193180 for the frequency 1 that \<^verbatim>\<open>main\<close> asks for.
\<close>

theorem old_table_swapped:
  "(\<forall>v. unat v < 47 \<longrightarrow> gate_present (oidt (old_init_idt isrs a s) v) \<and> gate_kernel (oidt (old_init_idt isrs a s) v)
       \<and> gate_target (oidt (old_init_idt isrs a s) v) = push_bit 16 (isrs (unat v)) OR drop_bit 16 (isrs (unat v))
       \<and> (gate_target (oidt (old_init_idt isrs a s) v) = isrs (unat v) \<longleftrightarrow> isrs (unat v) AND 0xFFFF = drop_bit 16 (isrs (unat v))))
   \<and> (\<forall>v. 47 \<le> unat v \<longrightarrow> oidt (old_init_idt isrs a s) v = oidt s v)
   \<and> (\<forall>i < 16. irq_vector (opics (old_init_idt isrs a s)) i = (if i = 0 then Some 0x20 else if i = 1 then Some 0x21 else None))
   \<and> (freq \<noteq> 0 \<longrightarrow> (\<exists>t. old_init_timer freq s = Ok t \<and> unat (pit_reload (opit t)) = (1193180 div unat freq) mod 65536))"
proof (intro conjI allI impI)
  have o: "oidt (old_init_idt isrs a s) v = (if unat v < 47 then \<lparr>base_lo = ucast (drop_bit 16 (isrs (unat v)) AND 0xFFFF), segment = 8, reserved = 0, flags = 0x8E, base_hi = ucast (isrs (unat v) AND 0xFFFF)\<rparr> else oidt s v)" for v
    by (simp add: old_init_idt_def Let_def idt_fold del: upt_conv_Cons)
  show "oidt (old_init_idt isrs a s) v = oidt s v" if "47 \<le> unat v" for v using that by (simp add: o)
  fix v :: u8 assume v: "unat v < 47"
  show "gate_present (oidt (old_init_idt isrs a s) v)" "gate_kernel (oidt (old_init_idt isrs a s) v)"
    using v by (simp_all add: o gate_present_def gate_kernel_def)
  show "gate_target (oidt (old_init_idt isrs a s) v) = push_bit 16 (isrs (unat v)) OR drop_bit 16 (isrs (unat v))"
    unfolding o if_P [OF v] by (rule swapped_target)
  show "gate_target (oidt (old_init_idt isrs a s) v) = isrs (unat v) \<longleftrightarrow> isrs (unat v) AND 0xFFFF = drop_bit 16 (isrs (unat v))"
    unfolding o if_P [OF v] swapped_target by (rule swap_fixed)
next
  fix i :: nat assume "i < 16"
  then show "irq_vector (opics (old_init_idt isrs a s)) i = (if i = 0 then Some 0x20 else if i = 1 then Some 0x21 else None)"
    unfolding init_idt_pics by (rule init_pic_lines)
next
  assume "freq \<noteq> 0"
  moreover have "unat (ucast (1193180 div freq) :: u16) = (1193180 div unat freq) mod 65536"
    by (simp add: unsigned_ucast_eq take_bit_eq_mod unat_div)
  ultimately show "\<exists>t. old_init_timer freq s = Ok t \<and> unat (pit_reload (opit t)) = (1193180 div unat freq) mod 65536"
    by (simp add: old_timer_reload init_timer_reload)
qed

theorem old_table_swapped_witness:
  "gate_target (oidt (old_init_idt (\<lambda>i. 0x1000 + of_nat i) 0x2000 sample_old) 14) = 0x100E0000"
proof -
  have "unat (14 :: u8) < 47" by simp
  with old_table_swapped [of "\<lambda>i. 0x1000 + of_nat i" "0x2000" sample_old 1]
  have "gate_target (oidt (old_init_idt (\<lambda>i. 0x1000 + of_nat i) 0x2000 sample_old) 14) =
      push_bit 16 (0x1000 + of_nat (unat (14 :: u8))) OR drop_bit 16 (0x1000 + of_nat (unat (14 :: u8)))" by blast
  then show ?thesis by simp
qed

end
