(* ===== verification/Diagnostics.thy ===== *)
theory Diagnostics
  imports Titor_Kernel Libc_Stdio Interrupts
begin

text \<open>
  The last words of the BarrelOS kernel: \<^verbatim>\<open>hexstring\<close> (\<^verbatim>\<open>barrelOS/drivers/utils.c\<close>), and \<^verbatim>\<open>panic\<close> and
  \<^verbatim>\<open>kpanic\<close> (\<^verbatim>\<open>barrelOS/kernel/idt/interrupt_handlers.c\<close>) on the console. \<^verbatim>\<open>hexstring\<close> builds its result in
  the string literal \<^verbatim>\<open>"0x"\<close>, whose address \<open>lit\<close> is an argument. A function that ends in \<^verbatim>\<open>while(1);\<close> has
  the console it leaves on the screen as its value.
\<close>

section \<open>Numerals\<close>

definition hexstring_digit :: "u32 \<Rightarrow> nat \<Rightarrow> u8" where
  "hexstring_digit v shift =
     (let digit = ucast (drop_bit shift v AND 0xF) :: u8;
          digit = digit + 48
      in if digit > 57 then digit + 7 else digit)"

text \<open>The loop with \<open>k\<close> rounds left; a shift by 32 bits or more has no meaning.\<close>

fun hexstring_loop :: "nat \<Rightarrow> nat \<Rightarrow> u32 \<Rightarrow> u32 \<Rightarrow> u8 \<Rightarrow> 32 mem \<Rightarrow> 32 mem outcome" where
  "hexstring_loop 0 i str v width m = Ok m"
| "hexstring_loop (Suc k) i str v width m =
     (let shift = (unat width - 4) - i * 4 in
      if shift < 32 then hexstring_loop k (Suc i) str v width (m(str + of_nat (i + 2) := hexstring_digit v shift))
      else Halt (Undefined ''hexstring: shift''))"

definition hexstring :: "u32 \<Rightarrow> u32 \<Rightarrow> u8 \<Rightarrow> 32 mem \<Rightarrow> (u32 \<times> 32 mem) outcome" where
  "hexstring lit v width m =
     (let n = unat width div 4 in
      bind_ok (hexstring_loop n 0 lit v width m) (\<lambda>m. Ok (lit, m(lit + of_nat (n + 2) := 0))))"

section \<open>Panic\<close>

text \<open>\<^verbatim>\<open>print(str)\<close> of the string at an address, and \<^verbatim>\<open>print(hexstring(v, width))\<close>.\<close>

definition print_at :: "u32 \<Rightarrow> console \<Rightarrow> console option" where
  "print_at a s = Option.bind (cstring (kmem s) a) (\<lambda>xs. Some (Console.print xs s))"

definition print_hex :: "u32 \<Rightarrow> u32 \<Rightarrow> u8 \<Rightarrow> console \<Rightarrow> console outcome option" where
  "print_hex lit v width s =
     (case hexstring lit v width (kmem s) of
        Halt h \<Rightarrow> Some (Halt h)
      | Ok (p, m) \<Rightarrow> map_option Ok (print_at p (s\<lparr>kmem := m\<rparr>)))"

text \<open>Pairs of \<^verbatim>\<open>println(label); print(hexstring(v, width));\<close> one after the other.\<close>

fun print_fields :: "u32 \<Rightarrow> (u8 list \<times> u32 \<times> u8) list \<Rightarrow> console \<Rightarrow> console outcome option" where
  "print_fields lit [] s = Some (Ok s)"
| "print_fields lit ((label, v, width) # fs) s =
     Option.bind (print_hex lit v width (println label s)) (\<lambda>r.
       case r of Halt h \<Rightarrow> Some (Halt h) | Ok s \<Rightarrow> print_fields lit fs s)"

definition panic_fields :: "isr_stack_t \<Rightarrow> u32 \<Rightarrow> (u8 list \<times> u32 \<times> u8) list" where
  "panic_fields stack cr2 =
     [(ascii ''Interrupt: '', vector stack, 8), (ascii ''Error code: '', error stack, 32),
      (ascii ''Base pointer: '', ebp stack, 32), (ascii ''Stack pointer: '', esp stack, 32),
      (ascii ''User stack pointer: '', user_esp stack, 32), (ascii ''cs: '', cs stack, 32),
      (ascii ''eip: '', eip stack, 32), (ascii ''CR2: '', cr2, 32)]"

definition panic :: "u32 \<Rightarrow> u32 \<Rightarrow> isr_stack_t \<Rightarrow> console \<Rightarrow> console outcome option" where
  "panic lit cr2 stack s =
     print_fields lit (panic_fields stack cr2) (println (ascii ''Unhandled Exception'') s)"

definition kpanic :: "u8 list \<Rightarrow> console \<Rightarrow> console" where
  "kpanic message s = println message (println (ascii ''kernel panic'') s)"

section \<open>Specification\<close>

text \<open>The \<open>k\<close> last hexadecimal digits, in capitals.\<close>

definition hex_text :: "nat \<Rightarrow> nat \<Rightarrow> u8 list" where
  "hex_text k n = map (\<lambda>i. nibble 0x58 (n div 16 ^ (k - 1 - i) mod 16)) [0..<k]"

text \<open>A line on the screen: on a fresh line, then the characters.\<close>

definition put_line :: "u8 \<Rightarrow> u8 list \<Rightarrow> screen \<Rightarrow> screen" where
  "put_line color xs v = foldl (put color) (if fst v mod 80 \<noteq> 0 then put color v 0x0A else v) xs"

definition put_field :: "u8 \<Rightarrow> screen \<Rightarrow> u8 list \<times> u32 \<times> u8 \<Rightarrow> screen" where
  "put_field color v f =
     (case f of (label, n, width) \<Rightarrow> put_line color (label @ ascii ''0x'' @ hex_text (unat width div 4) (unat n)) v)"

text \<open>A byte printing leaves alone.\<close>

definition off_console :: "console \<Rightarrow> u32 \<Rightarrow> bool" where
  "off_console s x \<longleftrightarrow> \<not> in_page (framecopy s) x \<and> \<not> in_page (scratch s) x \<and> (unat x < 0xc00b8000 \<or> 0xc00d8000 \<le> unat x)"

text \<open>The literal and the eight bytes after it, which \<^verbatim>\<open>hexstring\<close> overwrites.\<close>

definition literal_ok :: "u32 \<Rightarrow> console \<Rightarrow> bool" where
  "literal_ok lit s \<longleftrightarrow> kmem s lit = 0x30 \<and> kmem s (lit + 1) = 0x78 \<and> (\<forall>i < 11. off_console s (lit + of_nat i))"

text \<open>A width \<^verbatim>\<open>hexstring\<close> can do in whole digits.\<close>

definition field_ok :: "u8 list \<times> u32 \<times> u8 \<Rightarrow> bool" where
  "field_ok f \<longleftrightarrow> (case f of (label, v, width) \<Rightarrow> unat width mod 4 = 0 \<and> unat width \<le> 32)"

definition sample_screen :: console where
  "sample_screen = sample_console\<lparr>kmem := (\<lambda>_. 0x41)(0xc0105000 := 0x30, 0xc0105001 := 0x78)\<rparr>"

section \<open>Digits\<close>

lemma hexstring_digit_nibble: "hexstring_digit v (4 * j) = nibble 0x58 (unat v div 16 ^ j mod 16)"
proof -
  define d where "d = unat v div 16 ^ j mod 16"
  have d16: "d < 16" by (simp add: d_def)
  have "unat (drop_bit (4 * j) v AND 0xF) = d"
    using unat_and_mask [of "drop_bit (4 * j) v" 4] by (simp add: mask_numeral unat_drop_bit d_def power_mult)
  then have "drop_bit (4 * j) v AND 0xF = of_nat d" by (metis of_nat_unat ucast_id)
  then have w: "(ucast (drop_bit (4 * j) v AND 0xF) :: u8) = of_nat d" by (simp only: ucast_of_nat8)
  have "(if of_nat e + 48 > (57 :: u8) then of_nat e + 48 + 7 else of_nat e + 48) = nibble 0x58 e" if "e < 16" for e
    using hex_digit_cases [OF that] by (elim disjE; simp add: nibble_def)
  from this [OF d16] show ?thesis unfolding hexstring_digit_def w Let_def d_def [symmetric] .
qed

lemma hex_text_length [simp]: "length (hex_text k n) = k"
  by (simp add: hex_text_def)

lemma hex_text_nth: "i < k \<Longrightarrow> hex_text k n ! i = nibble 0x58 (n div 16 ^ (k - 1 - i) mod 16)"
  by (simp add: hex_text_def)

lemma hex_text_nonzero: "i < k \<Longrightarrow> hex_text k n ! i \<noteq> 0"
  using nibble_zero by (simp add: hex_text_nth)

lemma digit_value_nibble: "d < 16 \<Longrightarrow> digit_value (nibble 0x58 d) = d"
  by (drule hex_digit_cases) (elim disjE; simp add: nibble_def digit_value_def)

lemma hex_text_value: "foldl (\<lambda>a c. 16 * a + digit_value c) 0 (hex_text k n) = n mod 16 ^ k"
proof -
  have "foldl (\<lambda>a c. 16 * a + digit_value c) 0 (hex_text k n) = foldl (\<lambda>a i. 16 * a + n div 16 ^ (k - 1 - i) mod 16) 0 [0..<k]"
    by (simp add: hex_text_def foldl_map digit_value_nibble)
  then show ?thesis using digits_prefix [of k k n] by simp
qed

lemma offset_unat: "unat (x - a) = i \<longleftrightarrow> x = a + of_nat i" if "i < 2 ^ 32" for x a :: u32
proof -
  have u: "unat (of_nat i :: u32) = i" using that by (simp add: unat_of_nat take_bit_nat_eq_self)
  show ?thesis
  proof
    assume "unat (x - a) = i"
    then have "x - a = of_nat i" using u by (simp add: word_unat_eq_iff)
    then show "x = a + of_nat i" by (simp add: algebra_simps)
  qed (simp add: u)
qed

text \<open>The bytes after \<open>k\<close> rounds.\<close>

lemma hexstring_loop_bytes:
  assumes "unat width = 4 * n" "n \<le> 8"
  shows "i + k = n \<Longrightarrow> \<exists>m'. hexstring_loop k i a v width m = Ok m'
    \<and> (\<forall>x. m' x = (if i + 2 \<le> unat (x - a) \<and> unat (x - a) < n + 2 then hex_text n (unat v) ! (unat (x - a) - 2) else m x))"
proof (induction k arbitrary: i m)
  case (Suc k)
  have s: "unat width - 4 - i * 4 = 4 * (n - 1 - i)" using assms Suc.prems by simp
  let ?m = "m(a + of_nat (i + 2) := hexstring_digit v (4 * (n - 1 - i)))"
  have d: "hexstring_digit v (4 * (n - 1 - i)) = hex_text n (unat v) ! i"
    using Suc.prems by (simp only: hexstring_digit_nibble) (simp add: hex_text_nth)
  have "Suc i + k = n" using Suc.prems by simp
  from Suc.IH [OF this, of ?m] obtain m' where m': "hexstring_loop k (Suc i) a v width ?m = Ok m'"
    "\<forall>x. m' x = (if Suc i + 2 \<le> unat (x - a) \<and> unat (x - a) < n + 2 then hex_text n (unat v) ! (unat (x - a) - 2) else ?m x)"
    by blast
  have "m' x = (if i + 2 \<le> unat (x - a) \<and> unat (x - a) < n + 2 then hex_text n (unat v) ! (unat (x - a) - 2) else m x)" for x
  proof (cases "unat (x - a) = i + 2")
    case True
    then have "x = a + of_nat (i + 2)" using offset_unat [of "i + 2" x a] assms Suc.prems by simp
    then show ?thesis using True m'(2) d Suc.prems by simp
  next
    case False
    then have "x \<noteq> a + of_nat (i + 2)" using offset_unat [of "i + 2" x a] assms Suc.prems by simp
    then show ?thesis using False m'(2) by auto
  qed
  moreover have "hexstring_loop (Suc k) i a v width m = Ok m'" using m'(1) s assms by (simp add: Let_def)
  ultimately show ?case by blast
qed auto

lemma hexstring_bytes:
  assumes "unat width = 4 * n" "n \<le> 8"
  shows "\<exists>m'. hexstring a v width m = Ok (a, m') \<and> (\<forall>x. m' x =
      (if unat (x - a) = n + 2 then 0
       else if 2 \<le> unat (x - a) \<and> unat (x - a) < n + 2 then hex_text n (unat v) ! (unat (x - a) - 2) else m x))"
proof -
  obtain m' where m': "hexstring_loop n 0 a v width m = Ok m'"
    "\<forall>x. m' x = (if 2 \<le> unat (x - a) \<and> unat (x - a) < n + 2 then hex_text n (unat v) ! (unat (x - a) - 2) else m x)"
    using hexstring_loop_bytes [OF assms, of 0 n a v m] by auto
  have o: "unat (x - a) = n + 2 \<longleftrightarrow> x = a + of_nat (n + 2)" for x using assms(2) by (intro offset_unat) simp
  have "hexstring a v width m = Ok (a, m'(a + of_nat (n + 2) := 0))" using m'(1) assms(1) by (simp add: hexstring_def Let_def)
  moreover have "(m'(a + of_nat (n + 2) := 0)) x =
      (if unat (x - a) = n + 2 then 0
       else if 2 \<le> unat (x - a) \<and> unat (x - a) < n + 2 then hex_text n (unat v) ! (unat (x - a) - 2) else m x)" for x
    unfolding o using m'(2) by simp
  ultimately show ?thesis by blast
qed

lemma text_at_nths:
  assumes "\<And>i. i < length xs \<Longrightarrow> m (a + of_nat i) = xs ! i \<and> xs ! i \<noteq> 0" "m (a + of_nat (length xs)) = 0"
  shows "text_at m a xs"
  using assms
proof (induction xs arbitrary: a)
  case (Cons x xs)
  have "text_at m (a + 1) xs"
  proof (rule Cons.IH)
    show "m (a + 1 + of_nat i) = xs ! i \<and> xs ! i \<noteq> 0" if "i < length xs" for i
      using Cons.prems(1) [of "Suc i"] that by (simp add: algebra_simps)
    show "m (a + 1 + of_nat (length xs)) = 0" using Cons.prems(2) by (simp add: algebra_simps)
  qed
  then show ?case using Cons.prems(1) [of 0] by simp
qed simp

lemma hexstring_string:
  assumes "unat width = 4 * n" "n \<le> 8" and "m a = 0x30" "m (a + 1) = 0x78"
  shows "\<exists>m'. hexstring a v width m = Ok (a, m') \<and> text_at m' a (ascii ''0x'' @ hex_text n (unat v))
    \<and> (\<forall>x. unat (x - a) < 2 \<or> n + 2 < unat (x - a) \<longrightarrow> m' x = m x)"
proof -
  obtain m' where m': "hexstring a v width m = Ok (a, m')"
    "\<And>x. m' x = (if unat (x - a) = n + 2 then 0
       else if 2 \<le> unat (x - a) \<and> unat (x - a) < n + 2 then hex_text n (unat v) ! (unat (x - a) - 2) else m x)"
    using hexstring_bytes [OF assms(1,2), of a v m] by blast
  let ?xs = "ascii ''0x'' @ hex_text n (unat v)"
  have u: "unat (a + of_nat i - a) = i" if "i < 11" for i using that by (simp add: unat_of_nat take_bit_nat_eq_self)
  have x: "ascii ''0x'' = [0x30, 0x78]" by (simp add: ascii_def)
  have "text_at m' a ?xs"
  proof (rule text_at_nths)
    fix i assume i: "i < length ?xs"
    then have i10: "i < n + 2" by (simp add: x)
    consider "i = 0" | "i = 1" | "2 \<le> i" by linarith
    then show "m' (a + of_nat i) = ?xs ! i \<and> ?xs ! i \<noteq> 0"
    proof cases
      case 3
      then have "?xs ! i = hex_text n (unat v) ! (i - 2)" by (simp add: x nth_append numeral_2_eq_2)
      moreover have "hex_text n (unat v) ! (i - 2) \<noteq> 0" using 3 i10 by (intro hex_text_nonzero) simp
      ultimately show ?thesis using 3 i10 assms(2) by (simp only: m'(2) u) simp
    qed (use assms m'(2) [of a] m'(2) [of "a + 1"] in \<open>simp_all add: x\<close>)
  next
    show "m' (a + of_nat (length ?xs)) = 0" using assms(2) u [of "n + 2"] by (simp add: m'(2) x)
  qed
  moreover have "m' x = m x" if "unat (x - a) < 2 \<or> n + 2 < unat (x - a)" for x
    using that by (auto simp only: m'(2) split: if_split)
  ultimately show ?thesis using m'(1) by blast
qed

section \<open>Lines on the screen\<close>

lemma print_prints_only: "console_ok s \<Longrightarrow> prints_only s (Console.print xs s)"
proof (induction xs arbitrary: s)
  case Nil
  then show ?case by (simp add: prints_only_def same_pages_def)
next
  case (Cons c xs)
  let ?t = "if c = 0x0A then newline s else put_pixel c s"
  have "prints_only s ?t" using prints_only_newline [OF Cons.prems] prints_only_put_pixel [OF Cons.prems] by simp
  moreover have "prints_only ?t (Console.print xs ?t)" using print_step [OF Cons.prems, of c] by (intro Cons.IH) blast
  ultimately show ?case unfolding Console.print.simps by (rule prints_only_trans)
qed

lemma println_refines:
  assumes "console_ok s"
  shows "view (println xs s) = put_line (screencolor s) xs (view s) \<and> console_ok (println xs s) \<and> prints_only s (println xs s)"
proof -
  obtain d where d: "cursor_of s = (of_nat (cursor s), s\<lparr>ccrt := d\<rparr>)" "cursor (s\<lparr>ccrt := d\<rparr>) = cursor s"
    using cursor_of_eq by blast
  let ?t = "s\<lparr>ccrt := d\<rparr>"
  have t: "console_ok ?t" "view ?t = view s" "prints_only s ?t"
    using assms d(2) by (simp_all add: console_ok_def view_def prints_only_crt)
  have "unat ((of_nat (cursor s) :: u16) mod 80) = cursor s mod 80"
    using cursor_less [of s] by (simp add: unat_mod unat_of_nat take_bit_nat_eq_self)
  then have c: "(of_nat (cursor s) :: u16) mod 80 \<noteq> 0 \<longleftrightarrow> fst (view s) mod 80 \<noteq> 0"
    by (simp add: view_def word_unat_eq_iff)
  let ?u = "if fst (view s) mod 80 \<noteq> 0 then newline ?t else ?t"
  have u: "view ?u = (if fst (view s) mod 80 \<noteq> 0 then put (screencolor s) (view s) 0x0A else view s)" "console_ok ?u" "prints_only s ?u"
    using newline_view [OF t(1)] print_step [OF t(1), of "0x0A"] prints_only_trans [OF t(3) prints_only_newline [OF t(1)]] t by auto
  have "println xs s = Console.print xs ?u" unfolding println_def d Let_def split_conv c by simp
  moreover have "screencolor ?u = screencolor s" using u(3) by (simp add: prints_only_def same_pages_def)
  ultimately show ?thesis
    using print_refines [OF u(2), of xs] prints_only_trans [OF u(3) print_prints_only [OF u(2), of xs]] u(1) by (simp add: put_line_def)
qed

lemma off_console_same: "prints_only s t \<Longrightarrow> off_console t x = off_console s x"
  by (simp add: prints_only_def same_pages_def off_console_def)

lemma literal_kept: "prints_only s t \<Longrightarrow> literal_ok lit s \<Longrightarrow> literal_ok lit t"
proof -
  assume p: "prints_only s t" and l: "literal_ok lit s"
  have "off_console s lit" "off_console s (lit + 1)" using l by (auto simp: literal_ok_def dest: spec [of _ 0] spec [of _ 1])
  then have "kmem t lit = kmem s lit" "kmem t (lit + 1) = kmem s (lit + 1)" using p by (auto simp: prints_only_def off_console_def)
  then show ?thesis using l p by (simp add: literal_ok_def off_console_same)
qed

text \<open>One numeral: the string is written off the screen, and put on it character by character.\<close>

lemma print_hex_refines:
  assumes ok: "console_ok s" "literal_ok lit s" and w: "unat width = 4 * n" "n \<le> 8"
  shows "\<exists>t. print_hex lit v width s = Some (Ok t) \<and> view t = foldl (put (screencolor s)) (view s) (ascii ''0x'' @ hex_text n (unat v))
    \<and> console_ok t \<and> literal_ok lit t \<and> same_pages s t"
proof -
  obtain m' where m': "hexstring lit v width (kmem s) = Ok (lit, m')" "text_at m' lit (ascii ''0x'' @ hex_text n (unat v))"
    "\<And>x. unat (x - lit) < 2 \<or> n + 2 < unat (x - lit) \<Longrightarrow> m' x = kmem s x"
    using hexstring_string [OF w, of "kmem s" lit v] ok(2) by (auto simp: literal_ok_def)
  let ?s = "s\<lparr>kmem := m'\<rparr>"
  have off: "off_console s x" if "m' x \<noteq> kmem s x" for x
  proof -
    have "unat (x - lit) < 11" using m'(3) [of x] that w(2) by linarith
    moreover have "x = lit + of_nat (unat (x - lit))" by simp
    ultimately show ?thesis using ok(2) unfolding literal_ok_def by metis
  qed
  have vid: "m' (vid j) = kmem s (vid j)" if "j < 4096" for j
    using off [of "vid j"] unat_vid [OF that] that by (auto simp: off_console_def)
  have "cells ?s i = cells s i" for i
    using vid [of "2 * i"] vid [of "2 * i + 1"] by (simp add: cells_vid)
  then have v: "view ?s = view s" "console_ok ?s" using ok(1) by (auto simp: view_def cursor_def console_ok_def)
  have "literal_ok lit ?s"
    using ok(2) m'(3) [of lit] m'(3) [of "lit + 1"] by (simp add: literal_ok_def off_console_def)
  then have "literal_ok lit (Console.print xs ?s)" for xs using literal_kept print_prints_only [OF v(2)] by blast
  moreover have "same_pages s (Console.print xs ?s)" for xs
    using print_prints_only [OF v(2), of xs] by (simp add: prints_only_def same_pages_def)
  moreover have "print_hex lit v width s = Some (Ok (Console.print (ascii ''0x'' @ hex_text n (unat v)) ?s))"
    using cstring_text [OF m'(2)] by (simp add: print_hex_def m'(1) print_at_def)
  ultimately show ?thesis using print_refines [OF v(2)] v(1) by auto
qed

lemma put_line_append: "foldl (put c) (put_line c xs v) ys = put_line c (xs @ ys) v"
  by (simp add: put_line_def)

lemma print_fields_refines:
  "console_ok s \<Longrightarrow> literal_ok lit s \<Longrightarrow> list_all field_ok fs \<Longrightarrow>
   \<exists>t. print_fields lit fs s = Some (Ok t) \<and> view t = foldl (put_field (screencolor s)) (view s) fs \<and> console_ok t"
proof (induction fs arbitrary: s)
  case (Cons f fs)
  obtain label v width where f: "f = (label, v, width)" by (cases f)
  let ?n = "unat width div 4" and ?s = "println label s"
  have w: "unat width = 4 * ?n" "?n \<le> 8" using Cons.prems(3) by (auto simp: f field_ok_def)
  note pl = println_refines [OF Cons.prems(1), of label]
  have l: "literal_ok lit ?s" using pl literal_kept Cons.prems(2) by blast
  have c: "console_ok ?s" using pl by blast
  obtain t where t: "print_hex lit v width ?s = Some (Ok t)"
    "view t = foldl (put (screencolor ?s)) (view ?s) (ascii ''0x'' @ hex_text ?n (unat v))" "console_ok t" "literal_ok lit t" "same_pages ?s t"
    using print_hex_refines [OF c l w] by blast
  have sc: "screencolor ?s = screencolor s" "screencolor t = screencolor s"
    using pl t(5) by (simp_all add: prints_only_def same_pages_def)
  have "view t = put_field (screencolor s) (view s) f"
    using t(2) pl sc by (simp only: put_line_append put_field_def f split_conv)
  then show ?case
    using Cons.IH [OF t(3,4)] Cons.prems(3) t(1) sc(2) by (simp add: f)
qed simp

lemma panic_fields_ok: "list_all field_ok (panic_fields stack cr2)"
  by (simp add: panic_fields_def field_ok_def)

lemma sample_screen_ok: "console_ok sample_screen" "literal_ok 0xc0105000 sample_screen"
proof -
  show "console_ok sample_screen" using sample_terminal_ok(2) by (simp add: sample_screen_def console_ok_def cursor_def)
  have "off_console sample_screen (0xc0105000 + of_nat i)" if "i < 11" for i
  proof -
    have "unat (0xc0105000 + of_nat i :: u32) = 0xc0105000 + i" using that by (simp add: unat_word_ariths unat_of_nat take_bit_eq_mod)
    then show ?thesis using that by (simp add: off_console_def in_page_def sample_screen_def sample_console_def)
  qed
  then show "literal_ok 0xc0105000 sample_screen" by (simp add: literal_ok_def) (simp add: sample_screen_def)
qed

section \<open>Properties\<close>

text \<open>
  \<^verbatim>\<open>hexstring\<close> gives \<^verbatim>\<open>0x\<close> and the digits of the number, which read back as the number modulo
  \<open>16 ^ n\<close>, for a width of \<open>n\<close> digits (1 to 8). It changes no byte before the digits or after the
  terminator; but the terminator is at offset \<open>n + 2\<close> of a string literal of three bytes, so for every
  width the call overwrites what follows the literal.
\<close>

theorem hexstring_overruns:
  assumes "unat width = 4 * n" "1 \<le> n" "n \<le> 8" and "m a = 0x30" "m (a + 1) = 0x78"
  shows "\<exists>m' ds. hexstring a v width m = Ok (a, m') \<and> cstring m' a = Some (ascii ''0x'' @ ds) \<and> length ds = n
    \<and> foldl (\<lambda>x c. 16 * x + digit_value c) 0 ds = unat v mod 16 ^ n
    \<and> (\<forall>x. unat (x - a) < 2 \<or> n + 2 < unat (x - a) \<longrightarrow> m' x = m x)
    \<and> 3 \<le> n + 2 \<and> m' (a + of_nat (n + 2)) = 0"
proof -
  obtain m' where m': "hexstring a v width m = Ok (a, m')" "text_at m' a (ascii ''0x'' @ hex_text n (unat v))"
    "\<forall>x. unat (x - a) < 2 \<or> n + 2 < unat (x - a) \<longrightarrow> m' x = m x"
    using hexstring_string [OF assms(1,3-5)] by blast
  have "length (ascii ''0x'' @ hex_text n (unat v)) = n + 2" by (simp add: ascii_def)
  then have z: "m' (a + of_nat (n + 2)) = 0" using text_at_end [OF m'(2)] by simp
  have n3: "3 \<le> n + 2" using assms(2) by simp
  show ?thesis
    by (intro exI [of _ m'] exI [of _ "hex_text n (unat v)"] conjI m'(1) cstring_text [OF m'(2)] hex_text_length hex_text_value m'(3) n3 z)
qed

theorem hexstring_overruns_witness:
  "\<exists>m' ds. hexstring 0xc0105000 0x20 8 (kmem sample_screen) = Ok (0xc0105000, m') \<and> cstring m' 0xc0105000 = Some (ascii ''0x'' @ ds)
    \<and> length ds = 2 \<and> foldl (\<lambda>x c. 16 * x + digit_value c) 0 ds = 32 \<and> m' 0xc0105004 = 0 \<and> kmem sample_screen 0xc0105004 = 0x41"
proof -
  have "unat (8 :: u8) = 4 * 2" "(1 :: nat) \<le> 2" "(2 :: nat) \<le> 8" by simp_all
  moreover have "kmem sample_screen 0xc0105000 = 0x30" "kmem sample_screen (0xc0105000 + 1) = 0x78" "kmem sample_screen 0xc0105004 = 0x41"
    by (simp_all add: sample_screen_def)
  ultimately show ?thesis using hexstring_overruns [of 8 2 "kmem sample_screen" "0xc0105000" "0x20"] by simp blast
qed

text \<open>
  C38. An exception without a handler: \<^verbatim>\<open>interrupt_handler\<close> never returns, and \<^verbatim>\<open>panic\<close> reaches its
  endless loop with a heading and eight lines on the screen, one for each register it reports, each a
  label and the register's digits (two for the vector, eight for the others), scrolled as any output is.
  The cursor is still on the screen. (The numerals are built on memory the console does not use.)
\<close>

theorem panic_reports:
  assumes "vector stack \<notin> {0x0e, 0x20, 0x21, 0x80}"
    and "console_ok (kcon (kn m))" and "literal_ok lit (kcon (kn m))"
  shows "interrupt_handler hw drv reads stack m = Some (Halt (Spin ''Unhandled Exception'')) \<and>
    (\<exists>t. panic lit (mcr2 m) stack (kcon (kn m)) = Some (Ok t) \<and> cursor t < 2000
      \<and> view t = foldl (put_field (screencolor (kcon (kn m))))
          (put_line (screencolor (kcon (kn m))) (ascii ''Unhandled Exception'') (view (kcon (kn m))))
          (panic_fields stack (mcr2 m)))"
proof -
  let ?s = "kcon (kn m)"
  note pl = println_refines [OF assms(2), of "ascii ''Unhandled Exception''"]
  have l: "literal_ok lit (println (ascii ''Unhandled Exception'') ?s)" using literal_kept pl assms(3) by blast
  have c: "console_ok (println (ascii ''Unhandled Exception'') ?s)" using pl by blast
  have "screencolor (println (ascii ''Unhandled Exception'') ?s) = screencolor ?s" using pl by (simp add: prints_only_def same_pages_def)
  then have "\<exists>t. panic lit (mcr2 m) stack ?s = Some (Ok t) \<and> cursor t < 2000
      \<and> view t = foldl (put_field (screencolor ?s)) (put_line (screencolor ?s) (ascii ''Unhandled Exception'') (view ?s)) (panic_fields stack (mcr2 m))"
    using print_fields_refines [OF c l panic_fields_ok, of stack "mcr2 m"] pl by (auto simp: panic_def console_ok_def)
  moreover have "interrupt_handler hw drv reads stack m = Some (Halt (Spin ''Unhandled Exception''))"
    using assms(1) by (simp add: interrupt_handler_def Let_def)
  ultimately show ?thesis by blast
qed

theorem panic_reports_witness:
  "\<exists>t. panic 0xc0105000 0 ((pstack sample_proc)\<lparr>vector := 0x0d\<rparr>) sample_screen = Some (Ok t) \<and> cursor t < 2000"
proof -
  let ?m = "sample_machine\<lparr>kn := sample_kern\<lparr>kcon := sample_screen\<rparr>\<rparr>"
  have "vector ((pstack sample_proc)\<lparr>vector := 0x0d\<rparr>) \<notin> {0x0e, 0x20, 0x21, 0x80}" by simp
  moreover have "kcon (kn ?m) = sample_screen" "mcr2 ?m = 0" by (simp_all add: sample_machine_def)
  ultimately show ?thesis
    using panic_reports [of "(pstack sample_proc)\<lparr>vector := 0x0d\<rparr>" ?m "0xc0105000" idle_controller "drivers_at idle_controller 2" "(0, 0)"] sample_screen_ok by auto
qed

end
