(* ===== verification/Shell.thy ===== *)
theory Shell
  imports Libc_Stdio
begin

text \<open>
  The user programs of BarrelOS (\<^verbatim>\<open>barrelOS/user/shell.c\<close>, \<^verbatim>\<open>barrelOS/user/ls.c\<close>) on the C library. The
  address of a string literal is an argument (\<open>lit\<close>, equal literals having one address), and so is
  what the kernel answers: the descriptor of \<^verbatim>\<open>open\<close>, the bytes of a \<^verbatim>\<open>read\<close>, the result of \<^verbatim>\<open>fork\<close>. A
  program's output is the text of its writes to descriptor 1. The lemmas follow the heap, the
  literals and the statics of \<^verbatim>\<open>strtok\<close> through every call.
\<close>

section \<open>State\<close>

record shell =
  proc :: libc
  stok :: strtok_state

text \<open>How the first part of \<^verbatim>\<open>main\<close> ends: at the command loop with the line buffer, or replaced by a program.\<close>

datatype shell_start = Running u32 shell | Replaced shell

definition bind_run :: "'a outcome option \<Rightarrow> ('a \<Rightarrow> 'b outcome option) \<Rightarrow> 'b outcome option" where
  "bind_run r f = Option.bind r (\<lambda>r. case r of Halt h \<Rightarrow> Some (Halt h) | Ok x \<Rightarrow> f x)"

text \<open>Calls of the library from the program: \<^verbatim>\<open>printf\<close>, \<^verbatim>\<open>strtok\<close>, and \<^verbatim>\<open>read\<close> with the bytes it stores.\<close>

definition say :: "u32 \<Rightarrow> u32 list \<Rightarrow> shell \<Rightarrow> shell outcome option" where
  "say str args s = bind_run (printf str args (proc s)) (\<lambda>p. Some (Ok (s\<lparr>proc := p\<rparr>)))"

definition next_token :: "u32 \<Rightarrow> u32 \<Rightarrow> shell \<Rightarrow> (u32 \<times> shell) option" where
  "next_token str delim s =
     map_option (\<lambda>(t, st, m). (t, s\<lparr>proc := (proc s)\<lparr>umem := m\<rparr>, stok := st\<rparr>)) (strtok str delim (stok s) (umem (proc s)))"

definition read_bytes :: "u32 \<Rightarrow> u32 \<Rightarrow> u8 \<Rightarrow> u8 list \<Rightarrow> shell \<Rightarrow> shell" where
  "read_bytes fd buf count bytes s =
     (let p = sys (Read fd buf count) (proc s)
      in s\<lparr>proc := p\<lparr>umem := fold (\<lambda>i m. m(buf + of_nat i := bytes ! i)) [0..<length bytes] (umem p)\<rparr>\<rparr>)"

definition nl :: string where
  "nl = [CHR 0x0A]"

section \<open>Commands\<close>

partial_function (option) echo_loop :: "(string \<Rightarrow> u32) \<Rightarrow> u32 \<Rightarrow> shell \<Rightarrow> shell outcome option" where
  "echo_loop lit t s =
     (if t \<noteq> 0
      then Option.bind (say t [] s) (\<lambda>r. case r of Halt h \<Rightarrow> Some (Halt h) | Ok s \<Rightarrow>
           Option.bind (say (lit '' '') [] s) (\<lambda>r. case r of Halt h \<Rightarrow> Some (Halt h) | Ok s \<Rightarrow>
           Option.bind (next_token 0 (lit '' '') s) (\<lambda>p. echo_loop lit (fst p) (snd p))))
      else Some (Ok s))"

definition echo :: "(string \<Rightarrow> u32) \<Rightarrow> shell \<Rightarrow> shell outcome option" where
  "echo lit s =
     Option.bind (next_token 0 (lit '' '') s) (\<lambda>(t, s).
     bind_run (echo_loop lit t s) (\<lambda>s. say (lit nl) [] s))"

text \<open>One round of the command loop; \<open>bytes\<close> is what the terminal hands over.\<close>

definition shell_round :: "(string \<Rightarrow> u32) \<Rightarrow> u32 \<Rightarrow> u8 list \<Rightarrow> shell \<Rightarrow> shell outcome option" where
  "shell_round lit command bytes s =
     bind_run (say (lit ''shell>'') [] s) (\<lambda>s.
     let s = read_bytes 0 command 100 bytes s in
     Option.bind (next_token command (lit '' '') s) (\<lambda>(t, s).
       if t = 0 then Some (Ok s)
       else Option.bind (strcmp (umem (proc s)) t (lit ''echo'')) (\<lambda>r.
         if r = 0 then echo lit s
         else say (lit (''unrecognized command '' @ [CHR 0x22] @ ''%s'' @ [CHR 0x22] @ nl)) [t] s)))"

fun shell_loop :: "(string \<Rightarrow> u32) \<Rightarrow> u32 \<Rightarrow> u8 list list \<Rightarrow> shell \<Rightarrow> shell outcome option" where
  "shell_loop lit command [] s = Some (Ok s)"
| "shell_loop lit command (l # ls) s = bind_run (shell_round lit command l s) (shell_loop lit command ls)"

section \<open>Programs\<close>

definition with_proc :: "(libc \<Rightarrow> libc) \<Rightarrow> shell \<Rightarrow> shell" where
  "with_proc f s = s\<lparr>proc := f (proc s)\<rparr>"

definition shell_begin :: "(string \<Rightarrow> u32) \<Rightarrow> u8 \<Rightarrow> u8 list \<Rightarrow> u32 \<Rightarrow> shell \<Rightarrow> shell_start outcome option" where
  "shell_begin lit file bytes pid s =
     bind_run (malloc 100 (proc s)) (\<lambda>(command, p).
     let s = s\<lparr>proc := p\<rparr>;
         s = with_proc (sys (Open (ascii ''/file'') 0x3)) s;
         s = with_proc (sys (Write file (ascii ''YO HELLO'' @ [0]) 9)) s;
         s = read_bytes (ucast file) command 9 bytes s in
     bind_run (say (lit (''The written string was: %s'' @ nl)) [command] s) (\<lambda>s.
     bind_run (say (lit (''PRINTF TEST'' @ nl)) [] s) (\<lambda>s.
     bind_run (say (lit (''capital hex: %X'' @ nl)) [0x1234abcd] s) (\<lambda>s.
     bind_run (say (lit (''lowercase hex: %x'' @ nl)) [0xabcd1234] s) (\<lambda>s.
     bind_run (say (lit (''unsigned decimal: %u'' @ nl)) [123456789] s) (\<lambda>s.
     bind_run (say (lit (''character: %c'' @ nl)) [0x23] s) (\<lambda>s.
     bind_run (say (lit (''string: %s'' @ nl @ nl)) [lit ''wooyeah''] s) (\<lambda>s.
     let s = with_proc (sys Fork) s in
     if pid = 0
     then bind_run (say (lit ''I am the child of a fork'') [] s) (\<lambda>s.
          Some (Ok (Replaced (with_proc (sys (Exec (ascii ''/mnt/ls.bin''))) s))))
     else bind_run (say (lit (''I am the parent and I am still a shell'' @ nl)) [] s) (\<lambda>s.
          Some (Ok (Running command s)))))))))))"

text \<open>\<^verbatim>\<open>main\<close> of the shell, for the lines read so far; and of \<^verbatim>\<open>ls\<close>, up to its endless loop.\<close>

definition shell_main :: "(string \<Rightarrow> u32) \<Rightarrow> u8 \<Rightarrow> u8 list \<Rightarrow> u32 \<Rightarrow> u8 list list \<Rightarrow> shell \<Rightarrow> shell outcome option" where
  "shell_main lit file bytes pid lines s =
     bind_run (shell_begin lit file bytes pid s) (\<lambda>r.
       case r of Running command s \<Rightarrow> shell_loop lit command lines s | Replaced s \<Rightarrow> Some (Ok s))"

definition ls_main :: "(string \<Rightarrow> u32) \<Rightarrow> shell \<Rightarrow> shell outcome option" where
  "ls_main lit s =
     bind_run (say (lit (''I did an exec and now I am ls'' @ nl)) [] s) (\<lambda>s.
       say (lit (''one day I will list directory contents'' @ nl)) [] s)"

section \<open>Specification\<close>

text \<open>The text on standard output.\<close>

fun written :: "syscall \<Rightarrow> u8 list" where
  "written (Write fd t n) = (if fd = 1 then t else [])"
| "written _ = []"

definition shown :: "shell \<Rightarrow> u8 list" where
  "shown s = concat (map written (calls (proc s)))"

text \<open>What a command line, as a list of words, is answered.\<close>

fun reply :: "u8 list list \<Rightarrow> u8 list" where
  "reply [] = []"
| "reply (w # ws) =
     (if w = ascii ''echo'' then concat (map (\<lambda>w. w @ [0x20]) ws) @ [0x0A]
      else ascii ''unrecognized command '' @ [0x22] @ w @ [0x22, 0x0A])"

definition answers :: "u8 list list \<Rightarrow> u8 list" where
  "answers lines = concat (map (\<lambda>l. ascii ''shell>'' @ reply (tokens [0x20] l)) lines)"

text \<open>What the shell prints before its first prompt, and before \<^verbatim>\<open>fork\<close>.\<close>

definition banner :: "u8 list" where
  "banner = ascii (''The written string was: YO HELLO'' @ nl @ ''PRINTF TEST'' @ nl @ ''capital hex: 0x1234ABCD'' @ nl
     @ ''lowercase hex: 0xabcd1234'' @ nl @ ''unsigned decimal: 123456789'' @ nl @ ''character: #'' @ nl @ ''string: wooyeah'' @ nl @ nl)"

text \<open>A heap at \<open>h\<close> of \<open>e\<close> bytes with the blocks \<open>L\<close> handed out and room for \<^verbatim>\<open>printf\<close>.\<close>

definition arena :: "u32 \<Rightarrow> nat \<Rightarrow> (nat \<times> nat) set \<Rightarrow> shell \<Rightarrow> bool" where
  "arena h e L s \<longleftrightarrow> heap (proc s) = h \<and> (\<exists>bs. chain (umem (proc s)) (unat h) bs \<and> first_fit 400 bs \<noteq> None
     \<and> extent bs = e \<and> set (live (unat h) bs) = L)"

definition in_use :: "u32 \<Rightarrow> nat \<Rightarrow> (nat \<times> nat) set \<Rightarrow> u32 \<Rightarrow> bool" where
  "in_use h e L x \<longleftrightarrow> unat x < unat h \<or> unat h + e \<le> unat x \<or> (\<exists>(p, k) \<in> L. p \<le> unat x \<and> unat x < p + k)"

text \<open>The program's literals are in memory below its heap.\<close>

definition shell_literals :: "string list" where
  "shell_literals =
     ['' '', nl, ''shell>'', ''echo'', ''unrecognized command '' @ [CHR 0x22] @ ''%s'' @ [CHR 0x22] @ nl,
      ''The written string was: %s'' @ nl, ''PRINTF TEST'' @ nl, ''capital hex: %X'' @ nl, ''lowercase hex: %x'' @ nl,
      ''unsigned decimal: %u'' @ nl, ''character: %c'' @ nl, ''string: %s'' @ nl @ nl, ''wooyeah'',
      ''I am the child of a fork'', ''I am the parent and I am still a shell'' @ nl]"

definition literals_ok :: "(string \<Rightarrow> u32) \<Rightarrow> string list \<Rightarrow> u32 \<Rightarrow> shell \<Rightarrow> bool" where
  "literals_ok lit xs h s \<longleftrightarrow> list_all (\<lambda>x. string_at (umem (proc s)) (lit x) (ascii x) \<and> unat (lit x) + length x < unat h) xs"

definition string_in :: "u32 \<Rightarrow> nat \<Rightarrow> (nat \<times> nat) set \<Rightarrow> shell \<Rightarrow> u32 \<Rightarrow> u8 list \<Rightarrow> bool" where
  "string_in h e L s a xs \<longleftrightarrow> string_at (umem (proc s)) a xs \<and> (\<forall>i \<le> length xs. in_use h e L (a + of_nat i))"

text \<open>A call that only printed.\<close>

definition printed :: "u32 \<Rightarrow> nat \<Rightarrow> (nat \<times> nat) set \<Rightarrow> shell \<Rightarrow> u8 list \<Rightarrow> shell \<Rightarrow> bool" where
  "printed h e L s out s' \<longleftrightarrow> arena h e L s' \<and> shown s' = shown s @ out \<and> stok s' = stok s
     \<and> (\<forall>x. in_use h e L x \<longrightarrow> umem (proc s') x = umem (proc s) x)"

text \<open>The current word lies in the line, from \<open>a\<close> to its end \<open>e\<close>.\<close>

definition token_in :: "u32 \<Rightarrow> u32 \<Rightarrow> strtok_state \<Rightarrow> bool" where
  "token_in a e st \<longleftrightarrow> str_end st = e \<and> (token st \<noteq> 0 \<longrightarrow> a \<le> token st)"

text \<open>The shell between two calls, with the 100 bytes of its line buffer.\<close>

definition shell_ok :: "(string \<Rightarrow> u32) \<Rightarrow> u32 \<Rightarrow> nat \<Rightarrow> (nat \<times> nat) set \<Rightarrow> u32 \<Rightarrow> shell \<Rightarrow> bool" where
  "shell_ok lit h e L command s \<longleftrightarrow> arena h e L s \<and> literals_ok lit shell_literals h s \<and> (\<exists>k \<ge> 100. (unat command, k) \<in> L)"

text \<open>The words \<open>ts\<close> of the line are still to come.\<close>

definition words_left :: "u32 \<Rightarrow> u8 list list \<Rightarrow> shell \<Rightarrow> bool" where
  "words_left command ts s \<longleftrightarrow> strtok_at (umem (proc s)) (stok s) ts
     \<and> (\<exists>e. token_in command e (stok s) \<and> unat e < unat command + 100)"

text \<open>A process with its literals laid out 64 bytes apart from \<open>0x1000\<close>, after \<^verbatim>\<open>init_libc\<close>.\<close>

definition sample_lit :: "string \<Rightarrow> u32" where
  "sample_lit x = of_nat (0x1000 + 64 * length (takeWhile (\<lambda>y. y \<noteq> x) shell_literals))"

definition sample_data :: "32 mem" where
  "sample_data a = (let i = (unat a - 0x1000) div 64; j = (unat a - 0x1000) mod 64 in
     if 0x1000 \<le> unat a \<and> i < length shell_literals \<and> j < length (shell_literals ! i) then ascii (shell_literals ! i) ! j else 0)"

definition sample_shell :: shell where
  "sample_shell = \<lparr>proc = init_libc 0x10000000 \<lparr>umem = sample_data, heap = 0, calls = []\<rparr>, stok = \<lparr>token = 0, str_end = 0\<rparr>\<rparr>"

section \<open>Printing\<close>

lemma bind_run_simps [simp]: "bind_run (Some (Ok x)) f = f x" "bind_run (Some (Halt h)) f = Some (Halt h)" "bind_run None f = None"
  by (simp_all add: bind_run_def)

lemma string_at_same: "string_at m a xs \<Longrightarrow> (\<And>i. i \<le> length xs \<Longrightarrow> m' (a + of_nat i) = m (a + of_nat i)) \<Longrightarrow> string_at m' a xs"
  by (simp add: string_at_def)

lemma string_in_printed: "printed h e L s out s' \<Longrightarrow> string_in h e L s a xs \<Longrightarrow> string_in h e L s' a xs"
  by (auto simp: printed_def string_in_def intro: string_at_same)

lemma printed_trans: "printed h e L s x t \<Longrightarrow> printed h e L t y u \<Longrightarrow> printed h e L s (x @ y) u"
  by (simp add: printed_def)

lemma shown_writes: "calls p = calls (proc s) @ map W ts \<Longrightarrow> shown (s\<lparr>proc := p\<rparr>) = shown s @ concat ts"
  by (simp add: shown_def comp_def)

lemma say_printed:
  assumes a: "arena h e L s" and f: "string_in h e L s S xs" "format str xs args = Some out"
    and v: "\<And>v. v \<in> set (str_args xs args) \<Longrightarrow> string_in h e L s v (str v)"
  shows "\<exists>s'. say S args s = Some (Ok s') \<and> printed h e L s out s'"
proof -
  obtain bs where h: "heap (proc s) = h" and bs: "chain (umem (proc s)) (unat (heap (proc s))) bs" "first_fit 400 bs \<noteq> None" "extent bs = e"
    "set (live (unat h) bs) = L" using a by (auto simp: arena_def)
  have k: "kept (proc s) bs = in_use h e L" by (simp add: kept_def in_use_def h bs fun_eq_iff)
  then have ks: "kept_string (proc s) bs a xs = string_in h e L s a xs" for a xs by (simp add: kept_string_def string_in_def)
  obtain off bs' where r: "first_fit 400 bs = Some (off, bs')" using bs(2) by auto
  have v': "kept_string (proc s) bs w (str w)" if "w \<in> set (str_args xs args)" for w using v [OF that] ks by simp
  obtain ts p bs'' where p: "printf S args (proc s) = Some (Ok p)" "calls p = calls (proc s) @ map W ts" "concat ts = out" "heap p = heap (proc s)"
    "chain (umem p) (unat h) bs''" "extent bs'' = extent bs" "set (live (unat h) bs'') = L" "first_fit 400 bs'' \<noteq> None"
    "\<forall>x. in_use h e L x \<longrightarrow> umem p x = umem (proc s) x"
    using printf_run [OF bs(1) r f(1) [folded ks] f(2) v'] unfolding k h bs(4) by blast
  have "say S args s = Some (Ok (s\<lparr>proc := p\<rparr>))" by (simp add: say_def p(1))
  moreover have "arena h e L (s\<lparr>proc := p\<rparr>)" using p h bs(3) by (auto simp: arena_def)
  ultimately show ?thesis using shown_writes [OF p(2)] p(3,9) by (auto simp: printed_def)
qed

lemma format_plain: "0x25 \<notin> set xs \<Longrightarrow> format str xs args = Some xs \<and> str_args xs args = []"
  by (induction xs) (auto simp: format_literal str_args_literal)

lemma say_plain:
  assumes "arena h e L s" "string_in h e L s S xs" "0x25 \<notin> set xs"
  shows "\<exists>s'. say S [] s = Some (Ok s') \<and> printed h e L s xs s'"
  using say_printed [OF assms(1,2), of "\<lambda>_. []" "[]" xs] format_plain [OF assms(3)] by simp

lemma below_heap: "unat a + n < unat h \<Longrightarrow> i \<le> n \<Longrightarrow> unat (a + of_nat i) < unat h" for a h :: u32
  using unat_u32_less [of h] by (subst unat_add_lem [THEN iffD1]) (auto simp: unat_of_nat take_bit_nat_eq_self)

lemma literal_in:
  assumes "literals_ok lit xs h s" "x \<in> set xs"
  shows "string_in h e L s (lit x) (ascii x)"
proof -
  have l: "string_at (umem (proc s)) (lit x) (ascii x)" "unat (lit x) + length x < unat h"
    using assms by (auto simp: literals_ok_def list_all_iff)
  then show ?thesis using below_heap [OF l(2)] by (simp add: string_in_def in_use_def ascii_def)
qed

lemma literals_below:
  assumes "literals_ok lit xs h s" and "\<And>x. unat x < unat h \<Longrightarrow> umem (proc s') x = umem (proc s) x"
  shows "literals_ok lit xs h s'"
proof -
  have "string_at (umem (proc s')) (lit x) (ascii x)"
    if "string_at (umem (proc s)) (lit x) (ascii x)" "unat (lit x) + length x < unat h" for x
    using that(1) by (rule string_at_same) (use assms(2) below_heap [OF that(2)] in \<open>simp add: ascii_def\<close>)
  then show ?thesis using assms(1) by (auto simp: literals_ok_def list_all_iff)
qed

lemma literals_printed: "printed h e L s out s' \<Longrightarrow> literals_ok lit xs h s \<Longrightarrow> literals_ok lit xs h s'"
  by (erule literals_below) (simp add: printed_def in_use_def)

section \<open>Words of the command line\<close>

lemma skip_zeros_ge: "skip_zeros m a e = Some t \<Longrightarrow> a \<le> t"
proof (rule skip_zeros.raw_induct [where P = "\<lambda>m a e t. a \<le> t"])
  fix sz :: "32 mem \<Rightarrow> u32 \<Rightarrow> u32 \<Rightarrow> u32 option" and m a e t
  assume ih: "\<And>m a e t. sz m a e = Some t \<Longrightarrow> a \<le> t"
    and r: "(if m a = 0 \<and> a < e then sz m (a + 1) e else Some a) = Some t"
  show "a \<le> t"
  proof (cases "m a = 0 \<and> a < e")
    case True
    then have "a + 1 \<le> t" using ih [of m "a + 1" e t] r by simp
    moreover have "unat (a + 1) = Suc (unat a)" using True by (intro unat_inc [of a e]) simp
    ultimately show ?thesis by (simp add: word_le_nat_alt)
  qed (use r in \<open>auto split: if_splits\<close>)
qed

lemma strtok_first_in:
  assumes "strtok a delim st m = Some (t, st', m')" "a \<noteq> 0" "string_at m a xs"
  shows "token_in a (a + of_nat (length xs)) st'"
  using assms(1) skip_zeros_ge
  by (auto simp: strtok_def assms(2) strlen_at [OF assms(3)] token_in_def Let_def bind_eq_Some_conv split: if_splits)

lemma strtok_next_in:
  assumes "strtok 0 delim st m = Some (t, st', m')" "strtok_at m st ts" "token_in a e st"
  shows "token_in a e st'"
proof (cases "ts = []")
  case True
  then show ?thesis using assms by (auto simp: strtok_def strtok_at_def token_in_def)
next
  case False
  obtain zs where w: "token st \<noteq> 0" "string_at m (token st) (hd ts)" "bytes_to m (token st) (hd ts @ zs) (str_end st)"
    using assms(2) False by (auto simp: strtok_at_def)
  let ?t = "token st + (of_nat (length (hd ts)) + 1)"
  have "unat (token st + of_nat (length (hd ts))) = unat (token st) + length (hd ts)" using bytes_to_shift(2) [OF w(3)] .
  moreover have "unat (token st) + length (hd ts) + 1 < 2 ^ 32" using w(3) by (simp add: bytes_to_def)
  ultimately have "unat (token st + of_nat (length (hd ts)) + 1) = unat (token st) + length (hd ts) + 1" by (simp add: unat_add_lem [THEN iffD1])
  then have "token st \<le> ?t" by (simp add: word_le_nat_alt add.assoc)
  then have "a \<le> ?t" using assms(3) w(1) by (auto simp: token_in_def)
  then show ?thesis using assms(1,3) w(1) order_trans [OF _ skip_zeros_ge]
    by (auto simp: strtok_def strlen_at [OF w(2)] token_in_def Let_def bind_eq_Some_conv split: if_splits)
qed

lemma token_string:
  assumes "strtok_at m st (w # ws)" "token_in a e st"
  shows "string_at m (token st) w" "a \<le> token st" "unat (token st) + length w \<le> unat e" "token st \<noteq> 0"
  using assms by (auto simp: strtok_at_def token_in_def bytes_to_def)

lemma pieces_set: "w \<in> set (pieces acc xs) \<Longrightarrow> set w \<subseteq> set acc \<union> set xs"
  by (induction acc xs rule: pieces.induct) (auto split: if_splits)

lemma tokens_set: "w \<in> set (tokens ds xs) \<Longrightarrow> set w \<subseteq> set xs \<union> {0}"
  using pieces_set [of w "[]"] by (fastforce simp: tokens_def cut_def)

section \<open>The command loop\<close>

lemma block_room:
  assumes "arena h e L s" "(p, k) \<in> L"
  shows "unat h + 12 \<le> p" "p + k \<le> unat h + e" "unat h + e < 2 ^ 32"
proof -
  obtain bs where "chain (umem (proc s)) (unat h) bs" "extent bs = e" "set (live (unat h) bs) = L" using assms(1) by (auto simp: arena_def)
  then show "unat h + 12 \<le> p" "p + k \<le> unat h + e" "unat h + e < 2 ^ 32"
    using live_above [of p k "unat h" bs] chain_extent assms(2) by auto
qed

lemma arena_payload:
  assumes "arena h e L s" "heap (proc s') = heap (proc s)"
    and "\<And>x. umem (proc s') x \<noteq> umem (proc s) x \<Longrightarrow> \<exists>(p, k) \<in> L. p \<le> unat x \<and> unat x < p + k"
  shows "arena h e L s'"
proof -
  obtain bs where bs: "heap (proc s) = h" "chain (umem (proc s)) (unat h) bs" "first_fit 400 bs \<noteq> None" "extent bs = e" "set (live (unat h) bs) = L"
    using assms(1) by (auto simp: arena_def)
  have "chain (umem (proc s')) (unat h) bs" by (rule chain_payload [OF bs(2)]) (use assms(3) bs(5) in blast)
  then show ?thesis using bs assms(2) by (auto simp: arena_def)
qed

lemma line_buffer:
  assumes "shell_ok lit h e L command s" "unat command \<le> unat x" "unat x < unat command + 100"
  shows "\<exists>(p, k) \<in> L. p \<le> unat x \<and> unat x < p + k" "in_use h e L x" "unat h + 12 \<le> unat command" "unat command + 100 < 2 ^ 32"
proof -
  obtain k where k: "100 \<le> k" "(unat command, k) \<in> L" "arena h e L s" using assms(1) by (auto simp: shell_ok_def)
  show l: "\<exists>(p, k) \<in> L. p \<le> unat x \<and> unat x < p + k" by (rule bexI [OF _ k(2)]) (use assms(2,3) k(1) in simp)
  then show "in_use h e L x" by (simp add: in_use_def)
  show "unat h + 12 \<le> unat command" "unat command + 100 < 2 ^ 32" using block_room [OF k(3,2)] k(1) by linarith+
qed

lemma shell_ok_printed: "shell_ok lit h e L c s \<Longrightarrow> printed h e L s out s' \<Longrightarrow> shell_ok lit h e L c s'"
  using literals_printed by (auto simp: shell_ok_def printed_def)

lemma say_literal:
  assumes "shell_ok lit h e L c s" "x \<in> set shell_literals" "0x25 \<notin> set (ascii x)"
  shows "\<exists>s'. say (lit x) [] s = Some (Ok s') \<and> printed h e L s (ascii x) s' \<and> shell_ok lit h e L c s'"
proof -
  have "arena h e L s" "literals_ok lit shell_literals h s" using assms(1) by (simp_all add: shell_ok_def)
  from say_plain [OF this(1) literal_in [OF this(2) assms(2)] assms(3)] show ?thesis using shell_ok_printed [OF assms(1)] by blast
qed

lemma strtok_at_same:
  assumes "strtok_at m st ts" "token_in a e st" "\<And>x. unat a \<le> unat x \<Longrightarrow> unat x \<le> unat e \<Longrightarrow> m' x = m x"
  shows "strtok_at m' st ts"
proof (cases "ts = []")
  case False
  then obtain zs where t: "token st \<noteq> 0" "string_at m (token st) (hd ts)" "bytes_to m (token st) (hd ts @ zs) (str_end st)" "pieces [] zs = tl ts"
    using assms(1) by (auto simp: strtok_at_def)
  have e: "str_end st = e" "unat a \<le> unat (token st)" using assms(2) t(1) by (simp_all add: token_in_def word_le_nat_alt)
  have len: "unat (token st) + length (hd ts @ zs) = unat e" using t(3) e by (simp add: bytes_to_def)
  have same: "m' (token st + of_nat i) = m (token st + of_nat i)" if "i \<le> length (hd ts @ zs)" for i
  proof (rule assms(3))
    have "unat (token st) + i < 2 ^ 32" using that len unat_u32_less [of e] by simp
    then have "unat (token st + of_nat i) = unat (token st) + i" by (subst unat_add_lem [THEN iffD1]) (auto simp: unat_of_nat take_bit_nat_eq_self)
    then show "unat a \<le> unat (token st + of_nat i)" "unat (token st + of_nat i) \<le> unat e" using e len that by linarith+
  qed
  have "m' e = m e" using e(2) len by (intro assms(3)) linarith+
  then have "bytes_to m' (token st) (hd ts @ zs) (str_end st)" using t(3) same e(1) by (simp add: bytes_to_def)
  moreover have "string_at m' (token st) (hd ts)" by (rule string_at_same [OF t(2)]) (use same in simp)
  ultimately show ?thesis using t False by (auto simp: strtok_at_def)
qed (use assms in \<open>simp add: strtok_at_def\<close>)

lemma words_left_printed:
  assumes ok: "shell_ok lit h e L command s" and w: "words_left command ts s" and p: "printed h e L s out s'"
  shows "words_left command ts s'"
proof -
  obtain E where E: "token_in command E (stok s)" "unat E < unat command + 100" using w by (auto simp: words_left_def)
  have "umem (proc s') x = umem (proc s) x" if "unat command \<le> unat x" "unat x \<le> unat E" for x
    using line_buffer(2) [OF ok that(1)] that(2) E(2) p by (simp add: printed_def)
  then have "strtok_at (umem (proc s')) (stok s) ts" using w E(1) by (auto simp: words_left_def intro: strtok_at_same)
  then show ?thesis using w p by (simp add: words_left_def printed_def)
qed

lemma first_word:
  assumes ok: "shell_ok lit h e L command s" and w: "words_left command (x # ts) s"
  shows "string_in h e L s (token (stok s)) x" "token (stok s) \<noteq> 0" "length x < 100"
proof -
  obtain E where E: "strtok_at (umem (proc s)) (stok s) (x # ts)" "token_in command E (stok s)" "unat E < unat command + 100"
    using w by (auto simp: words_left_def)
  note t = token_string [OF E(1,2)]
  have c: "unat command \<le> unat (token (stok s))" using t(2) by (simp add: word_le_nat_alt)
  then show "length x < 100" using t(3) E(3) by linarith
  have "in_use h e L (token (stok s) + of_nat i)" if "i \<le> length x" for i
  proof -
    have "unat (token (stok s)) + i < 2 ^ 32" using that t(3) unat_u32_less [of E] by simp
    then have "unat (token (stok s) + of_nat i) = unat (token (stok s)) + i" by (subst unat_add_lem [THEN iffD1]) (auto simp: unat_of_nat take_bit_nat_eq_self)
    then show ?thesis using line_buffer(2) [OF ok] that t(3) c E(3) by simp
  qed
  then show "string_in h e L s (token (stok s)) x" using t(1) by (simp add: string_in_def)
  show "token (stok s) \<noteq> 0" using t(4) .
qed

lemma next_word_step:
  assumes "words_left command ts s"
  shows "\<exists>st. next_token 0 delim s = Some (token st, s\<lparr>stok := st\<rparr>) \<and> words_left command (tl ts) (s\<lparr>stok := st\<rparr>)"
proof -
  obtain E where E: "strtok_at (umem (proc s)) (stok s) ts" "token_in command E (stok s)" "unat E < unat command + 100"
    using assms by (auto simp: words_left_def)
  obtain st where st: "strtok 0 delim (stok s) (umem (proc s)) = Some (token st, st, umem (proc s))" "strtok_at (umem (proc s)) st (tl ts)"
    using strtok_next [OF E(1)] by blast
  have "token_in command E st" using strtok_next_in [OF st(1) E(1,2)] .
  then have "words_left command (tl ts) (s\<lparr>stok := st\<rparr>)" using st(2) E(3) by (auto simp: words_left_def)
  moreover have "next_token 0 delim s = Some (token st, s\<lparr>stok := st\<rparr>)" by (simp add: next_token_def st(1))
  ultimately show ?thesis by blast
qed

lemma shell_ok_stok [simp]: "shell_ok lit h e L c (s\<lparr>stok := st\<rparr>) = shell_ok lit h e L c s"
  by (simp add: shell_ok_def arena_def literals_ok_def)

lemma shown_stok [simp]: "shown (s\<lparr>stok := st\<rparr>) = shown s"
  by (simp add: shown_def)

lemma literal_text: "'' '' \<in> set shell_literals" "nl \<in> set shell_literals" "''shell>'' \<in> set shell_literals" "''echo'' \<in> set shell_literals"
  "ascii '' '' = [0x20]" "ascii nl = [0x0A]" "0x25 \<notin> set (ascii ''shell>'')"
  by (simp_all add: shell_literals_def ascii_def nl_def)

lemma echo_loop_prints:
  "shell_ok lit h e L command s \<Longrightarrow> words_left command ts s \<Longrightarrow> list_all (\<lambda>w. 0x25 \<notin> set w) ts \<Longrightarrow>
   \<exists>s'. echo_loop lit (token (stok s)) s = Some (Ok s') \<and> shell_ok lit h e L command s' \<and> shown s' = shown s @ concat (map (\<lambda>w. w @ [0x20]) ts)"
proof (induction ts arbitrary: s)
  case Nil
  then have "token (stok s) = 0" by (simp add: words_left_def strtok_at_def)
  then show ?case using Nil by (subst echo_loop.simps) simp
next
  case (Cons w ts)
  have a: "arena h e L s" using Cons.prems(1) by (simp add: shell_ok_def)
  note f = first_word [OF Cons.prems(1,2)]
  obtain s1 where s1: "say (token (stok s)) [] s = Some (Ok s1)" "printed h e L s w s1" using say_plain [OF a f(1)] Cons.prems(3) by auto
  have ok1: "shell_ok lit h e L command s1" using shell_ok_printed [OF Cons.prems(1) s1(2)] .
  obtain s2 where s2: "say (lit '' '') [] s1 = Some (Ok s2)" "printed h e L s1 [0x20] s2" "shell_ok lit h e L command s2"
    using say_literal [OF ok1 literal_text(1)] by (auto simp: literal_text)
  have p: "printed h e L s (w @ [0x20]) s2" using printed_trans [OF s1(2) s2(2)] .
  obtain st where st: "next_token 0 (lit '' '') s2 = Some (token st, s2\<lparr>stok := st\<rparr>)" "words_left command ts (s2\<lparr>stok := st\<rparr>)"
    using next_word_step [OF words_left_printed [OF Cons.prems(1,2) p], of "lit '' ''"] by auto
  obtain s' where s': "echo_loop lit (token st) (s2\<lparr>stok := st\<rparr>) = Some (Ok s')" "shell_ok lit h e L command s'"
    "shown s' = shown s2 @ concat (map (\<lambda>w. w @ [0x20]) ts)"
    using Cons.IH [OF _ st(2)] s2(3) Cons.prems(3) by auto
  have "echo_loop lit (token (stok s)) s = Some (Ok s')"
    by (subst echo_loop.simps) (simp add: f(2) s1(1) s2(1) st(1) s'(1))
  moreover have "shown s2 = shown s @ w @ [0x20]" using p by (simp add: printed_def)
  ultimately show ?case using s'(2,3) by simp
qed

lemma echo_prints:
  assumes "shell_ok lit h e L command s" "words_left command (w # ts) s" "list_all (\<lambda>w. 0x25 \<notin> set w) ts"
  shows "\<exists>s'. echo lit s = Some (Ok s') \<and> shell_ok lit h e L command s' \<and> shown s' = shown s @ concat (map (\<lambda>w. w @ [0x20]) ts) @ [0x0A]"
proof -
  obtain st where st: "next_token 0 (lit '' '') s = Some (token st, s\<lparr>stok := st\<rparr>)" "words_left command ts (s\<lparr>stok := st\<rparr>)"
    using next_word_step [OF assms(2), of "lit '' ''"] by auto
  obtain s1 where s1: "echo_loop lit (token st) (s\<lparr>stok := st\<rparr>) = Some (Ok s1)" "shell_ok lit h e L command s1"
    "shown s1 = shown s @ concat (map (\<lambda>w. w @ [0x20]) ts)"
    using echo_loop_prints [OF _ st(2) assms(3), of lit h e L] assms(1) by auto
  obtain s2 where s2: "say (lit nl) [] s1 = Some (Ok s2)" "printed h e L s1 [0x0A] s2" "shell_ok lit h e L command s2"
    using say_literal [OF s1(2) literal_text(2)] by (auto simp: literal_text)
  show ?thesis using s1 s2 st(1) by (auto simp: echo_def printed_def)
qed

text \<open>The line arrives in the buffer and is cut into words.\<close>

lemma fold_bytes:
  fixes a x :: u32
  assumes "n \<le> 2 ^ 32"
  shows "fold (\<lambda>i m. m(a + of_nat i := f i)) [0..<n] m x = (if unat (x - a) < n then f (unat (x - a)) else m x)"
  using assms
proof (induction n)
  case (Suc n)
  have "x = a + of_nat n \<longleftrightarrow> unat (x - a) = n"
  proof
    assume "x = a + of_nat n"
    then show "unat (x - a) = n" using Suc.prems by (simp add: unat_of_nat take_bit_nat_eq_self)
  qed auto
  then show ?case using Suc by (auto simp: less_Suc_eq)
qed simp

lemma shell_ok_line:
  assumes ok: "shell_ok lit h e L command s" and h: "heap (proc s') = heap (proc s)"
    and m: "\<And>x. umem (proc s') x \<noteq> umem (proc s) x \<Longrightarrow> unat command \<le> unat x \<and> unat x < unat command + 100"
  shows "shell_ok lit h e L command s'"
proof -
  have a: "arena h e L s" and l: "literals_ok lit shell_literals h s" using ok by (simp_all add: shell_ok_def)
  have c: "unat h + 12 \<le> unat command" using line_buffer(3) [OF ok, of command] by simp
  have "arena h e L s'" by (rule arena_payload [OF a h]) (use m line_buffer(1) [OF ok] in blast)
  moreover have "literals_ok lit shell_literals h s'" by (rule literals_below [OF l]) (use m c in force)
  ultimately show ?thesis using ok by (simp add: shell_ok_def)
qed

lemma line_offset:
  assumes "shell_ok lit h e L command s" "i < 100"
  shows "unat (command + of_nat i) = unat command + i"
proof -
  have "unat command + 100 < 2 ^ 32" using line_buffer(4) [OF assms(1), of command] by simp
  then show ?thesis using assms(2) by (subst unat_add_lem [THEN iffD1]) (auto simp: unat_of_nat take_bit_nat_eq_self)
qed

lemma read_line:
  assumes ok: "shell_ok lit h e L command s" and l: "0 \<notin> set l" "length l < 100"
  shows "shell_ok lit h e L command (read_bytes fd command n (l @ [0]) s) \<and> shown (read_bytes fd command n (l @ [0]) s) = shown s
    \<and> string_at (umem (proc (read_bytes fd command n (l @ [0]) s))) command l"
proof -
  let ?s = "read_bytes fd command n (l @ [0]) s"
  have m: "umem (proc ?s) x = (if unat (x - command) < length l + 1 then (l @ [0]) ! unat (x - command) else umem (proc s) x)" for x
    using fold_bytes [of "length l + 1" command "\<lambda>i. (l @ [0]) ! i" "umem (proc s)" x] l(2) by (simp add: read_bytes_def sys_def Let_def)
  have "shell_ok lit h e L command ?s"
  proof (rule shell_ok_line [OF ok])
    show "heap (proc ?s) = heap (proc s)" by (simp add: read_bytes_def sys_def Let_def)
    fix x assume "umem (proc ?s) x \<noteq> umem (proc s) x"
    then have "unat (x - command) < length l + 1" unfolding m by presburger
    then have i: "unat (x - command) < 100" using l(2) by linarith
    have "command + of_nat (unat (x - command)) = x" by simp
    then show "unat command \<le> unat x \<and> unat x < unat command + 100" using line_offset [OF ok i] i by simp
  qed
  moreover have "string_at (umem (proc ?s)) command l"
  proof -
    have u: "unat (command + of_nat i - command) = i" if "i \<le> length l" for i using that l(2) by (simp add: unat_of_nat take_bit_nat_eq_self)
    have "umem (proc ?s) (command + of_nat i) = (l @ [0]) ! i" if "i \<le> length l" for i using that by (simp only: m u) simp
    moreover have "unat command + 100 < 2 ^ 32" using line_buffer(4) [OF ok, of command] by simp
    ultimately show ?thesis using l by (simp add: string_at_def nth_append)
  qed
  ultimately show ?thesis by (simp add: shown_def read_bytes_def sys_def Let_def)
qed

lemma cut_line:
  assumes ok: "shell_ok lit h e L command s" and l: "string_at (umem (proc s)) command l" "length l < 100"
  shows "\<exists>s'. next_token command (lit '' '') s = Some (token (stok s'), s') \<and> shell_ok lit h e L command s' \<and> shown s' = shown s
    \<and> words_left command (tokens [0x20] l) s'"
proof -
  let ?m = "umem (proc s)"
  have d: "string_at ?m (lit '' '') [0x20]" "unat (lit '' '') + 1 < unat h"
    using ok by (simp_all add: shell_ok_def literals_ok_def shell_literals_def ascii_def)
  note c = line_buffer(3,4) [OF ok, of command, simplified]
  have nz: "command \<noteq> 0" using c(1) by auto
  have sep: "command + of_nat k \<noteq> lit '' '' + of_nat i" if "i \<le> length [0x20 :: u8]" "k < length l" for i k
  proof -
    have "unat (lit '' '' + of_nat i) = unat (lit '' '') + i"
      using that(1) d(2) unat_u32_less [of h] by (subst unat_add_lem [THEN iffD1]) (auto simp: unat_of_nat take_bit_nat_eq_self)
    moreover have "unat (command + of_nat k) = unat command + k" using that(2) l(2) by (intro line_offset [OF ok]) simp
    ultimately have "unat (lit '' '' + of_nat i) < unat (command + of_nat k)" using c(1) d(2) that(1) by simp
    then show ?thesis by auto
  qed
  have one: "length [0x20 :: u8] < 256" by simp
  have room: "unat command + length l + 1 < 2 ^ 32" using c(2) l(2) by simp
  obtain st m' where st: "strtok command (lit '' '') (stok s) ?m = Some (token st, st, m')" "strtok_at m' st (tokens [0x20] l)"
    "\<And>x. (\<forall>i < length l. x \<noteq> command + of_nat i) \<Longrightarrow> m' x = ?m x"
    using strtok_first [OF l(1) nz room d(1) one sep, of "stok s"] by blast
  let ?s = "s\<lparr>proc := (proc s)\<lparr>umem := m'\<rparr>, stok := st\<rparr>"
  have "shell_ok lit h e L command ?s"
  proof (rule shell_ok_line [OF ok])
    fix x assume "umem (proc ?s) x \<noteq> umem (proc s) x"
    then obtain i where "i < length l" "x = command + of_nat i" using st(3) [of x] by auto
    then show "unat command \<le> unat x \<and> unat x < unat command + 100" using line_offset [OF ok, of i] l(2) by simp
  qed simp
  moreover have "words_left command (tokens [0x20] l) ?s"
  proof -
    have "token_in command (command + of_nat (length l)) st" using strtok_first_in [OF st(1) nz l(1)] .
    moreover have "unat (command + of_nat (length l)) < unat command + 100" using line_offset [OF ok l(2)] l(2) by simp
    ultimately show ?thesis using st(2) by (auto simp: words_left_def)
  qed
  moreover have "next_token command (lit '' '') s = Some (token (stok ?s), ?s)" by (simp add: next_token_def st(1))
  ultimately show ?thesis by (intro exI [of _ ?s]) (simp add: shown_def)
qed

lemma unrecognized_format:
  "format (\<lambda>_. w) (ascii (''unrecognized command '' @ [CHR 0x22] @ ''%s'' @ [CHR 0x22] @ nl)) [t]
     = Some (ascii ''unrecognized command '' @ [0x22] @ w @ [0x22, 0x0A])"
  "str_args (ascii (''unrecognized command '' @ [CHR 0x22] @ ''%s'' @ [CHR 0x22] @ nl)) [t] = [t]"
  by (simp_all add: ascii_def nl_def takes_arg_def conv_text_def)

lemma word_is_echo:
  assumes "shell_ok lit h e L command s" "words_left command (w # ws) s"
  shows "strcmp (umem (proc s)) (token (stok s)) (lit ''echo'') = Some (if w = ascii ''echo'' then 0 else 1)"
proof -
  note f = first_word [OF assms]
  have "string_at (umem (proc s)) (lit ''echo'') (ascii ''echo'')" using assms(1) by (simp add: shell_ok_def literals_ok_def shell_literals_def)
  then show ?thesis
    using strcmp_loop_at [of "umem (proc s)" "token (stok s)" w "lit ''echo''" "ascii ''echo''" 0] f(1,3)
    by (simp add: strcmp_def string_in_def) (simp add: ascii_def)
qed

lemma round_answers:
  assumes ok: "shell_ok lit h e L command s" and l: "0 \<notin> set l" "0x25 \<notin> set l" "length l < 100"
  shows "\<exists>s'. shell_round lit command (l @ [0]) s = Some (Ok s') \<and> shell_ok lit h e L command s'
    \<and> shown s' = shown s @ ascii ''shell>'' @ reply (tokens [0x20] l)"
proof -
  obtain s1 where s1: "say (lit ''shell>'') [] s = Some (Ok s1)" "printed h e L s (ascii ''shell>'') s1" "shell_ok lit h e L command s1"
    using say_literal [OF ok literal_text(3,7)] by blast
  let ?s2 = "read_bytes 0 command 100 (l @ [0]) s1"
  have s2: "shell_ok lit h e L command ?s2" "shown ?s2 = shown s @ ascii ''shell>''" "string_at (umem (proc ?s2)) command l"
    using read_line [OF s1(3) l(1,3), of 0 100] s1(2) by (simp_all add: printed_def)
  obtain s3 where s3: "next_token command (lit '' '') ?s2 = Some (token (stok s3), s3)" "shell_ok lit h e L command s3"
    "shown s3 = shown s @ ascii ''shell>''" "words_left command (tokens [0x20] l) s3"
    using cut_line [OF s2(1,3) l(3)] s2(2) by auto
  let ?rest = "if token (stok s3) = 0 then Some (Ok s3)
       else Option.bind (strcmp (umem (proc s3)) (token (stok s3)) (lit ''echo'')) (\<lambda>r.
         if r = 0 then echo lit s3
         else say (lit (''unrecognized command '' @ [CHR 0x22] @ ''%s'' @ [CHR 0x22] @ nl)) [token (stok s3)] s3)"
  have r: "shell_round lit command (l @ [0]) s = ?rest" by (simp add: shell_round_def s1(1) s3(1) Let_def)
  have "\<exists>s'. ?rest = Some (Ok s') \<and> shell_ok lit h e L command s' \<and> shown s' = shown s3 @ reply (tokens [0x20] l)"
  proof (cases "tokens [0x20] l")
    case Nil
    then have "token (stok s3) = 0" using s3(4) by (simp add: words_left_def strtok_at_def)
    then show ?thesis using s3(2) Nil by simp
  next
    case (Cons w ws)
    note f = first_word [OF s3(2) s3(4) [unfolded Cons]]
    note c = word_is_echo [OF s3(2) s3(4) [unfolded Cons]]
    have p: "list_all (\<lambda>w. 0x25 \<notin> set w) ws" using tokens_set [of _ "[0x20]" l] l(2) by (fastforce simp: Cons list_all_iff)
    show ?thesis
    proof (cases "w = ascii ''echo''")
      case True
      then show ?thesis using echo_prints [OF s3(2) s3(4) [unfolded Cons] p] f(2) c Cons by auto
    next
      case False
      have a: "arena h e L s3" and i: "literals_ok lit shell_literals h s3" using s3(2) by (simp_all add: shell_ok_def)
      have x: "''unrecognized command '' @ [CHR 0x22] @ ''%s'' @ [CHR 0x22] @ nl \<in> set shell_literals" by (simp add: shell_literals_def)
      obtain s' where s': "say (lit (''unrecognized command '' @ [CHR 0x22] @ ''%s'' @ [CHR 0x22] @ nl)) [token (stok s3)] s3 = Some (Ok s')"
        "printed h e L s3 (ascii ''unrecognized command '' @ [0x22] @ w @ [0x22, 0x0A]) s'"
        using say_printed [OF a literal_in [OF i x] unrecognized_format(1)] f(1) unfolding unrecognized_format(2) by auto
      then show ?thesis using shell_ok_printed [OF s3(2) s'(2)] f(2) c False Cons by (simp add: printed_def)
    qed
  qed
  then show ?thesis unfolding r s3(3) by simp
qed

lemma loop_answers:
  assumes "\<And>l. l \<in> set lines \<Longrightarrow> 0 \<notin> set l \<and> 0x25 \<notin> set l \<and> length l < 100"
  shows "shell_ok lit h e L command s \<Longrightarrow> \<exists>s'. shell_loop lit command (map (\<lambda>l. l @ [0]) lines) s = Some (Ok s')
    \<and> shell_ok lit h e L command s' \<and> shown s' = shown s @ answers lines"
  using assms
proof (induction lines arbitrary: s)
  case (Cons l lines)
  obtain s1 where s1: "shell_round lit command (l @ [0]) s = Some (Ok s1)" "shell_ok lit h e L command s1"
    "shown s1 = shown s @ ascii ''shell>'' @ reply (tokens [0x20] l)"
    using round_answers [OF Cons.prems(1), of l] Cons.prems(2) [of l] by auto
  from Cons.IH [OF s1(2)] Cons.prems(2) show ?case using s1(1,3) by (auto simp: answers_def)
qed (simp add: answers_def)

section \<open>The start of the shell\<close>

lemma say_format:
  assumes "shell_ok lit h e L c s" "x \<in> set shell_literals" "format str (ascii x) args = Some out"
    and "\<And>v. v \<in> set (str_args (ascii x) args) \<Longrightarrow> string_in h e L s v (str v)"
  shows "\<exists>s'. say (lit x) args s = Some (Ok s') \<and> printed h e L s out s' \<and> shell_ok lit h e L c s'"
proof -
  have "arena h e L s" "literals_ok lit shell_literals h s" using assms(1) by (simp_all add: shell_ok_def)
  from say_printed [OF this(1) literal_in [OF this(2) assms(2)] assms(3,4)] show ?thesis using shell_ok_printed [OF assms(1)] by blast
qed

lemma ascii_append [simp]: "ascii (x @ y) = ascii x @ ascii y"
  by (simp add: ascii_def)

lemma banner_formats:
  "format (\<lambda>_. w) (ascii (''The written string was: %s'' @ nl)) [t] = Some (ascii ''The written string was: '' @ w @ [0x0A])"
  "format (\<lambda>_. w) (ascii (''PRINTF TEST'' @ nl)) [] = Some (ascii (''PRINTF TEST'' @ nl))"
  "format (\<lambda>_. w) (ascii (''capital hex: %X'' @ nl)) [0x1234abcd] = Some (ascii (''capital hex: 0x1234ABCD'' @ nl))"
  "format (\<lambda>_. w) (ascii (''lowercase hex: %x'' @ nl)) [0xabcd1234] = Some (ascii (''lowercase hex: 0xabcd1234'' @ nl))"
  "format (\<lambda>_. w) (ascii (''unsigned decimal: %u'' @ nl)) [123456789] = Some (ascii (''unsigned decimal: 123456789'' @ nl))"
  "format (\<lambda>_. w) (ascii (''character: %c'' @ nl)) [0x23] = Some (ascii (''character: #'' @ nl))"
  "format (\<lambda>_. w) (ascii (''string: %s'' @ nl @ nl)) [t] = Some (ascii ''string: '' @ w @ [0x0A, 0x0A])"
  by (simp_all add: ascii_def nl_def takes_arg_def conv_text_def hexadecimal_def hex_byte_def nibble_def decimal.simps)

lemma banner_args:
  "str_args (ascii (''The written string was: %s'' @ nl)) [t] = [t]" "str_args (ascii (''PRINTF TEST'' @ nl)) [] = []"
  "str_args (ascii (''capital hex: %X'' @ nl)) [v] = []" "str_args (ascii (''lowercase hex: %x'' @ nl)) [v] = []"
  "str_args (ascii (''unsigned decimal: %u'' @ nl)) [v] = []" "str_args (ascii (''character: %c'' @ nl)) [v] = []"
  "str_args (ascii (''string: %s'' @ nl @ nl)) [t] = [t]"
  by (simp_all add: ascii_def nl_def takes_arg_def)

lemma with_proc_sys [simp]:
  "shell_ok lit h e L c (with_proc (sys x) s) = shell_ok lit h e L c s" "shown (with_proc (sys x) s) = shown s @ written x"
  by (simp_all add: with_proc_def sys_def shell_ok_def arena_def literals_ok_def shown_def)

text \<open>The line buffer on a fresh heap.\<close>

lemma fresh_buffer:
  assumes h: "heap (proc s) = h" and c: "chain (umem (proc s)) (unat h) [(40960, False)]" and l: "literals_ok lit shell_literals h s"
  shows "\<exists>p. malloc 100 (proc s) = Some (Ok (h + 12, p)) \<and> shell_ok lit h 40972 {(unat h + 12, 100)} (h + 12) (s\<lparr>proc := p\<rparr>)
    \<and> shown (s\<lparr>proc := p\<rparr>) = shown s"
proof -
  have r: "first_fit (4 * ((unat (100 :: u32) + 3) div 4)) [(40960, False)] = Some (12, [(100, True), (40848, False)])" by simp
  have big: "4 < unat (100 :: u32)" "unat (100 :: u32) + 4 \<le> 2 ^ 32" by simp_all
  obtain m where m: "malloc 100 (proc s) = Some (Ok (h + 12, (proc s)\<lparr>umem := m\<rparr>))" "chain m (unat h) [(100, True), (40848, False)]"
    "\<forall>x. unat x < unat h \<longrightarrow> m x = umem (proc s) x"
    using malloc_result [OF c [folded h] big r] unfolding h by auto
  let ?s = "s\<lparr>proc := (proc s)\<lparr>umem := m\<rparr>\<rparr>"
  have "arena h 40972 {(unat h + 12, 100)} ?s"
    using m(2) h by (auto simp: arena_def intro!: exI [of _ "[(100, True), (40848, False)]"])
  moreover have "literals_ok lit shell_literals h ?s" using m(3) by (intro literals_below [OF l]) simp
  moreover have "unat (h + 12) = unat h + 12" using chain_extent [OF c] by (subst unat_add_lem [THEN iffD1]) simp_all
  ultimately show ?thesis using m(1) by (auto simp: shell_ok_def shown_def)
qed

lemma banner_literals:
  "''The written string was: %s'' @ nl \<in> set shell_literals" "''PRINTF TEST'' @ nl \<in> set shell_literals" "''capital hex: %X'' @ nl \<in> set shell_literals"
  "''lowercase hex: %x'' @ nl \<in> set shell_literals" "''unsigned decimal: %u'' @ nl \<in> set shell_literals" "''character: %c'' @ nl \<in> set shell_literals"
  "''string: %s'' @ nl @ nl \<in> set shell_literals" "''wooyeah'' \<in> set shell_literals" "''I am the child of a fork'' \<in> set shell_literals"
  "''I am the parent and I am still a shell'' @ nl \<in> set shell_literals"
  by (simp_all add: shell_literals_def)

text \<open>Everything up to \<^verbatim>\<open>fork\<close>, and the two ways on.\<close>

lemma begin_prints:
  assumes h: "heap (proc s) = h" and c: "chain (umem (proc s)) (unat h) [(40960, False)]" and l: "literals_ok lit shell_literals h s"
    and fd1: "file \<noteq> 1"
  shows "\<exists>s'. shell_ok lit h 40972 {(unat h + 12, 100)} (h + 12) s' \<and> shown s' = shown s @ banner
    \<and> shell_begin lit file (ascii ''YO HELLO'' @ [0]) pid s =
      (if pid = 0 then bind_run (say (lit ''I am the child of a fork'') [] s') (\<lambda>s. Some (Ok (Replaced (with_proc (sys (Exec (ascii ''/mnt/ls.bin''))) s))))
       else bind_run (say (lit (''I am the parent and I am still a shell'' @ nl)) [] s') (\<lambda>s. Some (Ok (Running (h + 12) s))))"
proof -
  let ?L = "{(unat h + 12, 100 :: nat)}" and ?cmd = "h + 12" and ?yo = "ascii ''YO HELLO''"
  let ?ok = "shell_ok lit h 40972 ?L ?cmd" and ?pr = "printed h 40972 ?L"
  obtain p where p: "malloc 100 (proc s) = Some (Ok (?cmd, p))" "?ok (s\<lparr>proc := p\<rparr>)" "shown (s\<lparr>proc := p\<rparr>) = shown s"
    using fresh_buffer [OF h c l] by blast
  let ?s0 = "with_proc (sys (Write file (?yo @ [0]) 9)) (with_proc (sys (Open (ascii ''/file'') 0x3)) (s\<lparr>proc := p\<rparr>))"
  have s0: "?ok ?s0" "shown ?s0 = shown s" using p(2,3) fd1 by simp_all
  have yo: "0 \<notin> set ?yo" "length ?yo < 100" by (simp_all add: ascii_def)
  let ?s1 = "read_bytes (ucast file) ?cmd 9 (?yo @ [0]) ?s0"
  note s1 = read_line [OF s0(1) yo, of "ucast file" 9]
  have ok1: "?ok ?s1" using s1 by blast
  have y: "string_in h 40972 ?L ?s1 ?cmd ?yo"
  proof -
    have "in_use h 40972 ?L (?cmd + of_nat i)" if "i \<le> length ?yo" for i
      using line_offset [OF ok1, of i] that yo(2) by (intro line_buffer(2) [OF ok1]) simp_all
    then show ?thesis using s1 by (simp add: string_in_def)
  qed
  obtain s2 where s2: "say (lit (''The written string was: %s'' @ nl)) [?cmd] ?s1 = Some (Ok s2)"
    "?pr ?s1 (ascii ''The written string was: '' @ ?yo @ [0x0A]) s2" "?ok s2"
    using say_format [OF ok1 banner_literals(1) banner_formats(1) [of ?yo]] y unfolding banner_args by auto
  obtain s3 where s3: "say (lit (''PRINTF TEST'' @ nl)) [] s2 = Some (Ok s3)" "?pr s2 (ascii (''PRINTF TEST'' @ nl)) s3" "?ok s3"
    using say_format [OF s2(3) banner_literals(2) banner_formats(2)] unfolding banner_args by auto
  obtain s4 where s4: "say (lit (''capital hex: %X'' @ nl)) [0x1234abcd] s3 = Some (Ok s4)" "?pr s3 (ascii (''capital hex: 0x1234ABCD'' @ nl)) s4" "?ok s4"
    using say_format [OF s3(3) banner_literals(3) banner_formats(3)] unfolding banner_args by auto
  obtain s5 where s5: "say (lit (''lowercase hex: %x'' @ nl)) [0xabcd1234] s4 = Some (Ok s5)" "?pr s4 (ascii (''lowercase hex: 0xabcd1234'' @ nl)) s5" "?ok s5"
    using say_format [OF s4(3) banner_literals(4) banner_formats(4)] unfolding banner_args by auto
  obtain s6 where s6: "say (lit (''unsigned decimal: %u'' @ nl)) [123456789] s5 = Some (Ok s6)" "?pr s5 (ascii (''unsigned decimal: 123456789'' @ nl)) s6" "?ok s6"
    using say_format [OF s5(3) banner_literals(5) banner_formats(5)] unfolding banner_args by auto
  obtain s7 where s7: "say (lit (''character: %c'' @ nl)) [0x23] s6 = Some (Ok s7)" "?pr s6 (ascii (''character: #'' @ nl)) s7" "?ok s7"
    using say_format [OF s6(3) banner_literals(6) banner_formats(6)] unfolding banner_args by auto
  have w: "string_in h 40972 ?L s7 (lit ''wooyeah'') (ascii ''wooyeah'')"
    using s7(3) by (intro literal_in [OF _ banner_literals(8)]) (simp add: shell_ok_def)
  obtain s8 where s8: "say (lit (''string: %s'' @ nl @ nl)) [lit ''wooyeah''] s7 = Some (Ok s8)" "?pr s7 (ascii ''string: '' @ ascii ''wooyeah'' @ [0x0A, 0x0A]) s8" "?ok s8"
    using say_format [OF s7(3) banner_literals(7) banner_formats(7) [of "ascii ''wooyeah''"]] w unfolding banner_args by auto
  let ?s9 = "with_proc (sys Fork) s8"
  have "shown s8 = shown s @ banner"
    using s1 s0(2) s2(2) s3(2) s4(2) s5(2) s6(2) s7(2) s8(2) by (simp add: printed_def banner_def) (simp add: ascii_def nl_def)
  then have "?ok ?s9" "shown ?s9 = shown s @ banner" using s8(3) by simp_all
  then show ?thesis
    by (intro exI [of _ ?s9] conjI)
       (assumption | simp only: shell_begin_def p(1) bind_run_simps prod.case Let_def s2(1) s3(1) s4(1) s5(1) s6(1) s7(1) s8(1))+
qed

lemma main_session:
  assumes "heap (proc s) = h" "chain (umem (proc s)) (unat h) [(40960, False)]" "literals_ok lit shell_literals h s" "file \<noteq> 1"
    and lines: "\<And>l. l \<in> set lines \<Longrightarrow> 0 \<notin> set l \<and> 0x25 \<notin> set l \<and> length l < 100"
  shows "\<exists>s'. shell_main lit file (ascii ''YO HELLO'' @ [0]) pid (map (\<lambda>l. l @ [0]) lines) s = Some (Ok s')
    \<and> shown s' = shown s @ banner @
      (if pid = 0 then ascii ''I am the child of a fork'' else ascii (''I am the parent and I am still a shell'' @ nl) @ answers lines)
    \<and> (pid = 0 \<longrightarrow> last (calls (proc s')) = Exec (ascii ''/mnt/ls.bin''))"
proof -
  let ?L = "{(unat h + 12, 100 :: nat)}"
  obtain s1 where s1: "shell_ok lit h 40972 ?L (h + 12) s1" "shown s1 = shown s @ banner"
    "shell_begin lit file (ascii ''YO HELLO'' @ [0]) pid s =
      (if pid = 0 then bind_run (say (lit ''I am the child of a fork'') [] s1) (\<lambda>s. Some (Ok (Replaced (with_proc (sys (Exec (ascii ''/mnt/ls.bin''))) s))))
       else bind_run (say (lit (''I am the parent and I am still a shell'' @ nl)) [] s1) (\<lambda>s. Some (Ok (Running (h + 12) s))))"
    using begin_prints [OF assms(1-4)] by blast
  have t: "0x25 \<notin> set (ascii ''I am the child of a fork'')" "0x25 \<notin> set (ascii (''I am the parent and I am still a shell'' @ nl))"
    by (simp_all add: ascii_def nl_def)
  show ?thesis
  proof (cases "pid = 0")
    case True
    obtain s2 where s2: "say (lit ''I am the child of a fork'') [] s1 = Some (Ok s2)" "printed h 40972 ?L s1 (ascii ''I am the child of a fork'') s2"
      using say_literal [OF s1(1) banner_literals(9) t(1)] by blast
    then show ?thesis using True s1(2,3) by (simp add: shell_main_def printed_def) (simp add: with_proc_def sys_def)
  next
    case False
    obtain s2 where s2: "say (lit (''I am the parent and I am still a shell'' @ nl)) [] s1 = Some (Ok s2)"
      "printed h 40972 ?L s1 (ascii (''I am the parent and I am still a shell'' @ nl)) s2" "shell_ok lit h 40972 ?L (h + 12) s2"
      using say_literal [OF s1(1) banner_literals(10) t(2)] by blast
    then show ?thesis using False s1(2,3) loop_answers [OF lines s2(3)] by (auto simp: shell_main_def printed_def)
  qed
qed

section \<open>Conversions without arguments\<close>

lemma convert_missing: "takes_arg c \<Longrightarrow> convert F c [] s = Some (Halt (Undefined ''va_arg''))"
  by (auto simp: takes_arg_def convert_def)

lemma say_missing:
  assumes a: "arena h e L s" and w: "string_in h e L s S (0x25 # c # xs)" and c: "takes_arg c"
  shows "say S [] s = Some (Halt (Undefined ''va_arg''))"
proof -
  obtain bs where h: "heap (proc s) = h" and bs: "chain (umem (proc s)) (unat (heap (proc s))) bs" "first_fit 400 bs \<noteq> None" "extent bs = e"
    "set (live (unat h) bs) = L" using a by (auto simp: arena_def)
  obtain off bs' where r: "first_fit (4 * ((unat (400 :: u32) + 3) div 4)) bs = Some (off, bs')" using bs(2) by auto
  have big: "4 < unat (400 :: u32)" "unat (400 :: u32) + 4 \<le> 2 ^ 32" by simp_all
  obtain F m where m: "malloc 400 (proc s) = Some (Ok (F, (proc s)\<lparr>umem := m\<rparr>))" "\<And>x. in_use h e L x \<Longrightarrow> m x = umem (proc s) x"
    using malloc_result [OF bs(1) big r] unfolding h bs(3,4) in_use_def by blast
  have u: "in_use h e L (S + of_nat 0)" "in_use h e L (S + of_nat 1)" using w by (auto simp: string_in_def simp del: of_nat_0 of_nat_1)
  have v: "umem (proc s) (S + of_nat 0) = 0x25" "umem (proc s) (S + of_nat 1) = c"
    using w string_at_nonzero [of "umem (proc s)" S "0x25 # c # xs" 0] string_at_nonzero [of "umem (proc s)" S "0x25 # c # xs" 1]
    by (simp_all add: string_in_def)
  have m01: "m S = 0x25" "m (S + 1) = c" using u v m(2) by auto
  let ?p = "(proc s)\<lparr>umem := m\<rparr>"
  have ws: "write_str S (poke S 0 ?p) = Some (sys (W []) (poke S 0 ?p))" by (rule write_str_text) (simp add: poke_def)
  have at: "umem (poke S 0x25 (sys (W []) (poke S 0 ?p))) (S + 1) = c" using m01(2) by (simp add: poke_def sys_def)
  have "printf_loop F S S 0 [] ?p = Some (Halt (Undefined ''va_arg''))"
    by (subst printf_loop.simps) (simp add: m01(1) ws at convert_missing [OF c] Let_def)
  then show ?thesis by (simp add: say_def printf_def m(1))
qed

lemma echo_missing:
  assumes ok: "shell_ok lit h e L command s" and w: "words_left command (x # (0x25 # c # y) # ts) s" and c: "takes_arg c"
  shows "echo lit s = Some (Halt (Undefined ''va_arg''))"
proof -
  obtain st where st: "next_token 0 (lit '' '') s = Some (token st, s\<lparr>stok := st\<rparr>)" "words_left command ((0x25 # c # y) # ts) (s\<lparr>stok := st\<rparr>)"
    using next_word_step [OF w, of "lit '' ''"] by auto
  have ok': "shell_ok lit h e L command (s\<lparr>stok := st\<rparr>)" using ok by simp
  then have a: "arena h e L (s\<lparr>stok := st\<rparr>)" by (simp only: shell_ok_def)
  note f = first_word [OF ok' st(2)]
  have "echo_loop lit (token st) (s\<lparr>stok := st\<rparr>) = Some (Halt (Undefined ''va_arg''))"
    using say_missing [OF a f(1) c] f(2) by (subst echo_loop.simps) simp
  then show ?thesis by (simp add: echo_def st(1))
qed

section \<open>The other program\<close>

lemma ls_main_shows:
  assumes "arena h e L s" "literals_ok lit [''I did an exec and now I am ls'' @ nl, ''one day I will list directory contents'' @ nl] h s"
  shows "\<exists>s'. ls_main lit s = Some (Ok s')
    \<and> shown s' = shown s @ ascii (''I did an exec and now I am ls'' @ nl @ ''one day I will list directory contents'' @ nl)"
proof -
  have t: "0x25 \<notin> set (ascii (''I did an exec and now I am ls'' @ nl))" "0x25 \<notin> set (ascii (''one day I will list directory contents'' @ nl))"
    by (simp_all add: ascii_def nl_def)
  obtain s1 where s1: "say (lit (''I did an exec and now I am ls'' @ nl)) [] s = Some (Ok s1)"
    "printed h e L s (ascii (''I did an exec and now I am ls'' @ nl)) s1"
    using say_plain [OF assms(1) literal_in [OF assms(2)] t(1)] by auto
  have "arena h e L s1" using s1(2) by (simp add: printed_def)
  then obtain s2 where s2: "say (lit (''one day I will list directory contents'' @ nl)) [] s1 = Some (Ok s2)"
    "printed h e L s1 (ascii (''one day I will list directory contents'' @ nl)) s2"
    using say_plain [OF _ literal_in [OF literals_printed [OF s1(2) assms(2)]] t(2)] by auto
  have "ls_main lit s = Some (Ok s2)" by (simp only: ls_main_def bind_run_simps s1(1) s2(1))
  then show ?thesis using s1(2) s2(2) by (intro exI [of _ s2]) (simp only: printed_def ascii_append append_assoc simp_thms)
qed

section \<open>A concrete process\<close>

lemma sample_literals: "literals_ok sample_lit shell_literals 0x10000000 sample_shell"
  unfolding literals_ok_def list_all_iff
proof
  fix x assume x: "x \<in> set shell_literals"
  let ?i = "length (takeWhile (\<lambda>y. y \<noteq> x) shell_literals)"
  have i: "?i < length shell_literals" using x length_takeWhile_le [of "\<lambda>y. y \<noteq> x" shell_literals] takeWhile_eq_all_conv [of "\<lambda>y. y \<noteq> x" shell_literals]
      takeWhile_dropWhile_id [of "\<lambda>y. y \<noteq> x" shell_literals] by (metis append_Nil2 append_eq_append_conv le_neq_implies_less)
  then have at: "shell_literals ! ?i = x" using nth_length_takeWhile by fastforce
  have n15: "length shell_literals = 15" by (simp add: shell_literals_def)
  have "list_all (\<lambda>x. length x < 64 \<and> 0 \<notin> set (ascii x)) shell_literals" by (simp add: shell_literals_def ascii_def nl_def)
  then have len: "length x < 64" "0 \<notin> set (ascii x)" using x by (auto simp: list_all_iff)
  have i15: "?i < 15" using i n15 by simp
  have mem: "umem (proc sample_shell) a = sample_data a" if "unat a < 0x10000000" for a
    using that by (auto simp: sample_shell_def init_libc_def sys_def Let_def set_size_def set_fd_def set_bk_def store32_def)
  have d: "umem (proc sample_shell) (sample_lit x + of_nat j) = (if j < length x then ascii x ! j else 0)" if "j \<le> length x" for j
  proof -
    have a: "sample_lit x + of_nat j = of_nat (0x1000 + 64 * ?i + j)" by (simp add: sample_lit_def)
    have u: "unat (sample_lit x + of_nat j) = 0x1000 + 64 * ?i + j" unfolding a using i15 len(1) that by (intro unat_nat_addr) simp
    have q: "j div 64 = 0" "j mod 64 = j" using len(1) that by simp_all
    have "unat (sample_lit x + of_nat j) < 0x10000000" unfolding u using i15 len(1) that by simp
    from mem [OF this] show ?thesis by (simp add: sample_data_def u q at i Let_def)
  qed
  have u0: "unat (sample_lit x) = 0x1000 + 64 * ?i" unfolding sample_lit_def using i15 by (intro unat_nat_addr) simp
  have "string_at (umem (proc sample_shell)) (sample_lit x) (ascii x)"
    using d len i15 u0 by (auto simp: string_at_def ascii_def)
  moreover have "unat (sample_lit x) + length x < unat (0x10000000 :: u32)" using u0 i15 len(1) by simp
  ultimately show "string_at (umem (proc sample_shell)) (sample_lit x) (ascii x) \<and> unat (sample_lit x) + length x < unat (0x10000000 :: u32)" by blast
qed

lemma sample_shell_heap: "heap (proc sample_shell) = 0x10000000" "chain (umem (proc sample_shell)) (unat (0x10000000 :: u32)) [(40960, False)]"
  "shown sample_shell = []"
proof -
  show "heap (proc sample_shell) = 0x10000000" "chain (umem (proc sample_shell)) (unat (0x10000000 :: u32)) [(40960, False)]"
    using init_libc_chain [of "0x10000000"] by (simp_all add: sample_shell_def)
  show "shown sample_shell = []" by (simp add: sample_shell_def shown_def init_libc_def sys_def Let_def)
qed

section \<open>Properties\<close>

text \<open>
  C39. A session of the shell, on a fresh heap, for any list of lines the terminal hands over (shorter than
  100 characters, without percent signs): the program never gets stuck, and its standard output is the test
  banner, then in the child of the \<^verbatim>\<open>fork\<close> one more message before it becomes \<^verbatim>\<open>/mnt/ls.bin\<close>, and in the
  parent, for every line, the prompt and the answer: nothing for a blank line, the words each followed by a
  space for \<^verbatim>\<open>echo\<close>, and otherwise a complaint naming the first word. (The file read back at the start gives
  what was written to it, and \<^verbatim>\<open>open\<close> does not answer with standard output.)
\<close>

theorem shell_answers:
  assumes "heap (proc s) = h" "chain (umem (proc s)) (unat h) [(40960, False)]" "literals_ok lit shell_literals h s" "file \<noteq> 1"
    and "\<And>l. l \<in> set lines \<Longrightarrow> 0 \<notin> set l \<and> 0x25 \<notin> set l \<and> length l < 100"
  shows "\<exists>s'. shell_main lit file (ascii ''YO HELLO'' @ [0]) pid (map (\<lambda>l. l @ [0]) lines) s = Some (Ok s')
    \<and> shown s' = shown s @ banner @
      (if pid = 0 then ascii ''I am the child of a fork'' else ascii (''I am the parent and I am still a shell'' @ nl) @ answers lines)
    \<and> (pid = 0 \<longrightarrow> last (calls (proc s')) = Exec (ascii ''/mnt/ls.bin''))"
  using assms by (rule main_session)

theorem shell_answers_witness:
  "\<exists>s'. shell_main sample_lit 3 (ascii ''YO HELLO'' @ [0]) 1 [ascii ''echo  hi'' @ [0], ascii ''ls'' @ [0]] sample_shell = Some (Ok s')
    \<and> shown s' = banner @ ascii (''I am the parent and I am still a shell'' @ nl @ ''shell>hi '' @ nl
      @ ''shell>unrecognized command '' @ [CHR 0x22] @ ''ls'' @ [CHR 0x22] @ nl)"
proof -
  let ?ls = "[ascii ''echo  hi'', ascii ''ls'']"
  have "0 \<notin> set l \<and> 0x25 \<notin> set l \<and> length l < 100" if "l \<in> set ?ls" for l using that by (auto simp: ascii_def)
  from shell_answers [OF sample_shell_heap(1,2) sample_literals _ this, of 3 ?ls 1]
  obtain s' where s': "shell_main sample_lit 3 (ascii ''YO HELLO'' @ [0]) 1 [ascii ''echo  hi'' @ [0], ascii ''ls'' @ [0]] sample_shell = Some (Ok s')"
    "shown s' = banner @ ascii (''I am the parent and I am still a shell'' @ nl) @ answers ?ls" by (auto simp: sample_shell_heap)
  have "answers ?ls = ascii (''shell>hi '' @ nl @ ''shell>unrecognized command '' @ [CHR 0x22] @ ''ls'' @ [CHR 0x22] @ nl)"
    by (simp add: answers_def tokens_def cut_def ascii_def nl_def)
  then show ?thesis using s' by (simp add: ascii_def)
qed

text \<open>
  C40. \<^verbatim>\<open>echo\<close> gives the words of the user to \<^verbatim>\<open>printf\<close> as formats: when the first word after \<^verbatim>\<open>echo\<close> starts with a
  conversion that takes an argument (\<^verbatim>\<open>%u\<close>, \<^verbatim>\<open>%x\<close>, \<^verbatim>\<open>%X\<close>, \<^verbatim>\<open>%c\<close>, \<^verbatim>\<open>%s\<close>), the command reads an argument that was
  never passed, from every state the shell can be in.
\<close>

theorem echo_format_string:
  assumes "shell_ok lit h e L command s" and "0 \<notin> set l" "length l < 100"
    and "tokens [0x20] l = ascii ''echo'' # (0x25 # c # w) # ws" and "takes_arg c"
  shows "shell_round lit command (l @ [0]) s = Some (Halt (Undefined ''va_arg''))"
proof -
  obtain s1 where s1: "say (lit ''shell>'') [] s = Some (Ok s1)" "shell_ok lit h e L command s1"
    using say_literal [OF assms(1) literal_text(3,7)] by blast
  let ?s2 = "read_bytes 0 command 100 (l @ [0]) s1"
  have s2: "shell_ok lit h e L command ?s2" "string_at (umem (proc ?s2)) command l" using read_line [OF s1(2) assms(2,3), of 0 100] by simp_all
  obtain s3 where s3: "next_token command (lit '' '') ?s2 = Some (token (stok s3), s3)" "shell_ok lit h e L command s3"
    "words_left command (ascii ''echo'' # (0x25 # c # w) # ws) s3"
    using cut_line [OF s2 assms(3)] assms(4) by auto
  note f = first_word [OF s3(2,3)]
  have c: "strcmp (umem (proc s3)) (token (stok s3)) (lit ''echo'') = Some 0" using word_is_echo [OF s3(2,3)] by simp
  show ?thesis
    using echo_missing [OF s3(2,3) assms(5)] f(2) by (simp add: shell_round_def s1(1) s3(1) Let_def c)
qed

theorem echo_format_string_witness:
  "\<exists>s command. shell_round sample_lit command (ascii ''echo %s'' @ [0]) s = Some (Halt (Undefined ''va_arg''))"
proof -
  obtain p where p: "shell_ok sample_lit 0x10000000 40972 {(unat (0x10000000 :: u32) + 12, 100)} (0x10000000 + 12) (sample_shell\<lparr>proc := p\<rparr>)"
    using fresh_buffer [OF sample_shell_heap(1,2) sample_literals] by blast
  have "tokens [0x20] (ascii ''echo %s'') = ascii ''echo'' # [0x25, 0x73] # []" "takes_arg 0x73" "0 \<notin> set (ascii ''echo %s'')" "length (ascii ''echo %s'') < 100"
    by (simp_all add: tokens_def cut_def ascii_def takes_arg_def)
  from echo_format_string [OF p this(3,4,1,2)] show ?thesis by blast
qed

end
