(* ===== verification/Spec2Isabelle.thy ===== *)
theory Spec2Isabelle
  imports Prelude Boot_MemMap Boot_Loader Pmm Vmm Scheduler Libc_String Text_Screen Titor_Kernel Console Libc_Heap Libc_Stdio Pci Nvme Heap_Pages Vfs Vfs_Tree Vfs_Files Ext2 Interrupts Page_Copy Fork Copy_On_Write Old_Kernel Diagnostics Shell
begin

text \<open>
  TitorOS and BarrelOS: a verification library.

  The repository holds two small operating systems for the PC. \<^bold>\<open>TitorOS\<close> (\<^verbatim>\<open>src/titorOS\<close>) is a 64-bit kernel
  with a boot loader of its own: the second stage reads the firmware's memory map, finds a place for the
  kernel, loads the kernel's ELF segment from disk, builds page tables and jumps to a kernel that prints
  the memory map. \<^bold>\<open>BarrelOS\<close> (\<^verbatim>\<open>src/barrelOS\<close>) is a 32-bit kernel with paging, processes, a console, an
  NVMe drive, a virtual file system and a small C library for user programs.

  \<^bold>\<open>The theories and the code they model.\<close>
  \<^item> \<open>Prelude\<close>: words, byte memory (\<open>'a mem\<close>), little-endian cells (locale \<open>mem_cell\<close>, interpreted for 16, 32 and
    64 bits), the result type \<open>outcome\<close> (\<open>Ok\<close> or \<open>Halt\<close> with the reason: a kernel panic, an endless loop \<open>Spin\<close>,
    or behaviour C leaves undefined), and \<open>bind_ok\<close>.
  \<^item> \<open>Boot_MemMap\<close>: \<^verbatim>\<open>mmap\<close> of \<^verbatim>\<open>stage2.c\<close>, in five passes (merge, cut, align, compact, search) on the list of
    E820 entries with 64-bit addresses.
  \<^item> \<open>Boot_Loader\<close>: \<^verbatim>\<open>stage2\<close>: ELF search, segment copy, page tables. The disk is the function \<open>bios_read\<close>.
  \<^item> \<open>Pmm\<close>: the page-frame bitmap of \<^verbatim>\<open>pmm.c\<close>; locale \<open>frame_allocator\<close>.
  \<^item> \<open>Vmm\<close>: \<^verbatim>\<open>vmm.c\<close>: two-level tables read and written through the recursive mapping, page faults
    with copy on write, the kernel heap and \<^verbatim>\<open>mmap\<close>, on physical memory.
  \<^item> \<open>Heap_Pages\<close>: the heap as a pool of pages with bytes; locales \<open>page_pool\<close> and \<open>page_memory\<close>.
  \<^item> \<open>Page_Copy\<close>, \<open>Fork\<close>, \<open>Copy_On_Write\<close>: \<^verbatim>\<open>mem_copy\<close> of whole pages and the frame condition of all heap operations
    (\<open>quiet\<close>), and on top of them \<^verbatim>\<open>fork\<close> and the page fault that gives a process its own copy of a shared page.
  \<^item> \<open>Scheduler\<close>: \<^verbatim>\<open>scheduler.c\<close>, \<^verbatim>\<open>task.c\<close>: the ring of processes, round robin, kernel stacks, \<^verbatim>\<open>fork\<close>.
  \<^item> \<open>Libc_String\<close>, \<open>Libc_Heap\<close>, \<open>Libc_Stdio\<close>: \<^verbatim>\<open>libc/string.c\<close>, \<^verbatim>\<open>stdlib.c\<close>, \<^verbatim>\<open>init_libc.c\<close>, \<^verbatim>\<open>stdio.c\<close>.
  \<^item> \<open>Text_Screen\<close>, \<open>Titor_Kernel\<close>, \<open>Console\<close>: the VGA cursor shared by both kernels (locale \<open>cursor_device\<close>), the
    TitorOS kernel (\<^verbatim>\<open>screen.c\<close>, \<^verbatim>\<open>pmm.c\<close>, \<^verbatim>\<open>kernel.c\<close>), and the BarrelOS console (\<^verbatim>\<open>drivers/screen.c\<close>) with its
    keyboard line.
  \<^item> \<open>Pci\<close>, \<open>Nvme\<close>: \<^verbatim>\<open>drivers/pci.c\<close>, \<^verbatim>\<open>drivers/nvme.c\<close>.
  \<^item> \<open>Vfs\<close>: \<^verbatim>\<open>kernel/vfs.c\<close>, \<^verbatim>\<open>filesystems/tmpfs.c\<close>, \<^verbatim>\<open>filesystems/devfs.c\<close>, on the state \<open>kern\<close> of all kernel globals.
    \<open>Vfs_Tree\<close> and \<open>Vfs_Files\<close> hold its theorems.
  \<^item> \<open>Ext2\<close>: \<^verbatim>\<open>filesystems/ext2.c\<close>, \<^verbatim>\<open>mount\<close> of \<^verbatim>\<open>vfs.c\<close> and \<^verbatim>\<open>exec\<close> of \<^verbatim>\<open>scheduler.c\<close>. The drive is the parameter \<open>controller\<close>:
    what it does to memory for a command.
  \<^item> \<open>Interrupts\<close>: \<^verbatim>\<open>idt/idt.c\<close>, \<^verbatim>\<open>idt/interrupt_handlers.c\<close>, \<^verbatim>\<open>kernel/syscall.c\<close>, \<^verbatim>\<open>drivers/timer.c\<close>, \<^verbatim>\<open>drivers/keyboard.c\<close>
    and \<^verbatim>\<open>kernel/kernel.c\<close>: the state \<open>machine\<close>, one function per interrupt, the system calls, the start.
  \<^item> \<open>Diagnostics\<close>: \<^verbatim>\<open>hexstring\<close> of \<^verbatim>\<open>drivers/utils.c\<close>, and \<^verbatim>\<open>panic\<close> and \<^verbatim>\<open>kpanic\<close> of \<^verbatim>\<open>idt/interrupt_handlers.c\<close> on the console:
    what is on the screen when the kernel stops.
  \<^item> \<open>Shell\<close>: the user programs \<^verbatim>\<open>user/shell.c\<close> and \<^verbatim>\<open>user/ls.c\<close> on the C library. Literals' addresses and the answers
    of the kernel are arguments; the lines the terminal hands over are a list.
  \<^item> \<open>Old_Kernel\<close>: the first kernel of BarrelOS, \<^verbatim>\<open>barrelOS/.old\<close>, driven by interrupts (the step relation \<open>old_run\<close>).

  \<^bold>\<open>State.\<close> Structures are records with the fields of the source and its integer widths; pointers are 32-bit
  words. Physical memory is a function from addresses to bytes and the page tables live in it. Objects whose
  layout no claim depends on (processes, nodes, descriptors, NVMe commands) are kept in typed stores
  indexed by their address. Every panic, endless loop and access outside of an object is a \<open>Halt\<close>.

  \<^bold>\<open>Loops.\<close> Bounded loops are total functions with a measure. Loops that the source does not bound
  (\<^verbatim>\<open>strlen\<close>, \<^verbatim>\<open>strcmp\<close>, the ELF search, the choice of the next process, \<^verbatim>\<open>malloc\<close>) are
  \<open>partial_function (option)\<close>, where \<open>None\<close> is a run that never ends; their theorems say when they return.
  Nested page faults are followed to depth three, which is all the kernel's tables can need: a fault on a
  page, then on the page of its table entry, which is always present.

  \<^bold>\<open>What the theorems show.\<close> Boot: the kernel slot is free, aligned and found when there is one, the
  tables map the kernel to it. Memory: the allocators hand out fresh pages and keep their invariants,
  \<^verbatim>\<open>mmap\<close> maps what it promises, user \<^verbatim>\<open>malloc\<close> is first fit. Processes: fairness of the scheduler, sleep and
  wake-up, \<^verbatim>\<open>fork\<close> makes a child that shares the parent's memory, and a write to a shared page is
  isolated from the other processes. Console and libc: printing refines an abstract screen, \<^verbatim>\<open>printf\<close> and the string functions
  meet their specifications. Drivers: the bus scan finds the drive, a read fills the right page. Files: path
  lookup refines resolution in the tree, creating nodes keeps the tree, descriptors are a map per
  process, the temporary file gives back what was written. Interrupts: the gates and lines lead to the
  handlers, and a read of the terminal delivers the line typed at the keyboard. A panic
  shows every register it names. A session of the shell prints the prompt and the right answer for
  every line, through \<^verbatim>\<open>strtok\<close>, \<^verbatim>\<open>strcmp\<close>, \<^verbatim>\<open>printf\<close> and \<^verbatim>\<open>malloc\<close>. The first kernel refines a
  desk of clock, cursor and rows over all its runs. Several theorems state where the code does
  less than it means to; the manifest lists them as findings.

  \<^bold>\<open>Not modelled.\<close> Assembly (boot sectors, entry stubs, context switch, system-call stubs) and port
  instructions other than as the devices they reach; the TLB; interrupts that arrive inside of kernel
  code; \<^verbatim>\<open>libc/time.c\<close>, which is commented out.
\<close>

end
